(* ===== verification/Prelude.thy ===== *)
theory Prelude
  imports Complex_Main "HOL-Library.Multiset"
begin

text \<open>
  Shared notation, loop combinators and list lemmas of the development.
  The C++ loops \<open>for (i = a; i < b; ++i)\<close> and \<open>for (i = b - 1; i >= a; --i)\<close> become
  \<open>for_range\<close> and \<open>for_down\<close>, folds of the loop body over the index range; their
  Hoare-style rules below take an invariant over the index reached so far.
  An unchecked write \<open>v[i] = e\<close> of a \<open>std::vector\<close> becomes the list update \<open>v[i := e]\<close>;
  well-formedness predicates of the components state that the indices are in range.
\<close>

named_theorems loop_intros "invariant rules of the loop combinators"
named_theorems seg_simps "simplification of index segments of a list"

type_synonym idx = nat
type_synonym 'f vec = "'f list"

subsection \<open>Counting loops\<close>

definition for_range :: "idx \<Rightarrow> idx \<Rightarrow> (idx \<Rightarrow> 's \<Rightarrow> 's) \<Rightarrow> 's \<Rightarrow> 's" where
  "for_range a b body s = fold body [a..<b] s"

definition for_down :: "idx \<Rightarrow> idx \<Rightarrow> (idx \<Rightarrow> 's \<Rightarrow> 's) \<Rightarrow> 's \<Rightarrow> 's" where
  "for_down a b body s = fold body (rev [a..<b]) s"

lemma for_range_empty [simp]: "b \<le> a \<Longrightarrow> for_range a b body s = s"
  by (simp add: for_range_def)

lemma for_range_Suc [simp]:
  "a \<le> b \<Longrightarrow> for_range a (Suc b) body s = body b (for_range a b body s)"
  by (simp add: for_range_def)

lemma for_range_first:
  "a < b \<Longrightarrow> for_range a b body s = for_range (Suc a) b body (body a s)"
  by (simp add: for_range_def upt_conv_Cons)

lemma for_range_split:
  "a \<le> k \<Longrightarrow> k \<le> b \<Longrightarrow> for_range a b body s = for_range k b body (for_range a k body s)"
  using upt_add_eq_append [of a k "b - k"] by (simp add: for_range_def)

lemma for_range_cong [cong]:
  assumes "a = a'" "b = b'" "s = s'" "\<And>i t. a' \<le> i \<Longrightarrow> i < b' \<Longrightarrow> body i t = body' i t"
  shows "for_range a b body s = for_range a' b' body' s'"
  unfolding for_range_def using assms by (intro fold_cong) auto

lemma for_range_inv [loop_intros]:
  assumes "a \<le> b" "P a s" "\<And>i t. a \<le> i \<Longrightarrow> i < b \<Longrightarrow> P i t \<Longrightarrow> P (Suc i) (body i t)"
  shows "P b (for_range a b body s)"
proof -
  have "P (a + d) (for_range a (a + d) body s)" if "a + d \<le> b" for d
    using that by (induction d) (auto simp: assms)
  from this [of "b - a"] assms(1) show ?thesis by simp
qed

lemma for_range_inv_const:
  assumes "P s" "\<And>i t. a \<le> i \<Longrightarrow> i < b \<Longrightarrow> P t \<Longrightarrow> P (body i t)"
  shows "P (for_range a b body s)"
proof (cases "a \<le> b")
  case True
  then show ?thesis using for_range_inv [where P = "\<lambda>_. P"] assms by blast
qed (simp add: assms(1))

lemma for_down_empty [simp]: "b \<le> a \<Longrightarrow> for_down a b body s = s"
  by (simp add: for_down_def)

lemma for_down_first:
  "a \<le> b \<Longrightarrow> for_down a (Suc b) body s = for_down a b body (body b s)"
  by (simp add: for_down_def)

lemma for_down_last:
  "a < b \<Longrightarrow> for_down a b body s = body a (for_down (Suc a) b body s)"
  by (simp add: for_down_def upt_conv_Cons)

lemma for_down_inv [loop_intros]:
  assumes "a \<le> b" "P b s" "\<And>i t. a \<le> i \<Longrightarrow> i < b \<Longrightarrow> P (Suc i) t \<Longrightarrow> P i (body i t)"
  shows "P a (for_down a b body s)"
proof -
  have "P (b - d) (for_down (b - d) b body s)" if "d \<le> b - a" for d
    using that
  proof (induction d)
    case (Suc d)
    let ?i = "b - Suc d"
    have i: "?i < b" "Suc ?i = b - d" "a \<le> ?i" using Suc.prems assms(1) by auto
    then have "P ?i (body ?i (for_down (b - d) b body s))"
      using Suc assms(3) [of ?i] by simp
    then show ?case using for_down_last [OF i(1), of body s] i(2) by simp
  qed (simp add: assms)
  from this [of "b - a"] assms(1) show ?thesis by simp
qed

lemma fold_for_range: "fold body xs s = for_range 0 (length xs) (\<lambda>k. body (xs ! k)) s"
proof -
  have "fold body xs s = fold body (map ((!) xs) [0..<length xs]) s"
    by (simp add: map_nth)
  then show ?thesis by (simp add: for_range_def fold_map comp_def)
qed

text \<open>A loop that only writes its own slot of one list is a map.\<close>

lemma for_range_map_update:
  assumes "b \<le> length xs"
  shows "for_range 0 b (\<lambda>i ys. ys[i := f i (ys ! i)]) xs
       = map (\<lambda>i. f i (xs ! i)) [0..<b] @ drop b xs"
  using assms
proof (induction b)
  case (Suc b)
  then have "for_range 0 (Suc b) (\<lambda>i ys. ys[i := f i (ys ! i)]) xs
      = (map (\<lambda>i. f i (xs ! i)) [0..<b] @ drop b xs)
          [b := f b ((map (\<lambda>i. f i (xs ! i)) [0..<b] @ drop b xs) ! b)]"
    by simp
  also have "\<dots> = map (\<lambda>i. f i (xs ! i)) [0..<b] @ (drop b xs)[0 := f b (xs ! b)]"
    using Suc.prems by (simp add: nth_append list_update_append)
  also have "(drop b xs)[0 := f b (xs ! b)] = f b (xs ! b) # drop (Suc b) xs"
    using Suc.prems by (simp add: Cons_nth_drop_Suc [symmetric])
  finally show ?case by simp
qed simp

subsection \<open>Vectors\<close>

text \<open>\<open>std::vector::resize\<close>: truncate, or extend with a default value.\<close>

definition resize :: "nat \<Rightarrow> 'a \<Rightarrow> 'a list \<Rightarrow> 'a list" where
  "resize k d xs = take k xs @ replicate (k - length xs) d"

lemma length_resize [simp]: "length (resize k d xs) = k"
  by (simp add: resize_def)

lemma nth_resize: "i < k \<Longrightarrow> resize k d xs ! i = (if i < length xs then xs ! i else d)"
  by (auto simp: resize_def nth_append)

lemma resize_same [simp]: "resize (length xs) d xs = xs"
  by (simp add: resize_def)

text \<open>The part of a vector from position \<open>a\<close> (included) to \<open>b\<close> (excluded).\<close>

definition seg :: "'a list \<Rightarrow> nat \<Rightarrow> nat \<Rightarrow> 'a list" where
  "seg xs a b = map ((!) xs) [a..<b]"

lemma length_seg [simp, seg_simps]: "length (seg xs a b) = b - a"
  by (simp add: seg_def)

lemma nth_seg [simp, seg_simps]: "i < b - a \<Longrightarrow> seg xs a b ! i = xs ! (a + i)"
  by (simp add: seg_def)

lemma seg_empty [simp, seg_simps]: "b \<le> a \<Longrightarrow> seg xs a b = []"
  by (simp add: seg_def)

lemma seg_snoc [seg_simps]: "a \<le> b \<Longrightarrow> seg xs a (Suc b) = seg xs a b @ [xs ! b]"
  by (simp add: seg_def)

lemma seg_append [seg_simps]: "a \<le> k \<Longrightarrow> k \<le> b \<Longrightarrow> seg xs a k @ seg xs k b = seg xs a b"
  using upt_add_eq_append [of a k "b - k"] by (simp add: seg_def flip: map_append)

lemma seg_full: "b \<le> length xs \<Longrightarrow> seg xs 0 b = take b xs"
  by (rule nth_equalityI) auto

lemma seg_eqI:
  "b - a = length ys \<Longrightarrow> (\<And>i. i < length ys \<Longrightarrow> xs ! (a + i) = ys ! i) \<Longrightarrow> seg xs a b = ys"
  by (rule nth_equalityI) auto

lemma set_seg: "set (seg xs a b) = (!) xs ` {a..<b}"
  by (simp add: seg_def)

lemma seg_cong: "(\<And>p. a \<le> p \<Longrightarrow> p < b \<Longrightarrow> xs ! p = ys ! p) \<Longrightarrow> seg xs a b = seg ys a b"
  by (simp add: seg_def)

lemma nth_overwrite:
  "q + length zs \<le> p \<Longrightarrow> q + length zs \<le> length ys \<Longrightarrow>
   (take q ys @ zs @ drop (q + length zs) ys) ! p = ys ! p"
  by (cases "q = length ys") (auto simp: nth_append min_def)

text \<open>Writing a list into a vector, element after element.\<close>

definition overwrite :: "nat \<Rightarrow> 'a list \<Rightarrow> 'a list \<Rightarrow> 'a list" where
  "overwrite q zs ys = take q ys @ zs @ drop (q + length zs) ys"

lemma overwrite_Nil [simp]: "overwrite q [] ys = ys"
  by (simp add: overwrite_def)

lemma overwrite_Cons: "q < length ys \<Longrightarrow> overwrite (Suc q) zs (ys[q := y]) = overwrite q (y # zs) ys"
  by (simp add: overwrite_def take_Suc_conv_app_nth)

lemma overwrite_snoc:
  "q + length zs < length ys \<Longrightarrow> overwrite q (zs @ [y]) ys = (overwrite q zs ys)[q + length zs := y]"
  by (simp add: overwrite_def list_update_append min_def Cons_nth_drop_Suc [symmetric])

lemma length_overwrite [simp]: "q + length zs \<le> length ys \<Longrightarrow> length (overwrite q zs ys) = length ys"
  by (simp add: overwrite_def)

lemma overwrite_full: "q + length zs = length ys \<Longrightarrow> overwrite q zs ys = take q ys @ zs"
  by (simp add: overwrite_def)

lemma overwrite_resize: "q = length ys \<Longrightarrow> length zs = k \<Longrightarrow> overwrite q zs (resize (q + k) d ys) = ys @ zs"
  by (simp add: overwrite_def resize_def)

text \<open>Writing one value at several positions.\<close>

definition set_all :: "'a \<Rightarrow> nat list \<Rightarrow> 'a list \<Rightarrow> 'a list" where
  "set_all d is xs = fold (\<lambda>i xs. xs[i := d]) is xs"

lemma length_set_all [simp]: "length (set_all d is xs) = length xs"
  unfolding set_all_def by (induction "is" arbitrary: xs) auto

lemma nth_set_all: "i < length xs \<Longrightarrow> set_all d is xs ! i = (if i \<in> set is then d else xs ! i)"
  unfolding set_all_def
proof (induction "is" arbitrary: xs)
  case (Cons k ks)
  then show ?case by (cases "i = k") auto
qed simp

lemma set_all_snoc: "k < length is \<Longrightarrow> (set_all d (take k is) xs)[is ! k := d] = set_all d (take (Suc k) is) xs"
  by (simp add: set_all_def take_Suc_conv_app_nth)

text \<open>Counting the positions below \<open>m\<close> that hold a given value.\<close>

definition count_at :: "'a \<Rightarrow> 'a list \<Rightarrow> nat \<Rightarrow> nat" where
  "count_at c s m = length (filter (\<lambda>i. s ! i = c) [0..<m])"

lemma count_at_Suc [simp]: "count_at c s (Suc m) = count_at c s m + (if s ! m = c then 1 else 0)"
  by (simp add: count_at_def)

lemma count_at_0 [simp]: "count_at c s 0 = 0"
  by (simp add: count_at_def)

lemma count_at_beyond [simp]: "m \<le> i \<Longrightarrow> count_at c (s[i := d]) m = count_at c s m"
  by (induction m) auto

lemma count_at_update:
  assumes "i < m" "m \<le> length s"
  shows "count_at c (s[i := d]) m + (if s ! i = c then 1 else 0) = count_at c s m + (if d = c then 1 else 0)"
  using assms
proof (induction m)
  case (Suc m)
  then show ?case by (cases "i = m") simp_all
qed simp

lemma count_at_pos: "i < m \<Longrightarrow> s ! i = c \<Longrightarrow> 0 < count_at c s m"
  by (auto simp: count_at_def filter_empty_conv)

text \<open>Sums that pick the one index of a distinct list.\<close>

lemma pick_sum:
  assumes "distinct L" "k < length L"
  shows "(\<Sum>t<length L. if L ! t = L ! k then f t else 0) = (f k :: 'a :: comm_monoid_add)"
proof -
  have "(\<Sum>t<length L. if L ! t = L ! k then f t else 0) = (\<Sum>t<length L. if t = k then f t else 0)"
    using assms by (intro sum.cong) (auto simp: nth_eq_iff_index_eq)
  then show ?thesis using assms(2) by simp
qed

lemma pick_sum_none:
  "r \<notin> set L \<Longrightarrow> (\<Sum>t<length L. if L ! t = r then f t else 0) = (0 :: 'a :: comm_monoid_add)"
  by (intro sum.neutral) auto

subsection \<open>Sums over filtered lists\<close>

lemma sum_list_filter_if:
  "sum_list (map g (filter P xs)) = sum_list (map (\<lambda>x. if P x then g x else (0 :: 'a :: comm_monoid_add)) xs)"
  by (induction xs) auto

lemma sum_list_swap_filter:
  fixes g :: "'b \<Rightarrow> 'a :: comm_monoid_add" and key :: "'b \<Rightarrow> nat"
  assumes "\<And>x. x \<in> set xs \<Longrightarrow> key x < k"
  shows "(\<Sum>i<k. \<Sum>x\<leftarrow>filter (\<lambda>x. key x = i) xs. g x) = (\<Sum>x\<leftarrow>xs. g x)"
  using assms
proof (induction xs)
  case (Cons a xs)
  have "(\<Sum>i<k. \<Sum>x\<leftarrow>filter (\<lambda>x. key x = i) (a # xs). g x)
      = (\<Sum>i<k. (if i = key a then g a else 0) + (\<Sum>x\<leftarrow>filter (\<lambda>x. key x = i) xs. g x))"
    by (rule sum.cong) auto
  also have "\<dots> = g a + (\<Sum>i<k. \<Sum>x\<leftarrow>filter (\<lambda>x. key x = i) xs. g x)"
    using Cons.prems [of a] by (simp add: sum.distrib sum.delta)
  finally show ?case using Cons by simp
qed simp

lemma length_filter_le_sorted_prefix:
  "length (filter P (take k xs)) \<le> length (filter P xs)"
  by (metis append_take_drop_id filter_append le_add1 length_append)

lemma concat_map_filter:
  "filter P (concat (map f xs)) = concat (map (\<lambda>x. filter P (f x)) xs)"
  by (induction xs) auto

subsection \<open>Permutations stored in vectors\<close>

definition is_perm :: "nat \<Rightarrow> idx list \<Rightarrow> bool" where
  "is_perm n p \<longleftrightarrow> length p = n \<and> distinct p \<and> (\<forall>k \<in> set p. k < n)"

lemma is_perm_mset: "is_perm n p \<Longrightarrow> mset p = mset [0..<n]"
proof -
  assume p: "is_perm n p"
  then have "set p \<subseteq> {0..<n}" by (auto simp: is_perm_def)
  moreover have "card (set p) = card {0..<n}" using p by (simp add: is_perm_def distinct_card)
  ultimately have "set p = set [0..<n]" by (simp add: card_subset_eq)
  then show ?thesis
    using p set_eq_iff_mset_eq_distinct [of p "[0..<n]"] by (simp add: is_perm_def del: mset_upt)
qed

lemma is_perm_length: "is_perm n p \<Longrightarrow> length p = n"
  by (simp add: is_perm_def)

lemma is_perm_nth: "is_perm n p \<Longrightarrow> k < n \<Longrightarrow> p ! k < n"
  by (simp add: is_perm_def)

lemma is_perm_inj: "is_perm n p \<Longrightarrow> i < n \<Longrightarrow> k < n \<Longrightarrow> p ! i = p ! k \<longleftrightarrow> i = k"
  by (simp add: is_perm_def nth_eq_iff_index_eq)

lemma is_perm_surj: "is_perm n p \<Longrightarrow> i < n \<Longrightarrow> \<exists>k<n. p ! k = i"
proof -
  assume p: "is_perm n p" "i < n"
  then have "i \<in># mset p" by (simp add: is_perm_mset)
  then show ?thesis using p by (auto simp: in_set_conv_nth is_perm_def)
qed

lemma length_concat_perm:
  assumes "is_perm n p"
  shows "length (concat (map f p)) = length (concat (map f [0..<n]))"
proof -
  have "sum_mset (image_mset (length \<circ> f) (mset p)) = sum_mset (image_mset (length \<circ> f) (mset [0..<n]))"
    using is_perm_mset [OF assms] by simp
  then have "sum_list (map (length \<circ> f) p) = sum_list (map (length \<circ> f) [0..<n])"
    by (metis mset_map sum_mset_sum_list)
  then show ?thesis by (simp add: length_concat)
qed

end
