(* ===== verification/Counting_Sort.thy ===== *)
theory Counting_Sort
  imports Prelude
begin

text \<open>
  The counting sort that the conversions of \<open>dual_simplex/sparse_matrix.cpp\<close> and
  \<open>dual_simplex/singletons.cpp\<close> share: count the keys into a workspace, turn the counts into
  start positions (\<open>cumulative_sum\<close>), and place every entry at the position its key's workspace
  slot gives, advancing the slot. \<open>fold_place\<close> is the functional specification: the segment
  of key \<open>k\<close> holds the entries with key \<open>k\<close>, in the order they were placed.
\<close>

subsection \<open>The loops\<close>

definition count_keys :: "idx list \<Rightarrow> idx \<Rightarrow> idx list \<Rightarrow> idx list" where
  "count_keys keys nz workspace =
     for_range 0 nz (\<lambda>p ws. ws[keys ! p := ws ! (keys ! p) + 1]) workspace"

definition cumulative_sum :: "idx list \<Rightarrow> idx list \<Rightarrow> idx list \<times> idx list" where
  "cumulative_sum inout output =
     (let n = length inout;
          (io, out, nz) = for_range 0 n
            (\<lambda>i (io, out, nz).
               let out = out[i := nz]; nz = nz + io ! i
               in (io[i := out ! i], out, nz)) (inout, output, 0)
      in (io, out[n := nz]))"

definition place :: "idx \<Rightarrow> 'a \<Rightarrow> 'f \<Rightarrow> idx list \<times> 'a list \<times> 'f list \<Rightarrow> idx list \<times> 'a list \<times> 'f list" where
  "place k a v = (\<lambda>(ws, js, xs). let q = ws ! k in (ws[k := q + 1], js[q := a], xs[q := v]))"

subsection \<open>Counting\<close>

lemma length_count_keys [simp]: "length (count_keys keys nz ws) = length ws"
  unfolding count_keys_def by (rule for_range_inv_const) auto

lemma nth_count_keys:
  assumes "\<forall>p<nz. keys ! p < length ws" "k < length ws"
  shows "count_keys keys nz ws ! k = ws ! k + count_list (seg keys 0 nz) k"
  using assms
proof (induction nz)
  case (Suc nz)
  then have "count_keys keys nz ws ! k = ws ! k + count_list (seg keys 0 nz) k" by simp
  moreover have "length (count_keys keys nz ws) = length ws" by simp
  ultimately show ?case using Suc.prems
    by (auto simp: count_keys_def nth_list_update seg_snoc)
qed (simp add: count_keys_def)

subsection \<open>Start positions\<close>

definition starts :: "(idx \<Rightarrow> nat) \<Rightarrow> idx \<Rightarrow> nat" where
  "starts c k = sum c {..<k}"

lemma starts_0 [simp]: "starts c 0 = 0"
  by (simp add: starts_def)

lemma starts_Suc [simp]: "starts c (Suc k) = starts c k + c k"
  by (simp add: starts_def)

lemma starts_mono: "j \<le> k \<Longrightarrow> starts c j \<le> starts c k"
  unfolding starts_def by (rule sum_mono2) auto

lemma starts_le: "j < k \<Longrightarrow> starts c j + c j \<le> starts c k"
  using starts_mono [of "Suc j" k c] by simp

lemma starts_cong: "(\<And>i. i < k \<Longrightarrow> c i = d i) \<Longrightarrow> starts c k = starts d k"
  unfolding starts_def by (rule sum.cong) auto

lemma starts_count_length:
  "(\<forall>e \<in> set keys. e < K) \<Longrightarrow> starts (count_list keys) K = length keys"
proof (induction keys)
  case (Cons a keys)
  have "starts (count_list (a # keys)) K
      = (\<Sum>i<K. (if i = a then 1 else 0) + count_list keys i)"
    unfolding starts_def by (rule sum.cong) auto
  also have "\<dots> = 1 + starts (count_list keys) K"
    using Cons.prems by (simp add: sum.distrib sum.delta starts_def)
  finally show ?case using Cons by (simp del: count_list.simps)
qed (simp add: starts_def)

lemma cumulative_sum_spec:
  assumes "length output = Suc (length inout)"
  shows "cumulative_sum inout output =
    (map (starts ((!) inout)) [0..<length inout], map (starts ((!) inout)) [0..<Suc (length inout)])"
proof -
  let ?n = "length inout" and ?s = "starts ((!) inout)"
  let ?body = "\<lambda>i (io, out, nz). let out = out[i := nz]; nz = nz + io ! i in (io[i := out ! i], out, nz)"
  define P where "P i st \<longleftrightarrow> st = (map ?s [0..<i] @ drop i inout, map ?s [0..<i] @ drop i output, ?s i)"
    for i :: nat and st :: "idx list \<times> idx list \<times> idx"
  have "P ?n (for_range 0 ?n ?body (inout, output, 0))"
  proof (rule for_range_inv)
    fix i st
    assume i: "i < ?n" and P: "P i st"
    have d: "drop i inout = inout ! i # drop (Suc i) inout" "drop i output = output ! i # drop (Suc i) output"
      using i assms by (simp_all add: Cons_nth_drop_Suc)
    show "P (Suc i) (?body i st)"
      using P i unfolding P_def by (simp add: d list_update_append nth_append)
  qed (simp_all add: P_def)
  moreover have "drop ?n output = [output ! ?n]"
    using assms by (metis Cons_nth_drop_Suc drop_eq_Nil le_refl lessI)
  ultimately show ?thesis
    by (simp add: cumulative_sum_def P_def list_update_append Let_def)
qed

subsection \<open>Placing\<close>

abbreviation place_all ::
  "(idx \<times> 'a \<times> 'f) list \<Rightarrow> idx list \<times> 'a list \<times> 'f list \<Rightarrow> idx list \<times> 'a list \<times> 'f list" where
  "place_all es \<equiv> fold (\<lambda>(k, a, v). place k a v) es"

definition bucket :: "(idx \<times> 'a \<times> 'f) list \<Rightarrow> idx \<Rightarrow> ('a \<times> 'f) list" where
  "bucket es k = map snd (filter (\<lambda>e. fst e = k) es)"

lemma bucket_Nil [simp]: "bucket [] k = []"
  by (simp add: bucket_def)

lemma bucket_append [simp]: "bucket (es @ fs) k = bucket es k @ bucket fs k"
  by (simp add: bucket_def)

lemma bucket_single [simp]: "bucket [(k, a, v)] k' = (if k = k' then [(a, v)] else [])"
  by (simp add: bucket_def)

lemma length_bucket: "length (bucket es k) = count_list (map fst es) k"
  by (induction es) (auto simp: bucket_def)

definition placed ::
  "idx \<Rightarrow> (idx \<Rightarrow> nat) \<Rightarrow> (idx \<times> 'a \<times> 'f) list \<Rightarrow> nat \<Rightarrow> idx list \<times> 'a list \<times> 'f list \<Rightarrow> bool" where
  "placed K c es len = (\<lambda>(ws, js, xs).
     length ws = K \<and> length js = len \<and> length xs = len \<and>
     (\<forall>k<K. ws ! k = starts c k + length (bucket es k) \<and>
        (\<forall>t<length (bucket es k). js ! (starts c k + t) = fst (bucket es k ! t) \<and>
                                 xs ! (starts c k + t) = snd (bucket es k ! t))))"

lemma placed_step:
  assumes P: "placed K c es len st" and k: "k < K" "length (bucket es k) < c k"
    and le: "\<forall>k<K. length (bucket es k) \<le> c k" and len: "starts c K \<le> len"
  shows "placed K c (es @ [(k, a, v)]) len (place k a v st)"
proof -
  obtain ws js xs where st: "st = (ws, js, xs)" by (cases st)
  let ?q = "starts c k + length (bucket es k)"
  have q: "?q < len"
    using k starts_le [of k K c] len by linarith
  have other: "starts c k' + t \<noteq> ?q" if "k' < K" "k' \<noteq> k" "t < length (bucket es k')" for k' t
  proof (cases "k' < k")
    case True
    then show ?thesis using starts_le [OF True, of c] le that by fastforce
  next
    case False
    then show ?thesis using starts_le [of k k' c] k(2) that(2) by linarith
  qed
  have step: "place k a v st = (ws[k := ?q + 1], js[?q := a], xs[?q := v])"
    using P k(1) by (simp add: st placed_def place_def Let_def)
  have same: "js[?q := a] ! (starts c k' + t) = js ! (starts c k' + t)"
    "xs[?q := v] ! (starts c k' + t) = xs ! (starts c k' + t)"
    if "k' < K" "t < length (bucket es k')" for k' t
    using other [of k' t] that by (cases "k' = k"; simp)+
  have wsk: "ws[k := ?q + 1] ! k' = (if k' = k then ?q + 1 else ws ! k')" if "k' < K" for k'
    using that P by (auto simp: st placed_def nth_list_update)
  show ?thesis
    using P k(1) q unfolding step
    by (auto simp: st placed_def same wsk nth_append less_Suc_eq)
qed

lemma fold_place:
  assumes K: "\<forall>e \<in> set es. fst e < K" and c: "c = count_list (map fst es)"
    and ws: "length ws = K" "\<forall>k<K. ws ! k = starts c k"
    and len: "length js = len" "length xs = len" "starts c K \<le> len"
  shows "placed K c es len (place_all es (ws, js, xs))"
proof -
  have "placed K c ps len (place_all ps (ws, js, xs))" if "es = ps @ rest" for ps rest
    using that
  proof (induction ps arbitrary: rest rule: rev_induct)
    case Nil
    then show ?case using ws len by (simp add: placed_def)
  next
    case (snoc e ps)
    obtain k a v where e: "e = (k, a, v)" by (cases e)
    have IH: "placed K c ps len (place_all ps (ws, js, xs))"
      using snoc.IH [of "e # rest"] snoc.prems by simp
    have le: "\<forall>k. length (bucket ps k) \<le> c k"
      by (simp add: c snoc.prems length_bucket)
    have "length (bucket ps k) < c k" "k < K"
      using K by (auto simp: c snoc.prems length_bucket e)
    then show ?case
      using placed_step [OF IH] le len(3) by (simp add: e)
  qed
  then show ?thesis by simp
qed

lemma placed_seg:
  assumes "placed K (count_list (map fst es)) es len (ws, js, xs)" "k < K"
  defines "s \<equiv> starts (count_list (map fst es))"
  shows "seg js (s k) (s (Suc k)) = map fst (bucket es k)"
    and "seg xs (s k) (s (Suc k)) = map snd (bucket es k)"
proof -
  have l: "s (Suc k) - s k = length (bucket es k)"
    by (simp add: s_def length_bucket)
  show "seg js (s k) (s (Suc k)) = map fst (bucket es k)"
    and "seg xs (s k) (s (Suc k)) = map snd (bucket es k)"
    using assms(1,2) by (auto intro!: seg_eqI simp: l placed_def s_def length_bucket)
qed

end
