(* ===== verification/Sparse_Matrix.thy ===== *)
theory Sparse_Matrix
  imports Counting_Sort
begin

text \<open>
  Model of \<open>cpp/src/dual_simplex/sparse_matrix.{hpp,cpp}\<close>: the compressed column and row
  matrices of the dual simplex solver and the operations on them. A function that writes into an
  output argument takes the old value of that argument and returns the new one. Values are of an
  arbitrary commutative ring or ordered field \<open>'f\<close> (the template parameter \<open>f_t\<close>); rounding is
  not modelled. \<open>csc_col A j\<close> is the list of (row, value) pairs of column \<open>j\<close> in storage order;
  all specifications are stated over it and over \<open>csc_dense\<close>, the entry of the matrix.
\<close>

subsection \<open>Data\<close>

record 'f csc_matrix =
  csc_nz_max :: idx
  csc_m :: idx
  csc_n :: idx
  col_start :: "idx list"
  csc_i :: "idx list"
  csc_x :: "'f vec"

record 'f csr_matrix =
  csr_nz_max :: idx
  csr_m :: idx
  csr_n :: idx
  row_start :: "idx list"
  csr_j :: "idx list"
  csr_x :: "'f vec"

definition csc_new :: "idx \<Rightarrow> idx \<Rightarrow> idx \<Rightarrow> ('f :: zero) csc_matrix" where
  "csc_new rows cols nz =
     \<lparr>csc_nz_max = nz, csc_m = rows, csc_n = cols, col_start = replicate (cols + 1) 0,
      csc_i = replicate nz 0, csc_x = replicate nz 0\<rparr>"

definition csr_new :: "'f csr_matrix" where
  "csr_new = \<lparr>csr_nz_max = 0, csr_m = 0, csr_n = 0, row_start = [], csr_j = [], csr_x = []\<rparr>"

definition reallocate :: "idx \<Rightarrow> ('f :: zero) csc_matrix \<Rightarrow> 'f csc_matrix" where
  "reallocate new_nz A = A\<lparr>csc_i := resize new_nz 0 (csc_i A),
                            csc_x := resize new_nz 0 (csc_x A), csc_nz_max := new_nz\<rparr>"

subsection \<open>Lanes: what a compressed matrix stores\<close>

definition lane :: "idx list \<Rightarrow> idx list \<Rightarrow> 'f vec \<Rightarrow> idx \<Rightarrow> (idx \<times> 'f) list" where
  "lane start js xs k = map (\<lambda>p. (js ! p, xs ! p)) [start ! k..<start ! Suc k]"

abbreviation csc_col :: "'f csc_matrix \<Rightarrow> idx \<Rightarrow> (idx \<times> 'f) list" where
  "csc_col A \<equiv> lane (col_start A) (csc_i A) (csc_x A)"

abbreviation csr_row :: "'f csr_matrix \<Rightarrow> idx \<Rightarrow> (idx \<times> 'f) list" where
  "csr_row A \<equiv> lane (row_start A) (csr_j A) (csr_x A)"

definition lane_sum :: "(idx \<times> 'f :: comm_monoid_add) list \<Rightarrow> idx \<Rightarrow> 'f" where
  "lane_sum l k = sum_list (map snd (filter (\<lambda>e. fst e = k) l))"

definition lane_entries :: "(idx \<Rightarrow> (idx \<times> 'f) list) \<Rightarrow> idx \<Rightarrow> (idx \<times> idx \<times> 'f) list" where
  "lane_entries L n = concat (map (\<lambda>c. map (\<lambda>(r, v). (r, c, v)) (L c)) [0..<n])"

definition csc_dense :: "'f :: comm_monoid_add csc_matrix \<Rightarrow> idx \<Rightarrow> idx \<Rightarrow> 'f" where
  "csc_dense A r c = lane_sum (csc_col A c) r"

definition csr_dense :: "'f :: comm_monoid_add csr_matrix \<Rightarrow> idx \<Rightarrow> idx \<Rightarrow> 'f" where
  "csr_dense A r c = lane_sum (csr_row A r) c"

definition lanes_wf :: "idx \<Rightarrow> idx \<Rightarrow> idx list \<Rightarrow> idx list \<Rightarrow> 'f vec \<Rightarrow> bool" where
  "lanes_wf n m start js xs \<longleftrightarrow>
     length start = Suc n \<and> start ! 0 = 0 \<and> sorted start \<and>
     start ! n \<le> length js \<and> start ! n \<le> length xs \<and> (\<forall>p<start ! n. js ! p < m)"

definition csc_wf :: "'f csc_matrix \<Rightarrow> bool" where
  "csc_wf A \<longleftrightarrow> lanes_wf (csc_n A) (csc_m A) (col_start A) (csc_i A) (csc_x A)"

definition csr_wf :: "'f csr_matrix \<Rightarrow> bool" where
  "csr_wf A \<longleftrightarrow> lanes_wf (csr_m A) (csr_n A) (row_start A) (csr_j A) (csr_x A)"

subsection \<open>Conversions\<close>

definition coo_to_csc ::
  "idx list \<Rightarrow> idx list \<Rightarrow> ('f :: zero) vec \<Rightarrow> 'f csc_matrix \<Rightarrow> 'f csc_matrix" where
  "coo_to_csc Ai Aj Ax A =
     (let A = (if csc_nz_max A < length Ai then reallocate (length Ai) A else A);
          nz = length Aj;
          ws = count_keys Aj nz (replicate (csc_n A) 0);
          (ws, cs) = cumulative_sum ws (col_start A);
          (ws, is, xs) = for_range 0 nz (\<lambda>k. place (Aj ! k) (Ai ! k) (Ax ! k)) (ws, csc_i A, csc_x A)
      in A\<lparr>col_start := cs, csc_i := is, csc_x := xs\<rparr>)"

definition to_compressed_row :: "('f :: zero) csc_matrix \<Rightarrow> 'f csr_matrix \<Rightarrow> 'f csr_matrix" where
  "to_compressed_row A Arow =
     (let m = csc_m A; n = csc_n A; nz = col_start A ! n;
          rs = resize (m + 1) 0 (row_start Arow);
          js = resize nz 0 (csr_j Arow);
          xs = resize nz 0 (csr_x Arow);
          ws = count_keys (csc_i A) nz (replicate m 0);
          (ws, rs) = cumulative_sum ws rs;
          (ws, js, xs) = for_range 0 n (\<lambda>j.
            for_range (col_start A ! j) (col_start A ! Suc j)
              (\<lambda>p. place (csc_i A ! p) j (csc_x A ! p))) (ws, js, xs)
      in Arow\<lparr>csr_m := m, csr_n := n, row_start := rs, csr_j := js, csr_x := xs\<rparr>)"

definition to_compressed_col :: "('f :: zero) csr_matrix \<Rightarrow> 'f csc_matrix \<Rightarrow> 'f csc_matrix" where
  "to_compressed_col A Acol =
     (let m = csr_m A; n = csr_n A; nz = row_start A ! m;
          cs = resize (n + 1) 0 (col_start Acol);
          is = resize nz 0 (csc_i Acol);
          xs = resize nz 0 (csc_x Acol);
          ws = count_keys (csr_j A) nz (replicate n 0);
          (ws, cs) = cumulative_sum ws cs;
          (ws, is, xs) = for_range 0 m (\<lambda>i.
            for_range (row_start A ! i) (row_start A ! Suc i)
              (\<lambda>p. place (csr_j A ! p) i (csr_x A ! p))) (ws, is, xs)
      in Acol\<lparr>csc_m := m, csc_n := n, col_start := cs, csc_i := is, csc_x := xs\<rparr>)"

definition transpose_csc :: "('f :: zero) csc_matrix \<Rightarrow> 'f csc_matrix \<Rightarrow> 'f csc_matrix" where
  "transpose_csc A AT =
     (let AT = AT\<lparr>csc_m := csc_n A, csc_n := csc_m A\<rparr>;
          nz = col_start A ! csc_n A;
          cs = resize (csc_n AT + 1) 0 (col_start AT);
          AT = reallocate nz AT;
          ws = count_keys (csc_i A) nz (replicate (csc_n AT) 0);
          (ws, cs) = cumulative_sum ws cs;
          (ws, is, xs) = for_range 0 (csc_n A) (\<lambda>j.
            for_range (col_start A ! j) (col_start A ! Suc j)
              (\<lambda>p. place (csc_i A ! p) j (csc_x A ! p))) (ws, csc_i AT, csc_x AT)
      in AT\<lparr>col_start := cs, csc_i := is, csc_x := xs\<rparr>)"

definition load_a_column :: "'f csc_matrix \<Rightarrow> idx \<Rightarrow> 'f vec \<Rightarrow> idx \<times> 'f vec" where
  "load_a_column A j Aj =
     (let cs = col_start A ! j; ce = col_start A ! Suc j
      in (ce - cs, for_range cs ce (\<lambda>p Aj. Aj[csc_i A ! p := csc_x A ! p]) Aj))"

subsection \<open>Facts about lanes\<close>

lemma length_lane [simp]: "length (lane s js xs k) = s ! Suc k - s ! k"
  by (simp add: lane_def)

lemma lane_cong:
  "s ! k = t ! k \<Longrightarrow> s ! Suc k = t ! Suc k \<Longrightarrow>
   (\<And>p. t ! k \<le> p \<Longrightarrow> p < t ! Suc k \<Longrightarrow> js ! p = js' ! p \<and> xs ! p = xs' ! p) \<Longrightarrow>
   lane s js xs k = lane t js' xs' k"
  by (simp add: lane_def)

lemma lane_zip: "lane s js xs k = zip (seg js (s ! k) (s ! Suc k)) (seg xs (s ! k) (s ! Suc k))"
  by (simp add: lane_def seg_def zip_map_map zip_same_conv_map comp_def)

lemma for_range_lane:
  "for_range (s ! k) (s ! Suc k) (\<lambda>p. g (js ! p) (xs ! p)) st = fold (\<lambda>(r, v). g r v) (lane s js xs k) st"
  by (simp add: for_range_def lane_def fold_map comp_def)

lemma fold_lane_entries:
  "for_range 0 n (\<lambda>c. fold (\<lambda>(r, v). g r c v) (L c)) st = fold (\<lambda>(r, c, v). g r c v) (lane_entries L n) st"
  by (induction n) (auto simp: lane_entries_def fold_map comp_def case_prod_beta)

lemma lanes_wf_start:
  assumes "lanes_wf n m s js xs" "j \<le> k" "k \<le> n"
  shows "s ! j \<le> s ! k"
  using assms sorted_nth_mono [of s j k] by (auto simp: lanes_wf_def)

lemma lanes_wf_less:
  assumes "lanes_wf n m s js xs" "c < n" "p < s ! Suc c"
  shows "p < s ! n" "js ! p < m" "p < length js" "p < length xs"
  using assms lanes_wf_start [OF assms(1), of "Suc c" n] by (auto simp: lanes_wf_def)

lemma lane_fst_less:
  assumes "lanes_wf n m s js xs" "c < n" "e \<in> set (lane s js xs c)"
  shows "fst e < m"
  using assms lanes_wf_less(2) [OF assms(1,2)] by (auto simp: lane_def)

lemma lane_entries_positions:
  assumes "lanes_wf n m s js xs" "k \<le> n"
  shows "map (\<lambda>(r, c, v). (r, v)) (lane_entries (lane s js xs) k)
       = map (\<lambda>p. (js ! p, xs ! p)) [0..<s ! k]"
  using assms(2)
proof (induction k)
  case 0
  then show ?case using assms(1) by (simp add: lane_entries_def lanes_wf_def)
next
  case (Suc k)
  have "s ! k \<le> s ! Suc k" using lanes_wf_start [OF assms(1)] Suc.prems by simp
  then have "[0..<s ! Suc k] = [0..<s ! k] @ [s ! k..<s ! Suc k]"
    using upt_add_eq_append [of 0 "s ! k" "s ! Suc k - s ! k"] by simp
  with Suc show ?case
    by (simp add: lane_entries_def lane_def comp_def case_prod_beta)
qed

lemma lane_entries_keys:
  assumes "lanes_wf n m s js xs"
  shows "map fst (lane_entries (lane s js xs) n) = seg js 0 (s ! n)"
  using arg_cong [OF lane_entries_positions [OF assms order_refl], of "map fst"]
  by (simp add: comp_def case_prod_beta seg_def)

lemma lane_entries_fst_less:
  assumes "lanes_wf n m s js xs" "e \<in> set (lane_entries (lane s js xs) n)"
  shows "fst e < m"
  using lane_fst_less [OF assms(1)] assms(2)
  by (fastforce simp: lane_entries_def)

text \<open>Regrouping the entries of \<open>n\<close> lanes by their inner index: the transpose of a lane family.\<close>

lemma bucket_lane_entries:
  "bucket (lane_entries L n) r =
   concat (map (\<lambda>c. map (\<lambda>e. (c, snd e)) (filter (\<lambda>e. fst e = r) (L c))) [0..<n])"
  by (induction n) (auto simp: lane_entries_def bucket_def filter_map comp_def case_prod_beta)

lemma filter_bucket_lane_entries:
  "c < n \<Longrightarrow> map snd (filter (\<lambda>e. fst e = c) (bucket (lane_entries L n) r))
           = map snd (filter (\<lambda>e. fst e = r) (L c))"
proof (induction n)
  case (Suc n)
  have *: "filter (\<lambda>e. fst e = n) (bucket (lane_entries L n) r) = []"
    by (auto simp: bucket_lane_entries filter_empty_conv)
  have **: "c < n \<Longrightarrow> filter (\<lambda>e. fst e = c) (map (\<lambda>e. (n, snd e)) xs) = []" for xs :: "('b \<times> 'c) list"
    by (auto simp: filter_empty_conv)
  show ?case using Suc * **
    by (cases "c = n") (auto simp: bucket_lane_entries filter_map comp_def)
qed simp

lemma lane_sum_bucket:
  "c < n \<Longrightarrow> lane_sum (bucket (lane_entries L n) r) c = lane_sum (L c) r"
  by (simp add: lane_sum_def filter_bucket_lane_entries)

lemma lane_sum_Nil [simp]: "lane_sum [] k = 0"
  by (simp add: lane_sum_def)

lemma lane_sum_Cons [simp]:
  "lane_sum ((r, v) # l) k = (if r = k then v + lane_sum l k else lane_sum l k)"
  by (simp add: lane_sum_def)

lemma lane_sum_append [simp]: "lane_sum (l @ l') k = lane_sum l k + lane_sum l' k"
  by (simp add: lane_sum_def)

lemma lane_sum_none: "\<forall>e \<in> set l. fst e \<noteq> k \<Longrightarrow> lane_sum l k = 0"
  by (induction l) auto

abbreviation scaled :: "'f :: comm_ring_1 \<Rightarrow> (idx \<times> 'f) list \<Rightarrow> (idx \<times> 'f) list" where
  "scaled c l \<equiv> map (\<lambda>(r, v). (r, c * v)) l"

lemma lane_sum_scale:
  "lane_sum (map (\<lambda>(r, v). (r, c * v)) l) k = (c :: 'f :: comm_semiring_1) * lane_sum l k"
  by (induction l) (auto simp: distrib_left)

lemma lane_sum_concat: "lane_sum (concat ls) k = sum_list (map (\<lambda>l. lane_sum l k) ls)"
  by (induction ls) auto

text \<open>The example matrix of the witnesses: two rows, three columns, four entries.\<close>

definition ex_A :: "int csc_matrix" where
  "ex_A = \<lparr>csc_nz_max = 4, csc_m = 2, csc_n = 3, col_start = [0, 2, 3, 4],
           csc_i = [0, 1, 1, 0], csc_x = [10, 20, 30, 40]\<rparr>"

lemma ex_A_wf: "csc_wf ex_A"
  by code_simp

end
