(* ===== verification/Sparse_Convert.thy ===== *)
theory Sparse_Convert
  imports Sparse_Matrix
begin

text \<open>
  Correctness of the format conversions of \<open>sparse_matrix.cpp\<close>. The conversions promise one
  contract, the locale \<open>lane_conversion\<close>: lane \<open>k\<close> of the result lists, in order, the entries of
  the source with inner index \<open>k\<close>. What a caller needs (dense entries transposed, round trips) is
  proved once inside the locale; CSC to CSR, CSR to CSC and the transpose interpret it.
\<close>

subsection \<open>The contract\<close>

locale lane_conversion =
  fixes conv :: "'a \<Rightarrow> 'b \<Rightarrow> 'b"
    and src_lane :: "'a \<Rightarrow> idx \<Rightarrow> (idx \<times> 'f :: comm_monoid_add) list"
    and src_lanes :: "'a \<Rightarrow> idx" and src_width :: "'a \<Rightarrow> idx" and src_wf :: "'a \<Rightarrow> bool"
    and dst_lane :: "'b \<Rightarrow> idx \<Rightarrow> (idx \<times> 'f) list"
    and dst_lanes :: "'b \<Rightarrow> idx" and dst_width :: "'b \<Rightarrow> idx" and dst_wf :: "'b \<Rightarrow> bool"
  assumes conv_lane: "src_wf A \<Longrightarrow> k < src_width A \<Longrightarrow>
      dst_lane (conv A B) k = bucket (lane_entries (src_lane A) (src_lanes A)) k"
    and conv_lanes: "dst_lanes (conv A B) = src_width A"
    and conv_width: "dst_width (conv A B) = src_lanes A"
    and conv_wf: "src_wf A \<Longrightarrow> dst_wf (conv A B)"
    and src_fst_less: "src_wf A \<Longrightarrow> c < src_lanes A \<Longrightarrow> e \<in> set (src_lane A c) \<Longrightarrow> fst e < src_width A"
begin

lemma conv_sum:
  assumes "src_wf A" "r < src_width A" "c < src_lanes A"
  shows "lane_sum (dst_lane (conv A B) r) c = lane_sum (src_lane A c) r"
  by (simp add: conv_lane assms lane_sum_bucket)

lemma conv_lane_concat:
  assumes "src_wf A" "r < src_width A"
  shows "dst_lane (conv A B) r =
    concat (map (\<lambda>c. map (\<lambda>e. (c, snd e)) (filter (\<lambda>e. fst e = r) (src_lane A c))) [0..<src_lanes A])"
  by (simp add: conv_lane assms bucket_lane_entries)

lemma conv_row_order:
  assumes "src_wf A" "r < src_width A"
  shows "sorted (map fst (dst_lane (conv A B) r))"
proof -
  have "sorted (map fst (concat (map (\<lambda>c. map (\<lambda>e. (c, snd e)) (xs c)) [0..<n])))"
    for n and xs :: "nat \<Rightarrow> (nat \<times> 'f) list"
    by (induction n) (auto simp: sorted_append comp_def map_replicate_const)
  then show ?thesis by (simp add: conv_lane_concat assms)
qed

end

locale lane_roundtrip =
  there: lane_conversion conv src_lane src_lanes src_width src_wf dst_lane dst_lanes dst_width dst_wf +
  ret: lane_conversion conv' dst_lane dst_lanes dst_width dst_wf src_lane src_lanes src_width src_wf
  for conv :: "'a \<Rightarrow> 'b \<Rightarrow> 'b" and conv' :: "'b \<Rightarrow> 'a \<Rightarrow> 'a"
    and src_lane :: "'a \<Rightarrow> idx \<Rightarrow> (idx \<times> 'f :: comm_monoid_add) list"
    and src_lanes src_width src_wf
    and dst_lane :: "'b \<Rightarrow> idx \<Rightarrow> (idx \<times> 'f) list"
    and dst_lanes dst_width dst_wf
begin

lemma there_and_back:
  assumes "src_wf A" "c < src_lanes A"
  shows "src_lane (conv' (conv A B) B') c =
         concat (map (\<lambda>r. filter (\<lambda>e. fst e = r) (src_lane A c)) [0..<src_width A])"
proof -
  have "src_lane (conv' (conv A B) B') c =
      concat (map (\<lambda>r. map (\<lambda>e. (r, snd e)) (filter (\<lambda>e. fst e = c) (dst_lane (conv A B) r)))
        [0..<src_width A])"
    using assms by (simp add: ret.conv_lane_concat there.conv_wf there.conv_lanes there.conv_width)
  also have "\<dots> = concat (map (\<lambda>r. filter (\<lambda>e. fst e = r) (src_lane A c)) [0..<src_width A])"
  proof (rule arg_cong [where f = concat], rule map_cong [OF refl])
    fix r assume "r \<in> set [0..<src_width A]"
    then have "map snd (filter (\<lambda>e. fst e = c) (dst_lane (conv A B) r))
             = map snd (filter (\<lambda>e. fst e = r) (src_lane A c))"
      using assms by (simp add: there.conv_lane filter_bucket_lane_entries)
    then have "map (\<lambda>v. (r, v)) (map snd (filter (\<lambda>e. fst e = c) (dst_lane (conv A B) r)))
             = map (\<lambda>v. (r, v)) (map snd (filter (\<lambda>e. fst e = r) (src_lane A c)))" by simp
    also have "\<dots> = map (\<lambda>e. e) (filter (\<lambda>e. fst e = r) (src_lane A c))"
      unfolding map_map by (rule map_cong) auto
    finally show "map (\<lambda>e. (r, snd e)) (filter (\<lambda>e. fst e = c) (dst_lane (conv A B) r))
             = filter (\<lambda>e. fst e = r) (src_lane A c)" by (simp add: comp_def)
  qed
  finally show ?thesis .
qed

lemma there_and_back_sorted:
  assumes "src_wf A" "c < src_lanes A" "sorted (map fst (src_lane A c))"
  shows "src_lane (conv' (conv A B) B') c = src_lane A c"
proof -
  have split: "concat (map (\<lambda>r. filter (\<lambda>e. fst e = r) l) [0..<n]) = filter (\<lambda>e. fst e < n) l"
    if "sorted (map fst l)" for l :: "(idx \<times> 'f) list" and n
  proof (induction n)
    case (Suc n)
    have "filter (\<lambda>e. fst e < n) l @ filter (\<lambda>e. fst e = n) l = filter (\<lambda>e. fst e < Suc n) l"
      using that
    proof (induction l)
      case (Cons a l)
      have "n \<le> fst a \<Longrightarrow> filter (\<lambda>e. fst e < n) l = []"
        using Cons.prems by (fastforce simp: filter_empty_conv)
      with Cons show ?case by (cases "fst a < n") (auto simp: less_Suc_eq)
    qed simp
    with Suc show ?case by simp
  qed simp
  have "filter (\<lambda>e. fst e < src_width A) (src_lane A c) = src_lane A c"
    using there.src_fst_less assms by (simp add: filter_id_conv)
  then show ?thesis using there_and_back split assms by simp
qed

end

subsection \<open>The regrouping loop\<close>

lemma sort_lanes:
  fixes es :: "(idx \<times> idx \<times> 'f) list"
  assumes keys: "\<forall>e \<in> set es. fst e < m" and inner: "\<forall>e \<in> set es. fst (snd e) < n"
    and cnt: "length ws0 = m" "\<And>k. k < m \<Longrightarrow> ws0 ! k = count_list (map fst es) k"
    and cs: "cumulative_sum ws0 rs0 = (ws, rs)"
    and loop: "place_all es (ws, js0, xs0) = (ws', js', xs')"
    and len: "length rs0 = Suc m" "length es \<le> length js0" "length xs0 = length js0"
  shows "lanes_wf m n rs js' xs'" (is ?wf)
    and "\<forall>k<m. lane rs js' xs' k = bucket es k" (is ?lanes)
    and "length js' = length js0" "length xs' = length xs0" "rs ! m = length es"
proof -
  let ?c = "count_list (map fst es)"
  have starts: "starts ((!) ws0) k = starts ?c k" if "k \<le> m" for k
    using that cnt by (intro starts_cong) auto
  have wsrs: "ws = map (starts ?c) [0..<m]" "rs = map (starts ?c) [0..<Suc m]"
    using cumulative_sum_spec [of rs0 ws0] cs len(1) cnt(1)
    by (auto simp: starts simp del: upt_Suc)
  have total: "starts ?c m = length es"
    using keys starts_count_length [of "map fst es" m] by simp
  have "placed m ?c es (length js0) (ws', js', xs')"
    unfolding loop [symmetric] using len keys
    by (intro fold_place) (auto simp: wsrs total)
  note p = this
  show lens: "length js' = length js0" "length xs' = length xs0"
    using p len by (simp_all add: placed_def)
  have rs_nth: "rs ! k = starts ?c k" if "k \<le> m" for k
    using that by (simp add: wsrs del: upt_Suc)
  then show "rs ! m = length es" using total by simp
  have lane_k: "lane rs js' xs' k = bucket es k" if "k < m" for k
    using placed_seg [OF p that] that rs_nth [of k] rs_nth [of "Suc k"]
    by (simp add: lane_zip zip_map_fst_snd)
  then show ?lanes by blast
  have inner': "js' ! p < n" if "p < starts ?c k" "k \<le> m" for p k
    using that
  proof (induction k)
    case (Suc k)
    show ?case
    proof (cases "p < starts ?c k")
      case False
      have "(js' ! p, xs' ! p) \<in> set (lane rs js' xs' k)"
        using False Suc.prems rs_nth [of k] rs_nth [of "Suc k"] by (auto simp: lane_def)
      then have "(js' ! p, xs' ! p) \<in> set (bucket es k)" using lane_k Suc.prems by simp
      then show ?thesis using inner by (force simp: bucket_def)
    qed (use Suc in auto)
  qed simp
  have "sorted rs"
    unfolding sorted_iff_nth_mono_less using rs_nth starts_mono
    by (metis (no_types, lifting) Suc_leI diff_Suc_Suc diff_zero length_map length_upt less_Suc_eq_le
        less_imp_le order_less_le_trans wsrs(2))
  then show ?wf
    using inner' [of _ m] len lens total rs_nth [of 0] rs_nth [of m]
    by (simp add: lanes_wf_def wsrs del: upt_Suc)
qed

lemma regroup_lanes:
  assumes wf: "lanes_wf n m s js xs"
    and cs: "cumulative_sum (count_keys js (s ! n) (replicate m 0)) rs0 = (ws, rs)"
    and loop: "for_range 0 n (\<lambda>j. for_range (s ! j) (s ! Suc j) (\<lambda>p. place (js ! p) j (xs ! p)))
                 (ws, js0, xs0) = (ws', js', xs')"
    and len: "length rs0 = Suc m" "s ! n \<le> length js0" "length xs0 = length js0"
  shows "lanes_wf m n rs js' xs'"
    and "\<forall>k<m. lane rs js' xs' k = bucket (lane_entries (lane s js xs) n) k"
    and "length js' = length js0" "length xs' = length xs0" "rs ! m = s ! n"
proof -
  let ?es = "lane_entries (lane s js xs) n"
  note keys = lane_entries_keys [OF wf]
  have total: "length ?es = s ! n"
    using arg_cong [OF keys, of length] by simp
  have in_range: "\<forall>p<s ! n. js ! p < length (replicate m (0 :: nat))"
    using wf by (simp add: lanes_wf_def)
  have loop': "place_all ?es (ws, js0, xs0) = (ws', js', xs')"
    using loop by (simp add: for_range_lane [where g = "\<lambda>r v. place r _ v"]
        fold_lane_entries [where g = "\<lambda>r c v. place r c v"])
  have a: "\<forall>e \<in> set ?es. fst e < m" "\<forall>e \<in> set ?es. fst (snd e) < n"
    using lane_entries_fst_less [OF wf] by (auto simp: lane_entries_def)
  note r = sort_lanes [OF a _ _ cs loop' len(1) _ len(3)]
  show "lanes_wf m n rs js' xs'"
    and "\<forall>k<m. lane rs js' xs' k = bucket ?es k"
    and "length js' = length js0" "length xs' = length xs0" "rs ! m = s ! n"
    using r len nth_count_keys [OF in_range] by (simp_all add: keys total)
qed

lemma coo_to_csc_spec:
  assumes "length Ai = length Aj" "length Ax = length Aj"
    and "\<forall>j \<in> set Aj. j < csc_n A" "\<forall>i \<in> set Ai. i < csc_m A"
    and "length (col_start A) = Suc (csc_n A)"
    and "length (csc_i A) = csc_nz_max A" "length (csc_x A) = csc_nz_max A"
  shows "csc_wf (coo_to_csc Ai Aj Ax A)"
    and "k < csc_n A \<Longrightarrow> csc_col (coo_to_csc Ai Aj Ax A) k = bucket (zip Aj (zip Ai Ax)) k"
proof -
  define A' where "A' = (if csc_nz_max A < length Ai then reallocate (length Ai) A else A)"
  have A': "csc_n A' = csc_n A" "csc_m A' = csc_m A" "col_start A' = col_start A"
    "length Aj \<le> length (csc_i A')" "length (csc_x A') = length (csc_i A')"
    using assms by (auto simp: A'_def reallocate_def)
  let ?ws0 = "count_keys Aj (length Aj) (replicate (csc_n A) 0)" and ?es = "zip Aj (zip Ai Ax)"
  obtain ws cs where cs: "cumulative_sum ?ws0 (col_start A) = (ws, cs)" by fastforce
  obtain ws' js xs where loop: "for_range 0 (length Aj) (\<lambda>k. place (Aj ! k) (Ai ! k) (Ax ! k))
      (ws, csc_i A', csc_x A') = (ws', js, xs)" by (rule prod_cases3)
  have "place_all ?es (ws, csc_i A', csc_x A') =
      for_range 0 (length Aj) (\<lambda>k. place (Aj ! k) (Ai ! k) (Ax ! k)) (ws, csc_i A', csc_x A')"
    unfolding fold_for_range using assms(1,2) by (intro for_range_cong) auto
  then have loop': "place_all ?es (ws, csc_i A', csc_x A') = (ws', js, xs)" using loop by simp
  have cnt: "?ws0 ! k = count_list (map fst ?es) k" if "k < csc_n A" for k
    using nth_count_keys [of "length Aj" Aj "replicate (csc_n A) 0" k] that assms(1-3)
    by (simp add: seg_full)
  have keys: "\<forall>e \<in> set ?es. fst e < csc_n A" "\<forall>e \<in> set ?es. fst (snd e) < csc_m A"
    using assms(3,4) by (auto elim!: in_set_zipE)
  note r = sort_lanes [OF keys _ cnt cs loop']
  have "coo_to_csc Ai Aj Ax A = A'\<lparr>col_start := cs, csc_i := js, csc_x := xs\<rparr>"
    using cs loop A' by (simp add: coo_to_csc_def A'_def [symmetric] Let_def)
  then show "csc_wf (coo_to_csc Ai Aj Ax A)"
    and "k < csc_n A \<Longrightarrow> csc_col (coo_to_csc Ai Aj Ax A) k = bucket ?es k"
    using r A' assms(1,2,5) by (simp_all add: csc_wf_def)
qed

subsection \<open>The conversions meet the contract\<close>

lemma conversion_sizes [simp]:
  "csr_m (to_compressed_row A R) = csc_m A" "csr_n (to_compressed_row A R) = csc_n A"
  "csc_n (to_compressed_col R A) = csr_n R" "csc_m (to_compressed_col R A) = csr_m R"
  "csc_n (transpose_csc A AT) = csc_m A" "csc_m (transpose_csc A AT) = csc_n A"
  by (simp_all add: to_compressed_row_def to_compressed_col_def transpose_csc_def reallocate_def
      Let_def split: prod.split)

lemma csc_col_less: "csc_wf A \<Longrightarrow> c < csc_n A \<Longrightarrow> e \<in> set (csc_col A c) \<Longrightarrow> fst e < csc_m A"
  by (auto simp: csc_wf_def dest: lane_fst_less)

lemma csr_row_less: "csr_wf R \<Longrightarrow> r < csr_m R \<Longrightarrow> e \<in> set (csr_row R r) \<Longrightarrow> fst e < csr_n R"
  by (auto simp: csr_wf_def dest: lane_fst_less)

lemma to_compressed_row_spec:
  assumes "csc_wf A"
  shows "csr_wf (to_compressed_row A R)"
    and "k < csc_m A \<Longrightarrow> csr_row (to_compressed_row A R) k = bucket (lane_entries (csc_col A) (csc_n A)) k"
proof -
  obtain ws rs where cs: "cumulative_sum (count_keys (csc_i A) (col_start A ! csc_n A) (replicate (csc_m A) 0))
      (resize (csc_m A + 1) 0 (row_start R)) = (ws, rs)" by fastforce
  obtain ws' js xs where loop: "for_range 0 (csc_n A) (\<lambda>j.
      for_range (col_start A ! j) (col_start A ! Suc j) (\<lambda>p. place (csc_i A ! p) j (csc_x A ! p)))
      (ws, resize (col_start A ! csc_n A) 0 (csr_j R), resize (col_start A ! csc_n A) 0 (csr_x R))
      = (ws', js, xs)" by (rule prod_cases3)
  note r = regroup_lanes [OF assms [unfolded csc_wf_def] cs loop]
  show "csr_wf (to_compressed_row A R)"
    and "k < csc_m A \<Longrightarrow> csr_row (to_compressed_row A R) k = bucket (lane_entries (csc_col A) (csc_n A)) k"
    using r cs loop by (simp_all add: to_compressed_row_def csr_wf_def Let_def)
qed

lemma to_compressed_col_spec:
  assumes "csr_wf A"
  shows "csc_wf (to_compressed_col A C)"
    and "k < csr_n A \<Longrightarrow> csc_col (to_compressed_col A C) k = bucket (lane_entries (csr_row A) (csr_m A)) k"
proof -
  obtain ws cs where cs: "cumulative_sum (count_keys (csr_j A) (row_start A ! csr_m A) (replicate (csr_n A) 0))
      (resize (csr_n A + 1) 0 (col_start C)) = (ws, cs)" by fastforce
  obtain ws' js xs where loop: "for_range 0 (csr_m A) (\<lambda>i.
      for_range (row_start A ! i) (row_start A ! Suc i) (\<lambda>p. place (csr_j A ! p) i (csr_x A ! p)))
      (ws, resize (row_start A ! csr_m A) 0 (csc_i C), resize (row_start A ! csr_m A) 0 (csc_x C))
      = (ws', js, xs)" by (rule prod_cases3)
  note r = regroup_lanes [OF assms [unfolded csr_wf_def] cs loop]
  show "csc_wf (to_compressed_col A C)"
    and "k < csr_n A \<Longrightarrow> csc_col (to_compressed_col A C) k = bucket (lane_entries (csr_row A) (csr_m A)) k"
    using r cs loop by (simp_all add: to_compressed_col_def csc_wf_def Let_def)
qed

lemma transpose_csc_spec:
  assumes "csc_wf A"
  shows "csc_wf (transpose_csc A AT)"
    and "k < csc_m A \<Longrightarrow> csc_col (transpose_csc A AT) k = bucket (lane_entries (csc_col A) (csc_n A)) k"
proof -
  obtain ws cs where cs: "cumulative_sum (count_keys (csc_i A) (col_start A ! csc_n A) (replicate (csc_m A) 0))
      (resize (csc_m A + 1) 0 (col_start AT)) = (ws, cs)" by fastforce
  obtain ws' js xs where loop: "for_range 0 (csc_n A) (\<lambda>j.
      for_range (col_start A ! j) (col_start A ! Suc j) (\<lambda>p. place (csc_i A ! p) j (csc_x A ! p)))
      (ws, resize (col_start A ! csc_n A) 0 (csc_i AT), resize (col_start A ! csc_n A) 0 (csc_x AT))
      = (ws', js, xs)" by (rule prod_cases3)
  note r = regroup_lanes [OF assms [unfolded csc_wf_def] cs loop]
  show "csc_wf (transpose_csc A AT)"
    and "k < csc_m A \<Longrightarrow> csc_col (transpose_csc A AT) k = bucket (lane_entries (csc_col A) (csc_n A)) k"
    using r cs loop by (simp_all add: transpose_csc_def csc_wf_def reallocate_def Let_def)
qed

interpretation csc_csr: lane_conversion to_compressed_row
    csc_col csc_n csc_m csc_wf csr_row csr_m csr_n csr_wf
  by unfold_locales (auto simp: to_compressed_row_spec dest: csc_col_less)

interpretation csr_csc: lane_conversion to_compressed_col
    csr_row csr_m csr_n csr_wf csc_col csc_n csc_m csc_wf
  by unfold_locales (auto simp: to_compressed_col_spec dest: csr_row_less)

interpretation csc_transpose: lane_conversion transpose_csc
    csc_col csc_n csc_m csc_wf csc_col csc_n csc_m csc_wf
  by unfold_locales (auto simp: transpose_csc_spec dest: csc_col_less)

interpretation csc_csr_csc: lane_roundtrip to_compressed_row to_compressed_col
    csc_col csc_n csc_m csc_wf csr_row csr_m csr_n csr_wf
  by unfold_locales

interpretation csc_transpose_twice: lane_roundtrip transpose_csc transpose_csc
    csc_col csc_n csc_m csc_wf csc_col csc_n csc_m csc_wf
  by unfold_locales

subsection \<open>Properties\<close>

text \<open>C33. Transposing a well-formed matrix gives a well-formed matrix with the dimensions swapped
  and with every entry mirrored, and lists each of its columns by increasing row index.\<close>

theorem transpose_correct:
  assumes "csc_wf A"
  shows "csc_wf (transpose_csc A AT) \<and>
    csc_m (transpose_csc A AT) = csc_n A \<and> csc_n (transpose_csc A AT) = csc_m A \<and>
    (\<forall>r<csc_m A. sorted (map fst (csc_col (transpose_csc A AT) r)) \<and>
      (\<forall>c<csc_n A. csc_dense (transpose_csc A AT) c r = csc_dense A r c))"
  using csc_transpose.conv_wf [OF assms] csc_transpose.conv_sum [OF assms]
    csc_transpose.conv_row_order [OF assms]
  by (simp add: csc_dense_def)

theorem transpose_correct_witness:
  "csc_dense (transpose_csc ex_A (csc_new 0 0 0)) 2 0 = 40"
proof -
  have "csc_dense ex_A 0 2 = 40" "csc_m ex_A = 2" "csc_n ex_A = 3" by code_simp+
  then show ?thesis using transpose_correct [OF ex_A_wf, of "csc_new 0 0 0"] by simp
qed

text \<open>Converting a well-formed CSC matrix to CSR keeps it well-formed and keeps every entry,
  and each row lists its entries by increasing column index.\<close>

theorem to_compressed_row_correct:
  assumes "csc_wf A"
  shows "csr_wf (to_compressed_row A R) \<and>
    csr_m (to_compressed_row A R) = csc_m A \<and> csr_n (to_compressed_row A R) = csc_n A \<and>
    (\<forall>r<csc_m A. sorted (map fst (csr_row (to_compressed_row A R) r)) \<and>
      (\<forall>c<csc_n A. csr_dense (to_compressed_row A R) r c = csc_dense A r c))"
  using csc_csr.conv_wf [OF assms] csc_csr.conv_sum [OF assms] csc_csr.conv_row_order [OF assms]
  by (simp add: csc_dense_def csr_dense_def)

theorem to_compressed_row_correct_witness:
  "csr_dense (to_compressed_row ex_A csr_new) 1 0 = 20"
proof -
  have "csc_dense ex_A 1 0 = 20" "csc_m ex_A = 2" "csc_n ex_A = 3" by code_simp+
  then show ?thesis using to_compressed_row_correct [OF ex_A_wf, of csr_new] by simp
qed

text \<open>C34. Converting a CSC matrix to CSR and back restores every column exactly, entry by entry,
  when the row indices of that column are in order; in general it sorts the column stably.\<close>

theorem csc_csr_roundtrip:
  fixes A :: "'f :: comm_monoid_add csc_matrix"
  assumes "csc_wf A" "c < csc_n A"
  shows "csc_col (to_compressed_col (to_compressed_row A R) C) c =
         (if sorted (map fst (csc_col A c)) then csc_col A c
          else concat (map (\<lambda>r. filter (\<lambda>e. fst e = r) (csc_col A c)) [0..<csc_m A]))"
  using csc_csr_csc.there_and_back [OF assms] csc_csr_csc.there_and_back_sorted [OF assms] by simp

theorem csc_csr_roundtrip_witness:
  "csc_col (to_compressed_col (to_compressed_row ex_A csr_new) (csc_new 0 0 0)) 0 = [(0, 10), (1, 20)]"
proof -
  have "csc_col ex_A 0 = [(0, 10), (1, 20)]" "0 < csc_n ex_A" by code_simp+
  then show ?thesis using csc_csr_roundtrip [OF ex_A_wf, of 0 csr_new "csc_new 0 0 0"] by simp
qed

text \<open>Building a CSC matrix from coordinate triplets gives a well-formed matrix, growing its
  storage when it is too small; column j lists exactly the triplets of column j in input order, so
  repeated coordinates are kept and add up.\<close>

theorem coo_to_csc_correct:
  assumes "length Ai = length Aj" "length Ax = length Aj"
    and "\<forall>j \<in> set Aj. j < csc_n A" "\<forall>i \<in> set Ai. i < csc_m A"
    and "length (col_start A) = Suc (csc_n A)"
    and "length (csc_i A) = csc_nz_max A" "length (csc_x A) = csc_nz_max A"
  shows "csc_wf (coo_to_csc Ai Aj Ax A) \<and>
    (\<forall>j<csc_n A. csc_col (coo_to_csc Ai Aj Ax A) j =
       map (\<lambda>k. (Ai ! k, Ax ! k)) (filter (\<lambda>k. Aj ! k = j) [0..<length Aj]))"
proof -
  have "zip Aj (zip Ai Ax) = map (\<lambda>k. (Aj ! k, Ai ! k, Ax ! k)) [0..<length Aj]"
    using assms(1,2) by (intro nth_equalityI) auto
  then have "bucket (zip Aj (zip Ai Ax)) j =
      map (\<lambda>k. (Ai ! k, Ax ! k)) (filter (\<lambda>k. Aj ! k = j) [0..<length Aj])" for j
    by (simp add: bucket_def filter_map comp_def)
  then show ?thesis using coo_to_csc_spec [OF assms] by simp
qed

theorem coo_to_csc_correct_witness:
  "csc_col (coo_to_csc [1, 0, 1] [2, 0, 2] [5, 7, 9 :: int] (csc_new 2 3 1)) 2 = [(1, 5), (1, 9)]"
proof -
  have "csc_col (coo_to_csc [1, 0, 1] [2, 0, 2] [5, 7, 9 :: int] (csc_new 2 3 1)) 2 =
      map (\<lambda>k. ([1, 0, 1] ! k, [5, 7, 9] ! k)) (filter (\<lambda>k. [2, 0, 2] ! k = (2 :: idx)) [0..<length [2, 0, 2 :: idx]])"
    by (rule coo_to_csc_correct [THEN conjunct2, THEN spec, THEN mp]) code_simp+
  also have "\<dots> = [(1, 5), (1, 9)]" by code_simp
  finally show ?thesis .
qed

end
