(* ===== verification/Sparse_Assemble.thy ===== *)
theory Sparse_Assemble
  imports Sparse_Matrix
begin

text \<open>
  The operations of \<open>sparse_matrix.cpp\<close> that write a matrix column after column: removing rows
  and columns and permuting rows and columns. They share one loop shape, a write position that
  advances by one entry at a time (\<open>emit\<close>); \<open>assembled\<close> is its invariant and
  \<open>assembled_lane\<close> the specification it gives: column \<open>k\<close> of the result is the \<open>k\<close>-th list emitted.
\<close>

subsection \<open>Definitions\<close>

definition emit :: "'a \<Rightarrow> 'f \<Rightarrow> idx \<times> 'a list \<times> 'f list \<Rightarrow> idx \<times> 'a list \<times> 'f list" where
  "emit i v = (\<lambda>(q, is, xs). (q + 1, is[q := i], xs[q := v]))"

definition remove_columns :: "idx list \<Rightarrow> ('f :: zero) csc_matrix \<Rightarrow> 'f csc_matrix" where
  "remove_columns cols_to_remove A =
     (let (nz, n) = for_range 0 (csc_n A) (\<lambda>j (nz, n).
            if cols_to_remove ! j = 0 then (nz + (col_start A ! Suc j - col_start A ! j), n + 1)
            else (nz, n)) (0, 0);
          new_i = replicate nz 0; new_x = replicate nz 0; new_col_start = replicate (n + 1) 0;
          (new_j, q, new_col_start, new_i, new_x) = for_range 0 (csc_n A)
            (\<lambda>j (new_j, q, new_col_start, new_i, new_x).
               if cols_to_remove ! j \<noteq> 0 then (new_j, q, new_col_start, new_i, new_x)
               else let (q', new_i, new_x) = for_range (col_start A ! j) (col_start A ! Suc j)
                          (\<lambda>p. emit (csc_i A ! p) (csc_x A ! p)) (q, new_i, new_x)
                    in (new_j + 1, q', new_col_start[new_j := q], new_i, new_x))
            (0, 0, new_col_start, new_i, new_x)
      in A\<lparr>col_start := new_col_start[n := q], csc_i := new_i, csc_x := new_x, csc_n := n\<rparr>)"

definition remove_rows :: "idx list \<Rightarrow> ('f :: zero) csr_matrix \<Rightarrow> 'f csr_matrix \<Rightarrow> 'f csr_matrix" where
  "remove_rows row_marker A Aout =
     (let (num_rows, num_nnz) = for_range 0 (csr_m A) (\<lambda>i (num_rows, num_nnz).
            if row_marker ! i \<noteq> 0
            then (num_rows + 1, num_nnz + (row_start A ! Suc i - row_start A ! i))
            else (num_rows, num_nnz)) (0, 0);
          new_rows = csr_m A - num_rows;
          new_nnz = row_start A ! csr_m A - num_nnz;
          rs = resize (new_rows + 1) 0 (row_start Aout);
          js = resize new_nnz 0 (csr_j Aout);
          xs = resize new_nnz 0 (csr_x Aout);
          (row_count, nz_count, rs, js, xs) = for_range 0 (csr_m A)
            (\<lambda>i (row_count, nz_count, rs, js, xs).
               if row_marker ! i \<noteq> 0 then (row_count, nz_count, rs, js, xs)
               else let (nz', js, xs) = for_range (row_start A ! i) (row_start A ! Suc i)
                          (\<lambda>p. emit (csr_j A ! p) (csr_x A ! p)) (nz_count, js, xs)
                    in (row_count + 1, nz', rs[row_count := nz_count], js, xs))
            (0, 0, rs, js, xs)
      in Aout\<lparr>csr_n := csr_n A, csr_m := new_rows, row_start := rs[new_rows := new_nnz],
              csr_j := js, csr_x := xs\<rparr>)"

definition permute_rows :: "idx list \<Rightarrow> ('f :: zero) csc_matrix \<Rightarrow> 'f csc_matrix \<Rightarrow> 'f csc_matrix" where
  "permute_rows pinv A C =
     (let n = csc_n A; C = reallocate (col_start A ! n) C;
          (nz, cs, is, xs) = for_range 0 n (\<lambda>j (nz, cs, is, xs).
            let (nz', is, xs) = for_range (col_start A ! j) (col_start A ! Suc j)
                  (\<lambda>p. emit (pinv ! (csc_i A ! p)) (csc_x A ! p)) (nz, is, xs)
            in (nz', cs[j := nz], is, xs)) (0, col_start C, csc_i C, csc_x C)
      in C\<lparr>col_start := cs[n := nz], csc_i := is, csc_x := xs\<rparr>)"

definition permute_rows_and_cols ::
  "idx list \<Rightarrow> idx list \<Rightarrow> ('f :: zero) csc_matrix \<Rightarrow> 'f csc_matrix \<Rightarrow> 'f csc_matrix" where
  "permute_rows_and_cols pinv q A C =
     (let n = csc_n A; C = reallocate (col_start A ! n) C;
          (nz, cs, is, xs) = for_range 0 n (\<lambda>k (nz, cs, is, xs).
            let j = q ! k;
                (nz', is, xs) = for_range (col_start A ! j) (col_start A ! Suc j)
                  (\<lambda>p. emit (pinv ! (csc_i A ! p)) (csc_x A ! p)) (nz, is, xs)
            in (nz', cs[k := nz], is, xs)) (0, col_start C, csc_i C, csc_x C)
      in C\<lparr>col_start := cs[n := nz], csc_i := is, csc_x := xs\<rparr>)"

definition remove_row :: "idx \<Rightarrow> 'f csc_matrix \<Rightarrow> 'f csc_matrix" where
  "remove_row row A =
     (let n = csc_n A;
          (q, new_col_start, is, xs) = for_range 0 n (\<lambda>j (q, new_col_start, is, xs).
            let new_col_start = new_col_start[j := q];
                (q, is, xs) = for_range (col_start A ! j) (col_start A ! Suc j)
                  (\<lambda>p (q, is, xs).
                     let i = is ! p in
                     if i = row then (q, is, xs)
                     else if i > row then emit (i - 1) (xs ! p) (q, is, xs)
                     else emit i (xs ! p) (q, is, xs)) (q, is, xs)
            in (q, new_col_start, is, xs)) (0, replicate (n + 1) 0, csc_i A, csc_x A)
      in A\<lparr>csc_i := is, csc_x := xs, col_start := new_col_start[n := q]\<rparr>)"

definition remove_column :: "idx \<Rightarrow> 'f csc_matrix \<Rightarrow> 'f csc_matrix" where
  "remove_column col A =
     (let n = csc_n A;
          (q, cs, is, xs) = for_range (col + 1) n (\<lambda>k (q, cs, is, xs).
            let cs = cs[k - 1 := q];
                (q, is, xs) = for_range (cs ! k) (cs ! Suc k)
                  (\<lambda>p (q, is, xs). emit (is ! p) (xs ! p) (q, is, xs)) (q, is, xs)
            in (q, cs, is, xs)) (col_start A ! col, col_start A, csc_i A, csc_x A)
      in A\<lparr>csc_i := is, csc_x := xs, col_start := cs[n - 1 := q]\<rparr>)"

subsection \<open>Emitting entries\<close>

abbreviation emit_all :: "('a \<times> 'f) list \<Rightarrow> idx \<times> 'a list \<times> 'f list \<Rightarrow> idx \<times> 'a list \<times> 'f list" where
  "emit_all es \<equiv> fold (\<lambda>(i, v). emit i v) es"

lemma emit_all_eq:
  assumes "q + length es \<le> length is" "q + length es \<le> length xs"
  shows "emit_all es (q, is, xs) =
    (q + length es, take q is @ map fst es @ drop (q + length es) is,
                    take q xs @ map snd es @ drop (q + length es) xs)"
  using assms
proof (induction es arbitrary: q "is" xs)
  case (Cons e es)
  obtain i v where e: "e = (i, v)" by (cases e)
  have t: "take (Suc q) (ys[q := y]) = take q ys @ [y]" "drop (Suc q + k) (ys[q := y]) = drop (Suc (q + k)) ys"
    if "q < length ys" for ys :: "'z list" and y k
    using that by (simp_all add: take_Suc_conv_app_nth)
  show ?case
    using Cons by (simp add: e emit_def t)
qed simp

definition assembled :: "('a \<times> 'f) list list \<Rightarrow> idx list \<Rightarrow> idx \<Rightarrow> 'a list \<Rightarrow> 'f list \<Rightarrow> bool" where
  "assembled cols cs q is xs \<longleftrightarrow>
     q = length (concat cols) \<and> q \<le> length is \<and> q \<le> length xs \<and>
     take q is = map fst (concat cols) \<and> take q xs = map snd (concat cols) \<and>
     (\<forall>k<length cols. cs ! k = length (concat (take k cols)))"

lemma assembled_Nil [simp]: "assembled [] cs 0 is xs"
  by (simp add: assembled_def)

lemma assembled_snoc:
  assumes "assembled cols cs q is xs" "k = length cols" "k < length cs"
    and "q + length es \<le> length is" "q + length es \<le> length xs"
    and "emit_all es (q, is, xs) = (q', is', xs')"
  shows "assembled (cols @ [es]) (cs[k := q]) q' is' xs' \<and>
    length is' = length is \<and> length xs' = length xs"
  using assms unfolding assembled_def
  by (auto simp: emit_all_eq nth_list_update less_Suc_eq min_def)

lemma concat_take_nth:
  assumes "k < length cols"
  shows "length (concat (take (Suc k) cols)) = length (concat (take k cols)) + length (cols ! k)"
    and "t < length (cols ! k) \<Longrightarrow> concat cols ! (length (concat (take k cols)) + t) = cols ! k ! t"
    and "length (concat (take k cols)) + length (cols ! k) \<le> length (concat cols)"
proof -
  have split: "concat cols = concat (take k cols) @ cols ! k @ concat (drop (Suc k) cols)"
    using assms by (metis append_take_drop_id Cons_nth_drop_Suc concat.simps(2) concat_append)
  show "length (concat (take (Suc k) cols)) = length (concat (take k cols)) + length (cols ! k)"
    using assms by (simp add: take_Suc_conv_app_nth)
  show "t < length (cols ! k) \<Longrightarrow> concat cols ! (length (concat (take k cols)) + t) = cols ! k ! t"
    by (subst split) (simp add: nth_append)
  show "length (concat (take k cols)) + length (cols ! k) \<le> length (concat cols)"
    using arg_cong [OF split, of length] by simp
qed

lemma assembled_nth:
  assumes "assembled cols cs q is xs" "p < q"
  shows "is ! p = fst (concat cols ! p)" "xs ! p = snd (concat cols ! p)"
proof -
  have p: "p < length (concat cols)" using assms by (simp add: assembled_def)
  have t: "take q is = map fst (concat cols)" "take q xs = map snd (concat cols)"
    using assms(1) unfolding assembled_def by blast+
  have "is ! p = take q is ! p" "xs ! p = take q xs ! p" using assms(2) by simp_all
  then show "is ! p = fst (concat cols ! p)" "xs ! p = snd (concat cols ! p)"
    unfolding t using p by simp_all
qed

lemma assembled_lane:
  assumes "assembled cols cs q is xs" "cs ! length cols = q" "k < length cols"
  shows "lane cs is xs k = cols ! k"
proof -
  note c = concat_take_nth [OF assms(3)]
  have k: "cs ! k = length (concat (take k cols))" and
    Sk: "cs ! Suc k = length (concat (take (Suc k) cols))"
    using assms by (cases "Suc k = length cols"; simp add: assembled_def)+
  show ?thesis
  proof (rule nth_equalityI)
    show len: "length (lane cs is xs k) = length (cols ! k)" using k Sk c(1) by simp
    fix t assume "t < length (lane cs is xs k)"
    then have t: "t < length (cols ! k)" using len by simp
    let ?p = "length (concat (take k cols)) + t"
    have p: "?p < q" using c(3) t assms(1) by (simp add: assembled_def)
    have "is ! ?p = fst (concat cols ! ?p)" "xs ! ?p = snd (concat cols ! ?p)"
      by (rule assembled_nth [OF assms(1) p])+
    then show "lane cs is xs k ! t = cols ! k ! t"
      using c(2) [OF t] t k Sk c(1) by (simp add: lane_def)
  qed
qed

lemma assembled_wf:
  assumes "assembled cols cs q is xs" "cs ! length cols = q" "length cs = Suc (length cols)"
    and "\<forall>l \<in> set cols. \<forall>e \<in> set l. fst e < m"
  shows "lanes_wf (length cols) m cs is xs"
proof -
  have cs: "cs ! k = length (concat (take k cols))" if "k \<le> length cols" for k
    using assms(1,2) that by (cases "k = length cols") (auto simp: assembled_def)
  have "sorted cs"
    unfolding sorted_iff_nth_Suc
    using cs concat_take_nth(1) [of _ cols] assms(3) by simp
  moreover have "is ! p < m" if "p < q" for p
  proof -
    have "is ! p = take q is ! p" using that by simp
    also have "\<dots> \<in> set (map fst (concat cols))"
      using assms(1) that by (metis assembled_def length_map nth_mem)
    finally show ?thesis using assms(4) by fastforce
  qed
  ultimately show ?thesis
    using assms cs [of 0] by (auto simp: lanes_wf_def assembled_def)
qed

text \<open>The loop that emits one lane for each index of a list.\<close>

definition emit_lane :: "(idx \<Rightarrow> ('a \<times> 'f) list) \<Rightarrow> idx \<Rightarrow>
    idx \<times> idx \<times> idx list \<times> 'a list \<times> 'f list \<Rightarrow> idx \<times> idx \<times> idx list \<times> 'a list \<times> 'f list" where
  "emit_lane L k = (\<lambda>(c, q, cs, is, xs).
     let (q', is, xs) = emit_all (L k) (q, is, xs) in (c + 1, q', cs[c := q], is, xs))"

lemma emit_lanes:
  assumes "length (concat (map L ks)) \<le> length is0" "length (concat (map L ks)) \<le> length xs0"
    and "length ks < length cs0"
  shows "\<exists>q cs is xs. fold (emit_lane L) ks (0, 0, cs0, is0, xs0) = (length ks, q, cs, is, xs) \<and>
     assembled (map L ks) cs q is xs \<and> length cs = length cs0 \<and>
     length is = length is0 \<and> length xs = length xs0"
  using assms
proof (induction ks rule: rev_induct)
  case (snoc k ks)
  then obtain q cs js xs where IH: "fold (emit_lane L) ks (0, 0, cs0, is0, xs0) = (length ks, q, cs, js, xs)"
    "assembled (map L ks) cs q js xs" "length cs = length cs0"
    "length js = length is0" "length xs = length xs0" by auto
  obtain q' js' xs' where e: "emit_all (L k) (q, js, xs) = (q', js', xs')" by (rule prod_cases3)
  have q: "q = length (concat (map L ks))" using IH(2) by (simp add: assembled_def)
  have "assembled (map L ks @ [L k]) (cs[length ks := q]) q' js' xs' \<and>
      length js' = length js \<and> length xs' = length xs"
    using snoc.prems IH by (intro assembled_snoc [OF IH(2) _ _ _ _ e]) (auto simp: q)
  moreover have "fold (emit_lane L) (ks @ [k]) (0, 0, cs0, is0, xs0)
      = (length (ks @ [k]), q', cs[length ks := q], js', xs')"
    using IH e by (simp add: emit_lane_def)
  ultimately show ?case using IH by simp
qed simp

lemma emit_lanes_upt:
  "fold (emit_lane L) [0..<n] (0, st) = (n, for_range 0 n (\<lambda>j (q, cs, is, xs).
     let (q', is, xs) = emit_all (L j) (q, is, xs) in (q', cs[j := q], is, xs)) st)"
  by (induction n) (auto simp: emit_lane_def Let_def split: prod.split)

lemma emit_lanes_indexed:
  assumes "length (concat (map L [0..<n])) \<le> length is0" "length (concat (map L [0..<n])) \<le> length xs0"
    and "n < length cs0"
  obtains q cs js xs where
    "for_range 0 n (\<lambda>j (q, cs, is, xs).
       let (q', is, xs) = emit_all (L j) (q, is, xs) in (q', cs[j := q], is, xs)) (0, cs0, is0, xs0)
     = (q, cs, js, xs)"
    "assembled (map L [0..<n]) cs q js xs" "length cs = length cs0"
    "length js = length is0" "length xs = length xs0"
  using emit_lanes [OF assms(1,2), of cs0] assms(3) that
  by (auto simp: emit_lanes_upt)

lemma length_lanes:
  assumes "lanes_wf n m s js xs" "k \<le> n"
  shows "length (concat (map (lane s js xs) [0..<k])) = s ! k"
  using arg_cong [OF lane_entries_positions [OF assms], of length]
  by (simp add: lane_entries_def length_concat comp_def)

subsection \<open>Keeping the unmarked lanes\<close>

definition kept :: "idx list \<Rightarrow> idx \<Rightarrow> idx list" where
  "kept marker n = filter (\<lambda>j. marker ! j = 0) [0..<n]"

lemma kept_Suc: "kept marker (Suc n) = (if marker ! n = 0 then kept marker n @ [n] else kept marker n)"
  by (simp add: kept_def)

lemma length_kept: "length (kept marker n) \<le> n"
  unfolding kept_def using length_filter_le [of _ "[0..<n]"] by simp

lemma kept_less: "k < length (kept marker n) \<Longrightarrow> kept marker n ! k < n"
  using nth_mem [of k "kept marker n"] by (auto simp: kept_def)

lemma count_kept:
  "for_range 0 n (\<lambda>j (nz, n). if marker ! j = 0 then (nz + (s ! Suc j - s ! j), n + 1) else (nz, n)) (0, 0)
   = (length (concat (map (lane s js xs) (kept marker n))), length (kept marker n))"
  by (induction n) (auto simp: kept_Suc kept_def)

lemma count_removed:
  assumes "lanes_wf n m s js xs" "k \<le> n"
  shows "for_range 0 k (\<lambda>i (c, nnz). if marker ! i \<noteq> 0 then (c + 1, nnz + (s ! Suc i - s ! i)) else (c, nnz)) (0, 0)
     = (k - length (kept marker k), s ! k - length (concat (map (lane s js xs) (kept marker k))))
   \<and> length (concat (map (lane s js xs) (kept marker k))) \<le> s ! k"
  using assms(2)
proof (induction k)
  case 0
  then show ?case using assms(1) by (simp add: kept_def lanes_wf_def)
next
  case (Suc k)
  have "s ! k \<le> s ! Suc k" using lanes_wf_start [OF assms(1)] Suc.prems by simp
  with Suc length_kept [of marker k] show ?case by (auto simp: kept_Suc Suc_diff_le)
qed

lemma emit_kept:
  "for_range 0 n (\<lambda>j (c, q, cs, is, xs).
     if marker ! j \<noteq> 0 then (c, q, cs, is, xs)
     else let (q', is, xs) = for_range (s ! j) (s ! Suc j) (\<lambda>p. emit (js0 ! p) (xs0 ! p)) (q, is, xs)
          in (c + 1, q', cs[c := q], is, xs)) st
   = fold (emit_lane (lane s js0 xs0)) (kept marker n) st"
  by (induction n) (auto simp: kept_Suc kept_def emit_lane_def for_range_lane [where g = emit] split: prod.split)

lemma remove_columns_spec:
  assumes wf: "csc_wf A"
  shows "csc_wf (remove_columns marker A)"
    and "csc_n (remove_columns marker A) = length (kept marker (csc_n A))"
    and "csc_m (remove_columns marker A) = csc_m A"
    and "k < length (kept marker (csc_n A)) \<Longrightarrow>
         csc_col (remove_columns marker A) k = csc_col A (kept marker (csc_n A) ! k)"
proof -
  let ?ks = "kept marker (csc_n A)" and ?L = "csc_col A"
  let ?N = "length (concat (map ?L ?ks))"
  obtain q cs js xs where e:
    "fold (emit_lane ?L) ?ks (0, 0, replicate (length ?ks + 1) 0, replicate ?N 0, replicate ?N 0)
       = (length ?ks, q, cs, js, xs)"
    "assembled (map ?L ?ks) cs q js xs" "length cs = length ?ks + 1" "length js = ?N" "length xs = ?N"
    using emit_lanes [of ?L ?ks "replicate ?N 0" "replicate ?N 0" "replicate (length ?ks + 1) 0"] by auto
  have R: "remove_columns marker A =
      A\<lparr>col_start := cs[length ?ks := q], csc_i := js, csc_x := xs, csc_n := length ?ks\<rparr>"
    unfolding remove_columns_def emit_kept count_kept [of _ marker "col_start A" "csc_i A" "csc_x A"]
    by (simp only: Let_def prod.case e)
  have a: "assembled (map ?L ?ks) (cs[length ?ks := q]) q js xs"
    using e(2) by (auto simp: assembled_def)
  have fin: "cs[length ?ks := q] ! length (map ?L ?ks) = q" using e(3) by simp
  show "csc_n (remove_columns marker A) = length ?ks" "csc_m (remove_columns marker A) = csc_m A"
    by (simp_all add: R)
  show "csc_col (remove_columns marker A) k = csc_col A (?ks ! k)" if "k < length ?ks"
    using assembled_lane [OF a fin] that by (simp add: R)
  have "\<forall>l \<in> set (map ?L ?ks). \<forall>e \<in> set l. fst e < csc_m A"
    using wf lane_fst_less by (auto simp: csc_wf_def kept_def)
  then show "csc_wf (remove_columns marker A)"
    using assembled_wf [OF a fin] e(3) by (simp add: R csc_wf_def)
qed

lemma remove_rows_spec:
  assumes wf: "csr_wf A"
  shows "csr_wf (remove_rows marker A B)"
    and "csr_m (remove_rows marker A B) = length (kept marker (csr_m A))"
    and "csr_n (remove_rows marker A B) = csr_n A"
    and "k < length (kept marker (csr_m A)) \<Longrightarrow>
         csr_row (remove_rows marker A B) k = csr_row A (kept marker (csr_m A) ! k)"
proof -
  let ?ks = "kept marker (csr_m A)" and ?L = "csr_row A"
  let ?N = "length (concat (map ?L ?ks))" and ?k = "length (kept marker (csr_m A))"
  note cr = count_removed [OF wf [unfolded csr_wf_def] order_refl, of marker]
  have sizes: "csr_m A - (csr_m A - ?k) = ?k"
    "row_start A ! csr_m A - (row_start A ! csr_m A - ?N) = ?N"
    using length_kept [of marker "csr_m A"] cr by simp_all
  obtain q cs js xs where e:
    "fold (emit_lane ?L) ?ks (0, 0, resize (?k + 1) 0 (row_start B), resize ?N 0 (csr_j B), resize ?N 0 (csr_x B))
       = (?k, q, cs, js, xs)"
    "assembled (map ?L ?ks) cs q js xs" "length cs = ?k + 1"
    using emit_lanes [of ?L ?ks "resize ?N 0 (csr_j B)" "resize ?N 0 (csr_x B)" "resize (?k + 1) 0 (row_start B)"]
    by auto
  have q: "q = ?N" using e(2) by (simp add: assembled_def)
  have R: "remove_rows marker A B =
      B\<lparr>csr_n := csr_n A, csr_m := ?k, row_start := cs[?k := q], csr_j := js, csr_x := xs\<rparr>"
    unfolding remove_rows_def emit_kept cr [THEN conjunct1]
    by (simp only: Let_def prod.case e sizes q)
  have a: "assembled (map ?L ?ks) (cs[?k := q]) q js xs"
    using e(2) by (auto simp: assembled_def)
  have fin: "cs[?k := q] ! length (map ?L ?ks) = q" using e(3) by simp
  show "csr_m (remove_rows marker A B) = ?k" "csr_n (remove_rows marker A B) = csr_n A"
    by (simp_all add: R)
  show "csr_row (remove_rows marker A B) k = csr_row A (?ks ! k)" if "k < ?k"
    using assembled_lane [OF a fin] that by (simp add: R)
  have "\<forall>l \<in> set (map ?L ?ks). \<forall>e \<in> set l. fst e < csr_n A"
    using wf lane_fst_less by (auto simp: csr_wf_def kept_def)
  then show "csr_wf (remove_rows marker A B)"
    using assembled_wf [OF a fin] e(3) by (simp add: R csr_wf_def)
qed

subsection \<open>Permuted matrices\<close>

abbreviation relabel :: "idx list \<Rightarrow> (idx \<times> 'f) list \<Rightarrow> (idx \<times> 'f) list" where
  "relabel pinv l \<equiv> map (\<lambda>(r, v). (pinv ! r, v)) l"

lemma emit_relabelled:
  "for_range (s ! j) (s ! Suc j) (\<lambda>p. emit (pinv ! (js ! p)) (xs ! p)) st
   = emit_all (relabel pinv (lane s js xs j)) st"
  by (subst for_range_lane [where g = "\<lambda>r. emit (pinv ! r)"]) (simp add: fold_map comp_def split_def)

lemma permute_rows_eq:
  "permute_rows pinv A C = permute_rows_and_cols pinv [0..<csc_n A] A C"
  by (simp add: permute_rows_def permute_rows_and_cols_def Let_def cong: if_cong)

lemma permute_rows_and_cols_spec:
  assumes wf: "csc_wf A" and pinv: "is_perm (csc_m A) pinv" and q: "is_perm (csc_n A) q"
    and C: "csc_m C = csc_m A" "csc_n C = csc_n A" "length (col_start C) = csc_n A + 1"
  shows "csc_wf (permute_rows_and_cols pinv q A C)"
    and "csc_n (permute_rows_and_cols pinv q A C) = csc_n A"
    and "csc_m (permute_rows_and_cols pinv q A C) = csc_m A"
    and "k < csc_n A \<Longrightarrow>
         csc_col (permute_rows_and_cols pinv q A C) k = relabel pinv (csc_col A (q ! k))"
proof -
  let ?n = "csc_n A" and ?L = "\<lambda>k. relabel pinv (csc_col A (q ! k))"
  let ?nz = "col_start A ! ?n"
  have "length (concat (map ?L [0..<?n])) = length (concat (map (csc_col A) (map ((!) q) [0..<?n])))"
    by (simp add: length_concat comp_def)
  also have "map ((!) q) [0..<?n] = q" using q map_nth [of q] by (simp add: is_perm_def)
  also have "length (concat (map (csc_col A) q)) = ?nz"
    using length_concat_perm [OF q, of "csc_col A"] length_lanes [OF wf [unfolded csc_wf_def] order_refl]
    by (rule trans)
  finally have N: "length (concat (map ?L [0..<?n])) = ?nz" .
  obtain nz cs js xs where e:
    "for_range 0 ?n (\<lambda>j (q, cs, is, xs).
       let (q', is, xs) = emit_all (?L j) (q, is, xs) in (q', cs[j := q], is, xs))
       (0, col_start C, resize ?nz 0 (csc_i C), resize ?nz 0 (csc_x C)) = (nz, cs, js, xs)"
    "assembled (map ?L [0..<?n]) cs nz js xs" "length cs = length (col_start C)"
    by (rule emit_lanes_indexed [of ?L ?n "resize ?nz 0 (csc_i C)" "resize ?nz 0 (csc_x C)" "col_start C"])
      (use N C in auto)
  have R: "permute_rows_and_cols pinv q A C =
      C\<lparr>csc_nz_max := ?nz, col_start := cs[?n := nz], csc_i := js, csc_x := xs\<rparr>"
    using e(1) unfolding permute_rows_and_cols_def
    by (simp add: emit_relabelled reallocate_def Let_def)
  have a: "assembled (map ?L [0..<?n]) (cs[?n := nz]) nz js xs"
    using e(2) by (auto simp: assembled_def)
  have fin: "cs[?n := nz] ! length (map ?L [0..<?n]) = nz" using e(3) C by simp
  show "csc_n (permute_rows_and_cols pinv q A C) = ?n" "csc_m (permute_rows_and_cols pinv q A C) = csc_m A"
    by (simp_all add: R C)
  show "csc_col (permute_rows_and_cols pinv q A C) k = ?L k" if "k < ?n"
    using assembled_lane [OF a fin] that by (simp add: R)
  have "\<forall>e \<in> set (?L k). fst e < csc_m A" if "k < ?n" for k
    using is_perm_nth [OF pinv] lane_fst_less [OF wf [unfolded csc_wf_def]] is_perm_nth [OF q that]
    by (fastforce simp: case_prod_beta)
  then have "\<forall>l \<in> set (map ?L [0..<?n]). \<forall>e \<in> set l. fst e < csc_m A" by auto
  then show "csc_wf (permute_rows_and_cols pinv q A C)"
    using assembled_wf [OF a fin] e(3) C by (simp add: R csc_wf_def)
qed

lemma lane_sum_relabel:
  assumes "is_perm m pinv" "\<forall>e \<in> set l. fst e < m" "i < m"
  shows "lane_sum (relabel pinv l) (pinv ! i) = lane_sum l i"
  using assms(2) by (induction l) (auto simp: is_perm_inj [OF assms(1) _ assms(3)])

subsection \<open>Compacting in place\<close>

text \<open>Reading entry \<open>p\<close> and writing at \<open>q \<le> p\<close> of the same vectors equals emitting what was there.\<close>

lemma compact:
  fixes f :: "'a \<times> 'f \<Rightarrow> ('a \<times> 'f) option"
  assumes "q \<le> a" "a \<le> b" "b \<le> length js" "b \<le> length xs"
  defines "es \<equiv> \<lambda>b. List.map_filter f (map (\<lambda>p. (js ! p, xs ! p)) [a..<b])"
  shows "for_range a b (\<lambda>p (q, js, xs). case f (js ! p, xs ! p) of None \<Rightarrow> (q, js, xs)
            | Some (i, v) \<Rightarrow> emit i v (q, js, xs)) (q, js, xs) = emit_all (es b) (q, js, xs)
       \<and> q + length (es b) \<le> b"
proof -
  let ?st = "\<lambda>b. emit_all (es b) (q, js, xs)"
  have len: "length (es b) \<le> b - a" for b
    by (induction b) (auto simp: es_def List.map_filter_def Suc_diff_le)
  have "for_range a b' (\<lambda>p (q, js, xs). case f (js ! p, xs ! p) of None \<Rightarrow> (q, js, xs)
            | Some (i, v) \<Rightarrow> emit i v (q, js, xs)) (q, js, xs) = ?st b'"
    if "a \<le> b'" "b' \<le> b" for b'
    using that
  proof (induction b' rule: dec_induct)
    case base
    then show ?case by (simp add: es_def List.map_filter_def)
  next
    case (step k)
    have fits: "q + length (es k) \<le> k" using len [of k] step assms by simp
    have bounds: "q + length (es k) \<le> length js" "q + length (es k) \<le> length xs"
      using fits step.prems assms(3,4) by simp_all
    have st: "?st k = (q + length (es k), take q js @ map fst (es k) @ drop (q + length (es k)) js,
        take q xs @ map snd (es k) @ drop (q + length (es k)) xs)"
      by (rule emit_all_eq [OF bounds])
    have r1: "(take q js @ map fst (es k) @ drop (q + length (es k)) js) ! k = js ! k"
      using nth_overwrite [of q "map fst (es k)" k js] fits step.prems assms(3) by simp
    have r2: "(take q xs @ map snd (es k) @ drop (q + length (es k)) xs) ! k = xs ! k"
      using nth_overwrite [of q "map snd (es k)" k xs] fits step.prems assms(4) by simp
    have es: "es (Suc k) = es k @ (case f (js ! k, xs ! k) of None \<Rightarrow> [] | Some e \<Rightarrow> [e])"
      using step(1) by (simp add: es_def List.map_filter_def split: option.split)
    show ?case
      using step by (simp add: st r1 r2 es split: option.split)
  qed
  moreover have "q + length (es b) \<le> b" using len [of b] assms by simp
  ultimately show ?thesis using assms(2) by simp
qed

abbreviation compact_step :: "('a \<times> 'f \<Rightarrow> ('a \<times> 'f) option) \<Rightarrow> idx \<Rightarrow>
    idx \<times> 'a list \<times> 'f list \<Rightarrow> idx \<times> 'a list \<times> 'f list" where
  "compact_step f p \<equiv> (\<lambda>(q, js, xs). case f (js ! p, xs ! p) of None \<Rightarrow> (q, js, xs)
            | Some (i, v) \<Rightarrow> emit i v (q, js, xs))"

text \<open>The state of an in-place compaction before it reads position \<open>a\<close> of the original vectors.\<close>

definition compacted ::
  "('a \<times> 'f) list list \<Rightarrow> idx list \<Rightarrow> 'a list \<Rightarrow> 'f list \<Rightarrow> idx \<Rightarrow> idx \<Rightarrow> 'a list \<Rightarrow> 'f list \<Rightarrow> bool" where
  "compacted cols cs js0 xs0 a q js xs \<longleftrightarrow>
     assembled cols cs q js xs \<and> q \<le> a \<and> (\<forall>p\<ge>a. js ! p = js0 ! p \<and> xs ! p = xs0 ! p) \<and>
     length js = length js0 \<and> length xs = length xs0"

lemma compacted_snoc:
  fixes js0 :: "idx list"
  assumes C: "compacted cols cs js0 xs0 (s ! j) q js xs" and wf: "lanes_wf n m s js0 xs0" "j < n"
    and k: "k = length cols" "k < length cs"
    and run: "for_range (s ! j) (s ! Suc j) (compact_step f) (q, js, xs) = (q', js', xs')"
  shows "compacted (cols @ [List.map_filter f (lane s js0 xs0 j)]) (cs[k := q]) js0 xs0 (s ! Suc j) q' js' xs'"
proof -
  let ?es = "List.map_filter f (lane s js0 xs0 j)"
  have mono: "s ! j \<le> s ! Suc j" "s ! Suc j \<le> s ! n"
    using lanes_wf_start [OF wf(1)] wf(2) by simp_all
  have b: "s ! Suc j \<le> length js" "s ! Suc j \<le> length xs"
    using C mono wf(1) by (auto simp: compacted_def lanes_wf_def)
  have es: "List.map_filter f (map (\<lambda>p. (js ! p, xs ! p)) [s ! j..<s ! Suc j]) = ?es"
    using C by (auto simp: compacted_def lane_def intro: arg_cong [where f = "List.map_filter f"])
  have "q \<le> s ! j" using C by (simp add: compacted_def)
  note c = compact [OF this mono(1) b, where f = f, unfolded es run]
  then have e: "emit_all ?es (q, js, xs) = (q', js', xs')" and fit: "q + length ?es \<le> s ! Suc j"
    by simp_all
  have fits: "q + length ?es \<le> length js" "q + length ?es \<le> length xs" using fit b by simp_all
  have "assembled cols cs q js xs" using C by (simp add: compacted_def)
  note a = assembled_snoc [OF this k fits e]
  have "q' = q + length ?es \<and> js' = take q js @ map fst ?es @ drop q' js \<and>
      xs' = take q xs @ map snd ?es @ drop q' xs"
    using e emit_all_eq [OF fits] by auto
  moreover have "q' = q + length ?es" using e emit_all_eq [OF fits] by auto
  ultimately have "q' \<le> s ! Suc j" "\<forall>p\<ge>s ! Suc j. js' ! p = js ! p \<and> xs' ! p = xs ! p"
    using fit fits nth_overwrite [of q "map fst ?es" _ js] nth_overwrite [of q "map snd ?es" _ xs] by auto
  then show ?thesis using a C mono by (auto simp: compacted_def)
qed

lemma compacted_lane:
  assumes "compacted cols cs js0 xs0 a q js xs" "k < length cols" "length cols < length cs"
  shows "lane (cs[length cols := q]) js xs k = cols ! k"
proof (rule assembled_lane [OF _ _ assms(2)])
  show "assembled cols (cs[length cols := q]) q js xs"
    using assms(1) by (auto simp: compacted_def assembled_def)
qed (use assms(3) in simp)

definition drop_row :: "idx \<Rightarrow> idx \<times> 'f \<Rightarrow> (idx \<times> 'f) option" where
  "drop_row row = (\<lambda>(i, v). if i = row then None else Some (if i > row then i - 1 else i, v))"

lemma remove_row_spec:
  assumes wf: "csc_wf A" and k: "k < csc_n A"
  shows "csc_col (remove_row row A) k = List.map_filter (drop_row row) (csc_col A k)"
    and "csc_wf (remove_row row A)" "csc_n (remove_row row A) = csc_n A" "csc_m (remove_row row A) = csc_m A"
proof -
  let ?L = "\<lambda>j. List.map_filter (drop_row row) (csc_col A j)" and ?s = "col_start A"
  let ?body = "\<lambda>j (q, ncs, is, xs). let ncs = ncs[j := q];
      (q, is, xs) = for_range (?s ! j) (?s ! Suc j) (compact_step (drop_row row)) (q, is, xs)
    in (q, ncs, is, xs)"
  let ?st = "for_range 0 (csc_n A) ?body (0, replicate (csc_n A + 1) 0, csc_i A, csc_x A)"
  note lw = wf [unfolded csc_wf_def]
  have "case ?st of (q, ncs, js, xs) \<Rightarrow> length ncs = csc_n A + 1 \<and>
      compacted (map ?L [0..<csc_n A]) ncs (csc_i A) (csc_x A) (?s ! csc_n A) q js xs"
  proof (rule for_range_inv [where P = "\<lambda>j st. case st of (q, ncs, js, xs) \<Rightarrow> length ncs = csc_n A + 1 \<and>
      compacted (map ?L [0..<j]) ncs (csc_i A) (csc_x A) (?s ! j) q js xs"])
    show "case (0, replicate (csc_n A + 1) 0, csc_i A, csc_x A) of (q, ncs, js, xs) \<Rightarrow>
        length ncs = csc_n A + 1 \<and>
        compacted (map ?L [0..<0]) ncs (csc_i A) (csc_x A) (?s ! 0) q js xs"
      by (simp add: compacted_def)
  next
    fix j st
    assume j: "j < csc_n A" and inv: "case st of (q, ncs, js, xs) \<Rightarrow> length ncs = csc_n A + 1 \<and>
        compacted (map ?L [0..<j]) ncs (csc_i A) (csc_x A) (?s ! j) q js xs"
    obtain q ncs js xs where st: "st = (q, ncs, js, xs)" by (rule prod_cases4)
    obtain q' js' xs' where
      run: "for_range (?s ! j) (?s ! Suc j) (compact_step (drop_row row)) (q, js, xs) = (q', js', xs')"
      by (rule prod_cases3)
    show "case ?body j st of (q, ncs, js, xs) \<Rightarrow> length ncs = csc_n A + 1 \<and>
        compacted (map ?L [0..<Suc j]) ncs (csc_i A) (csc_x A) (?s ! Suc j) q js xs"
      using compacted_snoc [OF _ lw j _ _ run, of "map ?L [0..<j]" ncs j] inv j
      by (simp add: st run)
  qed simp
  then obtain q ncs js xs where e: "?st = (q, ncs, js, xs)" "length ncs = csc_n A + 1"
    "compacted (map ?L [0..<csc_n A]) ncs (csc_i A) (csc_x A) (?s ! csc_n A) q js xs"
    by (cases ?st) auto
  have step: "(\<lambda>(q, is, xs). let i = is ! p in if i = row then (q, is, xs)
      else if i > row then emit (i - 1) (xs ! p) (q, is, xs) else emit i (xs ! p) (q, is, xs))
      = compact_step (drop_row row) p" for p
    by (auto simp: drop_row_def Let_def fun_eq_iff)
  have "remove_row row A = A\<lparr>csc_i := js, csc_x := xs, col_start := ncs[csc_n A := q]\<rparr>"
    unfolding remove_row_def step using e(1) by (simp add: Let_def)
  note R = this
  show "csc_col (remove_row row A) k = ?L k"
    using compacted_lane [OF e(3), of k] e(2) k R by simp
  show "csc_n (remove_row row A) = csc_n A" "csc_m (remove_row row A) = csc_m A"
    by (simp_all add: R)
  have "\<forall>l \<in> set (map ?L [0..<csc_n A]). \<forall>e \<in> set l. fst e < csc_m A"
    using lane_fst_less [OF lw] by (fastforce simp: drop_row_def List.map_filter_def split: if_splits)
  moreover have "assembled (map ?L [0..<csc_n A]) (ncs[csc_n A := q]) q js xs"
    using e(3) by (auto simp: compacted_def assembled_def)
  ultimately show "csc_wf (remove_row row A)"
    using assembled_wf [of "map ?L [0..<csc_n A]" "ncs[csc_n A := q]" q js xs "csc_m A"] e(2)
    by (simp add: R csc_wf_def)
qed

lemma lane_sum_drop_row:
  "lane_sum (List.map_filter (drop_row row) l) r = lane_sum l (if r < row then r else r + 1)"
  by (induction l) (auto simp: map_filter_simps drop_row_def split: if_splits)

lemma assembled_prefix:
  assumes "lanes_wf n m s js xs" "k \<le> n"
  shows "assembled (map (lane s js xs) [0..<k]) s (s ! k) js xs"
proof -
  have t: "map (\<lambda>p. (js ! p, xs ! p)) [0..<s ! k] = concat (map (lane s js xs) [0..<k])"
    using lane_entries_positions [OF assms]
    by (simp add: lane_entries_def map_concat comp_def case_prod_beta)
  have k: "s ! k \<le> length js" "s ! k \<le> length xs"
    using lanes_wf_start [OF assms(1,2)] assms(1) by (auto simp: lanes_wf_def)
  have "take (s ! k) js = map fst (concat (map (lane s js xs) [0..<k]))"
    "take (s ! k) xs = map snd (concat (map (lane s js xs) [0..<k]))"
    unfolding t [symmetric] using k by (auto simp: comp_def intro!: nth_equalityI)
  moreover have "s ! t = length (concat (take t (map (lane s js xs) [0..<k])))" if "t < k" for t
    using length_lanes [OF assms(1), of t] that assms(2) by (simp add: take_map)
  ultimately show ?thesis
    using k length_lanes [OF assms] by (simp add: assembled_def)
qed

lemma map_filter_Some [simp]: "List.map_filter Some xs = xs"
  by (induction xs) (auto simp: List.map_filter_def)

lemma remove_column_spec:
  assumes wf: "csc_wf A" and col: "col < csc_n A" and t: "t < csc_n A - 1"
  shows "csc_col (remove_column col A) t = csc_col A (if t < col then t else t + 1)"
proof -
  let ?L = "csc_col A" and ?s = "col_start A" and ?n = "csc_n A"
  let ?cols = "\<lambda>k. map ?L [0..<col] @ map ?L [col + 1..<k]"
  let ?body = "\<lambda>k (q, cs, is, xs). let cs = cs[k - 1 := q];
      (q, is, xs) = for_range (cs ! k) (cs ! Suc k) (compact_step Some) (q, is, xs)
    in (q, cs, is, xs)"
  let ?st = "for_range (col + 1) ?n ?body (?s ! col, ?s, csc_i A, csc_x A)"
  let ?P = "\<lambda>k st. case st of (q, cs, js, xs) \<Rightarrow> length cs = ?n + 1 \<and> (\<forall>t\<ge>k. cs ! t = ?s ! t) \<and>
      compacted (?cols k) cs (csc_i A) (csc_x A) (?s ! k) q js xs"
  note lw = wf [unfolded csc_wf_def]
  have "?P ?n ?st"
  proof (rule for_range_inv [where P = ?P])
    show "?P (col + 1) (?s ! col, ?s, csc_i A, csc_x A)"
      using assembled_prefix [OF lw, of col] lanes_wf_start [OF lw, of col "Suc col"] col lw
      by (simp add: compacted_def lanes_wf_def)
  next
    fix k st
    assume k: "col + 1 \<le> k" "k < ?n" and inv: "?P k st"
    obtain q cs js xs where st: "st = (q, cs, js, xs)" by (rule prod_cases4)
    obtain q' js' xs' where
      run: "for_range (?s ! k) (?s ! Suc k) (compact_step Some) (q, js, xs) = (q', js', xs')"
      by (rule prod_cases3)
    have rd: "cs[k - 1 := q] ! k = ?s ! k" "cs[k - 1 := q] ! Suc k = ?s ! Suc k"
      using inv k by (auto simp: st)
    show "?P (Suc k) (?body k st)"
      using compacted_snoc [OF _ lw k(2) _ _ run, of "?cols k" cs "k - 1"] inv k
      by (simp add: st run [simplified] rd)
  qed (use col in simp)
  then obtain q cs js xs where e: "?st = (q, cs, js, xs)" "length cs = ?n + 1"
    "compacted (?cols ?n) cs (csc_i A) (csc_x A) (?s ! ?n) q js xs"
    by (cases ?st) auto
  have step: "(\<lambda>(q, is, xs). emit (is ! p) (xs ! p) (q, is, xs)) = compact_step Some p" for p
    by (auto simp: fun_eq_iff)
  have R: "remove_column col A = A\<lparr>csc_i := js, csc_x := xs, col_start := cs[?n - 1 := q]\<rparr>"
    unfolding remove_column_def step using e(1) by (simp add: Let_def)
  have "length (?cols ?n) = ?n - 1" using col by simp
  then show ?thesis
    using compacted_lane [OF e(3), of t] e(2) t col by (auto simp: R nth_append)
qed

subsection \<open>Properties\<close>

text \<open>Removing the marked columns of a well-formed matrix keeps it well-formed, keeps the
  number of rows, and leaves exactly the unmarked columns, unchanged and in their order.\<close>

theorem remove_columns_correct:
  assumes "csc_wf A"
  shows "csc_wf (remove_columns marker A) \<and> csc_m (remove_columns marker A) = csc_m A \<and>
    csc_n (remove_columns marker A) = length (kept marker (csc_n A)) \<and>
    (\<forall>k<csc_n (remove_columns marker A).
       csc_col (remove_columns marker A) k = csc_col A (kept marker (csc_n A) ! k))"
  using remove_columns_spec [OF assms] by simp

theorem remove_columns_correct_witness:
  "csc_col (remove_columns [0, 1, 0] ex_A) 1 = [(0, 40)]"
proof -
  have "kept [0, 1, 0] (csc_n ex_A) = [0, 2]" "csc_col ex_A 2 = [(0, 40)]" by code_simp+
  then show ?thesis using remove_columns_correct [OF ex_A_wf, of "[0, 1, 0]"] by simp
qed

text \<open>Removing the marked rows of a well-formed row matrix, into any output matrix, gives a
  well-formed matrix with the same columns and exactly the unmarked rows in their order.\<close>

theorem remove_rows_correct:
  assumes "csr_wf A"
  shows "csr_wf (remove_rows marker A B) \<and> csr_n (remove_rows marker A B) = csr_n A \<and>
    csr_m (remove_rows marker A B) = length (kept marker (csr_m A)) \<and>
    (\<forall>k<csr_m (remove_rows marker A B).
       csr_row (remove_rows marker A B) k = csr_row A (kept marker (csr_m A) ! k))"
  using remove_rows_spec [OF assms] by simp

theorem remove_rows_correct_witness:
  "csr_row (remove_rows [1, 0] (to_compressed_row ex_A csr_new) csr_new) 0 = [(0, 20), (1, 30)]"
proof -
  have "csr_wf (to_compressed_row ex_A csr_new)" by code_simp
  note remove_rows_correct [OF this, of "[1, 0]" csr_new]
  moreover have "kept [1, 0] (csr_m (to_compressed_row ex_A csr_new)) = [1]"
    "csr_row (to_compressed_row ex_A csr_new) 1 = [(0, 20), (1, 30)]" by code_simp+
  ultimately show ?thesis by simp
qed

text \<open>Permuting rows (by the inverse permutation) and columns of a well-formed matrix gives a
  well-formed matrix whose entry in row pinv[i] and column k is the entry of row i and column q[k];
  permuting rows alone is the special case of the identical column permutation.\<close>

theorem permute_correct:
  assumes "csc_wf A" "is_perm (csc_m A) pinv" "is_perm (csc_n A) q"
    and "csc_m C = csc_m A" "csc_n C = csc_n A" "length (col_start C) = csc_n A + 1"
  shows "csc_wf (permute_rows_and_cols pinv q A C) \<and>
    (\<forall>i<csc_m A. \<forall>k<csc_n A.
       csc_dense (permute_rows_and_cols pinv q A C) (pinv ! i) k = csc_dense A i (q ! k)) \<and>
    permute_rows pinv A C = permute_rows_and_cols pinv [0..<csc_n A] A C"
proof -
  note spec = permute_rows_and_cols_spec [OF assms]
  have "csc_dense (permute_rows_and_cols pinv q A C) (pinv ! i) k = csc_dense A i (q ! k)"
    if "i < csc_m A" "k < csc_n A" for i k
    using that lane_fst_less [OF assms(1) [unfolded csc_wf_def] is_perm_nth [OF assms(3)]]
    by (simp add: csc_dense_def spec(4) lane_sum_relabel [OF assms(2)])
  then show ?thesis using spec(1) permute_rows_eq by blast
qed

theorem permute_correct_witness:
  "csc_dense (permute_rows_and_cols [1, 0] [2, 0, 1] ex_A (csc_new 2 3 0)) 1 0 = 40"
proof -
  have *: "is_perm (csc_m ex_A) [1, 0]" "is_perm (csc_n ex_A) [2, 0, 1]"
    "csc_m (csc_new 2 3 0 :: int csc_matrix) = csc_m ex_A" "csc_n (csc_new 2 3 0 :: int csc_matrix) = csc_n ex_A"
    "length (col_start (csc_new 2 3 0 :: int csc_matrix)) = csc_n ex_A + 1" by code_simp+
  have "csc_dense ex_A 0 2 = 40" "csc_m ex_A = 2" "csc_n ex_A = 3" by code_simp+
  then show ?thesis
    using permute_correct [OF ex_A_wf *, THEN conjunct2, THEN conjunct1, THEN spec, of 0] by auto
qed

text \<open>Removing a row and then a column in place leaves the minor of the matrix: every entry
  that is not in the removed row or column, moved up or left past the gap.\<close>

theorem remove_row_column_minor:
  assumes "csc_wf A" "col < csc_n A" "c < csc_n A - 1"
  shows "csc_dense (remove_column col (remove_row row A)) r c =
         csc_dense A (if r < row then r else r + 1) (if c < col then c else c + 1)"
proof -
  let ?B = "remove_row row A" and ?c = "if c < col then c else c + 1"
  note n = remove_row_spec(2-4) [OF assms(1) order.strict_trans1 [OF le0 assms(2)], of row]
  have "csc_col (remove_column col ?B) c = csc_col ?B ?c"
    using remove_column_spec [OF n(1)] assms(2,3) n(2) by simp
  also have "\<dots> = List.map_filter (drop_row row) (csc_col A ?c)"
    using assms(3) by (intro remove_row_spec(1) [OF assms(1)]) auto
  finally show ?thesis by (simp add: csc_dense_def lane_sum_drop_row)
qed

theorem remove_row_column_minor_witness:
  "csc_dense (remove_column 0 (remove_row 0 ex_A)) 0 0 = 30"
proof -
  have "0 < csc_n ex_A" "0 < csc_n ex_A - 1" "csc_dense ex_A 1 1 = 30" by code_simp+
  then show ?thesis using remove_row_column_minor [OF ex_A_wf, of 0 0 0 0] by simp
qed

end
