(* ===== verification/Sparse_Product.thy ===== *)
theory Sparse_Product
  imports Sparse_Assemble
begin

text \<open>
  The sparse matrix product and sum of \<open>sparse_matrix.cpp\<close> (\<open>scatter\<close>, \<open>multiply\<close>, \<open>add\<close>).
  \<open>scatter\<close> adds a multiple of a column of \<open>A\<close> to a sparse accumulator: a dense value vector
  \<open>x\<close>, a mark per row telling whether the row is already in the pattern of the current column,
  and the pattern itself, which grows at the end of \<open>C.i\<close>. \<open>scattered\<close> is the invariant of the
  accumulator; it is indifferent to the stale values and marks that earlier columns leave behind.
\<close>

subsection \<open>Definitions\<close>

definition scatter ::
  "('f :: comm_ring_1) csc_matrix \<Rightarrow> idx \<Rightarrow> 'f \<Rightarrow> nat \<Rightarrow> idx list \<times> 'f vec \<times> 'f csc_matrix \<times> idx
   \<Rightarrow> idx list \<times> 'f vec \<times> 'f csc_matrix \<times> idx" where
  "scatter A j beta mark st =
     for_range (col_start A ! j) (col_start A ! Suc j) (\<lambda>p (ws, x, C, nz).
       let i = csc_i A ! p in
       if ws ! i < mark
       then (ws[i := mark], x[i := beta * csc_x A ! p], C\<lparr>csc_i := (csc_i C)[nz := i]\<rparr>, nz + 1)
       else (ws, x[i := x ! i + beta * csc_x A ! p], C, nz)) st"

definition multiply :: "('f :: comm_ring_1) csc_matrix \<Rightarrow> 'f csc_matrix \<Rightarrow> 'f csc_matrix \<Rightarrow> 'f csc_matrix" where
  "multiply A B C =
     (let m = csc_m A; n = csc_n B; workspace = replicate m 0; x = replicate m 0;
          C = reallocate (csc_nz_max A + csc_nz_max B) C;
          (ws, x, C, nz) = for_range 0 n (\<lambda>j (ws, x, C, nz).
            let C = (if nz + m > csc_nz_max C then reallocate (2 * csc_nz_max C + m) C else C);
                C = C\<lparr>col_start := (col_start C)[j := nz]\<rparr>;
                (ws, x, C, nz) = for_range (col_start B ! j) (col_start B ! Suc j)
                  (\<lambda>p. scatter A (csc_i B ! p) (csc_x B ! p) (j + 1)) (ws, x, C, nz);
                C = for_range (col_start C ! j) nz
                  (\<lambda>p C. C\<lparr>csc_x := (csc_x C)[p := x ! (csc_i C ! p)]\<rparr>) C
            in (ws, x, C, nz)) (workspace, x, C, 0)
      in reallocate nz (C\<lparr>col_start := (col_start C)[n := nz]\<rparr>))"

definition add_csc ::
  "('f :: comm_ring_1) csc_matrix \<Rightarrow> 'f csc_matrix \<Rightarrow> 'f \<Rightarrow> 'f \<Rightarrow> 'f csc_matrix \<Rightarrow> 'f csc_matrix" where
  "add_csc A B alpha beta C =
     (let m = csc_m A; n = csc_n B; workspace = replicate m 0; x = replicate m 0;
          C = reallocate (col_start A ! n + col_start B ! n) C;
          (ws, x, C, nz) = for_range 0 n (\<lambda>j (ws, x, C, nz).
            let C = C\<lparr>col_start := (col_start C)[j := nz]\<rparr>;
                (ws, x, C, nz) = scatter A j alpha (j + 1) (ws, x, C, nz);
                (ws, x, C, nz) = scatter B j beta (j + 1) (ws, x, C, nz);
                C = for_range (col_start C ! j) nz
                  (\<lambda>p C. C\<lparr>csc_x := (csc_x C)[p := x ! (csc_i C ! p)]\<rparr>) C
            in (ws, x, C, nz)) (workspace, x, C, 0)
      in reallocate nz (C\<lparr>col_start := (col_start C)[n := nz]\<rparr>))"

subsection \<open>The sparse accumulator\<close>

definition scatter_entry ::
  "nat \<Rightarrow> idx \<times> 'f \<Rightarrow> idx list \<times> 'f vec \<times> ('f :: comm_ring_1) csc_matrix \<times> idx
   \<Rightarrow> idx list \<times> 'f vec \<times> 'f csc_matrix \<times> idx" where
  "scatter_entry mark e = (\<lambda>(ws, x, C, nz). let (i, v) = e in
     if ws ! i < mark then (ws[i := mark], x[i := v], C\<lparr>csc_i := (csc_i C)[nz := i]\<rparr>, nz + 1)
     else (ws, x[i := x ! i + v], C, nz))"

lemma scatter_fold: "scatter A j beta mark st = fold (scatter_entry mark) (scaled beta (csc_col A j)) st"
  by (simp add: scatter_def for_range_def lane_def fold_map comp_def scatter_entry_def Let_def)

definition scattered ::
  "nat \<Rightarrow> nat \<Rightarrow> idx \<Rightarrow> ('f :: comm_ring_1) csc_matrix \<Rightarrow> (idx \<times> 'f) list
   \<Rightarrow> idx list \<times> 'f vec \<times> 'f csc_matrix \<times> idx \<Rightarrow> bool" where
  "scattered m mark s C0 l = (\<lambda>(ws, x, C, nz).
     length ws = m \<and> length x = m \<and> (\<forall>i<m. ws ! i \<le> mark) \<and>
     C\<lparr>csc_i := csc_i C0\<rparr> = C0 \<and> length (csc_i C) = length (csc_i C0) \<and>
     (\<forall>p<s. csc_i C ! p = csc_i C0 ! p) \<and>
     s \<le> nz \<and> distinct (seg (csc_i C) s nz) \<and> set (seg (csc_i C) s nz) = fst ` set l \<and>
     (\<forall>i<m. ws ! i = mark \<longleftrightarrow> i \<in> fst ` set l) \<and>
     (\<forall>i \<in> fst ` set l. x ! i = lane_sum l i))"

lemma scattered_card:
  "scattered m mark s C0 l (ws, x, C, nz) \<Longrightarrow> nz = s + card (fst ` set l)"
  by (auto simp: scattered_def dest: distinct_card)

lemma scattered_step:
  assumes S: "scattered m mark s C0 l (ws, x, C, nz)" and e: "i < m" "nz < length (csc_i C0) \<or> i \<in> fst ` set l"
  shows "scattered m mark s C0 (l @ [(i, v)]) (scatter_entry mark (i, v) (ws, x, C, nz))"
proof (cases "i \<in> fst ` set l")
  case True
  then have "ws ! i = mark" using S e(1) by (simp add: scattered_def)
  with S e(1) True show ?thesis
    by (auto simp: scattered_def scatter_entry_def nth_list_update insert_absorb)
next
  case False
  then have lt: "ws ! i < mark" using S e(1) by (force simp: scattered_def le_less)
  have nz: "nz < length (csc_i C)" using e(2) False S by (simp add: scattered_def)
  have "lane_sum l i = 0" using False by (intro lane_sum_none) force
  moreover have "seg ((csc_i C)[nz := i]) s (Suc nz) = seg (csc_i C) s nz @ [i]"
    using S nz by (auto simp: scattered_def seg_snoc intro!: seg_cong)
  ultimately show ?thesis
    using S e(1) False lt nz
    by (auto simp: scattered_def scatter_entry_def nth_list_update)
qed

lemma scattered_fold:
  assumes "scattered m mark s C0 l st" "\<forall>e \<in> set l'. fst e < m"
    and "s + card (fst ` set (l @ l')) \<le> length (csc_i C0)"
  shows "scattered m mark s C0 (l @ l') (fold (scatter_entry mark) l' st)"
  using assms
proof (induction l' arbitrary: l st)
  case (Cons e l')
  obtain i v ws x C nz where e: "e = (i, v)" "st = (ws, x, C, nz)"
    by (cases e, cases st rule: prod_cases4) auto
  have "nz < length (csc_i C0)" if "i \<notin> fst ` set l"
  proof -
    have "card (insert i (fst ` set l)) \<le> card (fst ` set (l @ e # l'))"
      by (rule card_mono) (auto simp: e)
    then show ?thesis
      using that scattered_card [OF Cons.prems(1) [unfolded e(2)]] Cons.prems(3) by simp
  qed
  then have "scattered m mark s C0 (l @ [e]) (scatter_entry mark e st)"
    using scattered_step [OF Cons.prems(1) [unfolded e(2)], of i v] Cons.prems(2) unfolding e by auto
  from Cons.IH [OF this] Cons.prems show ?case by simp
qed simp

lemma scattered_init:
  assumes "length ws = m" "length x = m" "\<forall>i<m. ws ! i \<le> j"
  shows "scattered m (Suc j) nz C [] (ws, x, C, nz)"
  using assms by (fastforce simp: scattered_def)

subsection \<open>Closing a column\<close>

definition gathered :: "idx list \<Rightarrow> (idx \<times> 'f) list \<Rightarrow> (idx \<times> 'f :: comm_ring_1) list" where
  "gathered pat l = map (\<lambda>i. (i, lane_sum l i)) pat"

lemma lane_sum_gathered:
  assumes "distinct pat" "set pat = fst ` set l"
  shows "lane_sum (gathered pat l) r = lane_sum l r"
proof -
  have "lane_sum (gathered pat l) r = (if r \<in> set pat then lane_sum l r else 0)"
    using assms(1) by (induction pat) (auto simp: gathered_def)
  moreover have "r \<notin> set pat \<Longrightarrow> lane_sum l r = 0"
    using assms(2) by (intro lane_sum_none) force
  ultimately show ?thesis by simp
qed

lemma gather_loop:
  assumes "s \<le> nz" "nz \<le> length (csc_x C)"
  shows "for_range s nz (\<lambda>p C. C\<lparr>csc_x := (csc_x C)[p := x ! (csc_i C ! p)]\<rparr>) C
       = C\<lparr>csc_x := take s (csc_x C) @ map (\<lambda>i. x ! i) (seg (csc_i C) s nz) @ drop nz (csc_x C)\<rparr>"
proof -
  have "for_range s (s + d) (\<lambda>p C. C\<lparr>csc_x := (csc_x C)[p := x ! (csc_i C ! p)]\<rparr>) C
       = C\<lparr>csc_x := take s (csc_x C) @ map (\<lambda>i. x ! i) (seg (csc_i C) s (s + d)) @ drop (s + d) (csc_x C)\<rparr>"
    if "s + d \<le> length (csc_x C)" for d
    using that
  proof (induction d)
    case (Suc d)
    have "drop (s + d) (csc_x C) = csc_x C ! (s + d) # drop (Suc (s + d)) (csc_x C)"
      using Suc.prems by (simp add: Cons_nth_drop_Suc)
    then show ?case
      using Suc by (simp add: seg_snoc list_update_append min_def)
  qed simp
  from this [of "nz - s"] assms show ?thesis by simp
qed

text \<open>The invariant between columns of the two routines, and the step that closes a column.\<close>

definition building ::
  "nat \<Rightarrow> (idx \<times> 'f) list list \<Rightarrow> idx list \<times> 'f vec \<times> ('f :: comm_ring_1) csc_matrix \<times> idx \<Rightarrow> bool" where
  "building m cols = (\<lambda>(ws, x, C, nz).
     length ws = m \<and> length x = m \<and> (\<forall>i<m. ws ! i \<le> length cols) \<and>
     assembled cols (col_start C) nz (csc_i C) (csc_x C) \<and>
     length (csc_i C) = csc_nz_max C \<and> length (csc_x C) = csc_nz_max C)"

definition same_sum :: "nat \<Rightarrow> (idx \<times> 'f :: comm_ring_1) list \<Rightarrow> (idx \<times> 'f) list \<Rightarrow> bool" where
  "same_sum m es l \<longleftrightarrow> distinct (map fst es) \<and> set (map fst es) = fst ` set l \<and>
     (\<forall>r. lane_sum es r = lane_sum l r)"

lemma close_column:
  assumes B: "building m cols (ws, x, C, nz)" and j: "j = length cols" "j < length (col_start C)"
    and l: "\<forall>e \<in> set l. fst e < m" and cap: "nz + card (fst ` set l) \<le> csc_nz_max C"
    and run: "fold (scatter_entry (Suc j)) l (ws, x, C\<lparr>col_start := (col_start C)[j := nz]\<rparr>, nz)
      = (ws', x', C', nz')"
  shows "\<exists>es. same_sum m es l \<and>
    building m (cols @ [es]) (ws', x',
      for_range (col_start C' ! j) nz' (\<lambda>p C. C\<lparr>csc_x := (csc_x C)[p := x' ! (csc_i C ! p)]\<rparr>) C', nz') \<and>
    nz' = nz + card (fst ` set l) \<and> csc_m C' = csc_m C \<and> csc_n C' = csc_n C \<and>
    col_start C' = (col_start C)[j := nz] \<and> csc_nz_max C' = csc_nz_max C"
proof -
  let ?C = "C\<lparr>col_start := (col_start C)[j := nz]\<rparr>"
  have "scattered m (Suc j) nz ?C [] (ws, x, ?C, nz)"
    using B j by (intro scattered_init) (auto simp: building_def)
  from scattered_fold [OF this l]
  have S: "scattered m (Suc j) nz ?C l (ws', x', C', nz')"
    using cap B run by (simp add: building_def)
  have C': "C'\<lparr>csc_i := csc_i C\<rparr> = ?C" using S by (simp add: scattered_def)
  have sel: "csc_m C' = csc_m C" "csc_n C' = csc_n C" "col_start C' = (col_start C)[j := nz]"
    "csc_x C' = csc_x C" "csc_nz_max C' = csc_nz_max C"
    using arg_cong [OF C', of csc_m] arg_cong [OF C', of csc_n] arg_cong [OF C', of col_start]
      arg_cong [OF C', of csc_x] arg_cong [OF C', of csc_nz_max] by simp_all
  have nz': "nz' = nz + card (fst ` set l)" using scattered_card [OF S] .
  let ?pat = "seg (csc_i C') nz nz'"
  let ?es = "gathered ?pat l"
  have P: "distinct ?pat" "set ?pat = fst ` set l" "\<forall>i \<in> fst ` set l. x' ! i = lane_sum l i"
    "length (csc_i C') = csc_nz_max C" "\<forall>p<nz. csc_i C' ! p = csc_i C ! p" "length ws' = m" "length x' = m"
    "\<forall>i<m. ws' ! i \<le> Suc j"
    using S B by (auto simp: scattered_def building_def)
  have fit: "nz' \<le> csc_nz_max C" using cap nz' by simp
  have A: "assembled cols (col_start C) nz (csc_i C) (csc_x C)"
    and len: "length (csc_i C) = csc_nz_max C" "length (csc_x C) = csc_nz_max C"
    using B by (simp_all add: building_def)
  have m1: "map fst ?es = ?pat" "map snd ?es = map (\<lambda>i. x' ! i) ?pat"
    using P(2,3) by (auto simp: gathered_def comp_def)
  let ?x = "take nz (csc_x C) @ map snd ?es @ drop nz' (csc_x C)"
  have tk: "take nz' (csc_i C') = take nz (csc_i C) @ map fst ?es"
    using P(4,5) fit nz' len unfolding m1 by (intro nth_equalityI) (auto simp: nth_append)
  have tx: "take nz' ?x = take nz (csc_x C) @ map snd ?es"
    using fit nz' len m1 by simp
  have "assembled (cols @ [?es]) ((col_start C)[j := nz]) nz' (csc_i C') ?x"
  proof -
    have "length ?es = nz' - nz" by (simp add: gathered_def)
    moreover have "nz = length (concat cols)" "take nz (csc_i C) = map fst (concat cols)"
      "take nz (csc_x C) = map snd (concat cols)"
      "\<forall>k<length cols. col_start C ! k = length (concat (take k cols))"
      using A unfolding assembled_def by blast+
    ultimately show ?thesis
      unfolding assembled_def tk tx using fit nz' len P(4) j
      by (auto simp: nth_list_update less_Suc_eq)
  qed
  moreover have "same_sum m ?es l"
    using P(1,2) lane_sum_gathered [OF P(1,2)] by (simp add: same_sum_def gathered_def comp_def)
  moreover have "for_range (col_start C' ! j) nz' (\<lambda>p C. C\<lparr>csc_x := (csc_x C)[p := x' ! (csc_i C ! p)]\<rparr>) C'
      = C'\<lparr>csc_x := ?x\<rparr>"
    using gather_loop [of nz nz' C' x'] fit nz' len sel j m1 by simp
  ultimately show ?thesis
    using P sel nz' j fit len by (intro exI [of _ ?es]) (auto simp: building_def gathered_def)
qed

lemma building_reallocate:
  assumes "building m cols (ws, x, C, nz)" "nz \<le> k"
  shows "building m cols (ws, x, reallocate k C, nz)"
  using assms by (auto simp: building_def reallocate_def assembled_def resize_def)

text \<open>The state after the first columns of a result whose column \<open>k\<close> has to sum up \<open>L k\<close>.\<close>

definition columns_done ::
  "nat \<Rightarrow> nat \<Rightarrow> (idx \<Rightarrow> (idx \<times> 'f) list) \<Rightarrow> nat \<Rightarrow>
   idx list \<times> 'f vec \<times> ('f :: comm_ring_1) csc_matrix \<times> idx \<Rightarrow> bool" where
  "columns_done m n L j st \<longleftrightarrow> (case st of (ws, x, C, nz) \<Rightarrow>
     csc_m C = m \<and> csc_n C = n \<and> length (col_start C) = Suc n \<and>
     (\<exists>cols. length cols = j \<and> building m cols st \<and> (\<forall>k<j. same_sum m (cols ! k) (L k))))"

lemma columns_done_step:
  assumes D: "columns_done m n L j (ws, x, C, nz)" and j: "j < n"
    and l: "\<forall>e \<in> set (L j). fst e < m" and cap: "nz + card (fst ` set (L j)) \<le> csc_nz_max C"
    and run: "fold (scatter_entry (Suc j)) (L j) (ws, x, C\<lparr>col_start := (col_start C)[j := nz]\<rparr>, nz)
      = (ws', x', C', nz')"
  defines "G \<equiv> for_range (col_start C' ! j) nz' (\<lambda>p C. C\<lparr>csc_x := (csc_x C)[p := x' ! (csc_i C ! p)]\<rparr>) C'"
  shows "columns_done m n L (Suc j) (ws', x', G, nz')"
    and "nz' = nz + card (fst ` set (L j))" "csc_nz_max G = csc_nz_max C"
proof -
  obtain cols where cols: "length cols = j" "building m cols (ws, x, C, nz)"
    "\<forall>k<j. same_sum m (cols ! k) (L k)"
    using D by (auto simp: columns_done_def)
  have jl: "j = length cols" "j < length (col_start C)" using cols D j by (auto simp: columns_done_def)
  obtain es where es: "same_sum m es (L j)" "building m (cols @ [es]) (ws', x', G, nz')"
    "nz' = nz + card (fst ` set (L j))" "csc_m C' = csc_m C" "csc_n C' = csc_n C"
    "col_start C' = (col_start C)[j := nz]" "csc_nz_max C' = csc_nz_max C"
    using close_column [OF cols(2) jl l cap run] unfolding G_def by blast
  have nz: "col_start C' ! j = nz" using es(6) jl by simp
  let ?P = "\<lambda>C. csc_m C = m \<and> csc_n C = n \<and> length (col_start C) = Suc n \<and> csc_nz_max C = csc_nz_max C'"
  have P: "?P G"
    unfolding G_def by (rule for_range_inv_const) (use es D in \<open>auto simp: columns_done_def\<close>)
  have "\<forall>k<Suc j. same_sum m ((cols @ [es]) ! k) (L k)"
    using cols es(1) by (auto simp: nth_append less_Suc_eq)
  then show "columns_done m n L (Suc j) (ws', x', G, nz')"
    unfolding columns_done_def using P es(2) cols(1) by (auto intro!: exI [of _ "cols @ [es]"])
  show "nz' = nz + card (fst ` set (L j))" "csc_nz_max G = csc_nz_max C"
    using es P by simp_all
qed

lemma columns_done_init:
  assumes "csc_m C = m" "csc_n C = n" "length (col_start C) = Suc n"
  shows "columns_done m n L 0 (replicate m 0, x, reallocate k C, 0) \<longleftrightarrow> length x = m"
  using assms by (auto simp: columns_done_def building_def reallocate_def)

lemma columns_done_finish:
  assumes D: "columns_done m n L n (ws, x, C, nz)" and l: "\<forall>k<n. \<forall>e \<in> set (L k). fst e < m"
  defines "R \<equiv> reallocate nz (C\<lparr>col_start := (col_start C)[n := nz]\<rparr>)"
  shows "csc_wf R" "csc_m R = m" "csc_n R = n" "csc_nz_max R = col_start R ! n"
    and "k < n \<Longrightarrow> distinct (map fst (csc_col R k))"
    and "k < n \<Longrightarrow> lane_sum (csc_col R k) r = lane_sum (L k) r"
proof -
  obtain cols where cols: "length cols = n" "building m cols (ws, x, C, nz)"
    "\<forall>k<n. same_sum m (cols ! k) (L k)" and C: "csc_m C = m" "csc_n C = n" "length (col_start C) = Suc n"
    using D by (auto simp: columns_done_def)
  have "building m cols (ws, x, reallocate nz C, nz)"
    using building_reallocate [OF cols(2)] by simp
  then have A: "assembled cols (col_start R) nz (csc_i R) (csc_x R)"
    using cols(1) by (auto simp: R_def building_def assembled_def reallocate_def)
  have fin: "col_start R ! length cols = nz" "length (col_start R) = Suc (length cols)"
    using C cols(1) by (simp_all add: R_def reallocate_def)
  show s: "csc_m R = m" "csc_n R = n" "csc_nz_max R = col_start R ! n"
    using C by (simp_all add: R_def reallocate_def)
  have "fst ` set es \<subseteq> {..<m}" if es: "es \<in> set cols" for es
  proof -
    obtain k where k: "k < n" "es = cols ! k" using es cols(1) by (auto simp: in_set_conv_nth)
    then have "fst ` set es = fst ` set (L k)" using cols(3) by (simp add: same_sum_def)
    then show ?thesis using l k(1) by auto
  qed
  then have "\<forall>l \<in> set cols. \<forall>e \<in> set l. fst e < m" by auto
  then show "csc_wf R"
    using assembled_wf [OF A fin] cols(1) s by (simp add: csc_wf_def)
  show "distinct (map fst (csc_col R k))" "lane_sum (csc_col R k) r = lane_sum (L k) r" if "k < n"
    using assembled_lane [OF A fin(1)] cols(1,3) that by (auto simp: same_sum_def)
qed

subsection \<open>Product and sum\<close>

lemma fold_concat_map: "fold f (concat (map g xs)) st = fold (\<lambda>x. fold f (g x)) xs st"
  by (induction xs arbitrary: st) auto

definition product_column :: "('f :: comm_ring_1) csc_matrix \<Rightarrow> 'f csc_matrix \<Rightarrow> idx \<Rightarrow> (idx \<times> 'f) list" where
  "product_column A B j = concat (map (\<lambda>(k, v). scaled v (csc_col A k)) (csc_col B j))"

definition sum_column ::
  "('f :: comm_ring_1) csc_matrix \<Rightarrow> 'f csc_matrix \<Rightarrow> 'f \<Rightarrow> 'f \<Rightarrow> idx \<Rightarrow> (idx \<times> 'f) list" where
  "sum_column A B alpha beta j = scaled alpha (csc_col A j) @ scaled beta (csc_col B j)"

lemma product_column_less:
  assumes "csc_wf A" "csc_wf B" "csc_n A = csc_m B" "j < csc_n B"
  shows "\<forall>e \<in> set (product_column A B j). fst e < csc_m A"
  using lane_fst_less [OF assms(1) [unfolded csc_wf_def]]
    lane_fst_less [OF assms(2) [unfolded csc_wf_def] assms(4)] assms(3)
  by (fastforce simp: product_column_def)

lemma scatter_product_column:
  "for_range (col_start B ! j) (col_start B ! Suc j) (\<lambda>p. scatter A (csc_i B ! p) (csc_x B ! p) mark) st
   = fold (scatter_entry mark) (product_column A B j) st"
  by (subst for_range_lane [where g = "\<lambda>k v. scatter A k v mark"])
    (simp add: scatter_fold [abs_def] product_column_def fold_concat_map split_def)

lemma card_less_bound:
  assumes "\<forall>e \<in> set l. fst e < (m :: nat)"
  shows "card (fst ` set l) \<le> m" "card (fst ` set l) \<le> length l"
proof -
  have "fst ` set l \<subseteq> {..<m}" using assms by auto
  then show "card (fst ` set l) \<le> m" using card_mono [of "{..<m}" "fst ` set l"] by simp
  show "card (fst ` set l) \<le> length l"
    by (metis card_length length_map list.set_map)
qed

lemma multiply_spec:
  assumes A: "csc_wf A" and B: "csc_wf B" and dims: "csc_n A = csc_m B"
    and C: "csc_m C = csc_m A" "csc_n C = csc_n B" "length (col_start C) = Suc (csc_n B)"
  shows "csc_wf (multiply A B C)" "csc_m (multiply A B C) = csc_m A" "csc_n (multiply A B C) = csc_n B"
    and "csc_nz_max (multiply A B C) = col_start (multiply A B C) ! csc_n B"
    and "j < csc_n B \<Longrightarrow> distinct (map fst (csc_col (multiply A B C) j))"
    and "j < csc_n B \<Longrightarrow> lane_sum (csc_col (multiply A B C) j) r = lane_sum (product_column A B j) r"
proof -
  let ?m = "csc_m A" and ?n = "csc_n B" and ?L = "product_column A B"
  let ?P = "columns_done ?m ?n ?L"
  let ?body = "\<lambda>j (ws, x, C, nz).
            let C = (if nz + ?m > csc_nz_max C then reallocate (2 * csc_nz_max C + ?m) C else C);
                C = C\<lparr>col_start := (col_start C)[j := nz]\<rparr>;
                (ws, x, C, nz) = for_range (col_start B ! j) (col_start B ! Suc j)
                  (\<lambda>p. scatter A (csc_i B ! p) (csc_x B ! p) (j + 1)) (ws, x, C, nz);
                C = for_range (col_start C ! j) nz
                  (\<lambda>p C. C\<lparr>csc_x := (csc_x C)[p := x ! (csc_i C ! p)]\<rparr>) C
            in (ws, x, C, nz)"
  let ?init = "(replicate ?m 0, replicate ?m 0, reallocate (csc_nz_max A + csc_nz_max B) C, 0)"
  have less: "\<forall>e \<in> set (?L j). fst e < ?m" if "j < ?n" for j
    using product_column_less [OF A B dims that] .
  have fin: "?P ?n (for_range 0 ?n ?body ?init)"
  proof (rule for_range_inv [where P = ?P])
    show "?P 0 ?init" using columns_done_init [OF C] by simp
  next
    fix j st
    assume j: "j < ?n" and D: "?P j st"
    obtain ws x C nz where st: "st = (ws, x, C, nz)" by (rule prod_cases4)
    let ?C = "if nz + ?m > csc_nz_max C then reallocate (2 * csc_nz_max C + ?m) C else C"
    have nz: "nz \<le> csc_nz_max C"
      using D by (auto simp: st columns_done_def building_def assembled_def)
    have D': "?P j (ws, x, ?C, nz)"
      using D building_reallocate [of ?m _ ws x C nz "2 * csc_nz_max C + ?m"] nz
      by (auto simp: st columns_done_def) (auto simp: reallocate_def)
    have "nz + ?m \<le> csc_nz_max ?C" using nz by (simp add: reallocate_def)
    then have cap: "nz + card (fst ` set (?L j)) \<le> csc_nz_max ?C"
      using card_less_bound(1) [OF less [OF j]] by linarith
    obtain ws' x' C' nz' where
      run: "fold (scatter_entry (Suc j)) (?L j) (ws, x, ?C\<lparr>col_start := (col_start ?C)[j := nz]\<rparr>, nz)
        = (ws', x', C', nz')" by (rule prod_cases4)
    show "?P (Suc j) (?body j st)"
      using columns_done_step(1) [OF D' j less [OF j] cap run] run
      by (simp only: st prod.case Let_def scatter_product_column Suc_eq_plus1 [symmetric])
  qed simp
  obtain ws x C' nz where e: "for_range 0 ?n ?body ?init = (ws, x, C', nz)" by (rule prod_cases4)
  have R: "multiply A B C = reallocate nz (C'\<lparr>col_start := (col_start C')[?n := nz]\<rparr>)"
    unfolding multiply_def Let_def using e unfolding Let_def by (simp only: prod.case)
  note fin = columns_done_finish [OF fin [unfolded e], folded R]
  have l: "\<forall>k<?n. \<forall>e \<in> set (?L k). fst e < ?m" using less by blast
  show "csc_wf (multiply A B C)" "csc_m (multiply A B C) = ?m" "csc_n (multiply A B C) = ?n"
    "csc_nz_max (multiply A B C) = col_start (multiply A B C) ! csc_n B"
    "j < ?n \<Longrightarrow> distinct (map fst (csc_col (multiply A B C) j))"
    "j < ?n \<Longrightarrow> lane_sum (csc_col (multiply A B C) j) r = lane_sum (?L j) r"
    using fin [OF l] by blast+
qed

lemma sum_column_less:
  assumes "csc_wf A" "csc_wf B" "csc_m A = csc_m B" "csc_n A = csc_n B" "j < csc_n B"
  shows "\<forall>e \<in> set (sum_column A B a b j). fst e < csc_m A"
  using lane_fst_less [OF assms(1) [unfolded csc_wf_def], of j]
    lane_fst_less [OF assms(2) [unfolded csc_wf_def] assms(5)] assms(3,4,5)
  by (fastforce simp: sum_column_def)

lemma length_sum_column:
  assumes "csc_wf A" "csc_wf B" "csc_n A = csc_n B" "j < csc_n B"
  shows "col_start A ! j + col_start B ! j + length (sum_column A B a b j)
       = col_start A ! Suc j + col_start B ! Suc j"
    and "col_start A ! j + col_start B ! j + length (sum_column A B a b j)
       \<le> col_start A ! csc_n B + col_start B ! csc_n B"
  using lanes_wf_start [OF assms(1) [unfolded csc_wf_def], of j "Suc j"]
    lanes_wf_start [OF assms(2) [unfolded csc_wf_def], of j "Suc j"]
    lanes_wf_start [OF assms(1) [unfolded csc_wf_def], of "Suc j" "csc_n A"]
    lanes_wf_start [OF assms(2) [unfolded csc_wf_def], of "Suc j" "csc_n B"] assms(3,4)
  by (simp_all add: sum_column_def)

lemma add_csc_spec:
  assumes A: "csc_wf A" and B: "csc_wf B" and dims: "csc_m A = csc_m B" "csc_n A = csc_n B"
    and C: "csc_m C = csc_m A" "csc_n C = csc_n B" "length (col_start C) = Suc (csc_n B)"
  shows "csc_wf (add_csc A B a b C)" "csc_m (add_csc A B a b C) = csc_m A" "csc_n (add_csc A B a b C) = csc_n B"
    and "j < csc_n B \<Longrightarrow> distinct (map fst (csc_col (add_csc A B a b C) j))"
    and "j < csc_n B \<Longrightarrow> lane_sum (csc_col (add_csc A B a b C) j) r = lane_sum (sum_column A B a b j) r"
proof -
  let ?m = "csc_m A" and ?n = "csc_n B" and ?L = "sum_column A B a b"
  let ?cap = "col_start A ! ?n + col_start B ! ?n"
  let ?P = "\<lambda>j st. columns_done ?m ?n ?L j st \<and> (case st of (ws, x, C, nz) \<Rightarrow>
      csc_nz_max C = ?cap \<and> nz \<le> col_start A ! j + col_start B ! j)"
  let ?body = "\<lambda>j (ws, x, C, nz).
            let C = C\<lparr>col_start := (col_start C)[j := nz]\<rparr>;
                (ws, x, C, nz) = scatter A j a (j + 1) (ws, x, C, nz);
                (ws, x, C, nz) = scatter B j b (j + 1) (ws, x, C, nz);
                C = for_range (col_start C ! j) nz
                  (\<lambda>p C. C\<lparr>csc_x := (csc_x C)[p := x ! (csc_i C ! p)]\<rparr>) C
            in (ws, x, C, nz)"
  let ?init = "(replicate ?m 0, replicate ?m 0, reallocate ?cap C, 0)"
  have less: "\<forall>e \<in> set (?L j). fst e < ?m" if "j < ?n" for j
    using sum_column_less [OF A B dims that] .
  have fin: "?P ?n (for_range 0 ?n ?body ?init)"
  proof (rule for_range_inv [where P = ?P])
    show "?P 0 ?init" using columns_done_init [OF C] by (simp add: reallocate_def)
  next
    fix j st
    assume j: "j < ?n" and D: "?P j st"
    obtain ws x C nz where st: "st = (ws, x, C, nz)" by (rule prod_cases4)
    have D': "columns_done ?m ?n ?L j (ws, x, C, nz)" using D by (simp add: st)
    have "nz + length (?L j) \<le> ?cap"
      using D length_sum_column(2) [OF A B dims(2) j, of a b] by (simp add: st)
    then have cap: "nz + card (fst ` set (?L j)) \<le> csc_nz_max C"
      using card_less_bound(2) [OF less [OF j]] D by (simp add: st)
    obtain ws' x' C' nz' where
      run: "fold (scatter_entry (Suc j)) (?L j) (ws, x, C\<lparr>col_start := (col_start C)[j := nz]\<rparr>, nz)
        = (ws', x', C', nz')" by (rule prod_cases4)
    obtain ws1 x1 C1 nz1 where
      run1: "scatter A j a (Suc j) (ws, x, C\<lparr>col_start := (col_start C)[j := nz]\<rparr>, nz) = (ws1, x1, C1, nz1)"
      by (rule prod_cases4)
    have run2: "scatter B j b (Suc j) (ws1, x1, C1, nz1) = (ws', x', C', nz')"
      using run by (simp add: sum_column_def scatter_fold [symmetric] run1)
    note step = columns_done_step [OF D' j less [OF j] cap run]
    have "nz' \<le> col_start A ! Suc j + col_start B ! Suc j"
      using step(2) D card_less_bound(2) [OF less [OF j]] length_sum_column(1) [OF A B dims(2) j, of a b]
      by (simp add: st)
    then show "?P (Suc j) (?body j st)"
      using step(1,3) D unfolding st prod.case Let_def Suc_eq_plus1 [symmetric] run1 run2 by simp
  qed simp
  obtain ws x C' nz where e: "for_range 0 ?n ?body ?init = (ws, x, C', nz)" by (rule prod_cases4)
  have R: "add_csc A B a b C = reallocate nz (C'\<lparr>col_start := (col_start C')[?n := nz]\<rparr>)"
    unfolding add_csc_def Let_def using e unfolding Let_def by (simp only: prod.case)
  note fin = columns_done_finish [OF fin [unfolded e, THEN conjunct1], folded R]
  have l: "\<forall>k<?n. \<forall>e \<in> set (?L k). fst e < ?m" using less by blast
  show "csc_wf (add_csc A B a b C)" "csc_m (add_csc A B a b C) = ?m" "csc_n (add_csc A B a b C) = ?n"
    "j < ?n \<Longrightarrow> distinct (map fst (csc_col (add_csc A B a b C) j))"
    "j < ?n \<Longrightarrow> lane_sum (csc_col (add_csc A B a b C) j) r = lane_sum (?L j) r"
    using fin [OF l] by blast+
qed

lemma lane_sum_product_column:
  assumes "\<forall>e \<in> set (csc_col B j). fst e < n"
  shows "lane_sum (product_column A B j) r = (\<Sum>k<n. csc_dense A r k * csc_dense B k j)"
proof -
  have "lane_sum (concat (map (\<lambda>(k, v). scaled v (csc_col A k)) l)) r
      = (\<Sum>k<n. csc_dense A r k * lane_sum l k)" if "\<forall>e \<in> set l. fst e < n" for l
    using that
  proof (induction l)
    case (Cons e l)
    obtain k v where e: "e = (k, v)" by (cases e)
    have "(\<Sum>k'<n. csc_dense A r k' * lane_sum (e # l) k')
        = (\<Sum>k'<n. (if k' = k then csc_dense A r k * v else 0) + csc_dense A r k' * lane_sum l k')"
      by (rule sum.cong) (auto simp: e distrib_left)
    also have "\<dots> = csc_dense A r k * v + (\<Sum>k'<n. csc_dense A r k' * lane_sum l k')"
      using Cons.prems by (simp add: sum.distrib e)
    finally show ?case
      using Cons by (simp add: e lane_sum_scale csc_dense_def mult.commute [of "lane_sum (csc_col A k) r" v])
  qed simp
  from this [OF assms] show ?thesis by (simp add: product_column_def csc_dense_def)
qed

subsection \<open>Properties\<close>

text \<open>C35. The sparse product of two well-formed matrices is well-formed, holds no repeated row in a
  column, uses exactly the storage it needs, and has the entries of the mathematical product, whatever
  the output matrix held before.\<close>

theorem multiply_correct:
  assumes "csc_wf A" "csc_wf B" "csc_n A = csc_m B"
    and "csc_m C = csc_m A" "csc_n C = csc_n B" "length (col_start C) = Suc (csc_n B)"
  shows "csc_wf (multiply A B C) \<and>
    csc_nz_max (multiply A B C) = col_start (multiply A B C) ! csc_n B \<and>
    (\<forall>j<csc_n B. distinct (map fst (csc_col (multiply A B C) j)) \<and>
      (\<forall>r. csc_dense (multiply A B C) r j = (\<Sum>k<csc_n A. csc_dense A r k * csc_dense B k j)))"
proof -
  have "lane_sum (product_column A B j) r = (\<Sum>k<csc_n A. csc_dense A r k * csc_dense B k j)"
    if "j < csc_n B" for j r
    using lane_fst_less [OF assms(2) [unfolded csc_wf_def] that] assms(3)
    by (intro lane_sum_product_column) simp
  then show ?thesis
    using multiply_spec [OF assms] by (simp add: csc_dense_def [of "multiply A B C"])
qed

theorem multiply_correct_witness:
  "csc_dense (multiply ex_A (transpose_csc ex_A (csc_new 0 0 0)) (csc_new 2 2 0)) 1 0 = 200"
proof -
  let ?B = "transpose_csc ex_A (csc_new 0 0 0)" and ?C = "csc_new 2 2 0 :: int csc_matrix"
  have "csc_wf ?B" "csc_n ex_A = csc_m ?B" "csc_m ?C = csc_m ex_A" "csc_n ?C = csc_n ?B"
    "length (col_start ?C) = Suc (csc_n ?B)" by code_simp+
  note multiply_correct [OF ex_A_wf this, THEN conjunct2, THEN conjunct2, THEN spec, THEN mp,
      THEN conjunct2, THEN spec]
  moreover have "(0 :: idx) < csc_n ?B" by code_simp
  moreover have "(\<Sum>k<csc_n ex_A. csc_dense ex_A 1 k * csc_dense ?B k 0) = 200" by code_simp
  ultimately show ?thesis by simp
qed

text \<open>C36. The sparse sum of two well-formed matrices of the same size is well-formed, has no repeated
  row in a column, and its entries are alpha times those of the first plus beta times those of the
  second.\<close>

theorem add_correct:
  assumes "csc_wf A" "csc_wf B" "csc_m A = csc_m B" "csc_n A = csc_n B"
    and "csc_m C = csc_m A" "csc_n C = csc_n B" "length (col_start C) = Suc (csc_n B)"
  shows "csc_wf (add_csc A B alpha beta C) \<and>
    (\<forall>j<csc_n B. distinct (map fst (csc_col (add_csc A B alpha beta C) j)) \<and>
      (\<forall>r. csc_dense (add_csc A B alpha beta C) r j = alpha * csc_dense A r j + beta * csc_dense B r j))"
  using add_csc_spec [OF assms]
  by (simp add: csc_dense_def sum_column_def lane_sum_scale)

theorem add_correct_witness:
  "csc_dense (add_csc ex_A ex_A 2 1 (csc_new 2 3 0)) 1 1 = 90"
proof -
  let ?C = "csc_new 2 3 0 :: int csc_matrix"
  have "csc_m ?C = csc_m ex_A" "csc_n ?C = csc_n ex_A" "length (col_start ?C) = Suc (csc_n ex_A)"
    by code_simp+
  note add_correct [OF ex_A_wf ex_A_wf refl refl this, THEN conjunct2, THEN spec, THEN mp,
      THEN conjunct2, THEN spec]
  moreover have "(1 :: idx) < csc_n ex_A" "csc_dense ex_A 1 1 = 30" by code_simp+
  ultimately show ?thesis by simp
qed

end
