(* ===== verification/Vector_Math.thy ===== *)
theory Vector_Math
  imports Sparse_Convert
begin

text \<open>
  Model of \<open>cpp/src/dual_simplex/vector_math.cpp\<close> and of the matrix-vector routines of
  \<open>sparse_matrix.cpp\<close>: norms, dense and sparse inner products, permutations of vectors, and the
  products with a matrix and with its transpose. The two products share the contract
  \<open>matrix_action\<close>; \<open>adjoint_actions\<close> relates an action and the action of the transpose.
  \<open>vector_norm2\<close> (a square root) is not modelled.
\<close>

subsection \<open>Definitions\<close>

definition vector_norm_inf :: "('f :: linordered_idom) vec \<Rightarrow> 'f" where
  "vector_norm_inf x = for_range 0 (length x) (\<lambda>j a. let t = \<bar>x ! j\<bar> in if t > a then t else a) 0"

definition vector_norm2_squared :: "('f :: comm_ring_1) vec \<Rightarrow> 'f" where
  "vector_norm2_squared x = for_range 0 (length x) (\<lambda>j sum. sum + x ! j * x ! j) 0"

definition dot :: "('f :: comm_ring_1) vec \<Rightarrow> 'f vec \<Rightarrow> 'f" where
  "dot x y = for_range 0 (length x) (\<lambda>k d. d + x ! k * y ! k) 0"

function sparse_dot_from ::
  "idx list \<Rightarrow> 'f vec \<Rightarrow> idx list \<Rightarrow> 'f vec \<Rightarrow> idx \<Rightarrow> idx \<Rightarrow> ('f :: comm_ring_1) \<Rightarrow> 'f" where
  "sparse_dot_from xind xval yind yval i j d =
     (if i < length xind \<and> j < length yind then
        if xind ! i = yind ! j
        then sparse_dot_from xind xval yind yval (i + 1) (j + 1) (d + xval ! i * yval ! j)
        else if xind ! i < yind ! j then sparse_dot_from xind xval yind yval (i + 1) j d
        else sparse_dot_from xind xval yind yval i (j + 1) d
      else d)"
  by pat_completeness auto
termination
  by (relation "measure (\<lambda>(xind, _, yind, _, i, j, _). (length xind - i) + (length yind - j))") auto

declare sparse_dot_from.simps [simp del]

definition sparse_dot :: "idx list \<Rightarrow> ('f :: comm_ring_1) vec \<Rightarrow> idx list \<Rightarrow> 'f vec \<Rightarrow> 'f" where
  "sparse_dot xind xval yind yval = sparse_dot_from xind xval yind yval 0 0 0"

function sparse_dot_csc_from ::
  "idx list \<Rightarrow> 'f vec \<Rightarrow> 'f csc_matrix \<Rightarrow> idx \<Rightarrow> idx \<Rightarrow> idx \<Rightarrow> ('f :: comm_ring_1) \<Rightarrow> 'f" where
  "sparse_dot_csc_from xind xval Y col_end i k d =
     (if i < length xind \<and> k < col_end then
        if xind ! i = csc_i Y ! k
        then sparse_dot_csc_from xind xval Y col_end (i + 1) (k + 1) (d + csc_x Y ! k * xval ! i)
        else if xind ! i < csc_i Y ! k then sparse_dot_csc_from xind xval Y col_end (i + 1) k d
        else sparse_dot_csc_from xind xval Y col_end i (k + 1) d
      else d)"
  by pat_completeness auto
termination
  by (relation "measure (\<lambda>(xind, _, _, ce, i, k, _). (length xind - i) + (ce - k))") auto

declare sparse_dot_csc_from.simps [simp del]

definition sparse_dot_csc :: "idx list \<Rightarrow> ('f :: comm_ring_1) vec \<Rightarrow> 'f csc_matrix \<Rightarrow> idx \<Rightarrow> 'f" where
  "sparse_dot_csc xind xval Y y_col =
     sparse_dot_csc_from xind xval Y (col_start Y ! Suc y_col) 0 (col_start Y ! y_col) 0"

definition permute_vector :: "idx list \<Rightarrow> 'a list \<Rightarrow> 'a list \<Rightarrow> 'a list" where
  "permute_vector p b x = for_range 0 (length p) (\<lambda>k x. x[k := b ! (p ! k)]) x"

definition inverse_permute_vector :: "idx list \<Rightarrow> 'a list \<Rightarrow> 'a list \<Rightarrow> 'a list" where
  "inverse_permute_vector p b x = for_range 0 (length p) (\<lambda>k x. x[p ! k := b ! k]) x"

definition inverse_permutation :: "idx list \<Rightarrow> idx list \<Rightarrow> idx list" where
  "inverse_permutation p pinv =
     for_range 0 (length p) (\<lambda>k pinv. pinv[p ! k := k])
       (if length pinv \<noteq> length p then resize (length p) 0 pinv else pinv)"

definition norm1 :: "('f :: linordered_idom) csc_matrix \<Rightarrow> 'f" where
  "norm1 A = for_range 0 (csc_n A) (\<lambda>j norm.
     let s = for_range (col_start A ! j) (col_start A ! Suc j) (\<lambda>p s. s + \<bar>csc_x A ! p\<bar>) 0
     in max s norm) 0"

definition scatter_dense :: "('f :: comm_ring_1) csc_matrix \<Rightarrow> idx \<Rightarrow> 'f \<Rightarrow> 'f vec \<Rightarrow> 'f vec" where
  "scatter_dense A j alpha x =
     for_range (col_start A ! j) (col_start A ! Suc j)
       (\<lambda>p x. let i = csc_i A ! p; ax = csc_x A ! p in x[i := x ! i + alpha * ax]) x"

definition matrix_vector_multiply ::
  "('f :: comm_ring_1) csc_matrix \<Rightarrow> 'f \<Rightarrow> 'f vec \<Rightarrow> 'f \<Rightarrow> 'f vec \<Rightarrow> 'f vec" where
  "matrix_vector_multiply A alpha x beta y =
     (let m = csc_m A; n = csc_n A;
          y = (if beta \<noteq> 1 then for_range 0 m (\<lambda>i y. y[i := y ! i * beta]) y else y)
      in for_range 0 n (\<lambda>j. for_range (col_start A ! j) (col_start A ! Suc j)
           (\<lambda>p y. let i = csc_i A ! p in y[i := y ! i + alpha * csc_x A ! p * x ! j])) y)"

definition matrix_transpose_vector_multiply ::
  "('f :: comm_ring_1) csc_matrix \<Rightarrow> 'f \<Rightarrow> 'f vec \<Rightarrow> 'f \<Rightarrow> 'f vec \<Rightarrow> 'f vec" where
  "matrix_transpose_vector_multiply A alpha x beta y =
     (let n = csc_n A;
          y = (if beta \<noteq> 1 then for_range 0 n (\<lambda>j y. y[j := y ! j * beta]) y else y)
      in for_range 0 n (\<lambda>j y.
           let d = for_range (col_start A ! j) (col_start A ! Suc j)
                     (\<lambda>p d. d + csc_x A ! p * x ! (csc_i A ! p)) 0
           in y[j := y ! j + alpha * d]) y)"

subsection \<open>Norms and dense products\<close>

lemma for_range_sum: "for_range 0 n (\<lambda>k s. s + f k) z = z + (\<Sum>k<n. f k :: 'f :: comm_monoid_add)"
  by (induction n) (simp_all add: add_ac)

lemma dot_eq: "dot x y = (\<Sum>k<length x. x ! k * y ! k)"
  by (simp add: dot_def for_range_sum)

lemma vector_norm2_squared_eq: "vector_norm2_squared x = dot x x"
  by (simp add: vector_norm2_squared_def dot_eq for_range_sum)

lemma vector_norm_inf_eq: "vector_norm_inf x = Max (insert 0 (abs ` set x))"
proof -
  have "for_range 0 k (\<lambda>j a. let t = \<bar>x ! j\<bar> in if t > a then t else a) 0 = Max (insert 0 (abs ` set (take k x)))"
    if "k \<le> length x" for k
    using that
  proof (induction k)
    case (Suc k)
    let ?M = "insert 0 (abs ` set (take k x))"
    have "insert 0 (abs ` set (take (Suc k) x)) = insert \<bar>x ! k\<bar> ?M"
      using Suc.prems by (simp add: take_Suc_conv_app_nth insert_commute)
    moreover have "Max (insert \<bar>x ! k\<bar> ?M) = max \<bar>x ! k\<bar> (Max ?M)" by (rule Max_insert) auto
    ultimately have "Max (insert 0 (abs ` set (take (Suc k) x))) = max \<bar>x ! k\<bar> (Max ?M)" by metis
    also have "\<dots> = (if \<bar>x ! k\<bar> > Max ?M then \<bar>x ! k\<bar> else Max ?M)"
      unfolding max_def by (simp only: not_le [symmetric] if_not_P if_P split: if_split) blast
    finally show ?case
      using Suc by (simp only: for_range_Suc [OF le0] Let_def Suc_leD)
  qed simp
  from this [of "length x"] show ?thesis by (simp add: vector_norm_inf_def)
qed

subsection \<open>Sparse products\<close>

text \<open>The specification of both routines: a merge of two lanes sorted by index.\<close>

fun merge_dot :: "(idx \<times> 'f) list \<Rightarrow> (idx \<times> 'f :: comm_ring_1) list \<Rightarrow> 'f" where
  "merge_dot ((p, v) # xs) ((q, w) # ys) =
     (if p = q then v * w + merge_dot xs ys
      else if p < q then merge_dot xs ((q, w) # ys) else merge_dot ((p, v) # xs) ys)"
| "merge_dot _ _ = 0"

lemma merge_dot_eq:
  assumes "sorted_wrt (<) (map fst xs)" "sorted_wrt (<) (map fst ys)"
  shows "merge_dot xs ys = (\<Sum>(p, v)\<leftarrow>xs. v * lane_sum ys p)"
  using assms
proof (induction xs ys rule: merge_dot.induct)
  case (1 p v xs q w ys)
  have skip: "(\<Sum>(p, v)\<leftarrow>zs. v * lane_sum ((q, w) # ys) p) = (\<Sum>(p, v)\<leftarrow>zs. v * lane_sum ys p)"
    if "\<forall>e \<in> set zs. fst e \<noteq> q" for zs
    using that by (intro arg_cong [where f = sum_list] map_cong) auto
  show ?case
  proof (cases "p < q")
    case True
    then have "lane_sum ((q, w) # ys) p = 0" using 1(5) by (intro lane_sum_none) auto
    with 1 True show ?thesis by simp
  next
    case F: False
    have "\<forall>e \<in> set xs. fst e \<noteq> q" using 1(4) F by auto
    note s = skip [OF this]
    show ?thesis
    proof (cases "p = q")
      case True
      have "lane_sum ys q = 0" using 1(5) by (intro lane_sum_none) auto
      with 1 True s show ?thesis by simp
    next
      case False
      with 1 F s show ?thesis by simp
    qed
  qed
qed (auto simp: split_def)

lemma sparse_dot_from_merge:
  assumes "length xval = length xind" "length yval = length yind"
  shows "sparse_dot_from xind xval yind yval i j d =
         d + merge_dot (drop i (zip xind xval)) (drop j (zip yind yval))"
  using assms
proof (induction xind xval yind yval i j d rule: sparse_dot_from.induct)
  case (1 xind xval yind yval i j d)
  show ?case
  proof (cases "i < length xind \<and> j < length yind")
    case True
    have "drop i (zip xind xval) = (xind ! i, xval ! i) # drop (i + 1) (zip xind xval)"
      "drop j (zip yind yval) = (yind ! j, yval ! j) # drop (j + 1) (zip yind yval)"
      using True 1(4,5) by (simp_all add: Cons_nth_drop_Suc [symmetric])
    with 1 True show ?thesis by (subst sparse_dot_from.simps) (simp add: add_ac)
  qed (subst sparse_dot_from.simps, auto simp: 1(4,5))
qed

lemma merge_dot_Nil [simp]: "merge_dot xs [] = 0" "merge_dot [] xs = 0"
  by (cases xs; simp)+

lemma sparse_dot_csc_from_merge:
  assumes "length xval = length xind"
  shows "sparse_dot_csc_from xind xval Y ce i k d =
         d + merge_dot (drop i (zip xind xval)) (map (\<lambda>p. (csc_i Y ! p, csc_x Y ! p)) [k..<ce])"
  using assms
proof (induction xind xval Y ce i k d rule: sparse_dot_csc_from.induct)
  case (1 xind xval Y ce i k d)
  show ?case
  proof (cases "i < length xind \<and> k < ce")
    case True
    have "drop i (zip xind xval) = (xind ! i, xval ! i) # drop (i + 1) (zip xind xval)"
      "[k..<ce] = k # [k + 1..<ce]"
      using True 1(4) by (simp_all add: Cons_nth_drop_Suc [symmetric] upt_conv_Cons)
    with 1 True show ?thesis by (subst sparse_dot_csc_from.simps) (simp add: add_ac mult.commute)
  qed (subst sparse_dot_csc_from.simps, auto simp: 1(4))
qed

lemma sparse_dot_merge:
  "length xval = length xind \<Longrightarrow> length yval = length yind \<Longrightarrow>
   sparse_dot xind xval yind yval = merge_dot (zip xind xval) (zip yind yval)"
  by (simp add: sparse_dot_def sparse_dot_from_merge)

lemma sparse_dot_csc_merge:
  "length xval = length xind \<Longrightarrow>
   sparse_dot_csc xind xval Y j = merge_dot (zip xind xval) (csc_col Y j)"
  by (simp add: sparse_dot_csc_def sparse_dot_csc_from_merge lane_def)

subsection \<open>Permutations\<close>

lemma length_for_range_update [simp]:
  "length (for_range a b (\<lambda>k xs. xs[f k := g k xs]) x) = length x"
  by (rule for_range_inv_const) auto

lemma permute_vector_nth:
  assumes "length p \<le> length x" "k < length p"
  shows "permute_vector p b x ! k = b ! (p ! k)"
  using assms for_range_map_update [of "length p" x "\<lambda>k _. b ! (p ! k)"]
  by (simp add: permute_vector_def nth_append)

lemma scatter_perm_nth:
  assumes p: "is_perm n p" and x: "length x = n" and k: "k < n"
  shows "for_range 0 n (\<lambda>k x. x[p ! k := g k]) x ! (p ! k) = g k"
proof -
  have "length (for_range 0 j (\<lambda>k x. x[p ! k := g k]) x) = n \<and>
      (\<forall>k<j. for_range 0 j (\<lambda>k x. x[p ! k := g k]) x ! (p ! k) = g k)" if "j \<le> n" for j
    using that
    by (induction j)
      (auto simp: x nth_list_update is_perm_nth [OF p] is_perm_inj [OF p] less_Suc_eq)
  then show ?thesis using k by blast
qed

lemma inverse_permute_vector_nth:
  "is_perm n p \<Longrightarrow> length x = n \<Longrightarrow> k < n \<Longrightarrow> inverse_permute_vector p b x ! (p ! k) = b ! k"
  using scatter_perm_nth [of n p x k "(!) b"] by (simp add: inverse_permute_vector_def is_perm_length)

lemma inverse_permutation_nth:
  "is_perm n p \<Longrightarrow> k < n \<Longrightarrow> inverse_permutation p pinv ! (p ! k) = k"
  unfolding inverse_permutation_def
  by (simp only: is_perm_length) (rule scatter_perm_nth; simp add: is_perm_length)

lemma length_inverse_permutation [simp]: "length (inverse_permutation p pinv) = length p"
  by (simp add: inverse_permutation_def)

lemma inverse_permutation_perm:
  assumes p: "is_perm n p"
  shows "is_perm n (inverse_permutation p pinv)"
    and "i < n \<Longrightarrow> p ! (inverse_permutation p pinv ! i) = i"
proof -
  let ?q = "inverse_permutation p pinv"
  have len: "length ?q = n" using p by (simp add: is_perm_def)
  have nth: "?q ! i < n \<and> p ! (?q ! i) = i" if "i < n" for i
    using is_perm_surj [OF p that] inverse_permutation_nth [OF p] by auto
  then show "i < n \<Longrightarrow> p ! (?q ! i) = i" by blast
  have "distinct ?q"
    unfolding distinct_conv_nth len using nth by metis
  moreover have "\<forall>k \<in> set ?q. k < n" using nth len by (auto simp: in_set_conv_nth)
  ultimately show "is_perm n ?q" using len by (simp add: is_perm_def)
qed

subsection \<open>Matrix times vector\<close>

lemma fold_add_entries:
  fixes y :: "('f :: comm_monoid_add) vec"
  assumes "\<forall>e \<in> set l. fst e < length y"
  shows "length (fold (\<lambda>(i, v) y. y[i := y ! i + v]) l y) = length y \<and>
    (r < length y \<longrightarrow> fold (\<lambda>(i, v) y. y[i := y ! i + v]) l y ! r = y ! r + lane_sum l r)"
  using assms
  by (induction l arbitrary: y) (auto simp: nth_list_update add.assoc)

lemma scatter_dense_fold:
  "scatter_dense A j alpha x
   = fold (\<lambda>(i, v) y. y[i := y ! i + v]) (map (\<lambda>(r, v). (r, alpha * v)) (csc_col A j)) x"
  by (simp add: scatter_dense_def Let_def fold_map comp_def split_def for_range_def lane_def)

lemma scatter_dense_nth:
  assumes "csc_wf A" "j < csc_n A" "length x = csc_m A" "r < csc_m A"
  shows "scatter_dense A j alpha x ! r = x ! r + alpha * csc_dense A r j"
proof -
  have "\<forall>e \<in> set (map (\<lambda>(r, v). (r, alpha * v)) (csc_col A j)). fst e < length x"
    using csc_col_less [OF assms(1,2)] assms(3) by fastforce
  from fold_add_entries [OF this, of r] assms(3,4)
  show ?thesis by (simp add: scatter_dense_fold lane_sum_scale csc_dense_def)
qed

lemma length_scatter_dense [simp]: "length (scatter_dense A j alpha x) = length x"
  unfolding scatter_dense_def Let_def by (rule length_for_range_update)

lemma scale_loop:
  "length y = k \<Longrightarrow> (if b \<noteq> 1 then for_range 0 k (\<lambda>i y. y[i := y ! i * b]) y else y) = map (\<lambda>v. v * (b :: 'f :: comm_ring_1)) y"
  using for_range_map_update [of k y "\<lambda>i v. v * b"] by (auto intro: nth_equalityI)

lemma matrix_vector_multiply_scatter:
  assumes "length y = csc_m A"
  shows "matrix_vector_multiply A alpha x beta y =
    for_range 0 (csc_n A) (\<lambda>j. scatter_dense A j (alpha * x ! j)) (map (\<lambda>v. v * beta) y)"
  unfolding matrix_vector_multiply_def Let_def scale_loop [OF assms] scatter_dense_def
  by (simp add: mult_ac)

lemma matrix_vector_multiply_nth:
  assumes wf: "csc_wf A" and y: "length y = csc_m A" and x: "length x = csc_n A"
  shows "length (matrix_vector_multiply A alpha x beta y) = csc_m A"
    and "i < csc_m A \<Longrightarrow> matrix_vector_multiply A alpha x beta y ! i =
           beta * y ! i + alpha * (\<Sum>j<csc_n A. csc_dense A i j * x ! j)"
proof -
  let ?y = "\<lambda>k. for_range 0 k (\<lambda>j. scatter_dense A j (alpha * x ! j)) (map (\<lambda>v. v * beta) y)"
  have inv: "length (?y k) = csc_m A \<and> (\<forall>i<csc_m A. ?y k ! i =
      beta * y ! i + alpha * (\<Sum>j<k. csc_dense A i j * x ! j))" if "k \<le> csc_n A" for k
    using that
  proof (induction k)
    case (Suc k)
    then show ?case
      using scatter_dense_nth [OF wf] by (simp add: algebra_simps)
  qed (simp add: y mult.commute)
  show "length (matrix_vector_multiply A alpha x beta y) = csc_m A"
    "i < csc_m A \<Longrightarrow> matrix_vector_multiply A alpha x beta y ! i =
           beta * y ! i + alpha * (\<Sum>j<csc_n A. csc_dense A i j * x ! j)"
    using inv [OF order_refl] by (simp_all add: matrix_vector_multiply_scatter [OF y])
qed

lemma lane_dot:
  assumes "\<forall>e \<in> set l. fst e < m"
  shows "(\<Sum>(r, v)\<leftarrow>l. v * x ! r) = (\<Sum>i<m. lane_sum l i * (x ! i :: 'f :: comm_ring_1))"
  using assms
proof (induction l)
  case (Cons e l)
  obtain r v where e: "e = (r, v)" by (cases e)
  have "(\<Sum>i<m. lane_sum (e # l) i * x ! i)
      = (\<Sum>i<m. (if i = r then v * x ! r else 0) + lane_sum l i * x ! i)"
    by (rule sum.cong) (auto simp: e distrib_right)
  then show ?case using Cons by (simp add: e sum.distrib)
qed simp

lemma matrix_transpose_vector_multiply_nth:
  assumes wf: "csc_wf A" and y: "length y = csc_n A" and x: "length x = csc_m A"
  shows "length (matrix_transpose_vector_multiply A alpha x beta y) = csc_n A"
    and "j < csc_n A \<Longrightarrow> matrix_transpose_vector_multiply A alpha x beta y ! j =
           beta * y ! j + alpha * (\<Sum>i<csc_m A. csc_dense A i j * x ! i)"
proof -
  have d: "for_range (col_start A ! j) (col_start A ! Suc j) (\<lambda>p d. d + csc_x A ! p * x ! (csc_i A ! p)) 0
      = (\<Sum>(r, v)\<leftarrow>csc_col A j. v * x ! r)" for j
  proof -
    have "fold (\<lambda>(r, v) d. d + v * x ! r) l z = z + (\<Sum>(r, v)\<leftarrow>l. v * x ! r)" for l z
      by (induction l arbitrary: z) (auto simp: add.assoc)
    then show ?thesis
      using for_range_lane [of "col_start A" j "\<lambda>r v d. d + v * x ! r"] by simp
  qed
  have e: "matrix_transpose_vector_multiply A alpha x beta y
      = map (\<lambda>j. y ! j * beta + alpha * (\<Sum>(r, v)\<leftarrow>csc_col A j. v * x ! r)) [0..<csc_n A]"
    unfolding matrix_transpose_vector_multiply_def Let_def d scale_loop [OF y]
    using for_range_map_update [of "csc_n A" "map (\<lambda>v. v * beta) y"
        "\<lambda>j v. v + alpha * (\<Sum>(r, v)\<leftarrow>csc_col A j. v * x ! r)"] y by simp
  show "length (matrix_transpose_vector_multiply A alpha x beta y) = csc_n A" by (simp add: e)
  show "matrix_transpose_vector_multiply A alpha x beta y ! j =
           beta * y ! j + alpha * (\<Sum>i<csc_m A. csc_dense A i j * x ! i)" if "j < csc_n A"
    using that lane_dot [of "csc_col A j" "csc_m A" x] csc_col_less [OF wf that]
    by (simp add: e csc_dense_def mult.commute)
qed

subsection \<open>The contract of a matrix-vector product\<close>

locale matrix_action =
  fixes act :: "'m \<Rightarrow> ('f :: comm_ring_1) \<Rightarrow> 'f vec \<Rightarrow> 'f \<Rightarrow> 'f vec \<Rightarrow> 'f vec"
    and rows cols :: "'m \<Rightarrow> nat" and ent :: "'m \<Rightarrow> idx \<Rightarrow> idx \<Rightarrow> 'f" and wf :: "'m \<Rightarrow> bool"
  assumes act_length: "wf A \<Longrightarrow> length y = rows A \<Longrightarrow> length x = cols A \<Longrightarrow>
      length (act A a x b y) = rows A"
    and act_nth: "wf A \<Longrightarrow> length y = rows A \<Longrightarrow> length x = cols A \<Longrightarrow> i < rows A \<Longrightarrow>
      act A a x b y ! i = b * y ! i + a * (\<Sum>j<cols A. ent A i j * x ! j)"
begin

lemma act_eqI:
  assumes "wf A" "length y = rows A" "length x = cols A" "length z = rows A"
    and "\<And>i. i < rows A \<Longrightarrow> z ! i = b * y ! i + a * (\<Sum>j<cols A. ent A i j * x ! j)"
  shows "act A a x b y = z"
  using assms by (intro nth_equalityI) (auto simp: act_length act_nth)

text \<open>Accumulating two products one after the other is one product with the summed vectors.\<close>

lemma act_accumulate:
  assumes "wf A" "length y = rows A" "length x = cols A" "length x' = cols A"
  shows "act A a x 1 (act A a x' b y) = act A a (map2 (+) x x') b y"
  using assms
  by (intro act_eqI)
    (auto simp: act_length act_nth sum.distrib distrib_left add_ac)

lemma dot_act:
  assumes "wf A" "length y = rows A" "length x = cols A" "length z = rows A"
  shows "dot z (act A a x b y) =
    b * dot z y + a * (\<Sum>i<rows A. \<Sum>j<cols A. z ! i * ent A i j * x ! j)"
proof -
  have "dot z (act A a x b y) = (\<Sum>i<rows A. z ! i * (b * y ! i + a * (\<Sum>j<cols A. ent A i j * x ! j)))"
    using assms by (simp add: dot_eq act_nth)
  also have "\<dots> = (\<Sum>i<rows A. b * (z ! i * y ! i) + a * (\<Sum>j<cols A. z ! i * ent A i j * x ! j))"
    by (simp add: distrib_left sum_distrib_left mult_ac)
  finally show ?thesis using assms by (simp add: dot_eq sum.distrib sum_distrib_left)
qed

end

locale adjoint_actions =
  P: matrix_action act rows cols ent wf + T: matrix_action act' cols rows ent' wf
  for act act' :: "'m \<Rightarrow> ('f :: comm_ring_1) \<Rightarrow> 'f vec \<Rightarrow> 'f \<Rightarrow> 'f vec \<Rightarrow> 'f vec"
    and rows cols :: "'m \<Rightarrow> nat" and ent ent' :: "'m \<Rightarrow> idx \<Rightarrow> idx \<Rightarrow> 'f" and wf :: "'m \<Rightarrow> bool" +
  assumes mirror: "ent' A j i = ent A i j"
begin

lemma adjoint:
  assumes "wf A" "length x = cols A" "length y = rows A" "length u = rows A" "length w = cols A"
  shows "dot y (act A a x 0 u) = dot x (act' A a y 0 w)"
proof -
  have "(\<Sum>i<rows A. \<Sum>j<cols A. y ! i * ent A i j * x ! j)
      = (\<Sum>j<cols A. \<Sum>i<rows A. x ! j * ent' A j i * y ! i)"
    by (subst sum.swap) (simp add: mirror mult_ac)
  then show ?thesis
    using P.dot_act [of A u x y a 0] T.dot_act [of A w y x a 0] assms by simp
qed

end

interpretation csc_mv: matrix_action matrix_vector_multiply csc_m csc_n
    "csc_dense :: ('f :: comm_ring_1) csc_matrix \<Rightarrow> _" csc_wf
  by unfold_locales (auto simp: matrix_vector_multiply_nth)

interpretation csc_mtv: matrix_action matrix_transpose_vector_multiply csc_n csc_m
    "\<lambda>A j i. csc_dense A i j :: 'f :: comm_ring_1" csc_wf
  by unfold_locales (auto simp: matrix_transpose_vector_multiply_nth)

interpretation csc_adjoint: adjoint_actions matrix_vector_multiply matrix_transpose_vector_multiply
    csc_m csc_n "csc_dense :: ('f :: comm_ring_1) csc_matrix \<Rightarrow> _" "\<lambda>A j i. csc_dense A i j" csc_wf
  by unfold_locales auto

subsection \<open>Properties\<close>

text \<open>C37. The matrix-vector product computes y = alpha A x + beta y, entry by entry, and the transposed
  product computes y = alpha A' x + beta y; both keep the length of y.\<close>

theorem matrix_vector_multiply_correct:
  assumes "csc_wf A" "length x = csc_n A" "length y = csc_m A"
  shows "length (matrix_vector_multiply A alpha x beta y) = csc_m A \<and>
    length (matrix_transpose_vector_multiply A alpha y beta x) = csc_n A \<and>
    (\<forall>i<csc_m A. matrix_vector_multiply A alpha x beta y ! i =
       beta * y ! i + alpha * (\<Sum>j<csc_n A. csc_dense A i j * x ! j)) \<and>
    (\<forall>j<csc_n A. matrix_transpose_vector_multiply A alpha y beta x ! j =
       beta * x ! j + alpha * (\<Sum>i<csc_m A. csc_dense A i j * y ! i))"
  using assms by (simp add: matrix_vector_multiply_nth matrix_transpose_vector_multiply_nth)

theorem matrix_vector_multiply_correct_witness:
  "matrix_vector_multiply ex_A 1 [1, 2, 3] 2 [5, 7] ! 0 = 140"
proof -
  have "length [1, 2, 3 :: int] = csc_n ex_A" "length [5, 7 :: int] = csc_m ex_A" by code_simp+
  note matrix_vector_multiply_correct [OF ex_A_wf this, of 1 2]
  moreover have "(\<Sum>j<csc_n ex_A. csc_dense ex_A 0 j * [1, 2, 3] ! j) = 130" "(0 :: idx) < csc_m ex_A"
    by code_simp+
  ultimately show ?thesis by simp
qed

text \<open>The two products are adjoint: y'(alpha A x) = x'(alpha A' y) for every well-formed A.\<close>

theorem matrix_products_adjoint:
  assumes "csc_wf A" "length x = csc_n A" "length y = csc_m A" "length u = csc_m A" "length w = csc_n A"
  shows "dot y (matrix_vector_multiply A alpha x 0 u) = dot x (matrix_transpose_vector_multiply A alpha y 0 w)"
  using assms by (rule csc_adjoint.adjoint)

theorem matrix_products_adjoint_witness:
  "dot [1, 1] (matrix_vector_multiply ex_A 1 [1, 2, 3] 0 [5, 7]) =
   dot [1, 2, 3] (matrix_transpose_vector_multiply ex_A 1 [1, 1] 0 [4, 4, 4])"
  by (rule matrix_products_adjoint [OF ex_A_wf]) code_simp+

text \<open>Both sparse inner products of vectors sorted by index agree with the dense one: the sum over
  the entries of the first vector of its value times the value of the second at the same index.\<close>

theorem sparse_dot_correct:
  assumes "sorted_wrt (<) xind" "length xval = length xind"
    and "sorted_wrt (<) (map fst (csc_col Y j))"
  shows "sparse_dot_csc xind xval Y j = (\<Sum>i<length xind. xval ! i * csc_dense Y (xind ! i) j) \<and>
    sparse_dot xind xval (map fst (csc_col Y j)) (map snd (csc_col Y j)) = sparse_dot_csc xind xval Y j"
proof -
  have "merge_dot (zip xind xval) (csc_col Y j)
      = (\<Sum>(p, v)\<leftarrow>zip xind xval. v * lane_sum (csc_col Y j) p)"
    using assms by (intro merge_dot_eq) simp_all
  also have "\<dots> = (\<Sum>i<length xind. xval ! i * csc_dense Y (xind ! i) j)"
    using assms(2) by (simp add: sum_list_sum_nth csc_dense_def atLeast0LessThan)
  finally show ?thesis
    using assms(2) by (simp add: sparse_dot_csc_merge sparse_dot_merge zip_map_fst_snd)
qed

theorem sparse_dot_correct_witness:
  "sparse_dot_csc [1, 5] [2, 9] ex_A 0 = 40"
proof -
  have "sorted_wrt (<) [1, 5 :: idx]" "length [2, 9 :: int] = length [1, 5 :: idx]"
    "sorted_wrt (<) (map fst (csc_col ex_A 0))" by code_simp+
  note sparse_dot_correct [OF this]
  moreover have "(\<Sum>i<length [1, 5 :: idx]. [2, 9] ! i * csc_dense ex_A ([1, 5] ! i) 0) = 40" by code_simp
  ultimately show ?thesis by simp
qed

text \<open>The inverse of a stored permutation is a permutation and inverts it on both sides, whatever
  the output vector held; permuting a vector and permuting it back restores it.\<close>

theorem inverse_permutation_correct:
  assumes "is_perm n p" "length b = n" "length x = n" "length z = n"
  shows "is_perm n (inverse_permutation p pinv) \<and>
    (\<forall>k<n. inverse_permutation p pinv ! (p ! k) = k \<and> p ! (inverse_permutation p pinv ! k) = k) \<and>
    inverse_permute_vector p (permute_vector p b x) z = b"
proof -
  have len: "length (inverse_permute_vector p (permute_vector p b x) z) = n"
    using assms by (simp add: inverse_permute_vector_def)
  have "inverse_permute_vector p (permute_vector p b x) z ! i = b ! i" if i: "i < n" for i
  proof -
    obtain k where "k < n" "p ! k = i" using is_perm_surj [OF assms(1) i] by blast
    then show ?thesis
      using inverse_permute_vector_nth [OF assms(1,4)] permute_vector_nth [of p x k b] assms
      by (auto simp: is_perm_length)
  qed
  then have "inverse_permute_vector p (permute_vector p b x) z = b"
    using len assms(2) by (intro nth_equalityI) simp_all
  then show ?thesis
    using assms inverse_permutation_perm inverse_permutation_nth by blast
qed

theorem inverse_permutation_correct_witness:
  "inverse_permute_vector [2, 0, 1] (permute_vector [2, 0, 1] [5, 6, 7 :: int] [0, 0, 0]) [1, 1, 1] = [5, 6, 7]"
  by (rule inverse_permutation_correct [where n = 3, THEN conjunct2, THEN conjunct2]) code_simp+

end
