(* ===== verification/Triangle_Solve.thy ===== *)
theory Triangle_Solve
  imports Vector_Math
begin

text \<open>
  The four dense triangular solves of \<open>cpp/src/dual_simplex/triangle_solve.cpp\<close>: forward and back
  substitution with a lower or upper triangular matrix and with its transpose. \<open>lower_tri\<close> and
  \<open>upper_tri\<close> are the storage conventions the code relies on (the diagonal entry is the first,
  respectively the last one of its column). The contract of a solve and of its transpose is the
  locale \<open>adjoint_solvers\<close>.
\<close>

subsection \<open>Definitions\<close>

definition lower_triangular_solve :: "('f :: field) csc_matrix \<Rightarrow> 'f vec \<Rightarrow> 'f vec" where
  "lower_triangular_solve L x =
     for_range 0 (csc_n L) (\<lambda>j x.
       if x ! j \<noteq> 0 then
         for_range (col_start L ! j + 1) (col_start L ! Suc j)
           (\<lambda>p x. x[csc_i L ! p := x ! (csc_i L ! p) - csc_x L ! p * x ! j])
           (x[j := x ! j / csc_x L ! (col_start L ! j)])
       else x) x"

definition lower_triangular_transpose_solve :: "('f :: field) csc_matrix \<Rightarrow> 'f vec \<Rightarrow> 'f vec" where
  "lower_triangular_transpose_solve L x =
     for_down 0 (csc_n L) (\<lambda>j x.
       let x = for_range (col_start L ! j + 1) (col_start L ! Suc j)
                 (\<lambda>p x. x[j := x ! j - csc_x L ! p * x ! (csc_i L ! p)]) x
       in x[j := x ! j / csc_x L ! (col_start L ! j)]) x"

definition upper_triangular_solve :: "('f :: field) csc_matrix \<Rightarrow> 'f vec \<Rightarrow> 'f vec" where
  "upper_triangular_solve U x =
     for_down 0 (csc_n U) (\<lambda>j x.
       let col_end = col_start U ! Suc j - 1 in
       if x ! j \<noteq> 0 then
         for_range (col_start U ! j) col_end
           (\<lambda>p x. x[csc_i U ! p := x ! (csc_i U ! p) - csc_x U ! p * x ! j])
           (x[j := x ! j / csc_x U ! col_end])
       else x) x"

definition upper_triangular_transpose_solve :: "('f :: field) csc_matrix \<Rightarrow> 'f vec \<Rightarrow> 'f vec" where
  "upper_triangular_transpose_solve U x =
     for_range 0 (csc_n U) (\<lambda>j x.
       let col_end = col_start U ! Suc j - 1;
           x = for_range (col_start U ! j) col_end
                 (\<lambda>p x. x[j := x ! j - csc_x U ! p * x ! (csc_i U ! p)]) x
       in x[j := x ! j / csc_x U ! col_end]) x"

text \<open>The shape the solves expect: square, with a nonzero diagonal stored first or last.\<close>

definition lower_tri :: "('f :: field) csc_matrix \<Rightarrow> bool" where
  "lower_tri L \<longleftrightarrow> csc_wf L \<and> csc_m L = csc_n L \<and> (\<forall>j<csc_n L.
     case csc_col L j of [] \<Rightarrow> False
     | (r, d) # rest \<Rightarrow> r = j \<and> d \<noteq> 0 \<and> (\<forall>e \<in> set rest. j < fst e))"

definition upper_tri :: "('f :: field) csc_matrix \<Rightarrow> bool" where
  "upper_tri U \<longleftrightarrow> csc_wf U \<and> csc_m U = csc_n U \<and> (\<forall>j<csc_n U.
     case rev (csc_col U j) of [] \<Rightarrow> False
     | (r, d) # rest \<Rightarrow> r = j \<and> d \<noteq> 0 \<and> (\<forall>e \<in> set rest. fst e < j))"

subsection \<open>Columns split at the diagonal\<close>

lemma for_range_entries:
  "for_range a b (\<lambda>p. g (js ! p) (xs ! p)) st = fold (\<lambda>(r, v). g r v) (map (\<lambda>p. (js ! p, xs ! p)) [a..<b]) st"
  by (simp add: for_range_def fold_map comp_def)

lemma lower_col:
  assumes "lower_tri L" "j < csc_n L"
  obtains d rest where "csc_col L j = (j, d) # rest" "d \<noteq> 0" "\<forall>e \<in> set rest. j < fst e \<and> fst e < csc_n L"
    "csc_x L ! (col_start L ! j) = d"
    "map (\<lambda>p. (csc_i L ! p, csc_x L ! p)) [col_start L ! j + 1..<col_start L ! Suc j] = rest"
proof -
  obtain d rest where e: "csc_col L j = (j, d) # rest" "d \<noteq> 0" "\<forall>e \<in> set rest. j < fst e"
    using assms(1) [unfolded lower_tri_def, THEN conjunct2, THEN conjunct2, rule_format, OF assms(2)]
    by (auto split: list.splits)
  then have "col_start L ! j < col_start L ! Suc j" by (cases "col_start L ! j < col_start L ! Suc j") (auto simp: lane_def)
  then have "csc_x L ! (col_start L ! j) = d"
    "map (\<lambda>p. (csc_i L ! p, csc_x L ! p)) [col_start L ! j + 1..<col_start L ! Suc j] = rest"
    using e(1) by (auto simp: lane_def upt_conv_Cons)
  moreover have "\<forall>e \<in> set rest. fst e < csc_n L"
    using csc_col_less [of L j] assms e(1) by (auto simp: lower_tri_def)
  ultimately show ?thesis using that e by blast
qed

lemma upper_col:
  assumes "upper_tri U" "j < csc_n U"
  obtains d rest where "csc_col U j = rest @ [(j, d)]" "d \<noteq> 0" "\<forall>e \<in> set rest. fst e < j"
    "csc_x U ! (col_start U ! Suc j - 1) = d"
    "map (\<lambda>p. (csc_i U ! p, csc_x U ! p)) [col_start U ! j..<col_start U ! Suc j - 1] = rest"
proof -
  obtain d rest where r: "rev (csc_col U j) = (j, d) # rest" "d \<noteq> 0" "\<forall>e \<in> set rest. fst e < j"
    using assms(1) [unfolded upper_tri_def, THEN conjunct2, THEN conjunct2, rule_format, OF assms(2)]
    by (auto split: list.splits)
  then have e: "csc_col U j = rev rest @ [(j, d)]" by (metis rev_rev_ident rev.simps(2))
  then have "col_start U ! j < col_start U ! Suc j" by (cases "col_start U ! j < col_start U ! Suc j") (auto simp: lane_def)
  then obtain k where k: "col_start U ! Suc j = Suc k" "col_start U ! j \<le> k"
    by (cases "col_start U ! Suc j") auto
  have "csc_x U ! k = d" "map (\<lambda>p. (csc_i U ! p, csc_x U ! p)) [col_start U ! j..<k] = rev rest"
    using e k by (auto simp: lane_def)
  then show ?thesis using that [of "rev rest" d] e r(2,3) k by simp
qed

lemma lower_dense:
  assumes "lower_tri L" "j < csc_n L" "csc_col L j = (j, d) # rest" "\<forall>e \<in> set rest. j < fst e \<and> fst e < csc_n L"
  shows "csc_dense L j j = d" "i < j \<Longrightarrow> csc_dense L i j = 0" "j < i \<Longrightarrow> csc_dense L i j = lane_sum rest i"
    "i \<le> j \<Longrightarrow> lane_sum rest i = 0"
proof -
  have "lane_sum rest i = 0" if "i \<le> j" for i using assms(4) that by (intro lane_sum_none) auto
  then show "csc_dense L j j = d" "i < j \<Longrightarrow> csc_dense L i j = 0" "j < i \<Longrightarrow> csc_dense L i j = lane_sum rest i"
    "i \<le> j \<Longrightarrow> lane_sum rest i = 0"
    using assms(3) by (simp_all add: csc_dense_def)
qed

lemma upper_dense:
  assumes "csc_col U j = rest @ [(j, d)]" "\<forall>e \<in> set rest. fst e < j"
  shows "csc_dense U j j = d" "j < i \<Longrightarrow> csc_dense U i j = 0" "i < j \<Longrightarrow> csc_dense U i j = lane_sum rest i"
    "j \<le> i \<Longrightarrow> lane_sum rest i = 0"
proof -
  have "lane_sum rest i = 0" if "j \<le> i" for i using assms(2) that by (intro lane_sum_none) auto
  then show "csc_dense U j j = d" "j < i \<Longrightarrow> csc_dense U i j = 0" "i < j \<Longrightarrow> csc_dense U i j = lane_sum rest i"
    "j \<le> i \<Longrightarrow> lane_sum rest i = 0"
    using assms(1) by (simp_all add: csc_dense_def)
qed

subsection \<open>The two inner loops\<close>

lemma eliminate_loop:
  assumes "\<forall>e \<in> set l. fst e \<noteq> j \<and> fst e < length x" "j < length x"
  shows "length (fold (\<lambda>(i, v) x. x[i := x ! i - v * x ! j]) l x) = length x \<and>
    (\<forall>r<length x. fold (\<lambda>(i, v) x. x[i := x ! i - v * x ! j]) l x ! r
       = x ! r - lane_sum l r * (x ! j :: 'f :: comm_ring_1))"
  using assms
proof (induction l arbitrary: x)
  case (Cons e l)
  obtain i v where e: "e = (i, v)" by (cases e)
  show ?case
    using Cons.IH [of "x[i := x ! i - v * x ! j]"] Cons.prems
    by (auto simp: e nth_list_update algebra_simps)
qed simp

lemma substitute_loop:
  assumes "\<forall>e \<in> set l. fst e \<noteq> j" "j < length x"
  shows "fold (\<lambda>(i, v) x. x[j := x ! j - v * x ! i]) l x
       = x[j := x ! j - (\<Sum>(i, v)\<leftarrow>l. v * (x ! i :: 'f :: comm_ring_1))]"
  using assms
proof (induction l arbitrary: x)
  case (Cons e l)
  obtain i v where e: "e = (i, v)" by (cases e)
  have "(\<Sum>(k, w)\<leftarrow>l. w * (x[j := x ! j - v * x ! i]) ! k) = (\<Sum>(k, w)\<leftarrow>l. w * x ! k)"
    using Cons.prems by (intro arg_cong [where f = sum_list] map_cong) auto
  then show ?case using Cons by (simp add: e algebra_simps)
qed simp

subsection \<open>The solves solve\<close>

lemma lower_triangular_solve_spec:
  assumes L: "lower_tri L" and x: "length x = csc_n L"
  shows "length (lower_triangular_solve L x) = csc_n L \<and>
    (\<forall>i<csc_n L. (\<Sum>j<csc_n L. csc_dense L i j * lower_triangular_solve L x ! j) = x ! i)"
proof -
  let ?n = "csc_n L"
  let ?P = "\<lambda>j y. length y = ?n \<and>
    (\<forall>i<?n. (\<Sum>k<j. csc_dense L i k * y ! k) + (if i < j then 0 else y ! i) = x ! i)"
  have "?P ?n (lower_triangular_solve L x)"
    unfolding lower_triangular_solve_def
  proof (rule for_range_inv [where P = ?P])
    fix j y
    assume j: "j < ?n" and P: "?P j y"
    obtain d rest where c: "csc_col L j = (j, d) # rest" "d \<noteq> 0"
      "\<forall>e \<in> set rest. j < fst e \<and> fst e < ?n" "csc_x L ! (col_start L ! j) = d"
      "map (\<lambda>p. (csc_i L ! p, csc_x L ! p)) [col_start L ! j + 1..<col_start L ! Suc j] = rest"
      by (rule lower_col [OF L j])
    note dn = lower_dense [OF L j c(1,3)]
    have ly: "length y = ?n" using P by blast
    let ?y = "y[j := y ! j / d]"
    have "\<forall>e \<in> set rest. fst e \<noteq> j \<and> fst e < length ?y" using c(3) ly by auto
    note el = eliminate_loop [OF this]
    define y' where "y' = (if y ! j \<noteq> 0 then fold (\<lambda>(i, v) x. x[i := x ! i - v * x ! j]) rest ?y else y)"
    have y'_nth: "length y' = ?n" "\<And>r. r < ?n \<Longrightarrow> y' ! r = ?y ! r - lane_sum rest r * ?y ! j"
      using el ly j by (auto simp: nth_list_update y'_def)
    have old: "y' ! r = y ! r" if "r < j" for r
      using y'_nth(2) [of r] that j dn(4) [of r] by simp
    have piv: "y' ! j = y ! j / d" using y'_nth(2) [OF j] dn(4) [of j] ly j by simp
    have "(\<Sum>k<Suc j. csc_dense L i k * y' ! k) + (if i < Suc j then 0 else y' ! i) = x ! i"
      if i: "i < ?n" for i
    proof -
      have s: "(\<Sum>k<j. csc_dense L i k * y' ! k) = (\<Sum>k<j. csc_dense L i k * y ! k)"
        using old by (intro sum.cong) auto
      have "(\<Sum>k<j. csc_dense L i k * y ! k) + (if i < j then 0 else y ! i) = x ! i" using P i by blast
      moreover have "csc_dense L i j * y' ! j + (if i < Suc j then 0 else y' ! i) = (if i < j then 0 else y ! i)"
        unfolding piv using y'_nth(2) [OF i] i ly j c(2) dn(1) dn(2) [of i] dn(3) [of i]
        by (cases i j rule: linorder_cases) auto
      ultimately show ?thesis by (simp only: sum.lessThan_Suc s add.assoc)
    qed
    then show "?P (Suc j) (if y ! j \<noteq> 0 then
         for_range (col_start L ! j + 1) (col_start L ! Suc j)
           (\<lambda>p x. x[csc_i L ! p := x ! (csc_i L ! p) - csc_x L ! p * x ! j])
           (y[j := y ! j / csc_x L ! (col_start L ! j)])
       else y)"
      unfolding for_range_entries [where g = "\<lambda>i v x. x[i := x ! i - v * x ! j]"] c(4,5)
      using y'_nth(1) unfolding y'_def [symmetric] by blast
  qed (use x in auto)
  then show ?thesis by simp
qed

lemma upper_triangular_solve_spec:
  assumes U: "upper_tri U" and x: "length x = csc_n U"
  shows "length (upper_triangular_solve U x) = csc_n U \<and>
    (\<forall>i<csc_n U. (\<Sum>j<csc_n U. csc_dense U i j * upper_triangular_solve U x ! j) = x ! i)"
proof -
  let ?n = "csc_n U"
  let ?P = "\<lambda>j y. length y = ?n \<and>
    (\<forall>i<?n. (\<Sum>k\<in>{j..<?n}. csc_dense U i k * y ! k) + (if i < j then y ! i else 0) = x ! i)"
  have "?P 0 (upper_triangular_solve U x)"
    unfolding upper_triangular_solve_def Let_def
  proof (rule for_down_inv [where P = ?P])
    fix j y
    assume j: "j < ?n" and P: "?P (Suc j) y"
    obtain d rest where c: "csc_col U j = rest @ [(j, d)]" "d \<noteq> 0" "\<forall>e \<in> set rest. fst e < j"
      "csc_x U ! (col_start U ! Suc j - 1) = d"
      "map (\<lambda>p. (csc_i U ! p, csc_x U ! p)) [col_start U ! j..<col_start U ! Suc j - 1] = rest"
      by (rule upper_col [OF U j])
    note dn = upper_dense [OF c(1,3)]
    have ly: "length y = ?n" using P by blast
    let ?y = "y[j := y ! j / d]"
    have "\<forall>e \<in> set rest. fst e \<noteq> j \<and> fst e < length ?y" using c(3) ly j by auto
    note el = eliminate_loop [OF this]
    define y' where "y' = (if y ! j \<noteq> 0 then fold (\<lambda>(i, v) x. x[i := x ! i - v * x ! j]) rest ?y else y)"
    have y'_nth: "length y' = ?n" "\<And>r. r < ?n \<Longrightarrow> y' ! r = ?y ! r - lane_sum rest r * ?y ! j"
      using el ly j by (auto simp: nth_list_update y'_def)
    have old: "y' ! r = y ! r" if "j < r" "r < ?n" for r
      using y'_nth(2) [of r] that j dn(4) [of r] by simp
    have piv: "y' ! j = y ! j / d" using y'_nth(2) [OF j] dn(4) [of j] ly j by simp
    have "(\<Sum>k\<in>{j..<?n}. csc_dense U i k * y' ! k) + (if i < j then y' ! i else 0) = x ! i"
      if i: "i < ?n" for i
    proof -
      have s: "(\<Sum>k\<in>{Suc j..<?n}. csc_dense U i k * y' ! k) = (\<Sum>k\<in>{Suc j..<?n}. csc_dense U i k * y ! k)"
        using old by (intro sum.cong) auto
      have A: "(\<Sum>k\<in>{Suc j..<?n}. csc_dense U i k * y ! k) + (if i < Suc j then y ! i else 0) = x ! i"
        using P i by blast
      have B: "csc_dense U i j * y' ! j + (if i < j then y' ! i else 0) = (if i < Suc j then y ! i else 0)"
        unfolding piv using y'_nth(2) [OF i] i ly j c(2) dn(1) dn(2) [of i] dn(3) [of i]
        by (cases i j rule: linorder_cases) auto
      have swap: "(a + b) + c = b + (a + c)" for a b c :: 'a by (simp only: add_ac)
      show ?thesis unfolding sum.atLeast_Suc_lessThan [OF j] s swap B A ..
    qed
    then show "?P j (if y ! j \<noteq> 0 then
         for_range (col_start U ! j) (col_start U ! Suc j - 1)
           (\<lambda>p x. x[csc_i U ! p := x ! (csc_i U ! p) - csc_x U ! p * x ! j])
           (y[j := y ! j / csc_x U ! (col_start U ! Suc j - 1)])
       else y)"
      unfolding for_range_entries [where g = "\<lambda>i v x. x[i := x ! i - v * x ! j]"] c(4,5)
      using y'_nth(1) unfolding y'_def [symmetric] by blast
  qed (use x in auto)
  then show ?thesis by (simp add: atLeast0LessThan)
qed

lemma lower_triangular_transpose_solve_spec:
  assumes L: "lower_tri L" and x: "length x = csc_n L"
  shows "length (lower_triangular_transpose_solve L x) = csc_n L \<and>
    (\<forall>j<csc_n L. (\<Sum>i<csc_n L. csc_dense L i j * lower_triangular_transpose_solve L x ! i) = x ! j)"
proof -
  let ?n = "csc_n L"
  let ?P = "\<lambda>j y. length y = ?n \<and> (\<forall>k<j. y ! k = x ! k) \<and>
    (\<forall>k<?n. j \<le> k \<longrightarrow> (\<Sum>i<?n. csc_dense L i k * y ! i) = x ! k)"
  have "?P 0 (lower_triangular_transpose_solve L x)"
    unfolding lower_triangular_transpose_solve_def Let_def
  proof (rule for_down_inv [where P = ?P])
    fix j y
    assume j: "j < ?n" and P: "?P (Suc j) y"
    obtain d rest where c: "csc_col L j = (j, d) # rest" "d \<noteq> 0"
      "\<forall>e \<in> set rest. j < fst e \<and> fst e < ?n" "csc_x L ! (col_start L ! j) = d"
      "map (\<lambda>p. (csc_i L ! p, csc_x L ! p)) [col_start L ! j + 1..<col_start L ! Suc j] = rest"
      by (rule lower_col [OF L j])
    note dn = lower_dense [OF L j c(1,3)]
    have ly: "length y = ?n" "y ! j = x ! j" using P by simp_all
    have ne: "\<forall>e \<in> set rest. fst e \<noteq> j" "j < length y" "\<forall>e \<in> set rest. fst e < ?n"
      using c(3) ly j by auto
    define S where "S = (\<Sum>i<?n. lane_sum rest i * y ! i)"
    define y' where "y' = y[j := (x ! j - S) / d]"
    have loop: "(fold (\<lambda>(i, v) x. x[j := x ! j - v * x ! i]) rest y)
        [j := fold (\<lambda>(i, v) x. x[j := x ! j - v * x ! i]) rest y ! j / d] = y'"
      unfolding substitute_loop [OF ne(1,2)] lane_dot [OF ne(3)] S_def y'_def using ly ne(2) by simp
    have eqj: "(\<Sum>i<?n. csc_dense L i j * y' ! i) = x ! j"
    proof -
      have "csc_dense L i j * y' ! i = (if i = j then x ! j - S else 0) + lane_sum rest i * y ! i"
        if "i < ?n" for i
        using that dn(1) dn(2,3,4) [of i] c(2) ly ne(2)
        by (cases i j rule: linorder_cases) (auto simp: y'_def)
      then have "(\<Sum>i<?n. csc_dense L i j * y' ! i)
          = (\<Sum>i<?n. (if i = j then x ! j - S else 0) + lane_sum rest i * y ! i)"
        by (intro sum.cong) auto
      then show ?thesis using j by (simp add: sum.distrib S_def)
    qed
    have eqk: "(\<Sum>i<?n. csc_dense L i k * y' ! i) = x ! k" if k: "k < ?n" "j < k" for k
    proof -
      obtain d' rest' where "csc_col L k = (k, d') # rest'" "\<forall>e \<in> set rest'. k < fst e \<and> fst e < ?n"
        by (rule lower_col [OF L k(1)])
      then have "csc_dense L j k = 0" using lower_dense(2) [OF L k(1)] k(2) by blast
      then have "csc_dense L i k * y' ! i = csc_dense L i k * y ! i" for i
        by (cases "i = j") (simp_all add: y'_def)
      then have "(\<Sum>i<?n. csc_dense L i k * y' ! i) = (\<Sum>i<?n. csc_dense L i k * y ! i)"
        by (intro sum.cong refl)
      then show ?thesis using P k by auto
    qed
    have "length y' = ?n" "\<forall>k<j. y' ! k = x ! k" using P by (simp_all add: y'_def)
    moreover have "\<forall>k<?n. j \<le> k \<longrightarrow> (\<Sum>i<?n. csc_dense L i k * y' ! i) = x ! k"
      using eqj eqk by (auto simp: le_less)
    ultimately have "?P j y'" by blast
    then show "?P j ((for_range (col_start L ! j + 1) (col_start L ! Suc j)
                 (\<lambda>p x. x[j := x ! j - csc_x L ! p * x ! (csc_i L ! p)]) y)
       [j := (for_range (col_start L ! j + 1) (col_start L ! Suc j)
                 (\<lambda>p x. x[j := x ! j - csc_x L ! p * x ! (csc_i L ! p)]) y) ! j / csc_x L ! (col_start L ! j)])"
      unfolding for_range_entries [where g = "\<lambda>i v x. x[j := x ! j - v * x ! i]"] c(4,5) loop .
  qed (use x in auto)
  then show ?thesis by simp
qed

lemma upper_triangular_transpose_solve_spec:
  assumes U: "upper_tri U" and x: "length x = csc_n U"
  shows "length (upper_triangular_transpose_solve U x) = csc_n U \<and>
    (\<forall>j<csc_n U. (\<Sum>i<csc_n U. csc_dense U i j * upper_triangular_transpose_solve U x ! i) = x ! j)"
proof -
  let ?n = "csc_n U"
  let ?P = "\<lambda>j y. length y = ?n \<and> (\<forall>k<?n. j \<le> k \<longrightarrow> y ! k = x ! k) \<and>
    (\<forall>k<j. (\<Sum>i<?n. csc_dense U i k * y ! i) = x ! k)"
  have "?P ?n (upper_triangular_transpose_solve U x)"
    unfolding upper_triangular_transpose_solve_def Let_def
  proof (rule for_range_inv [where P = ?P])
    fix j y
    assume j: "j < ?n" and P: "?P j y"
    obtain d rest where c: "csc_col U j = rest @ [(j, d)]" "d \<noteq> 0" "\<forall>e \<in> set rest. fst e < j"
      "csc_x U ! (col_start U ! Suc j - 1) = d"
      "map (\<lambda>p. (csc_i U ! p, csc_x U ! p)) [col_start U ! j..<col_start U ! Suc j - 1] = rest"
      by (rule upper_col [OF U j])
    note dn = upper_dense [OF c(1,3)]
    have ly: "length y = ?n" "y ! j = x ! j" using P j by simp_all
    have ne: "\<forall>e \<in> set rest. fst e \<noteq> j" "j < length y" "\<forall>e \<in> set rest. fst e < ?n"
      using c(3) ly j by auto
    define S where "S = (\<Sum>i<?n. lane_sum rest i * y ! i)"
    define y' where "y' = y[j := (x ! j - S) / d]"
    have loop: "(fold (\<lambda>(i, v) x. x[j := x ! j - v * x ! i]) rest y)
        [j := fold (\<lambda>(i, v) x. x[j := x ! j - v * x ! i]) rest y ! j / d] = y'"
      unfolding substitute_loop [OF ne(1,2)] lane_dot [OF ne(3)] S_def y'_def using ly ne(2) by simp
    have eqj: "(\<Sum>i<?n. csc_dense U i j * y' ! i) = x ! j"
    proof -
      have "csc_dense U i j * y' ! i = (if i = j then x ! j - S else 0) + lane_sum rest i * y ! i"
        if "i < ?n" for i
        using that dn(1) dn(2,3,4) [of i] c(2) ly ne(2)
        by (cases i j rule: linorder_cases) (auto simp: y'_def)
      then have "(\<Sum>i<?n. csc_dense U i j * y' ! i)
          = (\<Sum>i<?n. (if i = j then x ! j - S else 0) + lane_sum rest i * y ! i)"
        by (intro sum.cong) auto
      then show ?thesis using j by (simp add: sum.distrib S_def)
    qed
    have eqk: "(\<Sum>i<?n. csc_dense U i k * y' ! i) = x ! k" if k: "k < j" for k
    proof -
      have kn: "k < ?n" using k j by simp
      obtain d' rest' where "csc_col U k = rest' @ [(k, d')]" "\<forall>e \<in> set rest'. fst e < k"
        by (rule upper_col [OF U kn])
      then have "csc_dense U j k = 0" using upper_dense(2) k by blast
      then have "csc_dense U i k * y' ! i = csc_dense U i k * y ! i" for i
        by (cases "i = j") (simp_all add: y'_def)
      then have "(\<Sum>i<?n. csc_dense U i k * y' ! i) = (\<Sum>i<?n. csc_dense U i k * y ! i)"
        by (intro sum.cong refl)
      then show ?thesis using P k by auto
    qed
    have "length y' = ?n" "\<forall>k<?n. Suc j \<le> k \<longrightarrow> y' ! k = x ! k" using P by (simp_all add: y'_def)
    moreover have "\<forall>k<Suc j. (\<Sum>i<?n. csc_dense U i k * y' ! i) = x ! k"
      using eqj eqk by (auto simp: less_Suc_eq)
    ultimately have "?P (Suc j) y'" by blast
    then show "?P (Suc j) ((for_range (col_start U ! j) (col_start U ! Suc j - 1)
                 (\<lambda>p x. x[j := x ! j - csc_x U ! p * x ! (csc_i U ! p)]) y)
       [j := (for_range (col_start U ! j) (col_start U ! Suc j - 1)
                 (\<lambda>p x. x[j := x ! j - csc_x U ! p * x ! (csc_i U ! p)]) y) ! j / csc_x U ! (col_start U ! Suc j - 1)])"
      unfolding for_range_entries [where g = "\<lambda>i v x. x[j := x ! j - v * x ! i]"] c(4,5) loop .
  qed (use x in auto)
  then show ?thesis by simp
qed

subsection \<open>The contract of a pair of solves\<close>

locale adjoint_solvers =
  fixes solve solve_t :: "'m \<Rightarrow> ('f :: field) vec \<Rightarrow> 'f vec"
    and dim :: "'m \<Rightarrow> nat" and ent :: "'m \<Rightarrow> idx \<Rightarrow> idx \<Rightarrow> 'f" and wf :: "'m \<Rightarrow> bool"
  assumes solve: "wf M \<Longrightarrow> length x = dim M \<Longrightarrow> length (solve M x) = dim M \<and>
      (\<forall>i<dim M. (\<Sum>j<dim M. ent M i j * solve M x ! j) = x ! i)"
    and solve_t: "wf M \<Longrightarrow> length x = dim M \<Longrightarrow> length (solve_t M x) = dim M \<and>
      (\<forall>j<dim M. (\<Sum>i<dim M. ent M i j * solve_t M x ! i) = x ! j)"
begin

text \<open>\<open>y'(M\<inverse>b) = (M'\<inverse>y)'b\<close>: the identity the simplex method uses to exchange the two.\<close>

lemma adjoint:
  assumes M: "wf M" and b: "length b = dim M" and y: "length y = dim M"
  shows "dot y (solve M b) = dot (solve_t M y) b"
proof -
  have "dot y (solve M b) = (\<Sum>j<dim M. (\<Sum>i<dim M. ent M i j * solve_t M y ! i) * solve M b ! j)"
    using solve_t [OF M y] y by (simp add: dot_eq)
  also have "\<dots> = (\<Sum>i<dim M. solve_t M y ! i * (\<Sum>j<dim M. ent M i j * solve M b ! j))"
    by (simp add: sum_distrib_left sum_distrib_right mult_ac) (rule sum.swap)
  also have "\<dots> = dot (solve_t M y) b"
    using solve [OF M b] solve_t [OF M y] by (simp add: dot_eq)
  finally show ?thesis .
qed

text \<open>A vector with image \<open>b\<close> is the result of the solve: the solution is unique.\<close>

lemma solve_unique:
  assumes M: "wf M" and b: "length b = dim M" and x: "length x = dim M"
    and eq: "\<forall>i<dim M. (\<Sum>j<dim M. ent M i j * x ! j) = b ! i"
  shows "solve M b = x"
proof (rule nth_equalityI)
  fix k assume "k < length (solve M b)"
  then have k: "k < dim M" using solve [OF M b] by simp
  let ?e = "(replicate (dim M) 0)[k := 1 :: 'f]"
  have e: "length ?e = dim M" by simp
  have pick: "dot ?e z = z ! k" if "length z = dim M" for z
  proof -
    have "dot ?e z = (\<Sum>j<dim M. if j = k then z ! k else 0)"
      unfolding dot_eq using k by (intro sum.cong) (auto simp: nth_list_update)
    then show ?thesis using k by simp
  qed
  have "dot ?e x = (\<Sum>j<dim M. (\<Sum>i<dim M. ent M i j * solve_t M ?e ! i) * x ! j)"
    using solve_t [OF M e] by (simp add: dot_eq)
  also have "\<dots> = (\<Sum>i<dim M. solve_t M ?e ! i * (\<Sum>j<dim M. ent M i j * x ! j))"
    by (simp add: sum_distrib_left sum_distrib_right mult_ac) (rule sum.swap)
  also have "\<dots> = dot (solve_t M ?e) b"
    using eq solve_t [OF M e] by (simp add: dot_eq)
  also have "\<dots> = dot ?e (solve M b)" using adjoint [OF M b e] by simp
  finally show "solve M b ! k = x ! k" using pick x solve [OF M b] by simp
qed (use solve [OF M b] x in simp)

end

interpretation lower_solvers: adjoint_solvers lower_triangular_solve lower_triangular_transpose_solve
    csc_n "csc_dense :: ('f :: field) csc_matrix \<Rightarrow> _" lower_tri
  by unfold_locales (rule lower_triangular_solve_spec lower_triangular_transpose_solve_spec; assumption)+

interpretation upper_solvers: adjoint_solvers upper_triangular_solve upper_triangular_transpose_solve
    csc_n "csc_dense :: ('f :: field) csc_matrix \<Rightarrow> _" upper_tri
  by unfold_locales (rule upper_triangular_solve_spec upper_triangular_transpose_solve_spec; assumption)+

subsection \<open>Properties\<close>

definition ex_L :: "rat csc_matrix" where
  "ex_L = \<lparr>csc_nz_max = 4, csc_m = 3, csc_n = 3, col_start = [0, 2, 3, 4],
           csc_i = [0, 2, 1, 2], csc_x = [2, 1, 4, 5]\<rparr>"

definition ex_U :: "rat csc_matrix" where
  "ex_U = \<lparr>csc_nz_max = 4, csc_m = 3, csc_n = 3, col_start = [0, 1, 2, 4],
           csc_i = [0, 1, 0, 2], csc_x = [2, 4, 1, 5]\<rparr>"

lemma ex_LU: "lower_tri ex_L" "upper_tri ex_U"
  by code_simp+

text \<open>C39. For a lower triangular L with nonzero diagonal, forward substitution returns the one and only
  solution x of L x = b, and the transposed solve returns a solution of L' x = b.\<close>

theorem lower_solves_correct:
  assumes "lower_tri L" "length b = csc_n L"
  shows "(\<forall>x. length x = csc_n L \<longrightarrow>
      (\<forall>i<csc_n L. (\<Sum>j<csc_n L. csc_dense L i j * x ! j) = b ! i) \<longleftrightarrow> x = lower_triangular_solve L b) \<and>
    (\<forall>j<csc_n L. (\<Sum>i<csc_n L. csc_dense L i j * lower_triangular_transpose_solve L b ! i) = b ! j)"
  using lower_solvers.solve [OF assms] lower_solvers.solve_t [OF assms] lower_solvers.solve_unique [OF assms]
  by blast

theorem lower_solves_correct_witness:
  "lower_triangular_solve ex_L [2, 4, 6] = [1, 1, 1]"
proof -
  have "length [2, 4, 6 :: rat] = csc_n ex_L" by code_simp
  note lower_solves_correct [OF ex_LU(1) this, THEN conjunct1, THEN spec, of "[1, 1, 1]"]
  moreover have "length [1, 1, 1 :: rat] = csc_n ex_L" by code_simp
  moreover have "\<forall>i<csc_n ex_L. (\<Sum>j<csc_n ex_L. csc_dense ex_L i j * [1, 1, 1] ! j) = [2, 4, 6] ! i"
    by code_simp
  ultimately show ?thesis by simp
qed

text \<open>C40. For an upper triangular U with nonzero diagonal, back substitution returns the one and only
  solution x of U x = b, and the transposed solve returns a solution of U' x = b.\<close>

theorem upper_solves_correct:
  assumes "upper_tri U" "length b = csc_n U"
  shows "(\<forall>x. length x = csc_n U \<longrightarrow>
      (\<forall>i<csc_n U. (\<Sum>j<csc_n U. csc_dense U i j * x ! j) = b ! i) \<longleftrightarrow> x = upper_triangular_solve U b) \<and>
    (\<forall>j<csc_n U. (\<Sum>i<csc_n U. csc_dense U i j * upper_triangular_transpose_solve U b ! i) = b ! j)"
  using upper_solvers.solve [OF assms] upper_solvers.solve_t [OF assms] upper_solvers.solve_unique [OF assms]
  by blast

theorem upper_solves_correct_witness:
  "(\<Sum>i<csc_n ex_U. csc_dense ex_U i 2 * upper_triangular_transpose_solve ex_U [2, 4, 6] ! i) = 6"
proof -
  have "length [2, 4, 6 :: rat] = csc_n ex_U" "2 < csc_n ex_U" by code_simp+
  from upper_solves_correct [OF ex_LU(2) this(1), THEN conjunct2, THEN spec, THEN mp, OF this(2)]
  show ?thesis by simp
qed

end
