(* ===== verification/Sparse_Triangle.thy ===== *)
theory Sparse_Triangle
  imports Triangle_Solve
begin

text \<open>
  The triangular solve with a sparse right-hand side (\<open>reach\<close>, \<open>depth_first_search\<close> and
  \<open>sparse_triangle_solve\<close> of \<open>triangle_solve.cpp\<close>, macros of \<open>triangle_solve.hpp\<close>). A node is marked by flipping
  its column pointer, so the search works on a copy \<open>cs\<close> of the column pointers with signed entries; \<open>reach\<close>
  puts them back. \<open>xi\<close> holds the recursion stack, the output stack and, from index \<open>m\<close> on, the paused positions.
  The search is a loop of unknown length: its result is \<open>None\<close> when it does not end.
\<close>

subsection \<open>Definitions\<close>

definition FLIP :: "int \<Rightarrow> int" where "FLIP i = - i - 2"

definition UNFLIP :: "int \<Rightarrow> int" where "UNFLIP i = (if i < 0 then FLIP i else i)"

definition MARKED :: "int list \<Rightarrow> idx \<Rightarrow> bool" where "MARKED w j \<longleftrightarrow> w ! j < 0"

definition MARK :: "int list \<Rightarrow> idx \<Rightarrow> int list" where "MARK w j = w[j := FLIP (w ! j)]"

text \<open>The column of a node: \<open>pinv[j]\<close>, or \<open>j\<close> without a permutation.\<close>

definition node_column :: "int list option \<Rightarrow> idx \<Rightarrow> int" where
  "node_column pinv j = (case pinv of Some q \<Rightarrow> q ! j | None \<Rightarrow> int j)"

text \<open>The loop of the search; \<open>find\<close> is the inner loop over the neighbours, with its break at the first unvisited one.\<close>

partial_function (option) dfs_loop ::
  "int list option \<Rightarrow> 'f csc_matrix \<Rightarrow> int \<Rightarrow> idx list \<Rightarrow> int list \<Rightarrow> idx \<Rightarrow> (idx \<times> idx list \<times> int list) option" where
  "dfs_loop pinv G head xi cs tp =
     (if head < 0 then Some (tp, xi, cs)
      else let h = nat head; j = xi ! h; jnew = node_column pinv j;
               cs' = (if \<not> MARKED cs j then MARK cs j else cs);
               xi' = (if \<not> MARKED cs j
                      then xi[csc_m G + h := if jnew < 0 then 0 else nat (UNFLIP (cs' ! nat jnew))] else xi);
               p2 = (if jnew < 0 then 0 else nat (UNFLIP (cs' ! (nat jnew + 1))))
           in case find (\<lambda>p. \<not> MARKED cs' (csc_i G ! p)) [xi' ! (csc_m G + h)..<p2] of
                Some p \<Rightarrow> dfs_loop pinv G (head + 1) (xi'[csc_m G + h := p, h + 1 := csc_i G ! p]) cs' tp
              | None \<Rightarrow> dfs_loop pinv G (head - 1) (xi'[tp - 1 := j]) cs' (tp - 1))"

declare dfs_loop.simps [code]

definition depth_first_search ::
  "idx \<Rightarrow> int list option \<Rightarrow> 'f csc_matrix \<Rightarrow> idx \<Rightarrow> idx list \<Rightarrow> int list \<Rightarrow> (idx \<times> idx list \<times> int list) option" where
  "depth_first_search j pinv G tp xi cs = dfs_loop pinv G 0 (xi[0 := j]) cs tp"

definition reach ::
  "'f csc_matrix \<Rightarrow> idx \<Rightarrow> int list option \<Rightarrow> 'f csc_matrix \<Rightarrow> idx list \<Rightarrow> (idx \<times> idx list \<times> 'f csc_matrix) option" where
  "reach B col pinv G xi =
     (let m = csc_m G
      in map_option
           (\<lambda>(tp, xi, cs). let cs = for_range tp m (\<lambda>p cs. MARK cs (xi ! p)) cs
              in (tp, xi, G\<lparr>col_start := map nat cs\<rparr>))
           (for_range (col_start B ! col) (col_start B ! Suc col) (\<lambda>p r. Option.bind r (\<lambda>(tp, xi, cs).
              if \<not> MARKED cs (csc_i B ! p) then depth_first_search (csc_i B ! p) pinv G tp xi cs else Some (tp, xi, cs)))
              (Some (m, xi, map int (col_start G)))))"

definition sparse_triangle_solve ::
  "bool \<Rightarrow> 'f csc_matrix \<Rightarrow> idx \<Rightarrow> int list option \<Rightarrow> idx list \<Rightarrow> ('f :: field) csc_matrix \<Rightarrow> 'f vec
   \<Rightarrow> (idx \<times> idx list \<times> 'f csc_matrix \<times> 'f vec) option" where
  "sparse_triangle_solve lo B col pinv xi G x =
     map_option (\<lambda>(tp, xi, G).
       let m = csc_m G;
           x = for_range tp m (\<lambda>p x. x[xi ! p := 0]) x;
           x = for_range (col_start B ! col) (col_start B ! Suc col) (\<lambda>p x. x[csc_i B ! p := csc_x B ! p]) x;
           x = for_range tp m (\<lambda>px x.
             let j = xi ! px; J = node_column pinv j
             in if J < 0 then x
                else let J = nat J;
                         Gjj = (if lo then csc_x G ! (col_start G ! J) else csc_x G ! (col_start G ! Suc J - 1));
                         p = (if lo then col_start G ! J + 1 else col_start G ! J);
                         end_pos = (if lo then col_start G ! Suc J else col_start G ! Suc J - 1);
                         x = x[j := x ! j / Gjj]
                     in for_range p end_pos (\<lambda>p x. x[csc_i G ! p := x ! (csc_i G ! p) - csc_x G ! p * x ! j]) x) x
       in (tp, xi, G, x))
     (reach B col pinv G xi)"

subsection \<open>The graph\<close>

definition first_pos :: "int list option \<Rightarrow> 'f csc_matrix \<Rightarrow> idx \<Rightarrow> idx" where
  "first_pos pinv G j = (if node_column pinv j < 0 then 0 else col_start G ! nat (node_column pinv j))"

definition end_pos :: "int list option \<Rightarrow> 'f csc_matrix \<Rightarrow> idx \<Rightarrow> idx" where
  "end_pos pinv G j = (if node_column pinv j < 0 then 0 else col_start G ! Suc (nat (node_column pinv j)))"

definition node_succs :: "int list option \<Rightarrow> 'f csc_matrix \<Rightarrow> idx \<Rightarrow> idx set" where
  "node_succs pinv G j = (!) (csc_i G) ` {first_pos pinv G j..<end_pos pinv G j}"

definition graph_ok :: "int list option \<Rightarrow> 'f csc_matrix \<Rightarrow> bool" where
  "graph_ok pinv G \<longleftrightarrow> csc_wf G \<and> csc_n G = csc_m G \<and> (\<forall>j<csc_m G. node_column pinv j < int (csc_m G))"

text \<open>The only cycles are the diagonal entries: some rank increases along every other edge.\<close>

definition acyclic_ranked :: "int list option \<Rightarrow> 'f csc_matrix \<Rightarrow> (idx \<Rightarrow> nat) \<Rightarrow> bool" where
  "acyclic_ranked pinv G rank \<longleftrightarrow> (\<forall>j<csc_m G. \<forall>i\<in>node_succs pinv G j. i \<noteq> j \<longrightarrow> rank j < rank i)"

definition edges :: "int list option \<Rightarrow> 'f csc_matrix \<Rightarrow> (idx \<times> idx) set" where
  "edges pinv G = {(j, i). i \<in> node_succs pinv G j}"

lemma FLIP_simps [simp]: "FLIP (FLIP i) = i" "UNFLIP (int k) = int k" "UNFLIP (FLIP (int k)) = int k" "FLIP (int k) < 0"
  by (simp_all add: FLIP_def UNFLIP_def)

lemma graph_pos:
  assumes "graph_ok pinv G" "j < csc_m G"
  shows "first_pos pinv G j \<le> end_pos pinv G j" "p < end_pos pinv G j \<Longrightarrow> csc_i G ! p < csc_m G"
    "node_succs pinv G j \<subseteq> {..<csc_m G}"
proof -
  have wf: "lanes_wf (csc_m G) (csc_m G) (col_start G) (csc_i G) (csc_x G)" and c: "node_column pinv j < int (csc_m G)"
    using assms unfolding graph_ok_def csc_wf_def by auto
  have s: "sorted (col_start G)" "length (col_start G) = Suc (csc_m G)" using wf by (simp_all add: lanes_wf_def)
  show "first_pos pinv G j \<le> end_pos pinv G j"
    using s c by (auto simp: first_pos_def end_pos_def intro: sorted_nth_mono)
  have e: "end_pos pinv G j \<le> col_start G ! csc_m G"
    using s c by (auto simp: end_pos_def intro: sorted_nth_mono)
  show 1: "p < end_pos pinv G j \<Longrightarrow> csc_i G ! p < csc_m G" for p using e wf by (simp add: lanes_wf_def)
  show "node_succs pinv G j \<subseteq> {..<csc_m G}" using 1 by (auto simp: node_succs_def)
qed

subsection \<open>The search\<close>

text \<open>
  The state of the search: \<open>stk\<close> is the recursion stack, \<open>out\<close> the output stack, \<open>mk\<close> the marked nodes. Every
  node on the stack but the last is marked and follows its predecessor along an edge; the edges of a stacked
  node before its paused position lead to visited nodes; the edges of a finished node lead to later ones.
\<close>

definition topological :: "int list option \<Rightarrow> 'f csc_matrix \<Rightarrow> idx list \<Rightarrow> bool" where
  "topological pinv G out \<longleftrightarrow> (\<forall>a<length out. \<forall>i\<in>node_succs pinv G (out ! a). i = out ! a \<or> i \<in> set (drop (Suc a) out))"

definition marks_ok :: "'f csc_matrix \<Rightarrow> idx set \<Rightarrow> int list \<Rightarrow> bool" where
  "marks_ok G mk cs \<longleftrightarrow> length cs = Suc (csc_m G) \<and>
     (\<forall>j\<le>csc_m G. cs ! j = (if j \<in> mk then FLIP (int (col_start G ! j)) else int (col_start G ! j)))"

definition dfs_inv ::
  "int list option \<Rightarrow> 'f csc_matrix \<Rightarrow> idx set \<Rightarrow> idx list \<Rightarrow> idx list \<Rightarrow> idx set \<Rightarrow> idx list \<Rightarrow> int list \<Rightarrow> idx \<Rightarrow> bool" where
  "dfs_inv pinv G src stk out mk xi cs tp \<longleftrightarrow>
     length xi = 2 * csc_m G \<and> tp + length out = csc_m G \<and> take (length stk) xi = stk \<and> seg xi tp (csc_m G) = out \<and>
     distinct (stk @ out) \<and> set (stk @ out) \<subseteq> {..<csc_m G} \<and>
     marks_ok G mk cs \<and> set out \<subseteq> mk \<and> set (butlast stk) \<subseteq> mk \<and> mk \<subseteq> set stk \<union> set out \<and>
     (\<forall>k<length stk. stk ! k \<in> mk \<longrightarrow> first_pos pinv G (stk ! k) \<le> xi ! (csc_m G + k) \<and>
        (\<forall>p. first_pos pinv G (stk ! k) \<le> p \<longrightarrow> p < xi ! (csc_m G + k) \<longrightarrow> csc_i G ! p \<in> set stk \<union> set out)) \<and>
     (\<forall>k. Suc k < length stk \<longrightarrow> stk ! Suc k \<in> node_succs pinv G (stk ! k)) \<and>
     topological pinv G out \<and> set (stk @ out) \<subseteq> (edges pinv G)\<^sup>* `` src"

lemma marks_ok_MARKED: "marks_ok G mk cs \<Longrightarrow> j \<le> csc_m G \<Longrightarrow> MARKED cs j \<longleftrightarrow> j \<in> mk"
  by (simp add: marks_ok_def MARKED_def)

lemma marks_ok_UNFLIP: "marks_ok G mk cs \<Longrightarrow> j \<le> csc_m G \<Longrightarrow> UNFLIP (cs ! j) = int (col_start G ! j)"
  by (simp add: marks_ok_def)

lemma marks_ok_MARK:
  assumes "marks_ok G mk cs" "j < csc_m G" "j \<notin> mk"
  shows "marks_ok G (insert j mk) (MARK cs j)"
  using assms by (simp add: marks_ok_def MARK_def nth_list_update)

lemma column_bounds:
  assumes "graph_ok pinv G" "j < csc_m G" "marks_ok G mk cs"
  shows "(if node_column pinv j < 0 then 0 else nat (UNFLIP (cs ! nat (node_column pinv j)))) = first_pos pinv G j"
    "(if node_column pinv j < 0 then 0 else nat (UNFLIP (cs ! (nat (node_column pinv j) + 1)))) = end_pos pinv G j"
proof -
  have c: "node_column pinv j < int (csc_m G)" using assms(1,2) by (simp add: graph_ok_def)
  show "(if node_column pinv j < 0 then 0 else nat (UNFLIP (cs ! nat (node_column pinv j)))) = first_pos pinv G j"
    "(if node_column pinv j < 0 then 0 else nat (UNFLIP (cs ! (nat (node_column pinv j) + 1)))) = end_pos pinv G j"
    using c marks_ok_UNFLIP [OF assms(3)] by (auto simp: first_pos_def end_pos_def)
qed

text \<open>Marking the top of the stack, with its position at its first edge.\<close>

lemma dfs_visit:
  assumes G: "graph_ok pinv G" and inv: "dfs_inv pinv G src (stk @ [j]) out mk xi cs tp"
  defines "cs' \<equiv> if \<not> MARKED cs j then MARK cs j else cs"
  defines "xi' \<equiv> if \<not> MARKED cs j then xi[csc_m G + length stk := if node_column pinv j < 0 then 0
      else nat (UNFLIP (cs' ! nat (node_column pinv j)))] else xi"
  shows "dfs_inv pinv G src (stk @ [j]) out (insert j mk) xi' cs' tp" "xi' ! length stk = j"
proof -
  let ?s = "stk @ [j]"
  have j: "j < csc_m G" and len: "length xi = 2 * csc_m G" and m: "marks_ok G mk cs" and small: "length ?s + length out \<le> csc_m G"
    using inv card_mono [of "{..<csc_m G}" "set (?s @ out)"] distinct_card [of "?s @ out"] by (auto simp: dfs_inv_def)
  have stk: "take (length ?s) xi = ?s" using inv by (simp add: dfs_inv_def)
  have at: "xi ! length stk = j" using arg_cong [OF stk, of "\<lambda>l. l ! length stk"] by simp
  have "dfs_inv pinv G src ?s out (insert j mk) xi' cs' tp \<and> xi' ! length stk = j"
  proof (cases "j \<in> mk")
    case True
    then have "cs' = cs" "xi' = xi" using marks_ok_MARKED [OF m] j by (simp_all add: cs'_def xi'_def)
    then show ?thesis using inv True at by (simp add: insert_absorb)
  next
    case False
    then have nm: "\<not> MARKED cs j" using marks_ok_MARKED [OF m] j by simp
    have m': "marks_ok G (insert j mk) (MARK cs j)" using marks_ok_MARK [OF m j False] .
    have eq: "cs' = MARK cs j" "xi' = xi[csc_m G + length stk := first_pos pinv G j]"
      unfolding xi'_def cs'_def if_P [OF nm] column_bounds(1) [OF G j m'] by (rule refl)+
    have far: "csc_m G + length stk \<ge> csc_m G" "length stk < csc_m G" using small by simp_all
    have t: "take (length ?s) xi' = ?s" using stk far by (simp add: eq)
    have "seg xi' tp (csc_m G) = seg xi tp (csc_m G)" by (intro seg_cong) (simp add: eq)
    then have o: "seg xi' tp (csc_m G) = out" using inv by (simp add: dfs_inv_def)
    have nth: "xi' ! (csc_m G + k) = (if k = length stk then first_pos pinv G j else xi ! (csc_m G + k))" if "k < length ?s" for k
      using that len far by (simp add: eq)
    have "first_pos pinv G (?s ! k) \<le> xi' ! (csc_m G + k) \<and>
        (\<forall>p. first_pos pinv G (?s ! k) \<le> p \<longrightarrow> p < xi' ! (csc_m G + k) \<longrightarrow> csc_i G ! p \<in> set ?s \<union> set out)"
      if "k < length ?s" "?s ! k \<in> insert j mk" for k
    proof (cases "k = length stk")
      case True
      then show ?thesis using nth [OF that(1)] by simp
    next
      case False
      have "?s ! k \<noteq> j"
      proof
        assume "?s ! k = j"
        then have "?s ! k = ?s ! length stk" by simp
        moreover have "distinct ?s" using inv by (simp add: dfs_inv_def)
        ultimately show False using False that(1) nth_eq_iff_index_eq [of ?s k "length stk"] by simp
      qed
      then show ?thesis using that inv nth [OF that(1)] False by (simp add: dfs_inv_def)
    qed
    moreover have "xi' ! length stk = j" using at far by (simp add: eq)
    ultimately show ?thesis using inv m' t o len by (auto simp: dfs_inv_def eq)
  qed
  then show "dfs_inv pinv G src ?s out (insert j mk) xi' cs' tp" "xi' ! length stk = j" by simp_all
qed

text \<open>Pushing an unvisited neighbour.\<close>

lemma dfs_push:
  assumes G: "graph_ok pinv G" and inv: "dfs_inv pinv G src stk out mk xi cs tp" and ne: "stk \<noteq> []" "last stk \<in> mk"
    and p: "xi ! (csc_m G + (length stk - 1)) \<le> p" "p < end_pos pinv G (last stk)" "csc_i G ! p \<notin> mk"
    and before: "\<forall>q. xi ! (csc_m G + (length stk - 1)) \<le> q \<longrightarrow> q < p \<longrightarrow> csc_i G ! q \<in> mk"
  shows "dfs_inv pinv G src (stk @ [csc_i G ! p]) out mk (xi[csc_m G + (length stk - 1) := p, length stk := csc_i G ! p]) cs tp"
    "length stk + 1 + length out \<le> csc_m G"
proof -
  let ?i = "csc_i G ! p" and ?j = "last stk" and ?h = "length stk - 1"
  obtain st where stk: "stk = st @ [?j]" using ne(1) by (metis append_butlast_last_id)
  have h: "?h = length st" "?h < length stk" using arg_cong [OF stk, of length] by simp_all
  have sub: "set (stk @ out) \<subseteq> {..<csc_m G}" "distinct (stk @ out)" and len: "length xi = 2 * csc_m G"
    and mk: "set out \<subseteq> mk" "set (butlast stk) \<subseteq> mk" "mk \<subseteq> set stk \<union> set out"
    and t: "take (length stk) xi = stk" and o: "seg xi tp (csc_m G) = out" and tp: "tp + length out = csc_m G"
    using inv by (simp_all add: dfs_inv_def)
  have j: "?j < csc_m G" using sub(1) ne(1) by (auto dest: last_in_set)
  have i: "?i < csc_m G" using graph_pos(2) [OF G j p(2)] .
  have all: "set stk \<subseteq> mk" using mk(2) ne stk by (metis Un_insert_right butlast_snoc insert_subset list.set(1,2) set_append sup_bot.right_neutral)
  have new: "?i \<notin> set stk" "?i \<notin> set out" using p(3) all mk(1) by blast+
  have dist: "distinct ((stk @ [?i]) @ out)" using sub(2) new by auto
  have "card (set ((stk @ [?i]) @ out)) \<le> card {..<csc_m G}" using sub(1) i by (intro card_mono) auto
  then show small: "length stk + 1 + length out \<le> csc_m G" using distinct_card [OF dist] by simp
  have first: "first_pos pinv G ?j \<le> xi ! (csc_m G + ?h)"
    "\<forall>q. first_pos pinv G ?j \<le> q \<longrightarrow> q < xi ! (csc_m G + ?h) \<longrightarrow> csc_i G ! q \<in> set stk \<union> set out"
    using inv h ne by (auto simp: dfs_inv_def last_conv_nth)
  let ?xi = "xi[csc_m G + ?h := p, length stk := ?i]"
  have t': "take (length (stk @ [?i])) ?xi = stk @ [?i]" using t small len h by (simp add: take_Suc_conv_app_nth)
  have o': "seg ?xi tp (csc_m G) = out" unfolding o [symmetric] using small tp h by (intro seg_cong) simp
  have nth: "?xi ! (csc_m G + k) = (if k = ?h then p else xi ! (csc_m G + k))" if "k < length stk" for k
    using that len small h by (auto simp: nth_list_update)
  have pos: "first_pos pinv G ((stk @ [?i]) ! k) \<le> ?xi ! (csc_m G + k) \<and>
      (\<forall>q. first_pos pinv G ((stk @ [?i]) ! k) \<le> q \<longrightarrow> q < ?xi ! (csc_m G + k) \<longrightarrow> csc_i G ! q \<in> set (stk @ [?i]) \<union> set out)"
    if k: "k < length (stk @ [?i])" "(stk @ [?i]) ! k \<in> mk" for k
  proof -
    have kl: "k < length stk" using k p(3) by (cases "k = length stk") auto
    show ?thesis
    proof (cases "k = ?h")
      case False
      then show ?thesis using kl k(2) inv nth [OF kl] by (auto simp: dfs_inv_def nth_append)
    next
      case True
      have "csc_i G ! q \<in> set stk \<union> set out" if "first_pos pinv G ?j \<le> q" "q < p" for q
      proof (cases "q < xi ! (csc_m G + ?h)")
        case False
        then have "csc_i G ! q \<in> mk" using before that(2) by (simp add: not_less)
        then show ?thesis using mk(3) by blast
      qed (use first(2) that(1) in blast)
      then show ?thesis using True kl nth [OF kl] first(1) p(1) ne(1) by (auto simp: nth_append last_conv_nth)
    qed
  qed
  have edge: "?i \<in> node_succs pinv G ?j" using first(1) p(1,2) by (auto simp: node_succs_def)
  have path: "(stk @ [?i]) ! Suc k \<in> node_succs pinv G ((stk @ [?i]) ! k)" if "Suc k < length (stk @ [?i])" for k
  proof (cases "Suc k = length stk")
    case True
    then have "k = length stk - 1" "(stk @ [?i]) ! Suc k = ?i" "(stk @ [?i]) ! k = stk ! k" by (simp_all add: nth_append)
    then show ?thesis using edge ne(1) by (simp add: last_conv_nth)
  next
    case False
    then show ?thesis using that inv by (auto simp: dfs_inv_def nth_append)
  qed
  have "?j \<in> (edges pinv G)\<^sup>* `` src" using inv last_in_set [OF ne(1)] by (auto simp: dfs_inv_def)
  then have "?i \<in> (edges pinv G)\<^sup>* `` src" using edge
    by (auto simp: edges_def intro: rtrancl_into_rtrancl)
  then show "dfs_inv pinv G src (stk @ [?i]) out mk ?xi cs tp"
    unfolding dfs_inv_def using inv t' o' dist pos path i all mk sub len by (auto simp: dfs_inv_def)
qed

text \<open>Popping a node whose edges all lead to visited nodes.\<close>

lemma path_rank:
  assumes ac: "acyclic_ranked pinv G rank" and d: "distinct s" and m: "set s \<subseteq> {..<csc_m G}"
    and path: "\<forall>k. Suc k < length s \<longrightarrow> s ! Suc k \<in> node_succs pinv G (s ! k)"
  shows "a < b \<Longrightarrow> b < length s \<Longrightarrow> rank (s ! a) < rank (s ! b)"
proof (induction b)
  case (Suc b)
  have "s ! Suc b \<noteq> s ! b" using d Suc.prems(2) by (simp add: nth_eq_iff_index_eq)
  moreover have "s ! b < csc_m G" using subsetD [OF m nth_mem, of b] Suc.prems(2) by simp
  ultimately have "rank (s ! b) < rank (s ! Suc b)" using ac path Suc.prems(2) by (auto simp: acyclic_ranked_def)
  then show ?case using Suc by (cases "a = b") auto
qed simp

lemma dfs_pop:
  assumes G: "graph_ok pinv G" and ac: "acyclic_ranked pinv G rank" and inv: "dfs_inv pinv G src stk out mk xi cs tp"
    and ne: "stk \<noteq> []" "last stk \<in> mk" and seen: "\<forall>q. xi ! (csc_m G + (length stk - 1)) \<le> q \<longrightarrow> q < end_pos pinv G (last stk) \<longrightarrow> csc_i G ! q \<in> mk"
  shows "dfs_inv pinv G src (butlast stk) (last stk # out) mk (xi[tp - 1 := last stk]) cs (tp - 1)"
proof -
  let ?j = "last stk" and ?h = "length stk - 1"
  obtain st where stk: "stk = st @ [?j]" using ne(1) by (metis append_butlast_last_id)
  have h: "?h = length st" "length stk = Suc (length st)" using arg_cong [OF stk, of length] by simp_all
  have st: "butlast stk = st" using stk by (metis butlast_snoc)
  have sub: "set (stk @ out) \<subseteq> {..<csc_m G}" and dist: "distinct (stk @ out)" and len: "length xi = 2 * csc_m G"
    and mk: "set out \<subseteq> mk" "set (butlast stk) \<subseteq> mk" "mk \<subseteq> set stk \<union> set out"
    and t: "take (length stk) xi = stk" and o: "seg xi tp (csc_m G) = out" and tp: "tp + length out = csc_m G"
    and topo: "topological pinv G out" and path: "\<forall>k. Suc k < length stk \<longrightarrow> stk ! Suc k \<in> node_succs pinv G (stk ! k)"
    and posn: "\<forall>k<length stk. stk ! k \<in> mk \<longrightarrow> first_pos pinv G (stk ! k) \<le> xi ! (csc_m G + k) \<and>
      (\<forall>p. first_pos pinv G (stk ! k) \<le> p \<longrightarrow> p < xi ! (csc_m G + k) \<longrightarrow> csc_i G ! p \<in> set stk \<union> set out)"
    and reach: "set (stk @ out) \<subseteq> (edges pinv G)\<^sup>* `` src" and marks: "marks_ok G mk cs"
    using inv by (simp_all add: dfs_inv_def)
  have small: "length stk + length out \<le> csc_m G" using card_mono [OF _ sub] distinct_card [OF dist] by simp
  have tp1: "tp \<ge> Suc (length st)" using small tp h(2) by simp
  have j: "?j < csc_m G" using sub ne(1) by (auto dest: last_in_set)
  have first: "first_pos pinv G ?j \<le> xi ! (csc_m G + ?h)"
    "\<forall>q. first_pos pinv G ?j \<le> q \<longrightarrow> q < xi ! (csc_m G + ?h) \<longrightarrow> csc_i G ! q \<in> set stk \<union> set out"
    using inv h ne by (auto simp: dfs_inv_def last_conv_nth)
  have later: "i = ?j \<or> i \<in> set out" if "i \<in> node_succs pinv G ?j" for i
  proof -
    from that obtain q where q: "first_pos pinv G ?j \<le> q" "q < end_pos pinv G ?j" "i = csc_i G ! q" by (auto simp: node_succs_def)
    have "i \<in> set stk \<union> set out"
    proof (cases "q < xi ! (csc_m G + ?h)")
      case False
      then have "i \<in> mk" using seen q by (simp add: not_less)
      then show ?thesis using mk(3) by blast
    qed (use first(2) q in blast)
    moreover have False if A: "i \<in> set stk" and diff: "i \<noteq> ?j"
    proof -
      obtain k where k: "k < length stk" "i = stk ! k" using A by (metis in_set_conv_nth)
      have "stk ! ?h = ?j" using ne(1) by (simp add: last_conv_nth)
      then have "k < ?h" using diff k h by (cases "k = ?h") auto
      then have "rank i < rank ?j" using path_rank [OF ac _ _ path, of k ?h] dist sub k ne(1) \<open>stk ! ?h = ?j\<close> by auto
      moreover have "rank ?j < rank i" using ac j diff \<open>i \<in> node_succs pinv G ?j\<close> by (auto simp: acyclic_ranked_def)
      ultimately show False by simp
    qed
    ultimately show ?thesis by blast
  qed
  let ?xi = "xi[tp - 1 := ?j]"
  have t': "take (length st) ?xi = st"
  proof -
    have "take (length st) ?xi = take (length st) xi" using tp1 by (intro take_update_cancel) simp
    also have "\<dots> = take (length st) (take (length stk) xi)" by (simp add: h(2))
    also have "\<dots> = take (length st) (st @ [?j])" using t stk by simp
    finally show ?thesis by simp
  qed
  have o': "seg ?xi (tp - 1) (csc_m G) = ?j # out"
  proof -
    have "seg ?xi (tp - 1) (csc_m G) = ?xi ! (tp - 1) # seg ?xi tp (csc_m G)"
      using tp1 tp len by (simp add: seg_def upt_conv_Cons)
    moreover have "seg ?xi tp (csc_m G) = seg xi tp (csc_m G)" using tp1 by (intro seg_cong) simp
    ultimately show ?thesis using o tp1 tp len by simp
  qed
  have far: "?xi ! (csc_m G + k) = xi ! (csc_m G + k)" for k using tp1 tp by simp
  have topo': "topological pinv G (?j # out)" unfolding topological_def
  proof (intro allI impI ballI)
    fix a i assume a: "a < length (?j # out)" "i \<in> node_succs pinv G ((?j # out) ! a)"
    show "i = (?j # out) ! a \<or> i \<in> set (drop (Suc a) (?j # out))"
      using a later topo by (cases a) (auto simp: topological_def)
  qed
  have nth: "stk ! k = st ! k" if "k < length st" for k using that stk by (metis nth_append)
  have sets: "set stk \<union> set out = set st \<union> set (?j # out)" using arg_cong [OF stk, of set] by auto
  have pos: "first_pos pinv G (st ! k) \<le> ?xi ! (csc_m G + k) \<and>
      (\<forall>q. first_pos pinv G (st ! k) \<le> q \<longrightarrow> q < ?xi ! (csc_m G + k) \<longrightarrow> csc_i G ! q \<in> set st \<union> set (?j # out))"
    if k: "k < length st" "st ! k \<in> mk" for k
  proof -
    have "stk ! k \<in> mk" "k < length stk" using k nth [OF k(1)] h(2) by simp_all
    then show ?thesis using posn nth [OF k(1)] unfolding sets [symmetric] far by metis
  qed
  have path': "\<forall>k. Suc k < length st \<longrightarrow> st ! Suc k \<in> node_succs pinv G (st ! k)" using path nth h(2) by (metis Suc_lessD less_SucI)
  have d': "distinct (st @ ?j # out)" "set (st @ ?j # out) = set (stk @ out)" using dist arg_cong [OF stk, of set] by (subst (asm) stk, auto)
  have bl: "set (butlast st) \<subseteq> mk" using mk(2) st by (auto dest: in_set_butlastD)
  have tp': "tp - 1 + length (?j # out) = csc_m G" using tp tp1 by simp
  have out': "set (?j # out) \<subseteq> mk" "mk \<subseteq> set st \<union> set (?j # out)" using mk(1) ne(2) mk(3) unfolding sets by auto
  have reach': "set (st @ ?j # out) \<subseteq> (edges pinv G)\<^sup>* `` src" using reach unfolding d'(2) .
  have sub': "set (st @ ?j # out) \<subseteq> {..<csc_m G}" using sub unfolding d'(2) .
  show ?thesis unfolding dfs_inv_def st
    by (intro conjI; (rule t' o' topo' path' d' bl out' tp' reach' sub' marks)?) (use len pos in auto)
qed

lemma find_upt_Some:
  "find P [a..<b] = Some p \<Longrightarrow> a \<le> p \<and> p < b \<and> P p \<and> (\<forall>q. a \<le> q \<longrightarrow> q < p \<longrightarrow> \<not> P q)"
proof -
  assume "find P [a..<b] = Some p"
  then obtain i where i: "i < b - a" "P (a + i)" "p = a + i" "\<forall>j<i. \<not> P (a + j)" by (auto simp: find_Some_iff)
  have "\<not> P q" if "a \<le> q" "q < p" for q using i(4) [rule_format, of "q - a"] that i(3) by simp
  then show ?thesis using i by auto
qed

lemma find_upt_None: "find P [a..<b] = None \<Longrightarrow> a \<le> q \<Longrightarrow> q < b \<Longrightarrow> \<not> P q"
  by (auto simp: find_None_iff)

lemma dfs_loop_ok:
  assumes G: "graph_ok pinv G" and ac: "acyclic_ranked pinv G rank"
  shows "dfs_inv pinv G src stk out mk xi cs tp \<Longrightarrow>
    \<exists>tp' xi' cs' out' mk'. dfs_loop pinv G (int (length stk) - 1) xi cs tp = Some (tp', xi', cs') \<and>
      dfs_inv pinv G src [] out' mk' xi' cs' tp' \<and> set stk \<union> set out \<subseteq> set out'"
proof (induction "2 * (csc_m G - length stk - length out) + length stk" arbitrary: stk out mk xi cs tp rule: less_induct)
  case less
  show ?case
  proof (cases stk rule: rev_cases)
    case Nil
    then show ?thesis using less.prems by (auto simp: dfs_loop.simps)
  next
    case (snoc st j)
    define cs1 where "cs1 = (if \<not> MARKED cs j then MARK cs j else cs)"
    define xi1 where "xi1 = (if \<not> MARKED cs j then xi[csc_m G + length st := if node_column pinv j < 0 then 0
      else nat (UNFLIP (cs1 ! nat (node_column pinv j)))] else xi)"
    have inv1: "dfs_inv pinv G src (st @ [j]) out (insert j mk) xi1 cs1 tp"
      unfolding xi1_def cs1_def by (rule dfs_visit(1) [OF G less.prems [unfolded snoc]])
    have at: "xi ! length st = j"
      using less.prems arg_cong [of _ _ "\<lambda>l. l ! length st"] unfolding snoc dfs_inv_def by (metis length_append_singleton lessI nth_append_length nth_take)
    have j: "j < csc_m G" and marks: "marks_ok G (insert j mk) cs1" and sub: "set (st @ [j] @ out) \<subseteq> {..<csc_m G}" "distinct (st @ [j] @ out)"
      using inv1 by (simp_all add: dfs_inv_def)
    have small: "Suc (length st) + length out \<le> csc_m G" using card_mono [OF _ sub(1)] distinct_card [OF sub(2)] by simp
    note p2 = column_bounds(2) [OF G j marks]
    have marked: "MARKED cs1 (csc_i G ! q) \<longleftrightarrow> csc_i G ! q \<in> insert j mk" if "q < end_pos pinv G j" for q
      using marks_ok_MARKED [OF marks, of "csc_i G ! q"] graph_pos(2) [OF G j that] by simp
    have "dfs_loop pinv G (int (length st)) xi cs tp =
      (case find (\<lambda>p. \<not> MARKED cs1 (csc_i G ! p)) [xi1 ! (csc_m G + length st)..<end_pos pinv G j] of
         None \<Rightarrow> dfs_loop pinv G (int (length st) - 1) (xi1[tp - 1 := j]) cs1 (tp - 1)
       | Some p \<Rightarrow> dfs_loop pinv G (int (length st) + 1) (xi1[csc_m G + length st := p, length st + 1 := csc_i G ! p]) cs1 tp)"
      by (subst dfs_loop.simps) (simp only: Let_def nat_int at cs1_def [symmetric] xi1_def [symmetric] p2 of_nat_less_0_iff if_False)
    then have unfold1: "dfs_loop pinv G (int (length stk) - 1) xi cs tp =
      (case find (\<lambda>p. \<not> MARKED cs1 (csc_i G ! p)) [xi1 ! (csc_m G + length st)..<end_pos pinv G j] of
         None \<Rightarrow> dfs_loop pinv G (int (length st) - 1) (xi1[tp - 1 := j]) cs1 (tp - 1)
       | Some p \<Rightarrow> dfs_loop pinv G (int (length (st @ [j, csc_i G ! p])) - 1) (xi1[csc_m G + length st := p, Suc (length st) := csc_i G ! p]) cs1 tp)"
      by (simp add: snoc add.commute split: option.split)
    show ?thesis
    proof (cases "find (\<lambda>p. \<not> MARKED cs1 (csc_i G ! p)) [xi1 ! (csc_m G + length st)..<end_pos pinv G j]")
      case None
      have seen: "csc_i G ! q \<in> insert j mk" if "xi1 ! (csc_m G + length st) \<le> q" "q < end_pos pinv G j" for q
        using find_upt_None [OF None that] marked [OF that(2)] by simp
      have "dfs_inv pinv G src (butlast (st @ [j])) (last (st @ [j]) # out) (insert j mk) (xi1[tp - 1 := last (st @ [j])]) cs1 (tp - 1)"
        by (rule dfs_pop [OF G ac inv1]) (use seen in simp_all)
      then have inv2: "dfs_inv pinv G src st (j # out) (insert j mk) (xi1[tp - 1 := j]) cs1 (tp - 1)" by simp
      have "2 * (csc_m G - length st - length (j # out)) + length st < 2 * (csc_m G - length stk - length out) + length stk"
        using small by (simp add: snoc)
      from less.hyps [OF this inv2] show ?thesis unfolding unfold1 None by (auto simp: snoc)
    next
      case (Some p)
      from find_upt_Some [OF Some] have p: "xi1 ! (csc_m G + length st) \<le> p" "p < end_pos pinv G j" "csc_i G ! p \<notin> insert j mk"
        "\<forall>q. xi1 ! (csc_m G + length st) \<le> q \<longrightarrow> q < p \<longrightarrow> csc_i G ! q \<in> insert j mk"
        using marked by auto
      have "dfs_inv pinv G src ((st @ [j]) @ [csc_i G ! p]) out (insert j mk)
          (xi1[csc_m G + (length (st @ [j]) - 1) := p, length (st @ [j]) := csc_i G ! p]) cs1 tp"
        "length (st @ [j]) + 1 + length out \<le> csc_m G"
        by (rule dfs_push [OF G inv1]; use p in simp)+
      then have inv2: "dfs_inv pinv G src (st @ [j, csc_i G ! p]) out (insert j mk)
          (xi1[csc_m G + length st := p, Suc (length st) := csc_i G ! p]) cs1 tp" "Suc (Suc (length st)) + length out \<le> csc_m G" by simp_all
      have "2 * (csc_m G - length (st @ [j, csc_i G ! p]) - length out) + length (st @ [j, csc_i G ! p]) <
          2 * (csc_m G - length stk - length out) + length stk"
        using inv2(2) by (simp add: snoc)
      from less.hyps [OF this inv2(1)] obtain tp' xi' cs' out' mk' where
        "dfs_loop pinv G (int (length (st @ [j, csc_i G ! p])) - 1) (xi1[csc_m G + length st := p, Suc (length st) := csc_i G ! p]) cs1 tp =
          Some (tp', xi', cs')" "dfs_inv pinv G src [] out' mk' xi' cs' tp'" "set (st @ [j, csc_i G ! p]) \<union> set out \<subseteq> set out'" by blast
      then show ?thesis unfolding unfold1 Some by (intro exI conjI) (auto simp: snoc)
    qed
  qed
qed

subsection \<open>The reach of a column\<close>

lemma dfs_begin:
  assumes inv: "dfs_inv pinv G src [] out mk xi cs tp" and i: "i < csc_m G" "i \<notin> mk" "i \<in> src"
  shows "dfs_inv pinv G src [i] out mk (xi[0 := i]) cs tp"
proof -
  have new: "i \<notin> set out" using inv i(2) by (auto simp: dfs_inv_def)
  have sub: "set (i # out) \<subseteq> {..<csc_m G}" "distinct (i # out)" using inv i(1) new by (auto simp: dfs_inv_def)
  have "Suc (length out) \<le> csc_m G" using card_mono [OF _ sub(1)] distinct_card [OF sub(2)] by simp
  then have tp: "0 < tp" "0 < length xi" using inv by (auto simp: dfs_inv_def)
  have "seg (xi[0 := i]) tp (csc_m G) = seg xi tp (csc_m G)" using tp by (intro seg_cong) simp
  moreover have "take 1 (xi[0 := i]) = [i]" using tp(2) by (cases xi) auto
  moreover have "i \<in> (edges pinv G)\<^sup>* `` src" using i(3) by blast
  ultimately show ?thesis using inv sub i(2) by (auto simp: dfs_inv_def)
qed

lemma unmark_all:
  assumes "marks_ok G (set (seg xi tp (csc_m G))) cs" "distinct (seg xi tp (csc_m G))" "set (seg xi tp (csc_m G)) \<subseteq> {..<csc_m G}" "tp \<le> csc_m G"
  shows "marks_ok G {} (for_range tp (csc_m G) (\<lambda>p cs. MARK cs (xi ! p)) cs)"
proof -
  have "marks_ok G (set (seg xi (csc_m G) (csc_m G))) (for_range tp (csc_m G) (\<lambda>p cs. MARK cs (xi ! p)) cs)"
  proof (rule for_range_inv [where P = "\<lambda>p cs. marks_ok G (set (seg xi p (csc_m G))) cs"])
    fix p c assume p: "tp \<le> p" "p < csc_m G" and m: "marks_ok G (set (seg xi p (csc_m G))) c"
    have e: "seg xi p (csc_m G) = xi ! p # seg xi (Suc p) (csc_m G)" using p by (simp add: seg_def upt_conv_Cons)
    have "seg xi tp (csc_m G) = seg xi tp p @ seg xi p (csc_m G)" using p by (intro seg_append [symmetric]) auto
    then have d: "distinct (seg xi p (csc_m G))" "set (seg xi p (csc_m G)) \<subseteq> {..<csc_m G}" using assms(2,3) by auto
    then have x: "xi ! p \<notin> set (seg xi (Suc p) (csc_m G))" "xi ! p < csc_m G" using e by auto
    show "marks_ok G (set (seg xi (Suc p) (csc_m G))) (MARK c (xi ! p))"
      using m x unfolding e by (auto simp: marks_ok_def MARK_def nth_list_update)
  qed (use assms in auto)
  then show ?thesis by simp
qed

lemma marks_ok_none: "marks_ok G {} cs \<Longrightarrow> length (col_start G) = Suc (csc_m G) \<Longrightarrow> cs = map int (col_start G)"
  by (rule nth_equalityI) (auto simp: marks_ok_def)

definition column_rows :: "'f csc_matrix \<Rightarrow> idx \<Rightarrow> idx set" where
  "column_rows B col = (!) (csc_i B) ` {col_start B ! col..<col_start B ! Suc col}"

lemma reach_ok:
  assumes G: "graph_ok pinv G" and ac: "acyclic_ranked pinv G rank" and xi: "length xi = 2 * csc_m G"
    and B: "col_start B ! col \<le> col_start B ! Suc col" "column_rows B col \<subseteq> {..<csc_m G}"
  shows "\<exists>tp xi'. reach B col pinv G xi = Some (tp, xi', G) \<and> tp \<le> csc_m G \<and> length xi' = 2 * csc_m G \<and>
    distinct (seg xi' tp (csc_m G)) \<and> set (seg xi' tp (csc_m G)) = (edges pinv G)\<^sup>* `` column_rows B col \<and>
    topological pinv G (seg xi' tp (csc_m G))"
proof -
  let ?m = "csc_m G" and ?src = "column_rows B col"
  define body where "body = (\<lambda>p r. Option.bind r (\<lambda>(tp, xi, cs).
      if \<not> MARKED cs (csc_i B ! p) then depth_first_search (csc_i B ! p) pinv G tp xi cs else Some (tp, xi, cs)))"
  define done_upto where "done_upto = (\<lambda>p r. \<exists>tp xi cs out mk. r = Some (tp, xi, cs) \<and> dfs_inv pinv G ?src [] out mk xi cs tp \<and>
      (!) (csc_i B) ` {col_start B ! col..<p} \<subseteq> set out)"
  have len: "length (col_start G) = Suc ?m" using G unfolding graph_ok_def csc_wf_def lanes_wf_def by auto
  have "done_upto (col_start B ! Suc col) (for_range (col_start B ! col) (col_start B ! Suc col) body (Some (?m, xi, map int (col_start G))))"
  proof (rule for_range_inv)
    have "dfs_inv pinv G ?src [] [] {} xi (map int (col_start G)) ?m"
      using xi len by (simp add: dfs_inv_def topological_def marks_ok_def)
    then show "done_upto (col_start B ! col) (Some (?m, xi, map int (col_start G)))" by (auto simp: done_upto_def)
  next
    fix p r assume p: "col_start B ! col \<le> p" "p < col_start B ! Suc col" and r: "done_upto p r"
    then obtain tp x cs out mk where r1: "r = Some (tp, x, cs)" "dfs_inv pinv G ?src [] out mk x cs tp"
      "(!) (csc_i B) ` {col_start B ! col..<p} \<subseteq> set out" by (auto simp: done_upto_def)
    let ?i = "csc_i B ! p"
    have "?i \<in> ?src" using p by (simp add: column_rows_def)
    then have i: "?i \<in> ?src" "?i < ?m" using B(2) by auto
    have mk: "mk = set out" "marks_ok G mk cs" using r1(2) by (auto simp: dfs_inv_def)
    have ext: "(!) (csc_i B) ` {col_start B ! col..<Suc p} = insert ?i ((!) (csc_i B) ` {col_start B ! col..<p})"
      using p(1) by (simp add: atLeastLessThanSuc)
    show "done_upto (Suc p) (body p r)"
    proof (cases "MARKED cs ?i")
      case True
      then have "?i \<in> set out" using marks_ok_MARKED [OF mk(2)] i(2) mk(1) by simp
      then have "body p r = Some (tp, x, cs)" "(!) (csc_i B) ` {col_start B ! col..<Suc p} \<subseteq> set out"
        using True r1(1,3) ext by (simp_all add: body_def)
      then show ?thesis unfolding done_upto_def using r1(2) by blast
    next
      case False
      then have "?i \<notin> mk" using marks_ok_MARKED [OF mk(2)] i(2) by simp
      from dfs_loop_ok [OF G ac dfs_begin [OF r1(2) i(2) this i(1)]] obtain tp' x' cs' out' mk' where d:
        "dfs_loop pinv G 0 (x[0 := ?i]) cs tp = Some (tp', x', cs')" "dfs_inv pinv G ?src [] out' mk' x' cs' tp'" "{?i} \<union> set out \<subseteq> set out'"
        by auto
      have "body p r = Some (tp', x', cs')" using False r1(1) d(1) by (simp add: body_def depth_first_search_def)
      moreover have "(!) (csc_i B) ` {col_start B ! col..<Suc p} \<subseteq> set out'" using d(3) r1(3) ext by auto
      ultimately show ?thesis unfolding done_upto_def using d(2) by blast
    qed
  qed (rule B(1))
  then obtain tp x cs out mk where d: "for_range (col_start B ! col) (col_start B ! Suc col) body (Some (?m, xi, map int (col_start G))) = Some (tp, x, cs)"
    "dfs_inv pinv G ?src [] out mk x cs tp" "?src \<subseteq> set out" by (auto simp: done_upto_def column_rows_def)
  have out: "seg x tp ?m = out" "distinct out" "topological pinv G out" "set out \<subseteq> (edges pinv G)\<^sup>* `` ?src" "tp \<le> ?m" "length x = 2 * ?m"
    "marks_ok G (set out) cs" "set out \<subseteq> {..<?m}" using d(2) by (auto simp: dfs_inv_def)
  have "marks_ok G {} (for_range tp ?m (\<lambda>p cs. MARK cs (x ! p)) cs)" using unmark_all out by metis
  then have "for_range tp ?m (\<lambda>p cs. MARK cs (x ! p)) cs = map int (col_start G)" using marks_ok_none len by blast
  then have run: "reach B col pinv G xi = Some (tp, x, G)"
    using d(1) [unfolded body_def] by (simp add: reach_def Let_def comp_def)
  have "i \<in> set out" if "(j, i) \<in> (edges pinv G)\<^sup>*" "j \<in> set out" for i j
    using that
  proof (induction rule: rtrancl_induct)
    case (step y z)
    then obtain a where a: "a < length out" "out ! a = y" by (metis in_set_conv_nth)
    have "z = out ! a \<or> z \<in> set (drop (Suc a) out)" using out(3) a step.hyps(2) by (auto simp: topological_def edges_def)
    then show ?case using a(1) by (metis in_set_dropD nth_mem)
  qed
  then have "(edges pinv G)\<^sup>* `` ?src \<subseteq> set out" using d(3) by blast
  then show ?thesis using run out by auto
qed

subsection \<open>The numerical phase\<close>

definition diagonal_entry :: "bool \<Rightarrow> int list option \<Rightarrow> ('f :: field) csc_matrix \<Rightarrow> idx \<Rightarrow> 'f" where
  "diagonal_entry lo pinv G j = (if node_column pinv j < 0 then 1
     else csc_x G ! (if lo then first_pos pinv G j else end_pos pinv G j - 1))"

definition other_entries :: "bool \<Rightarrow> int list option \<Rightarrow> 'f csc_matrix \<Rightarrow> idx \<Rightarrow> (idx \<times> 'f) list" where
  "other_entries lo pinv G j = (if node_column pinv j < 0 then [] else map (\<lambda>p. (csc_i G ! p, csc_x G ! p))
     [(if lo then first_pos pinv G j + 1 else first_pos pinv G j)..<(if lo then end_pos pinv G j else end_pos pinv G j - 1)])"

text \<open>The storage convention: the entry of row \<open>j\<close> is the first, or the last, of the column of node \<open>j\<close>, and not zero.\<close>

definition diagonal_ok :: "bool \<Rightarrow> int list option \<Rightarrow> ('f :: field) csc_matrix \<Rightarrow> bool" where
  "diagonal_ok lo pinv G \<longleftrightarrow> (\<forall>j<csc_m G. node_column pinv j \<ge> 0 \<longrightarrow> first_pos pinv G j < end_pos pinv G j \<and>
     csc_i G ! (if lo then first_pos pinv G j else end_pos pinv G j - 1) = j \<and> diagonal_entry lo pinv G j \<noteq> 0 \<and>
     j \<notin> fst ` set (other_entries lo pinv G j))"

text \<open>The coefficient of node \<open>j\<close> in row \<open>i\<close>; a node without a column stands for a unit column.\<close>

definition node_coeff :: "int list option \<Rightarrow> ('f :: field) csc_matrix \<Rightarrow> idx \<Rightarrow> idx \<Rightarrow> 'f" where
  "node_coeff pinv G i j = (if node_column pinv j < 0 then if i = j then 1 else 0 else csc_dense G i (nat (node_column pinv j)))"

definition solve_node :: "bool \<Rightarrow> int list option \<Rightarrow> ('f :: field) csc_matrix \<Rightarrow> idx \<Rightarrow> 'f vec \<Rightarrow> 'f vec" where
  "solve_node lo pinv G j x =
     fold (\<lambda>e x. x[fst e := x ! fst e - snd e * x ! j]) (other_entries lo pinv G j) (x[j := x ! j / diagonal_entry lo pinv G j])"

lemma eliminate_fold:
  assumes "j \<notin> fst ` set es"
  shows "length (fold (\<lambda>e x. x[fst e := x ! fst e - snd e * x ! j]) es x) = length x"
    "(\<forall>e\<in>set es. fst e < length x) \<Longrightarrow>
     fold (\<lambda>e x. x[fst e := x ! fst e - snd e * x ! j]) es x ! i = x ! i - lane_sum es i * (x ! j :: 'f :: field)"
  using assms
proof (induction es arbitrary: x)
  case (Cons e es)
  {
    case 1
    then show ?case using Cons.IH(1) by simp
  next
    case 2
    let ?x = "x[fst e := x ! fst e - snd e * x ! j]"
    have "j \<noteq> fst e" using 2 by auto
    then have j: "?x ! j = x ! j" by simp
    obtain r v where e: "e = (r, v)" by (cases e)
    show ?case using Cons.IH(2) [of ?x] 2 j by (auto simp: e nth_list_update algebra_simps)
  }
qed simp_all

lemma solve_node_nth:
  assumes G: "graph_ok pinv G" and d: "diagonal_ok lo pinv G" and j: "j < csc_m G" and x: "length x = csc_m G"
  shows "length (solve_node lo pinv G j x) = csc_m G" "diagonal_entry lo pinv G j \<noteq> 0"
    "solve_node lo pinv G j x ! j = x ! j / diagonal_entry lo pinv G j"
    "i \<noteq> j \<Longrightarrow> solve_node lo pinv G j x ! i = x ! i - lane_sum (other_entries lo pinv G j) i * (x ! j / diagonal_entry lo pinv G j)"
    "fst ` set (other_entries lo pinv G j) \<subseteq> node_succs pinv G j - {j}"
proof -
  show rows: "fst ` set (other_entries lo pinv G j) \<subseteq> node_succs pinv G j - {j}"
  proof -
    have "j \<notin> fst ` set (other_entries lo pinv G j)"
    proof (cases "node_column pinv j < 0")
      case False
      then show ?thesis using d j unfolding diagonal_ok_def by (meson not_le)
    qed (simp add: other_entries_def)
    moreover have "fst ` set (other_entries lo pinv G j) \<subseteq> node_succs pinv G j"
      by (auto simp: other_entries_def node_succs_def)
    ultimately show ?thesis by blast
  qed
  then have j': "j \<notin> fst ` set (other_entries lo pinv G j)" and r: "\<forall>e\<in>set (other_entries lo pinv G j). fst e < csc_m G"
    using graph_pos(3) [OF G j] by auto
  show "diagonal_entry lo pinv G j \<noteq> 0" using d j by (cases "node_column pinv j < 0") (auto simp: diagonal_ok_def diagonal_entry_def)
  note e = eliminate_fold [OF j', of "x[j := x ! j / diagonal_entry lo pinv G j]"]
  show "length (solve_node lo pinv G j x) = csc_m G" using e(1) x by (simp add: solve_node_def)
  show "solve_node lo pinv G j x ! j = x ! j / diagonal_entry lo pinv G j"
    "i \<noteq> j \<Longrightarrow> solve_node lo pinv G j x ! i = x ! i - lane_sum (other_entries lo pinv G j) i * (x ! j / diagonal_entry lo pinv G j)"
    using e(2) r x j lane_sum_none [of "other_entries lo pinv G j" j] j' by (auto simp: solve_node_def)
qed

lemma solve_nodes:
  assumes G: "graph_ok pinv G" and d: "diagonal_ok lo pinv G"
  shows "\<lbrakk> length x = csc_m G; distinct os; set os \<subseteq> {..<csc_m G}; topological pinv G os \<rbrakk> \<Longrightarrow>
    length (fold (solve_node lo pinv G) os x) = csc_m G \<and>
    (\<forall>i. i \<notin> set os \<longrightarrow> fold (solve_node lo pinv G) os x ! i = x ! i) \<and>
    (\<forall>i\<in>set os. x ! i = diagonal_entry lo pinv G i * fold (solve_node lo pinv G) os x ! i +
       (\<Sum>j\<in>set os - {i}. lane_sum (other_entries lo pinv G j) i * fold (solve_node lo pinv G) os x ! j))"
proof (induction os arbitrary: x)
  case (Cons j os)
  define x1 where "x1 = solve_node lo pinv G j x"
  define X where "X = fold (solve_node lo pinv G) os x1"
  have j: "j < csc_m G" "j \<notin> set os" using Cons.prems by auto
  note n = solve_node_nth [OF G d j(1) Cons.prems(1), folded x1_def]
  have succ: "node_succs pinv G j - {j} \<subseteq> set os" using Cons.prems(4) by (fastforce simp: topological_def)
  have topo: "topological pinv G os"
    unfolding topological_def
  proof (intro allI impI ballI)
    fix a i assume "a < length os" "i \<in> node_succs pinv G (os ! a)"
    then show "i = os ! a \<or> i \<in> set (drop (Suc a) os)"
      using Cons.prems(4) [unfolded topological_def, rule_format, of "Suc a" i] by simp
  qed
  from Cons.IH [OF n(1) _ _ topo] Cons.prems(2,3) have IH: "length X = csc_m G" "\<And>i. i \<notin> set os \<Longrightarrow> X ! i = x1 ! i"
    "\<And>i. i \<in> set os \<Longrightarrow> x1 ! i = diagonal_entry lo pinv G i * X ! i + (\<Sum>k\<in>set os - {i}. lane_sum (other_entries lo pinv G k) i * X ! k)"
    by (simp_all add: X_def)
  have Xj: "X ! j = x ! j / diagonal_entry lo pinv G j" using IH(2) [OF j(2)] n(3) by simp
  have later: "lane_sum (other_entries lo pinv G k) j = 0" if "k \<in> set os" for k
  proof (rule lane_sum_none)
    from that obtain a where a: "a < length os" "os ! a = k" by (metis in_set_conv_nth)
    have k: "k < csc_m G" using that Cons.prems(3) by auto
    have "j \<notin> node_succs pinv G k - {k}"
      using topo [unfolded topological_def, rule_format, OF a(1), of j] a j(2) by (auto dest: in_set_dropD)
    then show "\<forall>e\<in>set (other_entries lo pinv G k). fst e \<noteq> j" using solve_node_nth(5) [OF G d k Cons.prems(1)] by blast
  qed
  have out: "X ! i = x ! i" if "i \<notin> set (j # os)" for i
  proof -
    have "\<forall>e\<in>set (other_entries lo pinv G j). fst e \<noteq> i" using n(5) succ that by auto
    then show ?thesis using IH(2) n(4) that by (simp add: lane_sum_none)
  qed
  have row: "x ! i = diagonal_entry lo pinv G i * X ! i + (\<Sum>k\<in>set (j # os) - {i}. lane_sum (other_entries lo pinv G k) i * X ! k)"
    if i: "i \<in> set (j # os)" for i
  proof (cases "i = j")
    case True
    then have "set (j # os) - {i} = set os" using j(2) by auto
    then show ?thesis using True later Xj n(2) by (simp add: sum.neutral)
  next
    case False
    then have i: "i \<in> set os" "set (j # os) - {i} = insert j (set os - {i})" using i by auto
    have "x1 ! i = x ! i - lane_sum (other_entries lo pinv G j) i * X ! j" using n(4) [OF False] Xj by simp
    then show ?thesis using IH(3) [OF i(1)] j(2) unfolding i(2) by (simp add: algebra_simps)
  qed
  show ?case using IH(1) out row by (simp add: X_def x1_def)
qed simp

lemma for_range_seg: "for_range a b (\<lambda>p. f (xs ! p)) s = fold f (seg xs a b) s"
  by (simp add: for_range_def seg_def fold_map comp_def)

lemma solve_loop_eq:
  "(let J = node_column pinv j
    in if J < 0 then x
       else let J = nat J;
                Gjj = (if lo then csc_x G ! (col_start G ! J) else csc_x G ! (col_start G ! Suc J - 1));
                p = (if lo then col_start G ! J + 1 else col_start G ! J);
                e = (if lo then col_start G ! Suc J else col_start G ! Suc J - 1);
                x = x[j := x ! j / Gjj]
            in for_range p e (\<lambda>p x. x[csc_i G ! p := x ! (csc_i G ! p) - csc_x G ! p * x ! j]) x) = solve_node lo pinv G j x"
  by (auto simp: solve_node_def diagonal_entry_def other_entries_def first_pos_def end_pos_def for_range_def fold_map comp_def Let_def)

lemma clear_all: "i < length x \<Longrightarrow> fold (\<lambda>i x. x[i := (0 :: 'f :: zero)]) os x ! i = (if i \<in> set os then 0 else x ! i)"
  "length (fold (\<lambda>i x. x[i := (0 :: 'f :: zero)]) os x) = length x"
  by (induction os arbitrary: x) (auto simp: nth_list_update)

lemma scatter_column:
  assumes "distinct (map fst es)"
  shows "length (fold (\<lambda>e x. x[fst e := snd e]) es x) = length x"
    "\<forall>e\<in>set es. fst e < length x \<Longrightarrow> fold (\<lambda>e x. x[fst e := snd e]) es x ! i =
      (if i \<in> fst ` set es then lane_sum es i else (x ! i :: 'f :: comm_monoid_add))"
  using assms
proof (induction es arbitrary: x)
  case (Cons e es)
  {
    case 1
    then show ?case using Cons.IH(1) by simp
  next
    case 2
    obtain r v where e: "e = (r, v)" by (cases e)
    have "lane_sum es r = 0" using 2 by (intro lane_sum_none) (auto simp: e)
    then show ?case using Cons.IH(2) [of "x[fst e := snd e]"] 2 by (auto simp: e)
  }
qed simp_all

lemma node_coeff_split:
  assumes G: "graph_ok pinv G" and d: "diagonal_ok lo pinv G" and j: "j < csc_m G"
  shows "node_coeff pinv G i j = (if i = j then diagonal_entry lo pinv G j else lane_sum (other_entries lo pinv G j) i)"
proof (cases "node_column pinv j < 0")
  case True
  then show ?thesis by (simp add: node_coeff_def diagonal_entry_def other_entries_def)
next
  case False
  let ?J = "nat (node_column pinv j)" and ?f = "first_pos pinv G j" and ?e = "end_pos pinv G j"
  define ent where "ent = (\<lambda>p. (csc_i G ! p, csc_x G ! p))"
  have dj: "?f < ?e" "csc_i G ! (if lo then ?f else ?e - 1) = j" "j \<notin> fst ` set (other_entries lo pinv G j)"
    using d j False unfolding diagonal_ok_def by (auto simp: not_less)
  have col: "csc_col G ?J = map ent [?f..<?e]" using False by (simp add: lane_def ent_def first_pos_def end_pos_def)
  have other: "other_entries lo pinv G j = map ent [(if lo then ?f + 1 else ?f)..<(if lo then ?e else ?e - 1)]"
    using False by (simp add: other_entries_def ent_def)
  have split: "lane_sum (csc_col G ?J) i = lane_sum [ent (if lo then ?f else ?e - 1)] i + lane_sum (other_entries lo pinv G j) i"
  proof (cases lo)
    case True
    then show ?thesis unfolding col other using dj(1) by (cases "ent ?f") (simp add: upt_conv_Cons)
  next
    case nlo: False
    have "[?f..<?e] = [?f..<?e - 1] @ [?e - 1]" using dj(1) upt_Suc_append [of ?f "?e - 1"] by simp
    then show ?thesis unfolding col other using nlo by (simp add: lane_sum_append add.commute)
  qed
  have "ent (if lo then ?f else ?e - 1) = (j, diagonal_entry lo pinv G j)" using dj(2) False by (simp add: ent_def diagonal_entry_def)
  moreover have "lane_sum (other_entries lo pinv G j) j = 0" using dj(3) by (intro lane_sum_none) auto
  ultimately show ?thesis using False split by (simp add: node_coeff_def csc_dense_def)
qed

text \<open>C38. The sparse triangular solve ends and is correct, for lower and for upper triangular matrices, with and without a
  permutation: for every right-hand side column without repeated rows, the search returns each node that the
  column reaches exactly once, restores the column pointers that it flipped, and the values \<open>x\<close> stored at
  these nodes solve the system: the row of every reached node has the value of the right-hand side, the
  other rows have a zero right-hand side and no contribution, and the other entries of \<open>x\<close> are untouched.
  The only assumption on the pattern is that the edges of the graph, diagonal entries aside, have no cycle.\<close>

theorem sparse_triangle_solve_correct:
  fixes G :: "('f :: field) csc_matrix"
  assumes G: "graph_ok pinv G" and ac: "acyclic_ranked pinv G rank" and d: "diagonal_ok lo pinv G"
    and B: "csc_wf B" "csc_m B = csc_m G" "col < csc_n B" "distinct (map fst (csc_col B col))"
    and len: "length xi = 2 * csc_m G" "length x = csc_m G"
  shows "\<exists>tp xi' x'. sparse_triangle_solve lo B col pinv xi G x = Some (tp, xi', G, x') \<and>
    distinct (seg xi' tp (csc_m G)) \<and> set (seg xi' tp (csc_m G)) = (edges pinv G)\<^sup>* `` column_rows B col \<and>
    (\<forall>i<csc_m G. if i \<in> set (seg xi' tp (csc_m G))
       then (\<Sum>j\<in>set (seg xi' tp (csc_m G)). node_coeff pinv G i j * x' ! j) = csc_dense B i col
       else csc_dense B i col = 0 \<and> x' ! i = x ! i \<and> (\<forall>j\<in>set (seg xi' tp (csc_m G)). node_coeff pinv G i j = 0))"
proof -
  let ?m = "csc_m G"
  have wf: "lanes_wf (csc_n B) ?m (col_start B) (csc_i B) (csc_x B)" using B(1,2) by (simp add: csc_wf_def)
  have pos: "col_start B ! col \<le> col_start B ! Suc col" "col_start B ! Suc col \<le> col_start B ! csc_n B"
    using wf B(3) by (auto simp: lanes_wf_def intro: sorted_nth_mono)
  have rows: "column_rows B col = fst ` set (csc_col B col)" by (force simp: column_rows_def lane_def)
  have small: "\<forall>e\<in>set (csc_col B col). fst e < ?m" using wf pos by (auto simp: lane_def lanes_wf_def)
  then have sub: "column_rows B col \<subseteq> {..<?m}" by (auto simp: rows)
  from reach_ok [OF G ac len(1) pos(1) sub] obtain tp xi' where r: "reach B col pinv G xi = Some (tp, xi', G)" "tp \<le> ?m"
    "distinct (seg xi' tp ?m)" "set (seg xi' tp ?m) = (edges pinv G)\<^sup>* `` column_rows B col" "topological pinv G (seg xi' tp ?m)" by blast
  define os where "os = seg xi' tp ?m"
  have closed: "set os \<subseteq> {..<?m}"
  proof -
    have "i < ?m" if "(j, i) \<in> (edges pinv G)\<^sup>*" "j < ?m" for i j
      using that by (induction rule: rtrancl_induct) (use graph_pos(3) [OF G] in \<open>auto simp: edges_def\<close>)
    then show ?thesis using r(4) sub unfolding os_def by blast
  qed
  define x1 where "x1 = fold (\<lambda>i x. x[i := 0]) os x"
  define x2 where "x2 = fold (\<lambda>e x. x[fst e := snd e]) (csc_col B col) x1"
  define x' where "x' = fold (solve_node lo pinv G) os x2"
  have run: "sparse_triangle_solve lo B col pinv xi G x = Some (tp, xi', G, x')"
  proof -
    have "for_range (col_start B ! col) (col_start B ! Suc col) (\<lambda>p x. x[csc_i B ! p := csc_x B ! p]) x1 = x2"
      by (simp add: x2_def lane_def for_range_def fold_map comp_def)
    moreover have "for_range tp ?m (\<lambda>p x. x[xi' ! p := 0]) x = x1"
      using for_range_seg [of tp ?m "\<lambda>i x. x[i := 0]" xi' x] by (simp add: x1_def os_def)
    moreover have "for_range tp ?m (\<lambda>p. solve_node lo pinv G (xi' ! p)) x2 = x'"
      using for_range_seg by (simp add: x'_def os_def)
    ultimately show ?thesis
      using r(1) solve_loop_eq [of pinv _ _ lo G] unfolding sparse_triangle_solve_def by (simp add: Let_def)
  qed
  have reached: "fst ` set (csc_col B col) \<subseteq> set os" using r(4) rows unfolding os_def by blast
  have l1: "length x1 = ?m" by (simp add: x1_def clear_all(2) len(2))
  have x2: "length x2 = ?m" "\<And>i. i < ?m \<Longrightarrow> x2 ! i = (if i \<in> set os then csc_dense B i col else x ! i)"
  proof -
    show "length x2 = ?m" using scatter_column(1) [OF B(4)] l1 by (simp add: x2_def)
    fix i assume i: "i < ?m"
    have "x2 ! i = (if i \<in> fst ` set (csc_col B col) then lane_sum (csc_col B col) i else x1 ! i)"
      unfolding x2_def using scatter_column(2) [OF B(4)] small l1 by simp
    moreover have "lane_sum (csc_col B col) i = 0" if "i \<notin> fst ` set (csc_col B col)" using that by (intro lane_sum_none) auto
    moreover have "x1 ! i = (if i \<in> set os then 0 else x ! i)" using i by (simp add: x1_def clear_all(1) len(2))
    ultimately show "x2 ! i = (if i \<in> set os then csc_dense B i col else x ! i)" using reached by (auto simp: csc_dense_def)
  qed
  have S: "\<And>i. i \<notin> set os \<Longrightarrow> x' ! i = x2 ! i"
    "\<And>i. i \<in> set os \<Longrightarrow> x2 ! i = diagonal_entry lo pinv G i * x' ! i + (\<Sum>j\<in>set os - {i}. lane_sum (other_entries lo pinv G j) i * x' ! j)"
    using solve_nodes [OF G d x2(1), of os] r(3,5) closed by (simp_all add: x'_def os_def)
  have row: "(\<Sum>j\<in>set os. node_coeff pinv G i j * x' ! j) = csc_dense B i col" if i: "i \<in> set os" for i
  proof -
    have "(\<Sum>j\<in>set os. node_coeff pinv G i j * x' ! j) = node_coeff pinv G i i * x' ! i + (\<Sum>j\<in>set os - {i}. node_coeff pinv G i j * x' ! j)"
      using i by (simp add: sum.remove)
    also have "(\<Sum>j\<in>set os - {i}. node_coeff pinv G i j * x' ! j) = (\<Sum>j\<in>set os - {i}. lane_sum (other_entries lo pinv G j) i * x' ! j)"
      using closed by (intro sum.cong) (auto simp: node_coeff_split [OF G d])
    also have "node_coeff pinv G i i = diagonal_entry lo pinv G i" using node_coeff_split [OF G d, of i i] i closed by auto
    finally show ?thesis using S(2) [OF i] x2(2) i closed by auto
  qed
  have zero: "csc_dense B i col = 0 \<and> x' ! i = x ! i \<and> (\<forall>j\<in>set os. node_coeff pinv G i j = 0)" if i: "i < ?m" "i \<notin> set os" for i
  proof (intro conjI ballI)
    show "csc_dense B i col = 0" unfolding csc_dense_def using i(2) reached by (intro lane_sum_none) auto
    show "x' ! i = x ! i" using S(1) x2(2) i by simp
    fix j assume j: "j \<in> set os"
    have jm: "j < ?m" using j closed by auto
    have "node_succs pinv G j \<subseteq> set os" using j r(4) unfolding os_def by (auto simp: edges_def intro: rtrancl_into_rtrancl)
    then have "\<forall>e\<in>set (other_entries lo pinv G j). fst e \<noteq> i" using solve_node_nth(5) [OF G d jm x2(1)] i(2) by blast
    then show "node_coeff pinv G i j = 0" using node_coeff_split [OF G d jm] i(2) j by (auto simp: lane_sum_none)
  qed
  show ?thesis using run r(3,4) row zero unfolding os_def by (intro exI conjI) auto
qed

text \<open>A lower triangular matrix stored by columns, without a permutation.\<close>

lemma lower_tri_graph:
  assumes "lower_tri G"
  shows "graph_ok None G" "acyclic_ranked None G id" "diagonal_ok True None G"
proof -
  have wf: "csc_wf G" "csc_m G = csc_n G" using assms by (simp_all add: lower_tri_def)
  then show "graph_ok None G" by (simp add: graph_ok_def node_column_def)
  have c: "\<exists>d rest. csc_col G j = (j, d) # rest \<and> d \<noteq> 0 \<and> (\<forall>e\<in>set rest. j < fst e)" if "j < csc_m G" for j
    using lower_col [OF assms, of j] that wf(2) by (metis)
  have e: "csc_col G j = (csc_i G ! first_pos None G j, csc_x G ! first_pos None G j) # other_entries True None G j" if "j < csc_m G" for j
  proof -
    have "col_start G ! j < col_start G ! Suc j" using c [OF that] by (cases "col_start G ! j < col_start G ! Suc j") (auto simp: lane_def)
    then show ?thesis by (simp add: lane_def first_pos_def end_pos_def other_entries_def node_column_def upt_conv_Cons)
  qed
  have s: "node_succs None G j = fst ` set (csc_col G j)" for j
    by (force simp: node_succs_def lane_def first_pos_def end_pos_def node_column_def)
  show "acyclic_ranked None G id" unfolding acyclic_ranked_def s using c by fastforce
  show "diagonal_ok True None G" unfolding diagonal_ok_def
  proof (intro allI impI)
    fix j assume j: "j < csc_m G"
    obtain d rest where cj: "csc_col G j = (j, d) # rest" "d \<noteq> 0" "\<forall>e\<in>set rest. j < fst e" using c [OF j] by blast
    then have "csc_i G ! first_pos None G j = j" "csc_x G ! first_pos None G j = d" "other_entries True None G j = rest" using e [OF j] by auto
    moreover have "first_pos None G j < end_pos None G j"
      using cj(1) by (cases "col_start G ! j < col_start G ! Suc j") (auto simp: lane_def first_pos_def end_pos_def node_column_def)
    ultimately show "first_pos None G j < end_pos None G j \<and> csc_i G ! (if True then first_pos None G j else end_pos None G j - 1) = j \<and>
        diagonal_entry True None G j \<noteq> 0 \<and> j \<notin> fst ` set (other_entries True None G j)"
      using cj(2,3) by (auto simp: diagonal_entry_def node_column_def)
  qed
qed

definition ex_rhs :: "rat csc_matrix" where
  "ex_rhs = \<lparr>csc_nz_max = 1, csc_m = 3, csc_n = 1, col_start = [0, 1], csc_i = [0], csc_x = [6]\<rparr>"

lemma ex_sparse_run: "map_option (\<lambda>(tp, xi, G, x). (tp, seg xi tp 3, col_start G, x)) (sparse_triangle_solve True ex_rhs 0 None (replicate 6 0) ex_L [7, 7, 7]) =
    Some (1, [0, 2], [0, 2, 3, 4], [3, 7, - 3 / 5])"
  by code_simp

theorem sparse_triangle_solve_correct_witness:
  "\<exists>tp xi' x'. sparse_triangle_solve True ex_rhs 0 None (replicate 6 0) ex_L [7, 7, 7] = Some (tp, xi', ex_L, x') \<and>
     set (seg xi' tp 3) = {0, 2} \<and> x' = [3, 7, - 3 / 5]"
proof -
  have m: "csc_m ex_L = 3" by (simp add: ex_L_def)
  have B: "csc_wf ex_rhs" "csc_m ex_rhs = csc_m ex_L" "(0 :: nat) < csc_n ex_rhs" "distinct (map fst (csc_col ex_rhs 0))"
    by code_simp+
  from sparse_triangle_solve_correct [OF lower_tri_graph [OF ex_LU(1)] B, of "replicate 6 0" "[7, 7, 7]"]
  obtain tp xi' x' where r: "sparse_triangle_solve True ex_rhs 0 None (replicate 6 0) ex_L [7, 7, 7] = Some (tp, xi', ex_L, x')"
    by (auto simp: m)
  show ?thesis using ex_sparse_run unfolding r by auto
qed

end
