(* ===== verification/Ext_Float.thy ===== *)
theory Ext_Float
  imports Prelude
begin

text \<open>
  Bounds of variables and constraints are floating-point values that may be infinite. \<open>'f ext\<close> adds
  to an ordered field the two infinities and NaN with the comparison and arithmetic rules of IEEE
  754 (comparisons with NaN are false, \<open>0 * \<infinity>\<close> and \<open>\<infinity> - \<infinity>\<close> are NaN); rounding and signed zeros
  are not modelled. \<open>std::min\<close> and \<open>std::max\<close> are the expressions of the standard library.
\<close>

datatype 'f ext = MInf | Fin 'f | PInf | NaN

instantiation ext :: (linorder) ord
begin

fun less_ext :: "'a ext \<Rightarrow> 'a ext \<Rightarrow> bool" where
  "less_ext (Fin a) (Fin b) = (a < b)"
| "less_ext MInf y = (y \<noteq> NaN \<and> y \<noteq> MInf)"
| "less_ext x PInf = (x \<noteq> NaN \<and> x \<noteq> PInf)"
| "less_ext _ _ = False"

definition less_eq_ext :: "'a ext \<Rightarrow> 'a ext \<Rightarrow> bool" where
  "less_eq_ext x y = (x < y \<or> (x = y \<and> x \<noteq> NaN))"

instance ..

end

instantiation ext :: (linordered_idom) "{zero, one, plus, minus, uminus, times, abs}"
begin

definition zero_ext :: "'a ext" where "zero_ext = Fin 0"

definition one_ext :: "'a ext" where "one_ext = Fin 1"

fun plus_ext :: "'a ext \<Rightarrow> 'a ext \<Rightarrow> 'a ext" where
  "plus_ext (Fin a) (Fin b) = Fin (a + b)"
| "plus_ext NaN _ = NaN"
| "plus_ext _ NaN = NaN"
| "plus_ext PInf MInf = NaN"
| "plus_ext MInf PInf = NaN"
| "plus_ext PInf _ = PInf"
| "plus_ext MInf _ = MInf"
| "plus_ext (Fin _) y = y"

fun uminus_ext :: "'a ext \<Rightarrow> 'a ext" where
  "uminus_ext (Fin a) = Fin (- a)"
| "uminus_ext PInf = MInf"
| "uminus_ext MInf = PInf"
| "uminus_ext NaN = NaN"

definition minus_ext :: "'a ext \<Rightarrow> 'a ext \<Rightarrow> 'a ext" where
  "minus_ext x y = x + (- y)"

fun abs_ext :: "'a ext \<Rightarrow> 'a ext" where
  "abs_ext (Fin a) = Fin \<bar>a\<bar>"
| "abs_ext PInf = PInf"
| "abs_ext MInf = PInf"
| "abs_ext NaN = NaN"

text \<open>The sign of a value, with 0 for zero and for NaN.\<close>

fun ext_sgn :: "'a ext \<Rightarrow> int" where
  "ext_sgn (Fin a) = (if a < 0 then -1 else if a = 0 then 0 else 1)"
| "ext_sgn PInf = 1"
| "ext_sgn MInf = -1"
| "ext_sgn NaN = 0"

fun times_ext :: "'a ext \<Rightarrow> 'a ext \<Rightarrow> 'a ext" where
  "times_ext (Fin a) (Fin b) = Fin (a * b)"
| "times_ext NaN _ = NaN"
| "times_ext _ NaN = NaN"
| "times_ext x y = (let s = ext_sgn x * ext_sgn y in if s = 0 then NaN else if s > 0 then PInf else MInf)"

instance ..

end

instantiation ext :: (linordered_field) inverse
begin

fun divide_ext :: "'a ext \<Rightarrow> 'a ext \<Rightarrow> 'a ext" where
  "divide_ext (Fin a) (Fin b) =
     (if b \<noteq> 0 then Fin (a / b) else if a = 0 then NaN else if a > 0 then PInf else MInf)"
| "divide_ext NaN _ = NaN"
| "divide_ext _ NaN = NaN"
| "divide_ext (Fin _) _ = Fin 0"
| "divide_ext PInf (Fin b) = (if b \<ge> 0 then PInf else MInf)"
| "divide_ext MInf (Fin b) = (if b \<ge> 0 then MInf else PInf)"
| "divide_ext _ _ = NaN"

definition inverse_ext :: "'a ext \<Rightarrow> 'a ext" where
  "inverse_ext x = Fin 1 div x"

instance ..

end

fun is_fin :: "'f ext \<Rightarrow> bool" where
  "is_fin (Fin _) = True"
| "is_fin _ = False"

text \<open>The value of a finite number; it is only taken where the value is known to be finite.\<close>

fun fin_part :: "'f ext \<Rightarrow> 'f :: zero" where
  "fin_part (Fin v) = v"
| "fin_part _ = 0"

definition ext_max :: "'f :: linorder ext \<Rightarrow> 'f ext \<Rightarrow> 'f ext" where
  "ext_max a b = (if a < b then b else a)"

definition ext_min :: "'f :: linorder ext \<Rightarrow> 'f ext \<Rightarrow> 'f ext" where
  "ext_min a b = (if b < a then b else a)"

lemma ext_le_simps [simp]:
  "Fin a \<le> Fin b \<longleftrightarrow> a \<le> b" "MInf \<le> x \<longleftrightarrow> x \<noteq> NaN" "x \<le> PInf \<longleftrightarrow> x \<noteq> NaN"
  "\<not> Fin a \<le> MInf" "\<not> PInf \<le> Fin a" "\<not> NaN \<le> x" "\<not> x \<le> NaN"
  by (cases x; auto simp: less_eq_ext_def)+

lemma ext_less_simps [simp]:
  "\<not> NaN < x" "\<not> x < NaN" "MInf < Fin a" "Fin a < PInf" "\<not> Fin a < MInf" "\<not> PInf < x" "MInf < PInf"
  "\<not> x < MInf"
  by (cases x; simp)+

lemma is_fin_iff: "is_fin x \<longleftrightarrow> (\<exists>v. x = Fin v)"
  by (cases x) auto

lemma Fin_fin_part [simp]: "is_fin x \<Longrightarrow> Fin (fin_part x) = x"
  by (cases x) auto

text \<open>A value clamped to an interval with finite lower end is finite and lies in the interval.\<close>

lemma clamp_Fin:
  assumes "Fin l \<le> u"
  shows "\<exists>v. ext_max (Fin l) (ext_min (Fin s) u) = Fin v \<and> l \<le> v \<and> Fin v \<le> u \<and>
    (l \<le> s \<and> Fin s \<le> u \<longrightarrow> v = s)"
  using assms by (cases u) (auto simp: ext_max_def ext_min_def)

lemma ext_le_trans: "x \<le> y \<Longrightarrow> y \<le> z \<Longrightarrow> x \<le> z" for x y z :: "'f :: linorder ext"
  by (cases x; cases y; cases z) (auto simp: less_eq_ext_def)

lemma abs_diff_less_fin:
  "\<bar>u - l\<bar> < Fin t \<Longrightarrow> is_fin u \<and> is_fin l" for u l :: "'f :: linordered_idom ext"
  by (cases u; cases l) (auto simp: minus_ext_def)

end
