(* ===== verification/Lp_Problem.thy ===== *)
theory Lp_Problem
  imports Ext_Float Vector_Math
begin

text \<open>
  The two problem formats of the dual simplex solver (\<open>user_problem.hpp\<close>, \<open>presolve.hpp\<close>) and the
  conversion of the first into the second (\<open>convert_user_problem\<close> and its helpers in
  \<open>presolve.cpp\<close>), with the maps that carry solutions back and forth (\<open>crush_*\<close>, \<open>uncrush_*\<close>).
  \<open>user_feasible\<close> and \<open>lp_feasible\<close> are the meanings of the two formats. Counters that the code
  passes by reference are returned; the values of \<open>h\<close> and \<open>u\<close> that \<open>convert_range_rows\<close> leaves
  uninitialised for an unknown row sense are a parameter of the model.
\<close>

subsection \<open>Data\<close>

datatype variable_type = CONTINUOUS | BINARY | INTEGER

record 'f user_problem =
  u_num_rows :: idx
  u_num_cols :: idx
  u_objective :: "'f vec"
  u_A :: "'f csc_matrix"
  u_rhs :: "'f vec"
  u_row_sense :: "char list"
  u_lower :: "'f ext vec"
  u_upper :: "'f ext vec"
  u_range_rows :: "idx list"
  u_range_value :: "'f vec"
  u_num_range_rows :: idx
  u_obj_constant :: "'f ext"
  u_obj_scale :: 'f
  u_var_types :: "variable_type list"

record 'f lp_problem =
  num_rows :: idx
  num_cols :: idx
  objective :: "'f vec"
  lp_A :: "'f csc_matrix"
  rhs :: "'f vec"
  lower :: "'f ext vec"
  upper :: "'f ext vec"
  obj_constant :: "'f ext"
  obj_scale :: 'f

record 'f presolve_info =
  remaining_variables :: "idx list"
  removed_variables :: "idx list"
  removed_values :: "'f ext vec"
  removed_reduced_costs :: "'f ext vec"

definition lp_problem_new :: "idx \<Rightarrow> idx \<Rightarrow> idx \<Rightarrow> 'f \<Rightarrow> ('f :: linordered_idom) lp_problem" where
  "lp_problem_new m n nz scale =
     \<lparr>num_rows = m, num_cols = n, objective = replicate n 0, lp_A = csc_new m n nz, rhs = replicate m 0,
      lower = replicate n 0, upper = replicate n 0, obj_constant = 0, obj_scale = scale\<rparr>"

subsection \<open>Adding slack columns\<close>

text \<open>The body the three conversions share: one new column with a single entry.\<close>

definition push_singleton ::
  "idx \<Rightarrow> 'f \<Rightarrow> 'f ext \<Rightarrow> 'f ext \<Rightarrow> ('f :: linordered_idom) lp_problem \<times> idx \<times> idx \<times> idx list
   \<Rightarrow> 'f lp_problem \<times> idx \<times> idx \<times> idx list" where
  "push_singleton i v l u = (\<lambda>(P, p, j, slacks).
     (P\<lparr>lower := (lower P)[j := l], upper := (upper P)[j := u], objective := (objective P)[j := 0],
        lp_A := (lp_A P)\<lparr>csc_i := (csc_i (lp_A P))[p := i], csc_x := (csc_x (lp_A P))[p := v],
                         col_start := (col_start (lp_A P))[j := p]\<rparr>\<rparr>,
      p + 1, j + 1, slacks @ [j]))"

definition grow_columns :: "nat \<Rightarrow> ('f :: linordered_idom) lp_problem \<Rightarrow> 'f lp_problem" where
  "grow_columns k P =
     (let ncols = num_cols P + k; nnz = col_start (lp_A P) ! num_cols P + k in
      P\<lparr>lp_A := (lp_A P)\<lparr>col_start := resize (ncols + 1) 0 (col_start (lp_A P)),
                         csc_i := resize nnz 0 (csc_i (lp_A P)), csc_x := resize nnz 0 (csc_x (lp_A P))\<rparr>,
        lower := resize ncols 0 (lower P), upper := resize ncols 0 (upper P),
        objective := resize ncols 0 (objective P)\<rparr>)"

definition close_columns :: "nat \<Rightarrow> idx \<Rightarrow> 'f lp_problem \<Rightarrow> 'f lp_problem" where
  "close_columns ncols p P =
     P\<lparr>lp_A := (lp_A P)\<lparr>col_start := (col_start (lp_A P))[ncols := p], csc_n := ncols\<rparr>, num_cols := ncols\<rparr>"

definition convert_less_than_to_equal ::
  "char list \<Rightarrow> ('f :: linordered_idom) lp_problem \<Rightarrow> nat \<Rightarrow> idx list
   \<Rightarrow> char list \<times> 'f lp_problem \<times> nat \<times> idx list" where
  "convert_less_than_to_equal row_sense P less_rows new_slacks =
     (let ncols = num_cols P + less_rows;
          G = grow_columns less_rows P;
          p = col_start (lp_A G) ! num_cols P; j = num_cols P;
          (row_sense, less_rows, G, p, j, new_slacks) = for_range 0 (num_rows P)
            (\<lambda>i (row_sense, less_rows, G, p, j, new_slacks).
               if row_sense ! i = CHR ''L''
               then let (G, p, j, new_slacks) = push_singleton i 1 0 PInf (G, p, j, new_slacks)
                    in (row_sense[i := CHR ''E''], less_rows - 1, G, p, j, new_slacks)
               else (row_sense, less_rows, G, p, j, new_slacks))
            (row_sense, less_rows, G, p, j, new_slacks)
      in (row_sense, close_columns ncols p G, less_rows, new_slacks))"

definition convert_greater_to_less ::
  "char list \<Rightarrow> ('f :: linordered_idom) lp_problem \<Rightarrow> nat \<Rightarrow> nat
   \<Rightarrow> char list \<times> 'f lp_problem \<times> nat \<times> nat" where
  "convert_greater_to_less row_sense P greater_rows less_rows =
     (let Arow = to_compressed_row (lp_A P) csr_new;
          (xs, r, row_sense, greater_rows, less_rows) = for_range 0 (num_rows P)
            (\<lambda>i (xs, r, row_sense, greater_rows, less_rows).
               if row_sense ! i = CHR ''G''
               then (for_range (row_start Arow ! i) (row_start Arow ! Suc i) (\<lambda>p xs. xs[p := xs ! p * -1]) xs,
                     r[i := r ! i * -1], row_sense[i := CHR ''L''], greater_rows - 1, less_rows + 1)
               else (xs, r, row_sense, greater_rows, less_rows))
            (csr_x Arow, rhs P, row_sense, greater_rows, less_rows)
      in (row_sense, P\<lparr>rhs := r, lp_A := to_compressed_col (Arow\<lparr>csr_x := xs\<rparr>) (lp_A P)\<rparr>,
          greater_rows, less_rows))"

definition range_bounds :: "char \<Rightarrow> 'f \<Rightarrow> 'f \<Rightarrow> 'f \<times> 'f \<Rightarrow> ('f :: linordered_idom) \<times> 'f" where
  "range_bounds sense r b uninit =
     (if sense = CHR ''L'' then (b - \<bar>r\<bar>, b)
      else if sense = CHR ''G'' then (b, b + \<bar>r\<bar>)
      else if sense = CHR ''E'' then (if r > 0 then (b, b + \<bar>r\<bar>) else (b - \<bar>r\<bar>, b))
      else uninit)"

definition convert_range_rows ::
  "'f \<times> 'f \<Rightarrow> ('f :: linordered_idom) user_problem \<Rightarrow> char list \<Rightarrow> 'f lp_problem \<Rightarrow> nat \<Rightarrow> nat \<Rightarrow> nat \<Rightarrow> idx list
   \<Rightarrow> char list \<times> 'f lp_problem \<times> nat \<times> nat \<times> nat \<times> idx list" where
  "convert_range_rows uninit U row_sense P less_rows equal_rows greater_rows new_slacks =
     (let k = u_num_range_rows U; ncols = num_cols P + k;
          G = grow_columns k P;
          p = col_start (lp_A G) ! num_cols P; j = num_cols P;
          (row_sense, less_rows, equal_rows, greater_rows, G, p, j, new_slacks) = for_range 0 k
            (\<lambda>k (row_sense, less_rows, equal_rows, greater_rows, G, p, j, new_slacks).
               let i = u_range_rows U ! k; r = u_range_value U ! k; b = rhs G ! i; s = row_sense ! i;
                   (h, u) = range_bounds s r b uninit;
                   (less_rows, equal_rows, greater_rows) =
                     (if s = CHR ''L'' then (less_rows - 1, equal_rows + 1, greater_rows)
                      else if s = CHR ''G'' then (less_rows, equal_rows + 1, greater_rows - 1)
                      else (less_rows, equal_rows, greater_rows));
                   (G, p, j, new_slacks) = push_singleton i (-1) (Fin h) (Fin u) (G, p, j, new_slacks)
               in (row_sense[i := CHR ''E''], less_rows, equal_rows, greater_rows,
                   G\<lparr>rhs := (rhs G)[i := 0]\<rparr>, p, j, new_slacks))
            (row_sense, less_rows, equal_rows, greater_rows, G, p, j, new_slacks)
      in (row_sense, close_columns ncols p G, less_rows, equal_rows, greater_rows, new_slacks))"

definition add_artifical_variables ::
  "('f :: linordered_idom) lp_problem \<Rightarrow> idx list \<Rightarrow> idx list \<Rightarrow> 'f lp_problem \<times> idx list" where
  "add_artifical_variables P equality_rows new_slacks =
     (let n = num_cols P; ncols = n + length equality_rows;
          G = grow_columns (length equality_rows) P;
          p = col_start (lp_A G) ! n; j = n;
          (G, p, j, new_slacks) = fold (\<lambda>i. push_singleton i 1 0 0) equality_rows (G, p, j, new_slacks)
      in (close_columns ncols p G, new_slacks))"

definition convert_user_problem ::
  "'f \<times> 'f \<Rightarrow> ('f :: linordered_idom) user_problem \<Rightarrow> 'f lp_problem \<Rightarrow> idx list \<Rightarrow> 'f lp_problem \<times> idx list" where
  "convert_user_problem uninit U P new_slacks =
     (let P = P\<lparr>num_rows := u_num_rows U, num_cols := u_num_cols U, lp_A := u_A U,
                objective := u_objective U, obj_scale := u_obj_scale U, obj_constant := u_obj_constant U,
                rhs := u_rhs U, lower := u_lower U, upper := u_upper U\<rparr>;
          row_sense = u_row_sense U;
          (greater_rows, less_rows, equal_rows, equality_rows) = for_range 0 (u_num_rows U)
            (\<lambda>i (g, l, e, es). if row_sense ! i = CHR ''G'' then (g + 1, l, e, es)
               else if row_sense ! i = CHR ''L'' then (g, l + 1, e, es)
               else (g, l, e + 1, es @ [i])) (0, 0, 0, []);
          (row_sense, P, less_rows, equal_rows, greater_rows, new_slacks) =
            (if u_num_range_rows U > 0
             then convert_range_rows uninit U row_sense P less_rows equal_rows greater_rows new_slacks
             else (row_sense, P, less_rows, equal_rows, greater_rows, new_slacks));
          (row_sense, P, greater_rows, less_rows) =
            (if greater_rows > 0 then convert_greater_to_less row_sense P greater_rows less_rows
             else (row_sense, P, greater_rows, less_rows));
          (row_sense, P, less_rows, new_slacks) =
            (if less_rows > 0 then convert_less_than_to_equal row_sense P less_rows new_slacks
             else (row_sense, P, less_rows, new_slacks))
      in add_artifical_variables P equality_rows new_slacks)"

end
