(* ===== verification/Lp_Convert.thy ===== *)
theory Lp_Convert
  imports Lp_Problem
begin

text \<open>
  Correctness of \<open>convert_user_problem\<close>: the structure of the converted problem (\<open>converted\<close>),
  and from it the equivalence of the two problems under the maps that carry solutions.
\<close>

subsection \<open>Appending singleton columns\<close>

type_synonym 'f slack = "idx \<times> 'f \<times> 'f ext \<times> 'f ext"

abbreviation push :: "'f slack \<Rightarrow> ('f :: linordered_idom) lp_problem \<times> idx \<times> idx \<times> idx list
   \<Rightarrow> 'f lp_problem \<times> idx \<times> idx \<times> idx list" where
  "push \<equiv> \<lambda>(i, v, l, u). push_singleton i v l u"

lemma fold_push:
  assumes "p + length es \<le> length (csc_i (lp_A G))" "p + length es \<le> length (csc_x (lp_A G))"
    and "j + length es \<le> length (col_start (lp_A G))" "j + length es \<le> length (lower G)"
    and "j + length es \<le> length (upper G)" "j + length es \<le> length (objective G)"
  shows "fold push es (G, p, j, sl) =
    (G\<lparr>lower := overwrite j (map (\<lambda>(i, v, l, u). l) es) (lower G),
       upper := overwrite j (map (\<lambda>(i, v, l, u). u) es) (upper G),
       objective := overwrite j (map (\<lambda>_. 0) es) (objective G),
       lp_A := (lp_A G)\<lparr>csc_i := overwrite p (map fst es) (csc_i (lp_A G)),
                        csc_x := overwrite p (map (\<lambda>(i, v, l, u). v) es) (csc_x (lp_A G)),
                        col_start := overwrite j [p..<p + length es] (col_start (lp_A G))\<rparr>\<rparr>,
     p + length es, j + length es, sl @ [j..<j + length es])"
  using assms
proof (induction es arbitrary: G p j sl)
  case (Cons e es)
  obtain i v l u where e: "e = (i, v, l, u)" by (rule prod_cases4)
  let ?A = "lp_A G"
  let ?G = "G\<lparr>lower := (lower G)[j := l], upper := (upper G)[j := u], objective := (objective G)[j := 0],
    lp_A := ?A\<lparr>csc_i := (csc_i ?A)[p := i], csc_x := (csc_x ?A)[p := v], col_start := (col_start ?A)[j := p]\<rparr>\<rparr>"
  have step: "push e (G, p, j, sl) = (?G, Suc p, Suc j, sl @ [j])"
    by (simp add: e push_singleton_def)
  have "fold push (e # es) (G, p, j, sl) = fold push es (?G, Suc p, Suc j, sl @ [j])"
    by (simp only: fold_simps step)
  then show ?case
    using Cons.IH [of "Suc p" ?G "Suc j" "sl @ [j]"] Cons.prems by (simp add: upt_conv_Cons e overwrite_Cons del: upt_Suc)
qed simp

definition append_singletons :: "('f :: linordered_idom) slack list \<Rightarrow> 'f lp_problem \<Rightarrow> 'f lp_problem" where
  "append_singletons es P =
     (let n = num_cols P; A = lp_A P; c = col_start A ! n in
      P\<lparr>num_cols := n + length es,
        lower := lower P @ map (\<lambda>(i, v, l, u). l) es, upper := upper P @ map (\<lambda>(i, v, l, u). u) es,
        objective := objective P @ map (\<lambda>_. 0) es,
        lp_A := A\<lparr>csc_n := n + length es, col_start := take n (col_start A) @ [c..<Suc (c + length es)],
                  csc_i := take c (csc_i A) @ map fst es, csc_x := take c (csc_x A) @ map (\<lambda>(i, v, l, u). v) es\<rparr>\<rparr>)"

definition lp_wf :: "'f lp_problem \<Rightarrow> bool" where
  "lp_wf P \<longleftrightarrow> csc_wf (lp_A P) \<and> csc_m (lp_A P) = num_rows P \<and> csc_n (lp_A P) = num_cols P \<and>
     length (rhs P) = num_rows P \<and> length (objective P) = num_cols P \<and>
     length (lower P) = num_cols P \<and> length (upper P) = num_cols P"

lemma lp_wf_lanes:
  "lp_wf P \<Longrightarrow> lanes_wf (num_cols P) (num_rows P) (col_start (lp_A P)) (csc_i (lp_A P)) (csc_x (lp_A P))"
  by (auto simp: lp_wf_def csc_wf_def)

lemma append_loop:
  assumes wf: "lp_wf P"
  shows "\<exists>G. fold push es (grow_columns (length es) P, col_start (lp_A (grow_columns (length es) P)) ! num_cols P, num_cols P, sl)
      = (G, col_start (lp_A P) ! num_cols P + length es, num_cols P + length es, sl @ [num_cols P..<num_cols P + length es])
    \<and> close_columns (num_cols P + length es) (col_start (lp_A P) ! num_cols P + length es) G = append_singletons es P"
proof -
  let ?n = "num_cols P" and ?A = "lp_A P" and ?k = "length es"
  let ?c = "col_start ?A ! ?n" and ?G = "grow_columns ?k P"
  have len: "length (col_start ?A) = Suc ?n" "?c \<le> length (csc_i ?A)" "?c \<le> length (csc_x ?A)"
    "length (lower P) = ?n" "length (upper P) = ?n" "length (objective P) = ?n"
    using wf by (auto simp: lp_wf_def csc_wf_def lanes_wf_def)
  have c: "col_start (lp_A ?G) ! ?n = ?c"
    by (simp add: grow_columns_def Let_def nth_resize len)
  have ov: "overwrite ?c zs (resize (?c + ?k) d ys) = take ?c ys @ zs" if "?c \<le> length ys" "length zs = ?k"
    for d and zs ys :: "'z list"
    using that by (auto simp: overwrite_def resize_def min_def)
  have cs: "(overwrite ?n [?c..<?c + ?k] (resize (Suc (?n + ?k)) 0 (col_start ?A)))[?n + ?k := ?c + ?k]
      = take ?n (col_start ?A) @ [?c..<Suc (?c + ?k)]"
  proof (rule nth_equalityI)
    fix t assume "t < length ((overwrite ?n [?c..<?c + ?k] (resize (Suc (?n + ?k)) 0 (col_start ?A)))[?n + ?k := ?c + ?k])"
    then have "t < Suc (?n + ?k)" by simp
    then show "(overwrite ?n [?c..<?c + ?k] (resize (Suc (?n + ?k)) 0 (col_start ?A)))[?n + ?k := ?c + ?k] ! t
        = (take ?n (col_start ?A) @ [?c..<Suc (?c + ?k)]) ! t"
      using len(1) by (auto simp: nth_list_update nth_append overwrite_def nth_resize min_def simp del: upt_Suc)
  qed (use len in simp)
  have p: "?c + ?k \<le> length (csc_i (lp_A ?G))" "?c + ?k \<le> length (csc_x (lp_A ?G))"
    "?n + ?k \<le> length (col_start (lp_A ?G))" "?n + ?k \<le> length (lower ?G)" "?n + ?k \<le> length (upper ?G)"
    "?n + ?k \<le> length (objective ?G)"
    by (simp_all add: grow_columns_def Let_def)
  let ?G' = "fst (fold push es (?G, ?c, ?n, sl))"
  have G': "fold push es (?G, ?c, ?n, sl) = (?G', ?c + ?k, ?n + ?k, sl @ [?n..<?n + ?k])"
    unfolding fold_push [OF p] by (simp only: fst_conv)
  have "close_columns (?n + ?k) (?c + ?k) ?G' = append_singletons es P"
    unfolding fold_push [OF p] fst_conv
    unfolding close_columns_def append_singletons_def grow_columns_def Let_def
    using len by (simp add: ov overwrite_resize cs del: upt_Suc)
  with G' show ?thesis unfolding c by blast
qed

lemma append_singletons_sel [simp]:
  "num_rows (append_singletons es P) = num_rows P" "num_cols (append_singletons es P) = num_cols P + length es"
  "rhs (append_singletons es P) = rhs P" "obj_constant (append_singletons es P) = obj_constant P"
  "obj_scale (append_singletons es P) = obj_scale P"
  "lower (append_singletons es P) = lower P @ map (\<lambda>(i, v, l, u). l) es"
  "upper (append_singletons es P) = upper P @ map (\<lambda>(i, v, l, u). u) es"
  "objective (append_singletons es P) = objective P @ map (\<lambda>_. 0) es"
  by (simp_all add: append_singletons_def Let_def)

lemma append_singletons_start:
  assumes "lp_wf P"
  shows "j \<le> num_cols P \<Longrightarrow> col_start (lp_A (append_singletons es P)) ! j = col_start (lp_A P) ! j"
    and "t \<le> length es \<Longrightarrow> col_start (lp_A (append_singletons es P)) ! (num_cols P + t)
      = col_start (lp_A P) ! num_cols P + t"
  using assms
  by (auto simp: append_singletons_def Let_def nth_append lp_wf_def csc_wf_def lanes_wf_def
      min_def le_less simp del: upt_Suc)

lemma append_singletons_col:
  assumes wf: "lp_wf P"
  shows "j < num_cols P \<Longrightarrow> csc_col (lp_A (append_singletons es P)) j = csc_col (lp_A P) j"
    and "t < length es \<Longrightarrow> csc_col (lp_A (append_singletons es P)) (num_cols P + t) =
      [(fst (es ! t), fst (snd (es ! t)))]"
proof -
  let ?A = "lp_A P" and ?n = "num_cols P" and ?B = "lp_A (append_singletons es P)"
  let ?c = "col_start ?A ! ?n"
  have w: "lanes_wf ?n (num_rows P) (col_start ?A) (csc_i ?A) (csc_x ?A)"
    by (rule lp_wf_lanes [OF wf])
  have B: "csc_i ?B = take ?c (csc_i ?A) @ map fst es"
    "csc_x ?B = take ?c (csc_x ?A) @ map (\<lambda>(i, v, l, u). v) es"
    by (simp_all add: append_singletons_def Let_def)
  have c: "?c \<le> length (csc_i ?A)" "?c \<le> length (csc_x ?A)" using w by (simp_all add: lanes_wf_def)
  show "csc_col ?B j = csc_col ?A j" if j: "j < ?n"
  proof (rule lane_cong)
    show "col_start ?B ! j = col_start ?A ! j" "col_start ?B ! Suc j = col_start ?A ! Suc j"
      using append_singletons_start(1) [OF wf] j by simp_all
    fix p assume "p < col_start ?A ! Suc j"
    then have "p < ?c" using lanes_wf_less(1) [OF w j] by blast
    then show "csc_i ?B ! p = csc_i ?A ! p \<and> csc_x ?B ! p = csc_x ?A ! p"
      using c by (simp add: B nth_append)
  qed
  show "csc_col ?B (?n + t) = [(fst (es ! t), fst (snd (es ! t)))]" if t: "t < length es"
    using append_singletons_start(2) [OF wf, of t es] append_singletons_start(2) [OF wf, of "Suc t" es] t c
    by (simp add: lane_def B nth_append min_def split_def)
qed

lemma append_singletons_wf:
  assumes wf: "lp_wf P" and es: "\<forall>e \<in> set es. fst e < num_rows P"
  shows "lp_wf (append_singletons es P)"
proof -
  let ?A = "lp_A P" and ?n = "num_cols P" and ?B = "lp_A (append_singletons es P)"
  let ?c = "col_start ?A ! ?n" and ?k = "length es"
  have w: "lanes_wf ?n (num_rows P) (col_start ?A) (csc_i ?A) (csc_x ?A)"
    by (rule lp_wf_lanes [OF wf])
  have B: "csc_i ?B = take ?c (csc_i ?A) @ map fst es" "csc_x ?B = take ?c (csc_x ?A) @ map (\<lambda>(i, v, l, u). v) es"
    "col_start ?B = take ?n (col_start ?A) @ [?c..<Suc (?c + ?k)]" "csc_m ?B = csc_m ?A" "csc_n ?B = ?n + ?k"
    by (simp_all add: append_singletons_def Let_def)
  have c: "?c \<le> length (csc_i ?A)" "?c \<le> length (csc_x ?A)" "length (col_start ?A) = Suc ?n"
    using w by (simp_all add: lanes_wf_def)
  have start: "col_start ?B ! j = (if j \<le> ?n then col_start ?A ! j else ?c + (j - ?n))" if "j \<le> ?n + ?k" for j
    using append_singletons_start(1) [OF wf, of j es] append_singletons_start(2) [OF wf, of "j - ?n" es] that
    by (cases "j \<le> ?n") simp_all
  have "sorted (col_start ?B)"
  proof -
    have "sorted (take ?n (col_start ?A))" using w by (simp add: lanes_wf_def sorted_wrt_take)
    moreover have "x \<le> ?c" if "x \<in> set (take ?n (col_start ?A))" for x
      using that lanes_wf_start [OF w] c(3) by (auto simp: in_set_conv_nth)
    ultimately show ?thesis unfolding B(3) sorted_append
      by (auto simp del: upt_Suc) (meson order_trans)
  qed
  moreover have "csc_i ?B ! p < num_rows P" if "p < ?c + ?k" for p
    using that w es c by (auto simp: B nth_append lanes_wf_def min_def)
  moreover have "col_start ?B ! 0 = 0" using start [of 0] w by (simp add: lanes_wf_def)
  moreover have "length (col_start ?B) = Suc (?n + ?k)" "length (csc_i ?B) = ?c + ?k" "length (csc_x ?B) = ?c + ?k"
    using c by (simp_all add: B min_def del: upt_Suc)
  moreover have "col_start ?B ! (?n + ?k) = ?c + ?k"
    using append_singletons_start(2) [OF wf, of ?k es] by simp
  ultimately have "lanes_wf (?n + ?k) (num_rows P) (col_start ?B) (csc_i ?B) (csc_x ?B)"
    unfolding lanes_wf_def by simp
  then show ?thesis using wf by (simp add: lp_wf_def csc_wf_def B(4,5))
qed

lemma append_singletons_dense:
  assumes "lp_wf P"
  shows "j < num_cols P \<Longrightarrow> csc_dense (lp_A (append_singletons es P)) r j = csc_dense (lp_A P) r j"
    and "t < length es \<Longrightarrow> csc_dense (lp_A (append_singletons es P)) r (num_cols P + t) =
      (if fst (es ! t) = r then fst (snd (es ! t)) else 0)"
  by (simp_all add: csc_dense_def append_singletons_col [OF assms])

subsection \<open>The four steps in closed form\<close>

lemma add_artifical_variables_eq:
  assumes "lp_wf P"
  shows "add_artifical_variables P rows sl =
    (append_singletons (map (\<lambda>i. (i, 1, 0, 0)) rows) P, sl @ [num_cols P..<num_cols P + length rows])"
proof -
  let ?es = "map (\<lambda>i. (i, 1, 0, 0)) rows :: 'a slack list"
  have f: "fold (\<lambda>i. push_singleton i 1 0 0) rows st = fold push ?es st" for st :: "'a lp_problem \<times> idx \<times> idx \<times> idx list"
    by (simp add: fold_map comp_def)
  obtain G where "fold push ?es (grow_columns (length ?es) P, col_start (lp_A (grow_columns (length ?es) P)) ! num_cols P, num_cols P, sl)
      = (G, col_start (lp_A P) ! num_cols P + length ?es, num_cols P + length ?es, sl @ [num_cols P..<num_cols P + length ?es])"
    "close_columns (num_cols P + length ?es) (col_start (lp_A P) ! num_cols P + length ?es) G = append_singletons ?es P"
    using append_loop [OF assms, of ?es sl] by blast
  then show ?thesis
    unfolding add_artifical_variables_def Let_def f by (simp add: close_columns_def)
qed

lemma less_loop:
  fixes st :: "('f :: linordered_idom) lp_problem \<times> idx \<times> idx \<times> idx list"
  assumes "m \<le> length rs"
  shows "for_range 0 m (\<lambda>i (row_sense, less_rows, G, p, j, sl).
       if row_sense ! i = CHR ''L''
       then let (G, p, j, sl) = push_singleton i 1 0 PInf (G, p, j, sl)
            in (row_sense[i := CHR ''E''], less_rows - 1, G, p, j, sl)
       else (row_sense, less_rows, G, p, j, sl)) (rs, k, st)
   = (map (\<lambda>i. if i < m \<and> rs ! i = CHR ''L'' then CHR ''E'' else rs ! i) [0..<length rs],
      k - count_at (CHR ''L'') rs m,
      fold push (map (\<lambda>i. (i, 1, 0, PInf)) (filter (\<lambda>i. rs ! i = CHR ''L'') [0..<m])) st)"
  using assms
proof (induction m)
  case 0
  then show ?case by (simp add: map_nth)
next
  case (Suc m)
  let ?rs = "\<lambda>m. map (\<lambda>i. if i < m \<and> rs ! i = CHR ''L'' then CHR ''E'' else rs ! i) [0..<length rs]"
  have "?rs (Suc m) = (if rs ! m = CHR ''L'' then (?rs m)[m := CHR ''E''] else ?rs m)"
    using Suc.prems by (auto simp: nth_list_update less_Suc_eq intro!: nth_equalityI)
  then show ?case
    using Suc by (auto simp: Let_def split_def)
qed

definition less_slacks :: "char list \<Rightarrow> nat \<Rightarrow> ('f :: linordered_idom) slack list" where
  "less_slacks rs m = map (\<lambda>i. (i, 1, 0, PInf)) (filter (\<lambda>i. rs ! i = CHR ''L'') [0..<m])"

lemma length_less_slacks [simp]: "length (less_slacks rs m) = count_at (CHR ''L'') rs m"
  by (simp add: less_slacks_def count_at_def)

lemma convert_less_than_to_equal_eq:
  assumes wf: "lp_wf P" and rs: "length rs = num_rows P" and k: "k = count_at (CHR ''L'') rs (num_rows P)"
  shows "\<exists>rs'. convert_less_than_to_equal rs P k sl =
    (rs', append_singletons (less_slacks rs (num_rows P)) P, 0, sl @ [num_cols P..<num_cols P + k])"
proof -
  let ?es = "less_slacks rs (num_rows P) :: 'a slack list"
  have len: "length ?es = k" by (simp add: k)
  obtain G where G: "fold push ?es (grow_columns k P, col_start (lp_A (grow_columns k P)) ! num_cols P, num_cols P, sl)
      = (G, col_start (lp_A P) ! num_cols P + k, num_cols P + k, sl @ [num_cols P..<num_cols P + k])"
    "close_columns (num_cols P + k) (col_start (lp_A P) ! num_cols P + k) G = append_singletons ?es P"
    using append_loop [OF wf, of ?es sl] unfolding len by blast
  have m: "num_rows P \<le> length rs" using rs by simp
  have "k - count_at (CHR ''L'') rs (num_rows P) = 0" by (simp add: k)
  then show ?thesis
    unfolding convert_less_than_to_equal_def Let_def
    unfolding less_loop [OF m, unfolded Let_def] less_slacks_def [symmetric] G(1) prod.case G(2) [symmetric]
    by (simp add: close_columns_def)
qed

lemma push_rhs:
  "push e (G\<lparr>rhs := b\<rparr>, p, j, sl) = (case push e (G, p, j, sl) of (G, p, j, sl) \<Rightarrow> (G\<lparr>rhs := b\<rparr>, p, j, sl))"
  by (auto simp: push_singleton_def split: prod.split)

definition range_slack :: "'f \<times> 'f \<Rightarrow> ('f :: linordered_idom) user_problem \<Rightarrow> char list \<Rightarrow> 'f vec \<Rightarrow> nat \<Rightarrow> 'f slack" where
  "range_slack uninit U rs b k =
     (let i = u_range_rows U ! k; (h, u) = range_bounds (rs ! i) (u_range_value U ! k) (b ! i) uninit
      in (i, -1, Fin h, Fin u))"

lemma range_loop:
  fixes U :: "('f :: linordered_idom) user_problem"
  assumes t: "t \<le> length (u_range_rows U)"
    and rows: "distinct (u_range_rows U)" "\<forall>i \<in> set (u_range_rows U). i < m"
    and len: "length rs = m" "length (rhs G) = m"
  shows "\<exists>e'. for_range 0 t (\<lambda>k (row_sense, less_rows, equal_rows, greater_rows, G, p, j, new_slacks).
       let i = u_range_rows U ! k; r = u_range_value U ! k; b = rhs G ! i; s = row_sense ! i;
           (h, u) = range_bounds s r b uninit;
           (less_rows, equal_rows, greater_rows) =
             (if s = CHR ''L'' then (less_rows - 1, equal_rows + 1, greater_rows)
              else if s = CHR ''G'' then (less_rows, equal_rows + 1, greater_rows - 1)
              else (less_rows, equal_rows, greater_rows));
           (G, p, j, new_slacks) = push_singleton i (-1) (Fin h) (Fin u) (G, p, j, new_slacks)
       in (row_sense[i := CHR ''E''], less_rows, equal_rows, greater_rows,
           G\<lparr>rhs := (rhs G)[i := 0]\<rparr>, p, j, new_slacks))
       (rs, count_at (CHR ''L'') rs m, e, count_at (CHR ''G'') rs m, G, p, j, sl)
   = (case fold push (map (range_slack uninit U rs (rhs G)) [0..<t]) (G, p, j, sl) of (G', p', j', sl') \<Rightarrow>
      (set_all (CHR ''E'') (take t (u_range_rows U)) rs,
       count_at (CHR ''L'') (set_all (CHR ''E'') (take t (u_range_rows U)) rs) m, e',
       count_at (CHR ''G'') (set_all (CHR ''E'') (take t (u_range_rows U)) rs) m,
       G'\<lparr>rhs := set_all 0 (take t (u_range_rows U)) (rhs G)\<rparr>, p', j', sl'))"
  using t
proof (induction t)
  case 0
  then show ?case by (simp add: set_all_def)
next
  case (Suc t)
  let ?R = "u_range_rows U" and ?body = "\<lambda>k (row_sense, less_rows, equal_rows, greater_rows, G, p, j, new_slacks).
       let i = u_range_rows U ! k; r = u_range_value U ! k; b = rhs G ! i; s = row_sense ! i;
           (h, u) = range_bounds s r b uninit;
           (less_rows, equal_rows, greater_rows) =
             (if s = CHR ''L'' then (less_rows - 1, equal_rows + 1, greater_rows)
              else if s = CHR ''G'' then (less_rows, equal_rows + 1, greater_rows - 1)
              else (less_rows, equal_rows, greater_rows));
           (G, p, j, new_slacks) = push_singleton i (-1) (Fin h) (Fin u) (G, p, j, new_slacks)
       in (row_sense[i := CHR ''E''], less_rows, equal_rows, greater_rows,
           G\<lparr>rhs := (rhs G)[i := 0]\<rparr>, p, j, new_slacks)"
  let ?i = "?R ! t" and ?rs = "set_all (CHR ''E'') (take t ?R) rs" and ?b = "set_all 0 (take t ?R) (rhs G)"
  let ?rs' = "set_all (CHR ''E'') (take (Suc t) ?R) rs"
  have tR: "t < length ?R" using Suc.prems by simp
  have "?i < m" using rows(2) nth_mem [OF tR] by blast
  moreover have "?i \<notin> set (take t ?R)"
    using rows(1) tR by (auto simp: in_set_conv_nth nth_eq_iff_index_eq)
  ultimately have i: "?i < m" "?i \<notin> set (take t ?R)" by simp_all
  have old: "?rs ! ?i = rs ! ?i" "?b ! ?i = rhs G ! ?i" using i len by (simp_all add: nth_set_all)
  have upd: "?rs[?i := CHR ''E''] = ?rs'" "?b[?i := 0] = set_all 0 (take (Suc t) ?R) (rhs G)"
    using tR by (simp_all add: set_all_snoc)
  obtain G' p' j' sl' where
    F: "fold push (map (range_slack uninit U rs (rhs G)) [0..<t]) (G, p, j, sl) = (G', p', j', sl')"
    by (rule prod_cases4)
  obtain e' where IH: "for_range 0 t ?body (rs, count_at (CHR ''L'') rs m, e, count_at (CHR ''G'') rs m, G, p, j, sl)
     = (?rs, count_at (CHR ''L'') ?rs m, e', count_at (CHR ''G'') ?rs m, G'\<lparr>rhs := ?b\<rparr>, p', j', sl')"
    using Suc.IH [OF Suc_leD [OF Suc.prems]] unfolding F prod.case by blast
  obtain h u where hu: "range_bounds (rs ! ?i) (u_range_value U ! t) (rhs G ! ?i) uninit = (h, u)"
    by (rule prod.exhaust)
  obtain G2 p2 j2 sl2 where P: "push_singleton ?i (-1) (Fin h) (Fin u) (G', p', j', sl') = (G2, p2, j2, sl2)"
    by (rule prod_cases4)
  have P': "push_singleton ?i (-1) (Fin h) (Fin u) (G'\<lparr>rhs := ?b\<rparr>, p', j', sl') = (G2\<lparr>rhs := ?b\<rparr>, p2, j2, sl2)"
    using push_rhs [of "(?i, -1, Fin h, Fin u)" ?b G' p' j' sl'] P by simp
  have slack: "range_slack uninit U rs (rhs G) t = (?i, -1, Fin h, Fin u)"
    using hu by (simp add: range_slack_def Let_def)
  note cL = count_at_update [of ?i m ?rs "CHR ''L''" "CHR ''E''", unfolded upd old]
  note cG = count_at_update [of ?i m ?rs "CHR ''G''" "CHR ''E''", unfolded upd old]
  have c: "count_at (CHR ''L'') ?rs' m = (if rs ! ?i = CHR ''L'' then count_at (CHR ''L'') ?rs m - 1 else count_at (CHR ''L'') ?rs m)"
    "count_at (CHR ''G'') ?rs' m = (if rs ! ?i = CHR ''G'' then count_at (CHR ''G'') ?rs m - 1 else count_at (CHR ''G'') ?rs m)"
    using cL cG i len by (auto split: if_splits)
  have "\<exists>e''. ?body t (?rs, count_at (CHR ''L'') ?rs m, e', count_at (CHR ''G'') ?rs m, G'\<lparr>rhs := ?b\<rparr>, p', j', sl')
     = (?rs', count_at (CHR ''L'') ?rs' m, e'', count_at (CHR ''G'') ?rs' m,
        G2\<lparr>rhs := set_all 0 (take (Suc t) ?R) (rhs G)\<rparr>, p2, j2, sl2)"
    using hu
    by (cases "rs ! ?i = CHR ''L''"; cases "rs ! ?i = CHR ''G''"; simp add: old P' upd c Let_def)
  then obtain e'' where step:
    "?body t (?rs, count_at (CHR ''L'') ?rs m, e', count_at (CHR ''G'') ?rs m, G'\<lparr>rhs := ?b\<rparr>, p', j', sl')
     = (?rs', count_at (CHR ''L'') ?rs' m, e'', count_at (CHR ''G'') ?rs' m,
        G2\<lparr>rhs := set_all 0 (take (Suc t) ?R) (rhs G)\<rparr>, p2, j2, sl2)" by blast
  have "fold push (map (range_slack uninit U rs (rhs G)) [0..<Suc t]) (G, p, j, sl) = (G2, p2, j2, sl2)"
    by (simp add: F slack P)
  then show ?case
    unfolding for_range_Suc [OF le0] IH step by auto
qed

lemma close_columns_rhs: "close_columns n p (G\<lparr>rhs := b\<rparr>) = (close_columns n p G)\<lparr>rhs := b\<rparr>"
  by (simp add: close_columns_def)

lemma convert_range_rows_eq:
  fixes uninit :: "('f :: linordered_idom) \<times> 'f"
  assumes wf: "lp_wf P" and rows: "distinct (u_range_rows U)" "\<forall>i \<in> set (u_range_rows U). i < num_rows P"
    and len: "length rs = num_rows P" "u_num_range_rows U = length (u_range_rows U)"
  defines "rs' \<equiv> set_all (CHR ''E'') (u_range_rows U) rs"
  defines "es \<equiv> map (range_slack uninit U rs (rhs P)) [0..<length (u_range_rows U)]"
  shows "\<exists>e'. convert_range_rows uninit U rs P (count_at (CHR ''L'') rs (num_rows P)) e
      (count_at (CHR ''G'') rs (num_rows P)) sl
    = (rs', (append_singletons es P)\<lparr>rhs := set_all 0 (u_range_rows U) (rhs P)\<rparr>,
       count_at (CHR ''L'') rs' (num_rows P), e', count_at (CHR ''G'') rs' (num_rows P),
       sl @ [num_cols P..<num_cols P + length es])"
proof -
  let ?k = "length (u_range_rows U)" and ?m = "num_rows P"
  have le: "length es = ?k" by (simp add: es_def)
  obtain G where G: "fold push es (grow_columns ?k P, col_start (lp_A (grow_columns ?k P)) ! num_cols P, num_cols P, sl)
      = (G, col_start (lp_A P) ! num_cols P + ?k, num_cols P + ?k, sl @ [num_cols P..<num_cols P + ?k])"
    "close_columns (num_cols P + ?k) (col_start (lp_A P) ! num_cols P + ?k) G = append_singletons es P"
    using append_loop [OF wf, of es sl] unfolding le by blast
  have r: "rhs (grow_columns ?k P) = rhs P" by (simp add: grow_columns_def Let_def)
  have lr: "length (rhs (grow_columns ?k P)) = ?m" using wf r by (simp add: lp_wf_def)
  from range_loop [OF order_refl rows len(1) lr, of uninit e "col_start (lp_A (grow_columns ?k P)) ! num_cols P"
      "num_cols P" sl, unfolded r es_def [symmetric] G(1) prod.case take_all [OF order_refl] rs'_def [symmetric]]
  show ?thesis
    unfolding convert_range_rows_def len(2) Let_def
    by (elim exE, intro exI) (simp only: prod.case close_columns_rhs G(2) le)
qed

lemma scale_range_loop:
  "for_range a b (\<lambda>p xs. xs[p := xs ! p * c]) xs ! p
   = (if a \<le> p \<and> p < b \<and> p < length xs then xs ! p * c else xs ! p)"
proof (cases "a \<le> b")
  case True
  let ?f = "for_range a b (\<lambda>p xs. xs[p := xs ! p * c]) xs"
  have "(\<forall>q. ?f ! q = (if a \<le> q \<and> q < b \<and> q < length xs then xs ! q * c else xs ! q)) \<and> length ?f = length xs"
  proof (rule for_range_inv [where P = "\<lambda>b ys. (\<forall>q. ys ! q = (if a \<le> q \<and> q < b \<and> q < length xs
      then xs ! q * c else xs ! q)) \<and> length ys = length xs"])
    fix i ys
    assume i: "a \<le> i" and P: "(\<forall>q. ys ! q = (if a \<le> q \<and> q < i \<and> q < length xs then xs ! q * c else xs ! q)) \<and>
      length ys = length xs"
    show "(\<forall>q. ys[i := ys ! i * c] ! q = (if a \<le> q \<and> q < Suc i \<and> q < length xs then xs ! q * c else xs ! q)) \<and>
      length (ys[i := ys ! i * c]) = length xs"
    proof (intro conjI allI)
      fix q
      show "ys[i := ys ! i * c] ! q = (if a \<le> q \<and> q < Suc i \<and> q < length xs then xs ! q * c else xs ! q)"
        using P i by (cases "q = i"; cases "i < length xs") (auto simp: less_Suc_eq list_update_beyond)
    qed (use P in simp)
  qed (use True in auto)
  then show ?thesis by blast
qed auto

lemma greater_loop:
  fixes b xs :: "('f :: linordered_idom) vec"
  assumes w: "lanes_wf m n start js xs" and rs: "length rs = m" and b: "length b = m" and t: "t \<le> m"
  shows "\<exists>xs'. for_range 0 t (\<lambda>i (xs, r, row_sense, greater_rows, less_rows).
       if row_sense ! i = CHR ''G''
       then (for_range (start ! i) (start ! Suc i) (\<lambda>p xs. xs[p := xs ! p * -1]) xs,
             r[i := r ! i * -1], row_sense[i := CHR ''L''], greater_rows - 1, less_rows + 1)
       else (xs, r, row_sense, greater_rows, less_rows)) (xs, b, rs, g, l)
     = (xs', map (\<lambda>i. if i < t \<and> rs ! i = CHR ''G'' then - (b ! i) else b ! i) [0..<m],
        map (\<lambda>i. if i < t \<and> rs ! i = CHR ''G'' then CHR ''L'' else rs ! i) [0..<m],
        g - count_at (CHR ''G'') rs t, l + count_at (CHR ''G'') rs t) \<and>
     length xs' = length xs \<and> (\<forall>p\<ge>start ! t. xs' ! p = xs ! p) \<and>
     (\<forall>i<t. lane start js xs' i = (if rs ! i = CHR ''G'' then scaled (-1) (lane start js xs i) else lane start js xs i))"
  using t
proof (induction t)
  case 0
  then show ?case using rs b map_nth [of rs] map_nth [of b] by simp
next
  case (Suc t)
  let ?b = "\<lambda>t. map (\<lambda>i. if i < t \<and> rs ! i = CHR ''G'' then - (b ! i) else b ! i) [0..<m]"
  let ?rs = "\<lambda>t. map (\<lambda>i. if i < t \<and> rs ! i = CHR ''G'' then CHR ''L'' else rs ! i) [0..<m]"
  obtain xs' where IH: "for_range 0 t (\<lambda>i (xs, r, row_sense, greater_rows, less_rows).
       if row_sense ! i = CHR ''G''
       then (for_range (start ! i) (start ! Suc i) (\<lambda>p xs. xs[p := xs ! p * -1]) xs,
             r[i := r ! i * -1], row_sense[i := CHR ''L''], greater_rows - 1, less_rows + 1)
       else (xs, r, row_sense, greater_rows, less_rows)) (xs, b, rs, g, l)
     = (xs', ?b t, ?rs t, g - count_at (CHR ''G'') rs t, l + count_at (CHR ''G'') rs t)"
    "length xs' = length xs" "\<forall>p\<ge>start ! t. xs' ! p = xs ! p"
    "\<forall>i<t. lane start js xs' i = (if rs ! i = CHR ''G'' then scaled (-1) (lane start js xs i) else lane start js xs i)"
    using Suc by auto
  have tm: "t < m" and mono: "start ! t \<le> start ! Suc t" "start ! Suc t \<le> start ! m"
    using Suc.prems lanes_wf_start [OF w] by simp_all
  have lx: "start ! m \<le> length xs" using w by (simp add: lanes_wf_def)
  have sense: "?rs t ! t = rs ! t" using tm by simp
  show ?case
  proof (cases "rs ! t = CHR ''G''")
    case True
    let ?xs = "for_range (start ! t) (start ! Suc t) (\<lambda>p xs. xs[p := xs ! p * -1]) xs'"
    have upd: "(?b t)[t := (?b t) ! t * -1] = ?b (Suc t)" "(?rs t)[t := CHR ''L''] = ?rs (Suc t)"
      using tm True by (auto simp: nth_list_update less_Suc_eq intro!: nth_equalityI)
    have nth: "?xs ! p = (if start ! t \<le> p \<and> p < start ! Suc t then - (xs ! p) else xs' ! p)" for p
      using scale_range_loop [of "start ! t" "start ! Suc t" "-1" xs' p] IH(2,3) mono lx by auto
    have "length ?xs = length xs" using IH(2) by simp
    moreover have "\<forall>p\<ge>start ! Suc t. ?xs ! p = xs ! p" using nth IH(3) mono by auto
    moreover have "lane start js ?xs i = (if rs ! i = CHR ''G'' then scaled (-1) (lane start js xs i) else lane start js xs i)"
      if i: "i < Suc t" for i
    proof (cases "i = t")
      case True
      have "lane start js ?xs t = scaled (-1) (lane start js xs t)"
        unfolding lane_def using nth by (simp add: comp_def)
      then show ?thesis using \<open>rs ! t = CHR ''G''\<close> \<open>i = t\<close> by simp
    next
      case False
      then have "start ! Suc i \<le> start ! t" using lanes_wf_start [OF w] i tm by simp
      then have "?xs ! p = xs' ! p" if "p < start ! Suc i" for p using nth [of p] that by simp
      then have "lane start js ?xs i = lane start js xs' i" by (intro lane_cong conjI refl)
      then show ?thesis using IH(4) i False by simp
    qed
    ultimately show ?thesis
      using IH(1) sense True upd by (simp add: Let_def)
  next
    case False
    have upd: "?b t = ?b (Suc t)" "?rs t = ?rs (Suc t)" using False by (auto simp: less_Suc_eq)
    have "lane start js xs' i = (if rs ! i = CHR ''G'' then scaled (-1) (lane start js xs i) else lane start js xs i)"
      if i: "i < Suc t" for i
    proof (cases "i = t")
      case True
      then have "lane start js xs' i = lane start js xs i" using IH(3) by (intro lane_cong) auto
      then show ?thesis using False True by simp
    qed (use IH(4) i in simp)
    then show ?thesis
      using IH(1-3) sense False mono upd by (auto simp: less_Suc_eq)
  qed
qed

definition flip_sense :: "char list \<Rightarrow> char list" where
  "flip_sense rs = map (\<lambda>c. if c = CHR ''G'' then CHR ''L'' else c) rs"

lemma length_flip_sense [simp]: "length (flip_sense rs) = length rs"
  by (simp add: flip_sense_def)

lemma nth_flip_sense [simp]: "i < length rs \<Longrightarrow> flip_sense rs ! i = (if rs ! i = CHR ''G'' then CHR ''L'' else rs ! i)"
  by (simp add: flip_sense_def)

lemma count_flip_sense:
  "m \<le> length rs \<Longrightarrow> count_at (CHR ''L'') (flip_sense rs) m = count_at (CHR ''L'') rs m + count_at (CHR ''G'') rs m"
  by (induction m) auto

text \<open>A column after the round trip through the row format, each entry changed by a function of its row.\<close>

definition resort_column :: "(idx \<Rightarrow> 'f \<Rightarrow> 'f) \<Rightarrow> nat \<Rightarrow> (idx \<times> 'f) list \<Rightarrow> (idx \<times> 'f) list" where
  "resort_column g m l =
     concat (map (\<lambda>r. map (\<lambda>v. (r, g r v)) (map snd (filter (\<lambda>e. fst e = r) l))) [0..<m])"

lemma resort_singleton: "i < m \<Longrightarrow> resort_column g m [(i, v)] = [(i, g i v)]"
proof -
  have "concat (map (\<lambda>r. map (\<lambda>v. (r, g r v)) (map snd (filter (\<lambda>e. fst e = r) [(i, v)]))) [0..<m])
      = (if i < m then [(i, g i v)] else [])"
    by (induction m) (auto simp: less_Suc_eq)
  then show "i < m \<Longrightarrow> resort_column g m [(i, v)] = [(i, g i v)]" by (simp add: resort_column_def)
qed

lemma convert_greater_to_less_eq:
  assumes wf: "lp_wf P" and rs: "length rs = num_rows P"
  shows "\<exists>A. convert_greater_to_less rs P (count_at (CHR ''G'') rs (num_rows P)) l =
      (flip_sense rs, P\<lparr>rhs := map (\<lambda>i. if rs ! i = CHR ''G'' then - (rhs P ! i) else rhs P ! i) [0..<num_rows P], lp_A := A\<rparr>,
       0, l + count_at (CHR ''G'') rs (num_rows P)) \<and>
    csc_wf A \<and> csc_m A = num_rows P \<and> csc_n A = num_cols P \<and>
    (\<forall>c<num_cols P. csc_col A c = resort_column (\<lambda>r v. if rs ! r = CHR ''G'' then - v else v) (num_rows P) (csc_col (lp_A P) c)) \<and>
    (\<forall>r<num_rows P. \<forall>c<num_cols P.
       csc_dense A r c = (if rs ! r = CHR ''G'' then - csc_dense (lp_A P) r c else csc_dense (lp_A P) r c))"
proof -
  let ?A = "lp_A P" and ?m = "num_rows P" and ?n = "num_cols P"
  let ?R = "to_compressed_row ?A csr_new"
  have A: "csc_wf ?A" "csc_m ?A = ?m" "csc_n ?A = ?n" "length (rhs P) = ?m"
    using wf by (auto simp: lp_wf_def)
  have R: "csr_wf ?R" "csr_m ?R = ?m" "csr_n ?R = ?n" using csc_csr.conv_wf [OF A(1)] A by simp_all
  have w: "lanes_wf ?m ?n (row_start ?R) (csr_j ?R) (csr_x ?R)" using R by (simp add: csr_wf_def)
  obtain xs' where loop: "for_range 0 ?m (\<lambda>i (xs, r, row_sense, greater_rows, less_rows).
       if row_sense ! i = CHR ''G''
       then (for_range (row_start ?R ! i) (row_start ?R ! Suc i) (\<lambda>p xs. xs[p := xs ! p * -1]) xs,
             r[i := r ! i * -1], row_sense[i := CHR ''L''], greater_rows - 1, less_rows + 1)
       else (xs, r, row_sense, greater_rows, less_rows))
       (csr_x ?R, rhs P, rs, count_at (CHR ''G'') rs ?m, l)
     = (xs', map (\<lambda>i. if i < ?m \<and> rs ! i = CHR ''G'' then - (rhs P ! i) else rhs P ! i) [0..<?m],
        map (\<lambda>i. if i < ?m \<and> rs ! i = CHR ''G'' then CHR ''L'' else rs ! i) [0..<?m],
        count_at (CHR ''G'') rs ?m - count_at (CHR ''G'') rs ?m, l + count_at (CHR ''G'') rs ?m)"
    and xs': "length xs' = length (csr_x ?R)"
      "\<forall>i<?m. lane (row_start ?R) (csr_j ?R) xs' i =
        (if rs ! i = CHR ''G'' then scaled (-1) (csr_row ?R i) else csr_row ?R i)"
    using greater_loop [OF w rs A(4) order_refl, of "count_at (CHR ''G'') rs ?m" l] by blast
  let ?R' = "?R\<lparr>csr_x := xs'\<rparr>"
  let ?A' = "to_compressed_col ?R' ?A"
  have R': "csr_wf ?R'" using R(1) xs'(1) by (simp add: csr_wf_def lanes_wf_def)
  have dense: "csc_dense ?A' r c = (if rs ! r = CHR ''G'' then - csc_dense ?A r c else csc_dense ?A r c)"
    if rc: "r < ?m" "c < ?n" for r c
  proof -
    have "csc_dense ?A' r c = lane_sum (csr_row ?R' r) c"
      using csr_csc.conv_sum [OF R', of c r ?A] rc R by (simp add: csc_dense_def)
    also have "\<dots> = (if rs ! r = CHR ''G'' then - lane_sum (csr_row ?R r) c else lane_sum (csr_row ?R r) c)"
      using xs'(2) rc(1) lane_sum_scale [of "-1" "csr_row ?R r" c] by (cases "rs ! r = CHR ''G''") simp_all
    also have "lane_sum (csr_row ?R r) c = csc_dense ?A r c"
      using csc_csr.conv_sum [OF A(1), of r c csr_new] rc A by (simp add: csc_dense_def)
    finally show ?thesis .
  qed
  have col: "csc_col ?A' c = resort_column (\<lambda>r v. if rs ! r = CHR ''G'' then - v else v) ?m (csc_col ?A c)"
    if c: "c < ?n" for c
  proof -
    have "csc_col ?A' c = concat (map (\<lambda>r. map (\<lambda>v. (r, v)) (map snd (filter (\<lambda>e. fst e = c) (csr_row ?R' r)))) [0..<?m])"
      using csr_csc.conv_lane_concat [OF R', of c ?A] c R by (simp add: comp_def)
    also have "\<dots> = concat (map (\<lambda>r. map (\<lambda>v. (r, if rs ! r = CHR ''G'' then - v else v))
        (map snd (filter (\<lambda>e. fst e = c) (csr_row ?R r)))) [0..<?m])"
    proof -
      have "map (\<lambda>v. (r, v)) (map snd (filter (\<lambda>e. fst e = c) (csr_row ?R' r)))
          = map (\<lambda>v. (r, if rs ! r = CHR ''G'' then - v else v)) (map snd (filter (\<lambda>e. fst e = c) (csr_row ?R r)))"
        if "r \<in> set [0..<?m]" for r
      proof -
        have "csr_row ?R' r = (if rs ! r = CHR ''G'' then scaled (-1) (csr_row ?R r) else csr_row ?R r)"
          using xs'(2) that by simp
        then show ?thesis
          by (cases "rs ! r = CHR ''G''") (simp_all add: filter_map comp_def split_def)
      qed
      then show ?thesis by (intro arg_cong [where f = concat] map_cong [OF refl])
    qed
    also have "\<dots> = resort_column (\<lambda>r v. if rs ! r = CHR ''G'' then - v else v) ?m (csc_col ?A c)"
    proof -
      have "map snd (filter (\<lambda>e. fst e = c) (csr_row ?R r)) = map snd (filter (\<lambda>e. fst e = r) (csc_col ?A c))"
        if "r \<in> set [0..<?m]" for r
        using csc_csr.conv_lane [OF A(1), of _ csr_new] A that filter_bucket_lane_entries [OF c, of "csc_col ?A"]
        by simp
      then show ?thesis
        unfolding resort_column_def by (intro arg_cong [where f = concat] map_cong [OF refl]) (simp only:)
    qed
    finally show ?thesis .
  qed
  have "map (\<lambda>i. if i < ?m \<and> rs ! i = CHR ''G'' then CHR ''L'' else rs ! i) [0..<?m] = flip_sense rs"
    using rs by (auto intro!: nth_equalityI)
  moreover have "map (\<lambda>i. if i < ?m \<and> rs ! i = CHR ''G'' then - (rhs P ! i) else rhs P ! i) [0..<?m]
      = map (\<lambda>i. if rs ! i = CHR ''G'' then - (rhs P ! i) else rhs P ! i) [0..<?m]" by simp
  ultimately have "convert_greater_to_less rs P (count_at (CHR ''G'') rs ?m) l =
      (flip_sense rs, P\<lparr>rhs := map (\<lambda>i. if rs ! i = CHR ''G'' then - (rhs P ! i) else rhs P ! i) [0..<?m], lp_A := ?A'\<rparr>,
       0, l + count_at (CHR ''G'') rs ?m)"
    unfolding convert_greater_to_less_def Let_def loop by simp
  moreover have "csc_wf ?A'" "csc_m ?A' = ?m" "csc_n ?A' = ?n"
    using csr_csc.conv_wf [OF R'] R by simp_all
  ultimately show ?thesis using dense col by blast
qed

subsection \<open>The converted problem\<close>

definition user_wf :: "'f user_problem \<Rightarrow> bool" where
  "user_wf U \<longleftrightarrow> csc_wf (u_A U) \<and> csc_m (u_A U) = u_num_rows U \<and> csc_n (u_A U) = u_num_cols U \<and>
     length (u_rhs U) = u_num_rows U \<and> length (u_row_sense U) = u_num_rows U \<and>
     length (u_objective U) = u_num_cols U \<and> length (u_lower U) = u_num_cols U \<and>
     length (u_upper U) = u_num_cols U \<and> u_num_range_rows U = length (u_range_rows U) \<and>
     distinct (u_range_rows U) \<and> (\<forall>i \<in> set (u_range_rows U). i < u_num_rows U \<and>
       u_row_sense U ! i \<in> {CHR ''L'', CHR ''G'', CHR ''E''})"

definition conv_shape :: "('f :: linordered_idom) user_problem \<Rightarrow> (idx \<Rightarrow> idx \<Rightarrow> 'f) \<Rightarrow> 'f vec \<Rightarrow> 'f slack list \<Rightarrow> 'f lp_problem \<Rightarrow> bool" where
  "conv_shape U D b es P \<longleftrightarrow> lp_wf P \<and> num_rows P = u_num_rows U \<and> num_cols P = u_num_cols U + length es \<and>
     (\<forall>r<u_num_rows U. \<forall>c<u_num_cols U. csc_dense (lp_A P) r c = D r c) \<and>
     (\<forall>t<length es. csc_col (lp_A P) (u_num_cols U + t) = [(fst (es ! t), fst (snd (es ! t)))]) \<and>
     rhs P = b \<and> lower P = u_lower U @ map (\<lambda>(i, v, l, u). l) es \<and>
     upper P = u_upper U @ map (\<lambda>(i, v, l, u). u) es \<and> objective P = u_objective U @ map (\<lambda>_. 0) es \<and>
     obj_constant P = u_obj_constant U \<and> obj_scale P = u_obj_scale U"

lemma conv_shape_append:
  assumes S: "conv_shape U D b es P" and es': "\<forall>e \<in> set es'. fst e < u_num_rows U"
  shows "conv_shape U D b (es @ es') (append_singletons es' P)"
proof -
  let ?n = "u_num_cols U"
  have wf: "lp_wf P" and n: "num_cols P = ?n + length es" using S by (simp_all add: conv_shape_def)
  have "csc_col (lp_A (append_singletons es' P)) (?n + t) = [(fst ((es @ es') ! t), fst (snd ((es @ es') ! t)))]"
    if "t < length (es @ es')" for t
  proof (cases "t < length es")
    case True
    then show ?thesis
      using append_singletons_col(1) [OF wf, of "?n + t"] S that n by (simp add: conv_shape_def nth_append)
  next
    case False
    then show ?thesis
      using append_singletons_col(2) [OF wf, of "t - length es" es'] that n by (simp add: nth_append)
  qed
  moreover have "csc_dense (lp_A (append_singletons es' P)) r c = D r c"
    if "r < u_num_rows U" "c < ?n" for r c
    using append_singletons_dense(1) [OF wf, of c] S that n by (simp add: conv_shape_def)
  moreover have "lp_wf (append_singletons es' P)"
    using append_singletons_wf [OF wf] es' S by (simp add: conv_shape_def)
  ultimately show ?thesis using S by (simp add: conv_shape_def)
qed

lemma count_senses:
  "for_range 0 m (\<lambda>i (g, l, e, es). if rs ! i = CHR ''G'' then (g + 1, l, e, es)
     else if rs ! i = CHR ''L'' then (g, l + 1, e, es) else (g, l, e + 1, es @ [i])) (0, 0, 0 :: nat, [])
   = (count_at (CHR ''G'') rs m, count_at (CHR ''L'') rs m,
      length (filter (\<lambda>i. rs ! i \<notin> {CHR ''G'', CHR ''L''}) [0..<m]),
      filter (\<lambda>i. rs ! i \<notin> {CHR ''G'', CHR ''L''}) [0..<m])"
  by (induction m) auto

text \<open>What a row of the user problem becomes.\<close>

definition in_range :: "'f user_problem \<Rightarrow> idx \<Rightarrow> bool" where
  "in_range U r \<longleftrightarrow> r \<in> set (u_range_rows U)"

definition flipped :: "'f user_problem \<Rightarrow> idx \<Rightarrow> bool" where
  "flipped U r \<longleftrightarrow> \<not> in_range U r \<and> u_row_sense U ! r = CHR ''G''"

definition conv_rhs :: "('f :: linordered_idom) user_problem \<Rightarrow> idx \<Rightarrow> 'f" where
  "conv_rhs U r = (if in_range U r then 0 else if flipped U r then - (u_rhs U ! r) else u_rhs U ! r)"

definition inequality_rows :: "'f user_problem \<Rightarrow> idx list" where
  "inequality_rows U = filter (\<lambda>r. \<not> in_range U r \<and> u_row_sense U ! r \<in> {CHR ''G'', CHR ''L''}) [0..<u_num_rows U]"

definition equality_rows :: "'f user_problem \<Rightarrow> idx list" where
  "equality_rows U = filter (\<lambda>r. u_row_sense U ! r \<notin> {CHR ''G'', CHR ''L''}) [0..<u_num_rows U]"

definition slack_list :: "'f \<times> 'f \<Rightarrow> ('f :: linordered_idom) user_problem \<Rightarrow> 'f slack list" where
  "slack_list uninit U =
     map (range_slack uninit U (u_row_sense U) (u_rhs U)) [0..<length (u_range_rows U)] @
     map (\<lambda>r. (r, 1, 0, PInf)) (inequality_rows U) @ map (\<lambda>r. (r, 1, 0, 0)) (equality_rows U)"

lemma convert_user_problem_shape:
  assumes U: "user_wf U"
  shows "conv_shape U (\<lambda>r c. if flipped U r then - csc_dense (u_A U) r c else csc_dense (u_A U) r c)
      (map (conv_rhs U) [0..<u_num_rows U]) (slack_list uninit U) (fst (convert_user_problem uninit U P sl))"
    and "snd (convert_user_problem uninit U P sl)
      = sl @ [u_num_cols U..<u_num_cols U + length (slack_list uninit U)]"
proof -
  let ?m = "u_num_rows U" and ?n = "u_num_cols U" and ?rs = "u_row_sense U" and ?R = "u_range_rows U"
  let ?D = "csc_dense (u_A U)"
  let ?P = "P\<lparr>num_rows := ?m, num_cols := ?n, lp_A := u_A U, objective := u_objective U,
      obj_scale := u_obj_scale U, obj_constant := u_obj_constant U, rhs := u_rhs U, lower := u_lower U, upper := u_upper U\<rparr>"
  let ?L = "CHR ''L''" and ?G = "CHR ''G''"
  let ?rs1 = "set_all (CHR ''E'') ?R ?rs"
  let ?es1 = "map (range_slack uninit U ?rs (u_rhs U)) [0..<length ?R]"
  let ?b1 = "set_all 0 ?R (u_rhs U)"
  have lens: "length ?rs = ?m" "length (u_rhs U) = ?m" "u_num_range_rows U = length ?R" "distinct ?R"
    "\<forall>i \<in> set ?R. i < ?m" using U by (simp_all add: user_wf_def)
  have S0: "conv_shape U ?D (u_rhs U) [] ?P"
    using U by (auto simp: conv_shape_def lp_wf_def user_wf_def)
  have "\<exists>P1 e1. (if u_num_range_rows U > 0
       then convert_range_rows uninit U ?rs ?P (count_at ?L ?rs ?m) e (count_at ?G ?rs ?m) sl
       else (?rs, ?P, count_at ?L ?rs ?m, e, count_at ?G ?rs ?m, sl))
     = (?rs1, P1, count_at ?L ?rs1 ?m, e1, count_at ?G ?rs1 ?m, sl @ [?n..<?n + length ?es1])
     \<and> conv_shape U ?D ?b1 ?es1 P1" for e
  proof (cases "u_num_range_rows U > 0")
    case True
    let ?P1 = "(append_singletons ?es1 ?P)\<lparr>rhs := ?b1\<rparr>"
    have "conv_shape U ?D (u_rhs U) ([] @ ?es1) (append_singletons ?es1 ?P)"
      by (rule conv_shape_append [OF S0]) (use lens(5) in \<open>auto simp: range_slack_def Let_def split: prod.split\<close>)
    then have S: "conv_shape U ?D ?b1 ?es1 ?P1"
      using lens(2) by (simp add: conv_shape_def lp_wf_def)
    have "lp_wf ?P" using S0 by (simp add: conv_shape_def)
    from convert_range_rows_eq [OF this, of U ?rs uninit e sl] lens
    have "\<exists>e1. convert_range_rows uninit U ?rs ?P (count_at ?L ?rs ?m) e (count_at ?G ?rs ?m) sl
      = (?rs1, ?P1, count_at ?L ?rs1 ?m, e1, count_at ?G ?rs1 ?m, sl @ [?n..<?n + length ?es1])" by simp
    then show ?thesis
      unfolding if_P [OF True] using S by blast
  next
    case False
    then show ?thesis using lens(3) S0 by (simp add: set_all_def)
  qed
  note step1 = this
  have es1: "\<forall>t<length ?es1. fst (?es1 ! t) \<in> set ?R"
    by (auto simp: range_slack_def Let_def split: prod.split)
  have sense1: "?rs1 ! r = (if in_range U r then CHR ''E'' else ?rs ! r)" if "r < ?m" for r
    using nth_set_all [of r ?rs] that lens(1) by (simp add: in_range_def)
  have fl: "?rs1 ! r = ?G \<longleftrightarrow> flipped U r" if "r < ?m" for r
    using sense1 [OF that] by (simp add: flipped_def)
  let ?D2 = "\<lambda>r c. if flipped U r then - ?D r c else ?D r c" and ?b2 = "map (conv_rhs U) [0..<?m]"
  have b1: "?b1 ! r = (if in_range U r then 0 else u_rhs U ! r)" if "r < ?m" for r
    using nth_set_all [of r "u_rhs U"] that lens(2) by (simp add: in_range_def)
  have step2: "\<exists>P2. (if count_at ?G ?rs1 ?m > 0 then convert_greater_to_less ?rs1 P1 (count_at ?G ?rs1 ?m) (count_at ?L ?rs1 ?m)
       else (?rs1, P1, count_at ?G ?rs1 ?m, count_at ?L ?rs1 ?m))
     = (flip_sense ?rs1, P2, 0, count_at ?L (flip_sense ?rs1) ?m) \<and> conv_shape U ?D2 ?b2 ?es1 P2"
    if S1: "conv_shape U ?D ?b1 ?es1 P1" for P1
  proof (cases "count_at ?G ?rs1 ?m > 0")
    case True
    have P1: "lp_wf P1" "num_rows P1 = ?m" "num_cols P1 = ?n + length ?es1" "rhs P1 = ?b1"
      using S1 by (simp_all add: conv_shape_def)
    obtain A where A: "convert_greater_to_less ?rs1 P1 (count_at ?G ?rs1 ?m) (count_at ?L ?rs1 ?m) =
      (flip_sense ?rs1, P1\<lparr>rhs := map (\<lambda>i. if ?rs1 ! i = ?G then - (?b1 ! i) else ?b1 ! i) [0..<?m], lp_A := A\<rparr>,
       0, count_at ?L ?rs1 ?m + count_at ?G ?rs1 ?m)" "csc_wf A" "csc_m A = ?m" "csc_n A = num_cols P1"
      "\<forall>c<num_cols P1. csc_col A c = resort_column (\<lambda>r v. if ?rs1 ! r = ?G then - v else v) ?m (csc_col (lp_A P1) c)"
      "\<forall>r<?m. \<forall>c<num_cols P1. csc_dense A r c = (if ?rs1 ! r = ?G then - csc_dense (lp_A P1) r c else csc_dense (lp_A P1) r c)"
      using convert_greater_to_less_eq [OF P1(1), of ?rs1 "count_at ?L ?rs1 ?m", unfolded P1(2,4)] lens(1)
      unfolding length_set_all by blast
    have b: "map (\<lambda>i. if ?rs1 ! i = ?G then - (?b1 ! i) else ?b1 ! i) [0..<?m] = ?b2"
      using fl b1 by (auto simp: conv_rhs_def flipped_def)
    have "conv_shape U ?D2 ?b2 ?es1 (P1\<lparr>rhs := ?b2, lp_A := A\<rparr>)"
    proof -
      have "csc_col A (?n + t) = [(fst (?es1 ! t), fst (snd (?es1 ! t)))]" if t: "t < length ?es1" for t
      proof -
        let ?r = "fst (?es1 ! t)"
        have r: "in_range U ?r" "?r < ?m" using es1 t lens(5) by (auto simp: in_range_def)
        have c1: "csc_col (lp_A P1) (?n + t) = [(?r, fst (snd (?es1 ! t)))]"
          using S1 t unfolding conv_shape_def by blast
        have "?n + t < num_cols P1" using t P1(3) by simp
        note A(5) [THEN spec, THEN mp, OF this, unfolded c1]
        moreover have "?rs1 ! ?r \<noteq> ?G" using fl [OF r(2)] r(1) unfolding flipped_def by blast
        ultimately show ?thesis unfolding resort_singleton [OF r(2)] by (simp only: if_False)
      qed
      moreover have "csc_dense A r c = ?D2 r c" if "r < ?m" "c < ?n" for r c
        using A(6) fl [OF that(1)] S1 that P1(3) by (simp add: conv_shape_def)
      ultimately show ?thesis using S1 A(2-4) P1 by (simp add: conv_shape_def lp_wf_def)
    qed
    then show ?thesis
      using True A(1) b count_flip_sense [of ?m ?rs1] lens(1) by simp
  next
    case False
    then have none: "\<not> flipped U r" if "r < ?m" for r using fl [OF that] count_at_pos [of r ?m ?rs1 ?G] that by auto
    have "flip_sense ?rs1 = ?rs1" using none fl lens(1) by (auto intro!: nth_equalityI)
    moreover have "?b2 = ?b1" using none b1 lens(2) by (auto simp: conv_rhs_def intro!: nth_equalityI)
    ultimately show ?thesis using False S1 none by (simp add: conv_shape_def)
  qed
  have ineq: "filter (\<lambda>i. flip_sense ?rs1 ! i = ?L) [0..<?m] = inequality_rows U"
    using sense1 lens(1) by (auto simp: inequality_rows_def intro!: filter_cong split: if_splits)
  let ?es2 = "map (\<lambda>r. (r, 1, 0, PInf)) (inequality_rows U) :: 'a slack list"
  have es2: "less_slacks (flip_sense ?rs1) ?m = ?es2" by (simp add: less_slacks_def ineq)
  have n2: "count_at ?L (flip_sense ?rs1) ?m = length ?es2" by (simp add: count_at_def ineq)
  have step3: "\<exists>rs3 P3. (if length ?es2 > 0 then convert_less_than_to_equal (flip_sense ?rs1) P2 (length ?es2) sl2
       else (flip_sense ?rs1, P2, length ?es2, sl2))
     = (rs3, P3, 0, sl2 @ [?n + length ?es1..<?n + length (?es1 @ ?es2)]) \<and> conv_shape U ?D2 ?b2 (?es1 @ ?es2) P3"
    if S2: "conv_shape U ?D2 ?b2 ?es1 P2" for P2 sl2
  proof (cases "length ?es2 > 0")
    case True
    have P2: "lp_wf P2" "num_rows P2 = ?m" "num_cols P2 = ?n + length ?es1"
      using S2 by (simp_all add: conv_shape_def)
    have "conv_shape U ?D2 ?b2 (?es1 @ ?es2) (append_singletons ?es2 P2)"
      by (rule conv_shape_append [OF S2]) (auto simp: inequality_rows_def)
    then show ?thesis
      using convert_less_than_to_equal_eq [OF P2(1), of "flip_sense ?rs1" "length ?es2" sl2] P2 es2 n2 True lens(1)
      by (auto simp: add.assoc)
  next
    case False
    then show ?thesis using S2 by simp
  qed
  obtain P1 e1 where s1: "(if u_num_range_rows U > 0
       then convert_range_rows uninit U ?rs ?P (count_at ?L ?rs ?m)
         (length (filter (\<lambda>i. ?rs ! i \<notin> {?G, ?L}) [0..<?m])) (count_at ?G ?rs ?m) sl
       else (?rs, ?P, count_at ?L ?rs ?m, length (filter (\<lambda>i. ?rs ! i \<notin> {?G, ?L}) [0..<?m]), count_at ?G ?rs ?m, sl))
     = (?rs1, P1, count_at ?L ?rs1 ?m, e1, count_at ?G ?rs1 ?m, sl @ [?n..<?n + length ?es1])"
    "conv_shape U ?D ?b1 ?es1 P1" using step1 by blast
  obtain P2 where s2: "(if count_at ?G ?rs1 ?m > 0 then convert_greater_to_less ?rs1 P1 (count_at ?G ?rs1 ?m) (count_at ?L ?rs1 ?m)
       else (?rs1, P1, count_at ?G ?rs1 ?m, count_at ?L ?rs1 ?m))
     = (flip_sense ?rs1, P2, 0, length ?es2)" "conv_shape U ?D2 ?b2 ?es1 P2"
    using step2 [OF s1(2)] unfolding n2 by blast
  obtain rs3 P3 where s3: "(if length ?es2 > 0 then convert_less_than_to_equal (flip_sense ?rs1) P2 (length ?es2)
         (sl @ [?n..<?n + length ?es1])
       else (flip_sense ?rs1, P2, length ?es2, sl @ [?n..<?n + length ?es1]))
     = (rs3, P3, 0, (sl @ [?n..<?n + length ?es1]) @ [?n + length ?es1..<?n + length (?es1 @ ?es2)])"
    "conv_shape U ?D2 ?b2 (?es1 @ ?es2) P3" using step3 [OF s2(2)] by blast
  let ?es3 = "map (\<lambda>i. (i, 1, 0, 0)) (equality_rows U) :: 'a slack list"
  have P3: "lp_wf P3" "num_cols P3 = ?n + length (?es1 @ ?es2)" using s3(2) by (simp_all add: conv_shape_def)
  have C: "convert_user_problem uninit U P sl =
      add_artifical_variables P3 (equality_rows U)
        ((sl @ [?n..<?n + length ?es1]) @ [?n + length ?es1..<?n + length (?es1 @ ?es2)])"
    unfolding convert_user_problem_def Let_def count_senses prod.case s1(1) s2(1) s3(1) equality_rows_def ..
  have "conv_shape U ?D2 ?b2 ((?es1 @ ?es2) @ ?es3) (append_singletons ?es3 P3)"
    by (rule conv_shape_append [OF s3(2)]) (auto simp: equality_rows_def)
  then show "conv_shape U ?D2 ?b2 (slack_list uninit U) (fst (convert_user_problem uninit U P sl))"
    unfolding C add_artifical_variables_eq [OF P3(1)] fst_conv slack_list_def append_assoc .
  show "snd (convert_user_problem uninit U P sl) = sl @ [?n..<?n + length (slack_list uninit U)]"
    unfolding C add_artifical_variables_eq [OF P3(1)] snd_conv P3(2) slack_list_def
    by (simp add: add.assoc [symmetric] upt_add_eq_append [symmetric])
qed

end
