(* ===== verification/Lp_Reduction.thy ===== *)
theory Lp_Reduction
  imports Ext_Float
begin

text \<open>
  The contract that the stages of the dual simplex solver share: each turns a problem into another one,
  with a record from which a solution of the new problem is carried back. The conversion of the
  user problem, presolve and column scaling are interpretations; \<open>lp_reduction_chain\<close> composes two
  stages. Problems, points and records are type variables, an objective value may be infinite or NaN.
\<close>

definition optimal_by :: "('x \<Rightarrow> bool) \<Rightarrow> ('x \<Rightarrow> ('f :: linorder) ext) \<Rightarrow> 'x \<Rightarrow> bool" where
  "optimal_by feas val x \<longleftrightarrow> feas x \<and> (\<forall>y. feas y \<longrightarrow> val x \<le> val y)"

definition unbounded_by :: "('x \<Rightarrow> bool) \<Rightarrow> ('x \<Rightarrow> ('f :: linorder) ext) \<Rightarrow> bool" where
  "unbounded_by feas val \<longleftrightarrow> (\<forall>v. \<exists>x. feas x \<and> val x \<le> Fin v)"

locale lp_reduction =
  fixes ok :: "'p \<Rightarrow> 'q \<Rightarrow> 'r \<Rightarrow> bool"
    and feasible :: "'p \<Rightarrow> 'x \<Rightarrow> bool" and objval :: "'p \<Rightarrow> 'x \<Rightarrow> ('f :: linorder) ext"
    and feasible' :: "'q \<Rightarrow> 'y \<Rightarrow> bool" and objval' :: "'q \<Rightarrow> 'y \<Rightarrow> 'f ext"
    and restore :: "'r \<Rightarrow> 'y \<Rightarrow> 'x"
  assumes restore_feasible: "ok P Q r \<Longrightarrow> feasible' Q y \<Longrightarrow> feasible P (restore r y)"
    and restore_value: "ok P Q r \<Longrightarrow> feasible' Q y \<Longrightarrow> objval P (restore r y) = objval' Q y"
    and as_cheap: "ok P Q r \<Longrightarrow> feasible P x \<Longrightarrow> \<exists>y. feasible' Q y \<and> objval' Q y \<le> objval P x"
begin

lemma feasible_iff: "ok P Q r \<Longrightarrow> (\<exists>x. feasible P x) \<longleftrightarrow> (\<exists>y. feasible' Q y)"
  using restore_feasible as_cheap by blast

lemma restore_optimal:
  assumes "ok P Q r" "optimal_by (feasible' Q) (objval' Q) y"
  shows "optimal_by (feasible P) (objval P) (restore r y)"
  using assms restore_feasible restore_value as_cheap unfolding optimal_by_def by (metis ext_le_trans)

lemma unbounded_iff:
  assumes "ok P Q r"
  shows "unbounded_by (feasible P) (objval P) \<longleftrightarrow> unbounded_by (feasible' Q) (objval' Q)"
  unfolding unbounded_by_def using restore_feasible [OF assms] restore_value [OF assms] as_cheap [OF assms]
  by (metis ext_le_trans)

end

text \<open>Two stages in sequence are a stage.\<close>

locale lp_reduction_chain =
  first: lp_reduction ok1 feas1 val1 feas2 val2 restore1 + second: lp_reduction ok2 feas2 val2 feas3 val3 restore2
  for ok1 :: "'p \<Rightarrow> 'q \<Rightarrow> 'r \<Rightarrow> bool" and feas1 :: "'p \<Rightarrow> 'x \<Rightarrow> bool" and val1 :: "'p \<Rightarrow> 'x \<Rightarrow> ('f :: linorder) ext"
    and feas2 :: "'q \<Rightarrow> 'y \<Rightarrow> bool" and val2 :: "'q \<Rightarrow> 'y \<Rightarrow> 'f ext" and restore1 :: "'r \<Rightarrow> 'y \<Rightarrow> 'x"
    and ok2 :: "'q \<Rightarrow> 's \<Rightarrow> 't \<Rightarrow> bool" and feas3 :: "'s \<Rightarrow> 'z \<Rightarrow> bool" and val3 :: "'s \<Rightarrow> 'z \<Rightarrow> 'f ext"
    and restore2 :: "'t \<Rightarrow> 'z \<Rightarrow> 'y"

sublocale lp_reduction_chain \<subseteq> chain: lp_reduction "\<lambda>P R rt. \<exists>Q. ok1 P Q (fst rt) \<and> ok2 Q R (snd rt)"
  feas1 val1 feas3 val3 "\<lambda>rt z. restore1 (fst rt) (restore2 (snd rt) z)"
proof
  fix P R rt and x z
  assume "\<exists>Q. ok1 P Q (fst rt) \<and> ok2 Q R (snd rt)"
  then obtain Q where Q: "ok1 P Q (fst rt)" "ok2 Q R (snd rt)" by blast
  show "feas1 P (restore1 (fst rt) (restore2 (snd rt) z))" "val1 P (restore1 (fst rt) (restore2 (snd rt) z)) = val3 R z"
    if "feas3 R z"
    using Q that first.restore_feasible first.restore_value second.restore_feasible second.restore_value by metis+
  show "\<exists>z. feas3 R z \<and> val3 R z \<le> val1 P x" if "feas1 P x"
    using first.as_cheap [OF Q(1) that] second.as_cheap [OF Q(2)] ext_le_trans by blast
qed

end
