(* ===== verification/Lp_Crush.thy ===== *)
theory Lp_Crush
  imports Lp_Convert Lp_Reduction
begin

text \<open>
  The maps between solutions of the user problem and of the converted problem (\<open>presolve.cpp\<close>:
  \<open>crush_primal_solution\<close>, \<open>crush_primal_solution_with_slack\<close>, \<open>crush_dual_solution\<close>,
  \<open>uncrush_primal_solution\<close>), and the theorem that the two problems are equivalent under them.
  The meaning of a user problem, \<open>user_feasible\<close>, is stated independently of the conversion. The
  residuals the code computes only to print or to assert are not part of the results.
\<close>

subsection \<open>Definitions\<close>

record 'f lp_solution =
  sol_x :: "'f vec"
  sol_y :: "'f vec"
  sol_z :: "'f vec"
  sol_objective :: 'f
  sol_user_objective :: 'f
  sol_iterations :: nat
  sol_l2_primal_residual :: 'f
  sol_l2_dual_residual :: 'f

definition crush_primal_solution ::
  "('f :: linordered_field) user_problem \<Rightarrow> 'f lp_problem \<Rightarrow> 'f vec \<Rightarrow> idx list \<Rightarrow> 'f vec \<Rightarrow> 'f vec" where
  "crush_primal_solution U P user_solution new_slacks solution =
     (let solution = for_range 0 (u_num_cols U) (\<lambda>j s. s[j := user_solution ! j]) (resize (num_cols P) 0 solution);
          primal_residual = matrix_vector_multiply (lp_A P) 1 solution 0 (replicate (num_rows P) 0)
      in fold (\<lambda>j solution.
            let cs = col_start (lp_A P) ! j; i = csc_i (lp_A P) ! cs;
                beta = rhs P ! i; alpha = csc_x (lp_A P) ! cs;
                slack_computed = (beta - primal_residual ! i) / alpha
            in solution[j := fin_part (ext_max (lower P ! j) (ext_min (Fin slack_computed) (upper P ! j)))])
          new_slacks solution)"

definition crush_primal_solution_with_slack ::
  "('f :: linordered_field) user_problem \<Rightarrow> 'f lp_problem \<Rightarrow> 'f vec \<Rightarrow> 'f vec \<Rightarrow> idx list \<Rightarrow> 'f vec \<Rightarrow> 'f vec" where
  "crush_primal_solution_with_slack U P user_solution user_slack new_slacks solution =
     (let solution = for_range 0 (u_num_cols U) (\<lambda>j s. s[j := user_solution ! j]) (resize (num_cols P) 0 solution)
      in fold (\<lambda>j solution.
            let cs = col_start (lp_A P) ! j; i = csc_i (lp_A P) ! cs; si = user_slack ! i
            in solution[j := si]) new_slacks solution)"

definition crush_dual_solution ::
  "('f :: linordered_field) user_problem \<Rightarrow> 'f lp_problem \<Rightarrow> idx list \<Rightarrow> 'f vec \<Rightarrow> 'f vec \<Rightarrow> 'f vec \<Rightarrow> 'f vec
   \<Rightarrow> 'f vec \<times> 'f vec" where
  "crush_dual_solution U P new_slacks user_y user_z y z =
     (let y = for_range 0 (u_num_rows U) (\<lambda>i y. y[i := user_y ! i]) (resize (num_rows P) 0 y);
          z = for_range 0 (u_num_cols U) (\<lambda>j z. z[j := user_z ! j]) (resize (num_cols P) 0 z)
      in (y, fold (\<lambda>j z. let cs = col_start (lp_A P) ! j; i = csc_i (lp_A P) ! cs in z[j := - (y ! i)])
              new_slacks z))"

definition convert_user_lp_with_guess ::
  "'f \<times> 'f \<Rightarrow> ('f :: linordered_field) user_problem \<Rightarrow> 'f lp_solution \<Rightarrow> 'f vec \<Rightarrow> 'f lp_problem \<Rightarrow> 'f lp_solution
   \<Rightarrow> 'f lp_problem \<times> 'f lp_solution" where
  "convert_user_lp_with_guess uninit U initial initial_slack P converted =
     (let (P, new_slacks) = convert_user_problem uninit U P [];
          x = crush_primal_solution_with_slack U P (sol_x initial) initial_slack new_slacks (sol_x converted);
          (y, z) = crush_dual_solution U P new_slacks (sol_y initial) (sol_z initial) (sol_y converted) (sol_z converted)
      in (P, converted\<lparr>sol_x := x, sol_y := y, sol_z := z\<rparr>))"

definition uncrush_primal_solution ::
  "'f user_problem \<Rightarrow> ('x :: zero) vec \<Rightarrow> 'x vec \<Rightarrow> 'x vec" where
  "uncrush_primal_solution U solution user_solution =
     for_range 0 (u_num_cols U) (\<lambda>j us. us[j := solution ! j]) (resize (u_num_cols U) 0 user_solution)"

subsection \<open>The meaning of the two formats\<close>

definition activity :: "('f :: comm_ring_1) csc_matrix \<Rightarrow> 'f vec \<Rightarrow> idx \<Rightarrow> 'f" where
  "activity A x r = (\<Sum>c<csc_n A. csc_dense A r c * x ! c)"

definition in_bounds :: "'f ext \<Rightarrow> ('f :: linorder) \<Rightarrow> 'f ext \<Rightarrow> bool" where
  "in_bounds l v u \<longleftrightarrow> l \<le> Fin v \<and> Fin v \<le> u"

text \<open>The interval of a range row with right-hand side \<open>b\<close> and range \<open>v\<close>, as the MPS format defines it.\<close>

definition range_interval :: "char \<Rightarrow> 'f \<Rightarrow> ('f :: linordered_idom) \<Rightarrow> 'f \<times> 'f" where
  "range_interval sense b v =
     (if sense = CHR ''G'' then (b, b + \<bar>v\<bar>) else if sense = CHR ''L'' then (b - \<bar>v\<bar>, b)
      else if v \<ge> 0 then (b, b + v) else (b + v, b))"

definition row_holds :: "('f :: linordered_idom) user_problem \<Rightarrow> idx \<Rightarrow> 'f \<Rightarrow> bool" where
  "row_holds U r a =
     (let b = u_rhs U ! r; s = u_row_sense U ! r in
      if in_range U r
      then (\<forall>k<length (u_range_rows U). u_range_rows U ! k = r \<longrightarrow>
              (case range_interval s b (u_range_value U ! k) of (h, u) \<Rightarrow> h \<le> a \<and> a \<le> u))
      else if s = CHR ''L'' then a \<le> b else if s = CHR ''G'' then b \<le> a else a = b)"

definition user_feasible :: "('f :: linordered_idom) user_problem \<Rightarrow> 'f vec \<Rightarrow> bool" where
  "user_feasible U x \<longleftrightarrow> length x = u_num_cols U \<and>
     (\<forall>c<u_num_cols U. in_bounds (u_lower U ! c) (x ! c) (u_upper U ! c)) \<and>
     (\<forall>r<u_num_rows U. row_holds U r (activity (u_A U) x r))"

definition lp_feasible :: "('f :: linordered_idom) lp_problem \<Rightarrow> 'f vec \<Rightarrow> bool" where
  "lp_feasible P x \<longleftrightarrow> length x = num_cols P \<and>
     (\<forall>c<num_cols P. in_bounds (lower P ! c) (x ! c) (upper P ! c)) \<and>
     (\<forall>r<num_rows P. activity (lp_A P) x r = rhs P ! r)"

subsection \<open>Rows of the converted problem\<close>

lemma sum_split_cols:
  "(\<Sum>c<n + (k :: nat). f c) = (\<Sum>c<n. f c) + (\<Sum>t<k. f (n + t) :: 'f :: comm_monoid_add)"
  by (induction k) (auto simp: add_ac)

lemma activity_shape:
  assumes S: "conv_shape U D b es P" and r: "r < u_num_rows U"
  shows "activity (lp_A P) x r = (\<Sum>c<u_num_cols U. D r c * x ! c) +
    (\<Sum>t<length es. if fst (es ! t) = r then fst (snd (es ! t)) * x ! (u_num_cols U + t) else 0)"
proof -
  let ?n = "u_num_cols U"
  have n: "csc_n (lp_A P) = ?n + length es" using S by (simp add: conv_shape_def lp_wf_def)
  have "csc_dense (lp_A P) r (?n + t) = (if fst (es ! t) = r then fst (snd (es ! t)) else 0)" if "t < length es" for t
    using S that by (simp add: conv_shape_def csc_dense_def)
  moreover have "csc_dense (lp_A P) r c = D r c" if "c < ?n" for c
    using S r that by (simp add: conv_shape_def)
  ultimately show ?thesis
    unfolding activity_def n sum_split_cols by (auto intro!: arg_cong2 [where f = "(+)"] sum.cong)
qed

definition slack_sum :: "('f :: comm_ring_1) user_problem \<Rightarrow> 'f vec \<Rightarrow> idx \<Rightarrow> 'f" where
  "slack_sum U x r =
     (let n = u_num_cols U; k1 = length (u_range_rows U); k2 = length (inequality_rows U); k3 = length (equality_rows U) in
      (\<Sum>t<k1. if u_range_rows U ! t = r then - x ! (n + t) else 0) +
      (\<Sum>t<k2. if inequality_rows U ! t = r then x ! (n + k1 + t) else 0) +
      (\<Sum>t<k3. if equality_rows U ! t = r then x ! (n + k1 + k2 + t) else 0))"

lemma slack_list_nth:
  "t < length (u_range_rows U) \<Longrightarrow> slack_list uninit U ! t = range_slack uninit U (u_row_sense U) (u_rhs U) t"
  "t < length (inequality_rows U) \<Longrightarrow>
     slack_list uninit U ! (length (u_range_rows U) + t) = (inequality_rows U ! t, 1, 0, PInf)"
  "t < length (equality_rows U) \<Longrightarrow>
     slack_list uninit U ! (length (u_range_rows U) + length (inequality_rows U) + t) = (equality_rows U ! t, 1, 0, 0)"
  by (simp_all add: slack_list_def nth_append)

lemma length_slack_list:
  "length (slack_list uninit U) = length (u_range_rows U) + length (inequality_rows U) + length (equality_rows U)"
  by (simp add: slack_list_def)

lemma range_slack_sel:
  "fst (range_slack uninit U rs b t) = u_range_rows U ! t" "fst (snd (range_slack uninit U rs b t)) = -1"
  by (simp_all add: range_slack_def Let_def split: prod.split)

lemma slack_sum_eq:
  "(\<Sum>t<length (slack_list uninit U). if fst (slack_list uninit U ! t) = r
      then fst (snd (slack_list uninit U ! t)) * x ! (u_num_cols U + t) else 0) = slack_sum U x r"
  unfolding length_slack_list sum_split_cols slack_sum_def Let_def
  by (intro arg_cong2 [where f = "(+)"] sum.cong refl)
    (simp_all add: slack_list_nth slack_list_nth(3) [unfolded add.assoc] range_slack_sel add.assoc)

lemma distinct_rows: "distinct (inequality_rows U)" "distinct (equality_rows U)"
  by (simp_all add: inequality_rows_def equality_rows_def)

lemma fixed_slack_sum:
  assumes "\<forall>t<k3. f t = (0 :: 'f :: comm_ring_1)"
  shows "(\<Sum>t<k3. if L ! t = r then f t else 0) = 0"
  using assms by (intro sum.neutral) auto

text \<open>The slack part of a row, by the kind of the row; the artificial variables are zero.\<close>

lemma slack_sum_cases:
  assumes U: "user_wf U" and r: "r < u_num_rows U"
    and art: "\<forall>t<length (equality_rows U).
      x ! (u_num_cols U + length (u_range_rows U) + length (inequality_rows U) + t) = 0"
  shows "k < length (u_range_rows U) \<Longrightarrow> u_range_rows U ! k = r \<Longrightarrow> slack_sum U x r = - x ! (u_num_cols U + k)"
    and "t < length (inequality_rows U) \<Longrightarrow> inequality_rows U ! t = r \<Longrightarrow>
      slack_sum U x r = x ! (u_num_cols U + length (u_range_rows U) + t)"
    and "\<not> in_range U r \<Longrightarrow> r \<notin> set (inequality_rows U) \<Longrightarrow> slack_sum U x r = 0"
proof -
  let ?R = "u_range_rows U" and ?I = "inequality_rows U"
  have dR: "distinct ?R" using U by (simp add: user_wf_def)
  note z = fixed_slack_sum [OF art, of "equality_rows U" r]
  show "slack_sum U x r = - x ! (u_num_cols U + k)" if k: "k < length ?R" "?R ! k = r"
  proof -
    have "in_range U r" using k by (auto simp: in_range_def)
    then have "r \<notin> set ?I" by (auto simp: inequality_rows_def)
    then show ?thesis
      using pick_sum [OF dR k(1), of "\<lambda>t. - x ! (u_num_cols U + t)"] 
        pick_sum_none [of r ?I "\<lambda>t. x ! (u_num_cols U + length ?R + t)"] z k(2)
      by (simp add: slack_sum_def Let_def)
  qed
  show "slack_sum U x r = x ! (u_num_cols U + length ?R + t)" if t: "t < length ?I" "?I ! t = r"
  proof -
    have "r \<in> set ?I" using t by auto
    then have "r \<notin> set ?R" by (auto simp: inequality_rows_def in_range_def)
    then show ?thesis
      using pick_sum [OF distinct_rows(1) t(1), of "\<lambda>t. x ! (u_num_cols U + length ?R + t)"] 
        pick_sum_none [of r ?R "\<lambda>t. - x ! (u_num_cols U + t)"] z t(2)
      by (simp add: slack_sum_def Let_def)
  qed
  show "slack_sum U x r = 0" if "\<not> in_range U r" "r \<notin> set ?I"
    using that pick_sum_none [of r ?R "\<lambda>t. - x ! (u_num_cols U + t)"]
      pick_sum_none [of r ?I "\<lambda>t. x ! (u_num_cols U + length ?R + t)"] z
    by (simp add: slack_sum_def Let_def in_range_def)
qed

lemma slack_in_bounds:
  assumes S: "conv_shape U D b es P" and U: "user_wf U" and x: "lp_feasible P x" and t: "t < length es"
  shows "in_bounds (fst (snd (snd (es ! t)))) (x ! (u_num_cols U + t)) (snd (snd (snd (es ! t))))"
proof -
  have len: "length (u_lower U) = u_num_cols U" "length (u_upper U) = u_num_cols U"
    using U by (simp_all add: user_wf_def)
  have "u_num_cols U + t < num_cols P" using S t by (simp add: conv_shape_def)
  then have "in_bounds (lower P ! (u_num_cols U + t)) (x ! (u_num_cols U + t)) (upper P ! (u_num_cols U + t))"
    using x by (simp add: lp_feasible_def)
  then show ?thesis using S t len by (simp add: conv_shape_def nth_append split_def)
qed

lemma range_bounds_interval:
  assumes "sense \<in> {CHR ''L'', CHR ''G'', CHR ''E''}"
  shows "range_bounds sense v b uninit = range_interval sense b v"
  using assms by (auto simp: range_bounds_def range_interval_def)

lemma range_slack_bounds:
  assumes U: "user_wf U" and k: "k < length (u_range_rows U)"
  defines "i \<equiv> u_range_rows U ! k"
  shows "snd (snd (range_slack uninit U (u_row_sense U) (u_rhs U) k)) =
    (case range_interval (u_row_sense U ! i) (u_rhs U ! i) (u_range_value U ! k) of (h, u) \<Rightarrow> (Fin h, Fin u))"
proof -
  have "u_row_sense U ! i \<in> {CHR ''L'', CHR ''G'', CHR ''E''}"
    using U nth_mem [OF k] by (simp add: user_wf_def i_def)
  from range_bounds_interval [OF this, of "u_range_value U ! k" "u_rhs U ! i" uninit]
  show ?thesis by (simp add: range_slack_def Let_def i_def split: prod.split)
qed

abbreviation signed_activity :: "('f :: linordered_idom) user_problem \<Rightarrow> 'f vec \<Rightarrow> idx \<Rightarrow> 'f" where
  "signed_activity U x r \<equiv> (if flipped U r then - activity (u_A U) x r else activity (u_A U) x r)"

lemma converted_activity:
  assumes U: "user_wf U" and r: "r < u_num_rows U"
  shows "activity (lp_A (fst (convert_user_problem uninit U P sl))) x r = signed_activity U x r + slack_sum U x r"
proof -
  have n: "csc_n (u_A U) = u_num_cols U" using U by (simp add: user_wf_def)
  have "(\<Sum>c<u_num_cols U. (if flipped U r then - csc_dense (u_A U) r c else csc_dense (u_A U) r c) * x ! c)
      = signed_activity U x r"
    by (simp add: activity_def n sum_negf)
  then show ?thesis
    using activity_shape [OF convert_user_problem_shape(1) [OF U] r, of uninit P sl x] slack_sum_eq by simp
qed

lemma inequality_rows_index:
  assumes "r < u_num_rows U" "\<not> in_range U r" "u_row_sense U ! r \<in> {CHR ''G'', CHR ''L''}"
  obtains t where "t < length (inequality_rows U)" "inequality_rows U ! t = r"
proof -
  have "r \<in> set (inequality_rows U)" using assms by (simp add: inequality_rows_def)
  then show ?thesis using that by (auto simp: in_set_conv_nth)
qed

lemma activity_take:
  assumes "user_wf U"
  shows "activity (u_A U) (take (u_num_cols U) x) r = activity (u_A U) x r"
  using assms by (simp add: activity_def user_wf_def)

lemma feasible_uncrush:
  assumes U: "user_wf U" and x: "lp_feasible (fst (convert_user_problem uninit U P sl)) x"
  shows "user_feasible U (take (u_num_cols U) x)"
proof -
  let ?P = "fst (convert_user_problem uninit U P sl)" and ?n = "u_num_cols U" and ?es = "slack_list uninit U"
  let ?k1 = "length (u_range_rows U)" and ?k2 = "length (inequality_rows U)"
  note S = convert_user_problem_shape(1) [OF U, of uninit P sl]
  note bd = slack_in_bounds [OF S U x]
  have nP: "num_cols ?P = ?n + length ?es" "lower ?P = u_lower U @ map (\<lambda>(i, v, l, u). l) ?es"
    "upper ?P = u_upper U @ map (\<lambda>(i, v, l, u). u) ?es" "num_rows ?P = u_num_rows U"
    "rhs ?P = map (conv_rhs U) [0..<u_num_rows U]"
    using S by (simp_all add: conv_shape_def)
  have len: "length x = ?n + length ?es" using x nP by (simp add: lp_feasible_def)
  have art: "\<forall>t<length (equality_rows U). x ! (?n + ?k1 + ?k2 + t) = 0"
  proof (intro allI impI)
    fix t assume t: "t < length (equality_rows U)"
    then have "in_bounds 0 (x ! (?n + (?k1 + ?k2 + t))) 0"
      using bd [of "?k1 + ?k2 + t"] by (simp add: length_slack_list slack_list_nth(3))
    then show "x ! (?n + ?k1 + ?k2 + t) = 0" by (simp add: in_bounds_def zero_ext_def add.assoc)
  qed
  have "in_bounds (u_lower U ! c) (x ! c) (u_upper U ! c)" if "c < ?n" for c
  proof -
    have "in_bounds (lower ?P ! c) (x ! c) (upper ?P ! c)" using x that nP(1) by (simp add: lp_feasible_def)
    then show ?thesis using that U by (simp add: nP(2,3) nth_append user_wf_def)
  qed
  moreover have "row_holds U r (activity (u_A U) x r)" if r: "r < u_num_rows U" for r
  proof -
    have eq: "signed_activity U x r + slack_sum U x r = conv_rhs U r"
      using x r nP converted_activity [OF U r, of uninit P sl x] by (simp add: lp_feasible_def)
    note sl = slack_sum_cases [OF U r art]
    consider "in_range U r" | "\<not> in_range U r" "u_row_sense U ! r \<in> {CHR ''G'', CHR ''L''}"
      | "\<not> in_range U r" "u_row_sense U ! r \<notin> {CHR ''G'', CHR ''L''}" by blast
    then show ?thesis
    proof cases
      case 1
      have "case range_interval (u_row_sense U ! r) (u_rhs U ! r) (u_range_value U ! k) of
          (h, u) \<Rightarrow> h \<le> activity (u_A U) x r \<and> activity (u_A U) x r \<le> u"
        if k: "k < ?k1" "u_range_rows U ! k = r" for k
      proof -
        have "activity (u_A U) x r = x ! (?n + k)"
          using eq sl(1) [OF k] 1 by (simp add: conv_rhs_def flipped_def)
        moreover have "in_bounds (fst (snd (snd (range_slack uninit U (u_row_sense U) (u_rhs U) k)))) (x ! (?n + k))
            (snd (snd (snd (range_slack uninit U (u_row_sense U) (u_rhs U) k))))"
          using bd [of k] k(1) by (simp add: length_slack_list slack_list_nth(1))
        ultimately show ?thesis
          using range_slack_bounds [OF U k(1), of uninit] k(2) by (auto simp: in_bounds_def split: prod.splits)
      qed
      then show ?thesis using 1 by (simp add: row_holds_def Let_def)
    next
      case 2
      obtain t where t: "t < ?k2" "inequality_rows U ! t = r" by (rule inequality_rows_index [OF r 2])
      have "in_bounds 0 (x ! (?n + (?k1 + t))) PInf"
        using bd [of "?k1 + t"] t(1) by (simp add: length_slack_list slack_list_nth(2))
      then have "0 \<le> slack_sum U x r" using sl(2) [OF t] by (simp add: in_bounds_def zero_ext_def add.assoc)
      then show ?thesis
        using eq 2 by (auto simp: row_holds_def Let_def conv_rhs_def flipped_def)
    next
      case 3
      then have "r \<notin> set (inequality_rows U)" by (simp add: inequality_rows_def)
      from sl(3) [OF 3(1) this] show ?thesis
        using eq 3 by (simp add: row_holds_def Let_def conv_rhs_def flipped_def)
    qed
  qed
  ultimately show ?thesis
    using len activity_take [OF U, of x] by (simp add: user_feasible_def)
qed

subsection \<open>Crushing a solution\<close>

lemma fold_update_range:
  "n \<le> N \<Longrightarrow> N \<le> length s \<Longrightarrow> fold (\<lambda>j s. s[j := g j]) [n..<N] s = take n s @ map g [n..<N] @ drop N s"
proof (induction N)
  case (Suc N)
  show ?case
  proof (cases "n = Suc N")
    case False
    have "drop N s = s ! N # drop (Suc N) s" using Suc.prems by (simp add: Cons_nth_drop_Suc)
    then show ?thesis using Suc False by (simp add: list_update_append)
  qed simp
qed simp

lemma copy_prefix:
  fixes us s :: "('f :: zero) vec"
  assumes "length us = n" "n \<le> N" "\<forall>j. n \<le> j \<and> j < length s \<longrightarrow> s ! j = 0"
  shows "for_range 0 n (\<lambda>j s. s[j := us ! j]) (resize N 0 s) = us @ replicate (N - n) 0"
proof -
  have "for_range 0 n (\<lambda>j s. s[j := us ! j]) (resize N 0 s) = map ((!) us) [0..<n] @ drop n (resize N 0 s)"
    using for_range_map_update [of n "resize N 0 s" "\<lambda>j _. us ! j"] assms(2) by simp
  moreover have "map ((!) us) [0..<n] = us" using assms(1) map_nth [of us] by simp
  moreover have "drop n (resize N 0 s) = replicate (N - n) 0"
    using assms(3) by (intro nth_equalityI) (auto simp: nth_resize)
  ultimately show ?thesis by simp
qed

lemma lane_single:
  assumes "lane s js xs k = [(i, v)]"
  shows "js ! (s ! k) = i" "xs ! (s ! k) = v"
proof -
  have "s ! k < s ! Suc k" using arg_cong [OF assms, of length] by simp
  then have "[s ! k..<s ! Suc k] = s ! k # [Suc (s ! k)..<s ! Suc k]" by (rule upt_conv_Cons)
  then show "js ! (s ! k) = i" "xs ! (s ! k) = v" using assms by (simp_all add: lane_def)
qed

definition crushed_slack :: "('f :: linordered_field) user_problem \<Rightarrow> 'f vec \<Rightarrow> 'f slack \<Rightarrow> 'f" where
  "crushed_slack U x = (\<lambda>(i, v, l, u). fin_part (ext_max l (ext_min (Fin ((conv_rhs U i - signed_activity U x i) / v)) u)))"

lemma slack_list_rows: "user_wf U \<Longrightarrow> \<forall>e \<in> set (slack_list uninit U). fst e < u_num_rows U"
  by (auto simp: slack_list_def range_slack_sel inequality_rows_def equality_rows_def user_wf_def)

lemma slack_list_row: "t < length (slack_list uninit U) \<Longrightarrow> user_wf U \<Longrightarrow> fst (slack_list uninit U ! t) < u_num_rows U"
  using slack_list_rows [of U uninit] by simp

lemma crush_primal_eq:
  fixes P :: "('f :: linordered_field) lp_problem" and uninit :: "'f \<times> 'f"
  assumes U: "user_wf U" and x: "length x = u_num_cols U"
    and s: "\<forall>j. u_num_cols U \<le> j \<and> j < length s \<longrightarrow> s ! j = 0"
  defines "C \<equiv> convert_user_problem uninit U P []"
  shows "crush_primal_solution U (fst C) x (snd C) s = x @ map (crushed_slack U x) (slack_list uninit U)"
proof -
  let ?n = "u_num_cols U" and ?es = "slack_list uninit U" and ?P = "fst C"
  note S = convert_user_problem_shape(1) [OF U, of uninit P "[]", folded C_def]
  have P: "lp_wf ?P" "num_rows ?P = u_num_rows U" "num_cols ?P = ?n + length ?es"
    "rhs ?P = map (conv_rhs U) [0..<u_num_rows U]" "lower ?P = u_lower U @ map (\<lambda>(i, v, l, u). l) ?es"
    "upper ?P = u_upper U @ map (\<lambda>(i, v, l, u). u) ?es"
    using S by (simp_all add: conv_shape_def)
  have len: "length (u_lower U) = ?n" "length (u_upper U) = ?n" using U by (simp_all add: user_wf_def)
  let ?x0 = "x @ replicate (length ?es) 0"
  let ?res = "matrix_vector_multiply (lp_A ?P) 1 ?x0 0 (replicate (num_rows ?P) 0)"
  have x0: "for_range 0 ?n (\<lambda>j s. s[j := x ! j]) (resize (num_cols ?P) 0 s) = ?x0"
    using copy_prefix [OF x _ s, of "num_cols ?P"] P(3) by simp
  have A: "csc_wf (lp_A ?P)" "csc_m (lp_A ?P) = u_num_rows U" "csc_n (lp_A ?P) = ?n + length ?es"
    using P(1-3) by (auto simp: lp_wf_def)
  have res: "?res ! i = signed_activity U x i" if i: "i < u_num_rows U" for i
  proof -
    have "?res ! i = activity (lp_A ?P) ?x0 i"
      using matrix_vector_multiply_nth(2) [OF A(1), of "replicate (num_rows ?P) 0" ?x0 i 1 0] A x P(2) i
      by (simp add: activity_def)
    also have "\<dots> = signed_activity U ?x0 i + slack_sum U ?x0 i"
      using converted_activity [OF U i, of uninit P "[]"] by (simp add: C_def)
    also have "slack_sum U ?x0 i = 0"
    proof -
      have z: "?x0 ! (?n + t) = 0" if "t < length ?es" for t using that x by (simp add: nth_append)
      show ?thesis
        unfolding slack_sum_eq [of uninit, symmetric] using z by (intro sum.neutral) simp
    qed
    also have "activity (u_A U) ?x0 i = activity (u_A U) x i"
      using activity_take [OF U, of ?x0 i] x by simp
    finally show ?thesis by simp
  qed
  let ?g = "\<lambda>j. let cs = col_start (lp_A ?P) ! j; i = csc_i (lp_A ?P) ! cs; beta = rhs ?P ! i;
      alpha = csc_x (lp_A ?P) ! cs; sc = (beta - ?res ! i) / alpha
    in fin_part (ext_max (lower ?P ! j) (ext_min (Fin sc) (upper ?P ! j)))"
  have g: "?g (?n + t) = crushed_slack U x (?es ! t)" if t: "t < length ?es" for t
  proof -
    obtain i v l u where e: "?es ! t = (i, v, l, u)" by (rule prod_cases4)
    have i: "i < u_num_rows U" using slack_list_row [OF t U] e by simp
    have c: "csc_col (lp_A ?P) (?n + t) = [(i, v)]" using S t e by (simp add: conv_shape_def)
    have "lower ?P ! (?n + t) = l" "upper ?P ! (?n + t) = u" using len t e by (simp_all add: P(5,6) nth_append)
    then show ?thesis
      using res [OF i] i e by (simp add: Let_def lane_single [OF c] P(4) crushed_slack_def)
  qed
  have sl: "snd C = [?n..<?n + length ?es]"
    using convert_user_problem_shape(2) [OF U, of uninit P "[]"] by (simp add: C_def)
  have "crush_primal_solution U ?P x (snd C) s = fold (\<lambda>j s. s[j := ?g j]) [?n..<?n + length ?es] ?x0"
    unfolding crush_primal_solution_def Let_def x0 sl ..
  also have "\<dots> = x @ map ?g [?n..<?n + length ?es]"
    using fold_update_range [of ?n "?n + length ?es" ?x0 ?g] x by simp
  also have "map ?g [?n..<?n + length ?es] = map (crushed_slack U x) ?es"
    using g by (intro nth_equalityI) simp_all
  finally show ?thesis .
qed

lemma crushed_slack_clamp:
  "l \<le> v \<Longrightarrow> Fin v \<le> u \<Longrightarrow> (conv_rhs U i - signed_activity U x i) / c = v \<Longrightarrow> crushed_slack U x (i, c, Fin l, u) = v"
  using clamp_Fin [of l u v] by (cases u) (auto simp: crushed_slack_def)

lemma feasible_crush:
  assumes U: "user_wf U" and x: "user_feasible U x"
  shows "lp_feasible (fst (convert_user_problem uninit U P sl)) (x @ map (crushed_slack U x) (slack_list uninit U))"
proof -
  let ?P = "fst (convert_user_problem uninit U P sl)" and ?n = "u_num_cols U" and ?es = "slack_list uninit U"
  let ?k1 = "length (u_range_rows U)" and ?k2 = "length (inequality_rows U)"
  let ?xc = "x @ map (crushed_slack U x) ?es"
  note S = convert_user_problem_shape(1) [OF U, of uninit P sl]
  have nP: "num_cols ?P = ?n + length ?es" "lower ?P = u_lower U @ map (\<lambda>(i, v, l, u). l) ?es"
    "upper ?P = u_upper U @ map (\<lambda>(i, v, l, u). u) ?es" "num_rows ?P = u_num_rows U"
    "rhs ?P = map (conv_rhs U) [0..<u_num_rows U]"
    using S by (simp_all add: conv_shape_def)
  have len: "length x = ?n" "length (u_lower U) = ?n" "length (u_upper U) = ?n"
    using x U by (simp_all add: user_feasible_def user_wf_def)
  have xc: "?xc ! (?n + t) = crushed_slack U x (?es ! t)" if "t < length ?es" for t
    using that len(1) by (simp add: nth_append)
  have act: "activity (u_A U) ?xc r = activity (u_A U) x r" for r
    using activity_take [OF U, of ?xc r] len(1) by simp
  have rows: "row_holds U r (activity (u_A U) x r)" if "r < u_num_rows U" for r
    using x that by (simp add: user_feasible_def)
  have range_val: "crushed_slack U x (?es ! k) = activity (u_A U) x (u_range_rows U ! k) \<and>
      in_bounds (fst (snd (snd (?es ! k)))) (crushed_slack U x (?es ! k)) (snd (snd (snd (?es ! k))))"
    if k: "k < ?k1" for k
  proof -
    let ?i = "u_range_rows U ! k"
    have i: "in_range U ?i" "?i < u_num_rows U" using k U nth_mem [OF k] by (auto simp: in_range_def user_wf_def)
    obtain h u where hu: "range_interval (u_row_sense U ! ?i) (u_rhs U ! ?i) (u_range_value U ! k) = (h, u)"
      by (rule prod.exhaust)
    have b: "h \<le> activity (u_A U) x ?i" "activity (u_A U) x ?i \<le> u"
      using rows [OF i(2)] i(1) k hu by (auto simp: row_holds_def Let_def)
    have "snd (snd (range_slack uninit U (u_row_sense U) (u_rhs U) k)) = (Fin h, Fin u)"
      using range_slack_bounds [OF U k, of uninit] hu by simp
    then have e: "?es ! k = (?i, -1, Fin h, Fin u)"
      using range_slack_sel [of uninit U "u_row_sense U" "u_rhs U" k] slack_list_nth(1) [OF k, of uninit]
      by (metis prod.collapse)
    have "(conv_rhs U ?i - signed_activity U x ?i) / (-1) = activity (u_A U) x ?i"
      using i(1) by (simp add: conv_rhs_def flipped_def)
    from crushed_slack_clamp [OF b(1) _ this, of "Fin u"] b show ?thesis by (simp add: e in_bounds_def)
  qed
  have ineq_val: "crushed_slack U x (?es ! (?k1 + t)) = conv_rhs U (inequality_rows U ! t) - signed_activity U x (inequality_rows U ! t) \<and>
      in_bounds (fst (snd (snd (?es ! (?k1 + t))))) (crushed_slack U x (?es ! (?k1 + t))) (snd (snd (snd (?es ! (?k1 + t)))))"
    if t: "t < ?k2" for t
  proof -
    let ?r = "inequality_rows U ! t"
    have r: "?r < u_num_rows U" "\<not> in_range U ?r" "u_row_sense U ! ?r \<in> {CHR ''G'', CHR ''L''}"
      using nth_mem [OF t] by (simp_all add: inequality_rows_def)
    have "0 \<le> conv_rhs U ?r - signed_activity U x ?r"
      using rows [OF r(1)] r(2,3) by (auto simp: row_holds_def Let_def conv_rhs_def flipped_def)
    from crushed_slack_clamp [of 0 _ PInf, OF this] this
    show ?thesis by (simp add: slack_list_nth(2) [OF t] in_bounds_def zero_ext_def)
  qed
  have art_val: "crushed_slack U x (?es ! (?k1 + ?k2 + t)) = 0 \<and>
      in_bounds (fst (snd (snd (?es ! (?k1 + ?k2 + t))))) (crushed_slack U x (?es ! (?k1 + ?k2 + t))) (snd (snd (snd (?es ! (?k1 + ?k2 + t)))))"
    if t: "t < length (equality_rows U)" for t
    using clamp_Fin [of 0 "Fin 0" "(conv_rhs U (equality_rows U ! t) - signed_activity U x (equality_rows U ! t)) / 1"]
    by (auto simp: slack_list_nth(3) [OF t] crushed_slack_def in_bounds_def zero_ext_def)
  have bounds: "in_bounds (lower ?P ! c) (?xc ! c) (upper ?P ! c)" if c: "c < num_cols ?P" for c
  proof (cases "c < ?n")
    case True
    then show ?thesis using x len by (simp add: nP nth_append user_feasible_def)
  next
    case False
    then obtain t where t: "c = ?n + t" "t < length ?es" using c nP(1) by (metis le_Suc_ex add_less_cancel_left not_less)
    consider "t < ?k1" | s where "t = ?k1 + s" "s < ?k2" | s where "t = ?k1 + ?k2 + s" "s < length (equality_rows U)"
      using t(2) by (metis add_less_cancel_left le_Suc_ex length_slack_list not_less)
    then have "in_bounds (fst (snd (snd (?es ! t)))) (crushed_slack U x (?es ! t)) (snd (snd (snd (?es ! t))))"
    proof cases
      case 1
      then show ?thesis using range_val by blast
    next
      case 2
      show ?thesis unfolding 2(1) using ineq_val [OF 2(2)] by blast
    next
      case 3
      show ?thesis unfolding 3(1) using art_val [OF 3(2)] by blast
    qed
    then show ?thesis using t len xc [OF t(2)] by (simp add: nP nth_append split_def)
  qed
  have art: "\<forall>t<length (equality_rows U). ?xc ! (?n + ?k1 + ?k2 + t) = 0"
    using art_val xc [of "?k1 + ?k2 + _"] by (auto simp: add.assoc length_slack_list)
  have "activity (lp_A ?P) ?xc r = rhs ?P ! r" if r: "r < u_num_rows U" for r
  proof -
    note sl = slack_sum_cases [OF U r art]
    have eq: "activity (lp_A ?P) ?xc r = signed_activity U x r + slack_sum U ?xc r"
      using converted_activity [OF U r, of uninit P sl ?xc] act by simp
    consider "in_range U r" | "\<not> in_range U r" "u_row_sense U ! r \<in> {CHR ''G'', CHR ''L''}"
      | "\<not> in_range U r" "u_row_sense U ! r \<notin> {CHR ''G'', CHR ''L''}" by blast
    then have "signed_activity U x r + slack_sum U ?xc r = conv_rhs U r"
    proof cases
      case 1
      then obtain k where k: "k < ?k1" "u_range_rows U ! k = r" by (auto simp: in_range_def in_set_conv_nth)
      have "slack_sum U ?xc r = - activity (u_A U) x r"
        using sl(1) [OF k] xc [of k] range_val [OF k(1)] k by (simp add: length_slack_list)
      then show ?thesis using 1 by (simp add: conv_rhs_def flipped_def)
    next
      case 2
      obtain t where t: "t < ?k2" "inequality_rows U ! t = r" by (rule inequality_rows_index [OF r 2])
      have "slack_sum U ?xc r = conv_rhs U r - signed_activity U x r"
        using sl(2) [OF t] xc [of "?k1 + t"] ineq_val [OF t(1)] t by (simp add: length_slack_list add.assoc)
      then show ?thesis by simp
    next
      case 3
      then have "r \<notin> set (inequality_rows U)" by (simp add: inequality_rows_def)
      from sl(3) [OF 3(1) this] show ?thesis
        using rows [OF r] 3 by (simp add: row_holds_def Let_def conv_rhs_def flipped_def)
    qed
    then show ?thesis using eq r nP(5) by simp
  qed
  then show ?thesis using bounds len nP by (simp add: lp_feasible_def)
qed

subsection \<open>Uncrushing and the dual solution\<close>

lemma uncrush_primal_eq:
  assumes "u_num_cols U \<le> length x"
  shows "uncrush_primal_solution U x us = take (u_num_cols U) x"
proof -
  let ?n = "u_num_cols U"
  have "uncrush_primal_solution U x us = map ((!) x) [0..<?n] @ drop ?n (resize ?n 0 us)"
    using for_range_map_update [of ?n "resize ?n 0 us" "\<lambda>j _. x ! j"] by (simp add: uncrush_primal_solution_def)
  also have "\<dots> = take ?n x" using assms by (auto intro!: nth_equalityI)
  finally show ?thesis .
qed

definition objective_value :: "('f :: comm_ring_1) vec \<Rightarrow> 'f vec \<Rightarrow> 'f" where
  "objective_value c x = (\<Sum>j<length c. c ! j * x ! j)"

lemma objective_value_shape:
  assumes S: "conv_shape U D b es P" and U: "user_wf U" and x: "u_num_cols U \<le> length x"
  shows "objective_value (objective P) x = objective_value (u_objective U) (take (u_num_cols U) x)"
proof -
  have n: "length (u_objective U) = u_num_cols U" using U by (simp add: user_wf_def)
  have "objective P = u_objective U @ map (\<lambda>_. 0) es" using S by (simp add: conv_shape_def)
  then show ?thesis
    unfolding objective_value_def by (simp add: n sum_split_cols nth_append)
qed

text \<open>The residual \<open>A'y + z - c\<close> of the dual equation in one column.\<close>

definition dual_residual :: "('f :: comm_ring_1) csc_matrix \<Rightarrow> 'f vec \<Rightarrow> 'f vec \<Rightarrow> 'f vec \<Rightarrow> idx \<Rightarrow> 'f" where
  "dual_residual A c y z j = (\<Sum>i<csc_m A. csc_dense A i j * y ! i) + z ! j - c ! j"

lemma copy_all:
  assumes "length us = n"
  shows "for_range 0 n (\<lambda>j s. s[j := us ! j]) (resize n (0 :: 'f :: zero) s) = us"
  using for_range_map_update [of n "resize n 0 s" "\<lambda>j _. us ! j"] assms map_nth [of us] by simp

lemma copy_into:
  assumes "length us = n" "n \<le> N"
  shows "for_range 0 n (\<lambda>j s. s[j := us ! j]) (resize N (0 :: 'f :: zero) s) = us @ drop n (resize N 0 s)"
  using for_range_map_update [of n "resize N 0 s" "\<lambda>j _. us ! j"] assms map_nth [of us] by simp

lemma slack_column:
  assumes S: "conv_shape U D b es P" and t: "t < length es"
  shows "csc_i (lp_A P) ! (col_start (lp_A P) ! (u_num_cols U + t)) = fst (es ! t)"
    and "csc_x (lp_A P) ! (col_start (lp_A P) ! (u_num_cols U + t)) = fst (snd (es ! t))"
proof -
  have "csc_col (lp_A P) (u_num_cols U + t) = [(fst (es ! t), fst (snd (es ! t)))]"
    using S t by (simp add: conv_shape_def)
  from lane_single [OF this] show "csc_i (lp_A P) ! (col_start (lp_A P) ! (u_num_cols U + t)) = fst (es ! t)"
    "csc_x (lp_A P) ! (col_start (lp_A P) ! (u_num_cols U + t)) = fst (snd (es ! t))" by simp_all
qed

lemma crush_dual_eq:
  fixes P :: "('f :: linordered_field) lp_problem" and uninit :: "'f \<times> 'f"
  assumes U: "user_wf U" and y: "length y = u_num_rows U" and z: "length z = u_num_cols U"
  defines "C \<equiv> convert_user_problem uninit U P []"
  shows "crush_dual_solution U (fst C) (snd C) y z y0 z0
    = (y, z @ map (\<lambda>e. - (y ! fst e)) (slack_list uninit U))"
proof -
  let ?n = "u_num_cols U" and ?es = "slack_list uninit U" and ?P = "fst C"
  note S = convert_user_problem_shape(1) [OF U, of uninit P "[]", folded C_def]
  have P: "num_rows ?P = u_num_rows U" "num_cols ?P = ?n + length ?es" using S by (simp_all add: conv_shape_def)
  have sl: "snd C = [?n..<?n + length ?es]"
    using convert_user_problem_shape(2) [OF U, of uninit P "[]"] by (simp add: C_def)
  let ?z = "z @ drop ?n (resize (num_cols ?P) 0 z0)"
  let ?g = "\<lambda>j. let cs = col_start (lp_A ?P) ! j; i = csc_i (lp_A ?P) ! cs in - (y ! i)"
  have "crush_dual_solution U ?P (snd C) y z y0 z0 = (y, fold (\<lambda>j z. z[j := ?g j]) [?n..<?n + length ?es] ?z)"
    unfolding crush_dual_solution_def Let_def sl P(1) copy_all [OF y]
    using copy_into [OF z, of "num_cols ?P" z0] P(2) by simp
  also have "fold (\<lambda>j z. z[j := ?g j]) [?n..<?n + length ?es] ?z = z @ map ?g [?n..<?n + length ?es]"
    using fold_update_range [of ?n "?n + length ?es" ?z ?g] z P(2) by simp
  also have "map ?g [?n..<?n + length ?es] = map (\<lambda>e. - (y ! fst e)) ?es"
    using slack_column(1) [OF S] by (intro nth_equalityI) (simp_all add: Let_def)
  finally show ?thesis .
qed

lemma dual_residual_shape:
  assumes S: "conv_shape U D b es P" and U: "user_wf U" and es: "\<forall>e \<in> set es. fst e < u_num_rows U"
    and z: "length z = u_num_cols U"
  shows "j < u_num_cols U \<Longrightarrow> dual_residual (lp_A P) (objective P) y (z @ map (\<lambda>e. - (y ! fst e)) es) j
      = (\<Sum>i<u_num_rows U. D i j * y ! i) + z ! j - u_objective U ! j"
    and "t < length es \<Longrightarrow> dual_residual (lp_A P) (objective P) y (z @ map (\<lambda>e. - (y ! fst e)) es) (u_num_cols U + t)
      = (fst (snd (es ! t)) - 1) * y ! fst (es ! t)"
proof -
  have m: "csc_m (lp_A P) = u_num_rows U" "objective P = u_objective U @ map (\<lambda>_. 0) es"
    "length (u_objective U) = u_num_cols U"
    using S U by (simp_all add: conv_shape_def lp_wf_def user_wf_def)
  show "dual_residual (lp_A P) (objective P) y (z @ map (\<lambda>e. - (y ! fst e)) es) j
      = (\<Sum>i<u_num_rows U. D i j * y ! i) + z ! j - u_objective U ! j" if j: "j < u_num_cols U"
  proof -
    have "(\<Sum>i<u_num_rows U. csc_dense (lp_A P) i j * y ! i) = (\<Sum>i<u_num_rows U. D i j * y ! i)"
      using S j by (intro sum.cong) (simp_all add: conv_shape_def)
    then show ?thesis using j z m by (simp add: dual_residual_def nth_append)
  qed
  show "dual_residual (lp_A P) (objective P) y (z @ map (\<lambda>e. - (y ! fst e)) es) (u_num_cols U + t)
      = (fst (snd (es ! t)) - 1) * y ! fst (es ! t)" if t: "t < length es"
  proof -
    let ?r = "fst (es ! t)" and ?v = "fst (snd (es ! t))"
    have "csc_dense (lp_A P) i (u_num_cols U + t) = (if i = ?r then ?v else 0)" for i
      using S t by (auto simp: conv_shape_def csc_dense_def)
    then have "(\<Sum>i<u_num_rows U. csc_dense (lp_A P) i (u_num_cols U + t) * y ! i)
        = (\<Sum>i<u_num_rows U. if i = ?r then ?v * y ! ?r else 0)"
      by (intro sum.cong) auto
    also have "\<dots> = ?v * y ! ?r" using es t by simp
    finally show ?thesis using t z m by (simp add: dual_residual_def nth_append algebra_simps)
  qed
qed

subsection \<open>The conversion as a reduction\<close>

definition lp_value :: "('f :: linordered_idom) lp_problem \<Rightarrow> 'f vec \<Rightarrow> 'f ext" where
  "lp_value P x = obj_constant P + Fin (objective_value (objective P) x)"

definition lp_optimal :: "('f :: linordered_idom) lp_problem \<Rightarrow> 'f vec \<Rightarrow> bool" where
  "lp_optimal P x \<longleftrightarrow> lp_feasible P x \<and> (\<forall>y. lp_feasible P y \<longrightarrow> lp_value P x \<le> lp_value P y)"

lemma lp_optimal_by: "lp_optimal P x \<longleftrightarrow> optimal_by (lp_feasible P) (lp_value P) x"
  by (simp add: lp_optimal_def optimal_by_def)

definition user_value :: "('f :: linordered_idom) user_problem \<Rightarrow> 'f vec \<Rightarrow> 'f ext" where
  "user_value U x = u_obj_constant U + Fin (objective_value (u_objective U) x)"

definition converted :: "('f :: linordered_field) user_problem \<Rightarrow> 'f lp_problem \<Rightarrow> nat \<Rightarrow> bool" where
  "converted U P n \<longleftrightarrow> user_wf U \<and> is_fin (u_obj_constant U) \<and> n = u_num_cols U \<and>
     (\<exists>uninit P0 sl. P = fst (convert_user_problem uninit U P0 sl))"

interpretation conversion: lp_reduction converted user_feasible user_value lp_feasible lp_value take
proof
  fix U and P :: "'a lp_problem" and n x y
  assume "converted U P n"
  then obtain uninit P0 sl where U: "user_wf U" "is_fin (u_obj_constant U)" "n = u_num_cols U"
    and P: "P = fst (convert_user_problem uninit U P0 sl)" by (auto simp: converted_def)
  note S = convert_user_problem_shape(1) [OF U(1), of uninit P0 sl, folded P]
  have k: "obj_constant P = u_obj_constant U" using S by (simp add: conv_shape_def)
  show "user_feasible U (take n y)" if "lp_feasible P y"
    using feasible_uncrush [OF U(1)] that by (simp add: P U(3))
  show "user_value U (take n y) = lp_value P y" if "lp_feasible P y"
    using objective_value_shape [OF S U(1), of y] that S
    by (simp add: user_value_def lp_value_def k U(3) lp_feasible_def conv_shape_def)
  show "\<exists>y. lp_feasible P y \<and> lp_value P y \<le> user_value U x" if x: "user_feasible U x"
  proof (intro exI conjI)
    let ?y = "x @ map (crushed_slack U x) (slack_list uninit U)"
    show "lp_feasible P ?y" unfolding P by (rule feasible_crush [OF U(1) x])
    have "length x = u_num_cols U" using x by (simp add: user_feasible_def)
    then show "lp_value P ?y \<le> user_value U x"
      using objective_value_shape [OF S U(1), of ?y] U(2) by (auto simp: user_value_def lp_value_def k is_fin_iff)
  qed
qed

subsection \<open>Properties\<close>

text \<open>The example of the witnesses: one row of each kind, a range on the equality row.\<close>

definition ex_user :: "rat user_problem" where
  "ex_user = \<lparr>u_num_rows = 3, u_num_cols = 2, u_objective = [1, 2],
     u_A = \<lparr>csc_nz_max = 4, csc_m = 3, csc_n = 2, col_start = [0, 2, 4], csc_i = [0, 2, 1, 2], csc_x = [1, 1, 1, 1]\<rparr>,
     u_rhs = [1, 5, 3], u_row_sense = ''GLE'', u_lower = [Fin 0, MInf], u_upper = [PInf, Fin 4],
     u_range_rows = [2], u_range_value = [2], u_num_range_rows = 1, u_obj_constant = Fin 0, u_obj_scale = 1,
     u_var_types = [CONTINUOUS, CONTINUOUS]\<rparr>"

lemma ex_user_wf: "user_wf ex_user"
  by code_simp

text \<open>Every feasible point of the converted problem, cut back to the user's variables, is feasible for
  the user problem: bounds, \<open><=\<close>, \<open>>=\<close>, equality and range rows all hold; the objective value is the same.\<close>

theorem uncrush_feasible:
  assumes "user_wf U" "lp_feasible (fst (convert_user_problem uninit U P [])) x"
  shows "user_feasible U (uncrush_primal_solution U x us) \<and>
    objective_value (u_objective U) (uncrush_primal_solution U x us) =
    objective_value (objective (fst (convert_user_problem uninit U P []))) x"
proof -
  note S = convert_user_problem_shape(1) [OF assms(1), of uninit P "[]"]
  have n: "u_num_cols U \<le> length x" using assms(2) S by (simp add: lp_feasible_def conv_shape_def)
  show ?thesis
    using feasible_uncrush [OF assms] objective_value_shape [OF S assms(1) n] by (simp add: uncrush_primal_eq [OF n])
qed

theorem uncrush_feasible_witness:
  "user_feasible ex_user (uncrush_primal_solution ex_user [1, 3, 4, 0, 2, 0] [])"
proof -
  have "lp_feasible (fst (convert_user_problem (0, 0) ex_user (lp_problem_new 0 0 0 1) [])) [1, 3, 4, 0, 2, 0]"
    by code_simp
  from uncrush_feasible [OF ex_user_wf this] show ?thesis by blast
qed

text \<open>C28. Every feasible point of the user problem, crushed into the converted problem with computed slack
  values, is feasible there with the same objective value, and uncrushing it gives the point back.\<close>

theorem crush_feasible:
  assumes "user_wf U" "user_feasible U x" "\<forall>j. u_num_cols U \<le> j \<and> j < length s \<longrightarrow> s ! j = 0"
  shows "let (P', new_slacks) = convert_user_problem uninit U P []; x' = crush_primal_solution U P' x new_slacks s in
    lp_feasible P' x' \<and> uncrush_primal_solution U x' us = x \<and>
    objective_value (objective P') x' = objective_value (u_objective U) x"
proof -
  let ?C = "convert_user_problem uninit U P []"
  let ?x = "x @ map (crushed_slack U x) (slack_list uninit U)"
  note S = convert_user_problem_shape(1) [OF assms(1), of uninit P "[]"]
  have len: "length x = u_num_cols U" using assms(2) by (simp add: user_feasible_def)
  have n: "u_num_cols U \<le> length ?x" using len by simp
  have "crush_primal_solution U (fst ?C) x (snd ?C) s = ?x" by (rule crush_primal_eq [OF assms(1) len assms(3)])
  then show ?thesis
    using feasible_crush [OF assms(1,2), of uninit P "[]"] objective_value_shape [OF S assms(1) n]
      uncrush_primal_eq [OF n, of us] len
    by (simp add: Let_def split_def)
qed

theorem crush_feasible_witness:
  "uncrush_primal_solution ex_user
     (crush_primal_solution ex_user (fst (convert_user_problem (0, 0) ex_user (lp_problem_new 0 0 0 1) []))
        [1, 3] (snd (convert_user_problem (0, 0) ex_user (lp_problem_new 0 0 0 1) [])) []) [] = [1, 3]"
proof -
  have "user_feasible ex_user [1, 3]" by code_simp
  from crush_feasible [OF ex_user_wf this, of "[]" "(0, 0)" "lp_problem_new 0 0 0 1" "[]"]
  show ?thesis by (simp add: Let_def split_def)
qed

text \<open>C31. Crushing a dual solution keeps the multipliers as they are, although the conversion negates the
  \<open>>=\<close> rows and gives range rows a slack with coefficient -1: the dual residual of a user column changes by
  twice the \<open>>=\<close> rows' contribution, and that of a range slack is -2 times its multiplier. The dual equation
  survives exactly when those terms vanish.\<close>

theorem crush_dual_residual:
  assumes "user_wf U" "length y = u_num_rows U" "length z = u_num_cols U"
  shows "let (P', new_slacks) = convert_user_problem uninit U P [];
      (y', z') = crush_dual_solution U P' new_slacks y z y0 z0; res = dual_residual (lp_A P') (objective P') y' z' in
    (\<forall>j<u_num_cols U. res j = dual_residual (u_A U) (u_objective U) y z j
       - 2 * (\<Sum>i<u_num_rows U. if flipped U i then csc_dense (u_A U) i j * y ! i else 0)) \<and>
    (\<forall>k<length (u_range_rows U). res (u_num_cols U + k) = - 2 * y ! (u_range_rows U ! k)) \<and>
    (\<forall>t<length new_slacks. length (u_range_rows U) \<le> t \<longrightarrow> res (u_num_cols U + t) = 0)"
proof -
  let ?C = "convert_user_problem uninit U P []" and ?es = "slack_list uninit U" and ?n = "u_num_cols U"
  let ?D = "\<lambda>r c. if flipped U r then - csc_dense (u_A U) r c else csc_dense (u_A U) r c"
  note S = convert_user_problem_shape(1) [OF assms(1), of uninit P "[]"]
  have es: "\<forall>e \<in> set ?es. fst e < u_num_rows U" by (rule slack_list_rows [OF assms(1)])
  note D = dual_residual_shape [OF S assms(1) es assms(3), of _ y]
  have "(\<Sum>i<u_num_rows U. ?D i j * y ! i) = (\<Sum>i<u_num_rows U. csc_dense (u_A U) i j * y ! i)
      - 2 * (\<Sum>i<u_num_rows U. if flipped U i then csc_dense (u_A U) i j * y ! i else 0)" for j
    unfolding sum_distrib_left sum_subtractf [symmetric] by (intro sum.cong) auto
  moreover have "csc_m (u_A U) = u_num_rows U" using assms(1) by (simp add: user_wf_def)
  moreover have "(fst (snd (?es ! t)) - 1) * y ! fst (?es ! t) = 0" if "length (u_range_rows U) \<le> t" "t < length ?es" for t
    using that by (auto simp: slack_list_def nth_append)
  moreover have "(fst (snd (?es ! k)) - 1) * y ! fst (?es ! k) = - 2 * y ! (u_range_rows U ! k)"
    if "k < length (u_range_rows U)" for k
    using that by (simp add: slack_list_nth(1) range_slack_sel)
  moreover have "k < length ?es" if "k < length (u_range_rows U)" for k
    using that by (simp add: length_slack_list)
  moreover have "length (snd ?C) = length ?es"
    using convert_user_problem_shape(2) [OF assms(1), of uninit P "[]"] by simp
  ultimately show ?thesis
    using D crush_dual_eq [OF assms, of uninit P y0 z0]
    by (simp add: Let_def split_def dual_residual_def [of "u_A U"])
qed

theorem crush_dual_residual_witness:
  "dual_residual (lp_A (fst (convert_user_problem (0, 0) ex_user (lp_problem_new 0 0 0 1) [])))
     (objective (fst (convert_user_problem (0, 0) ex_user (lp_problem_new 0 0 0 1) [])))
     (fst (crush_dual_solution ex_user (fst (convert_user_problem (0, 0) ex_user (lp_problem_new 0 0 0 1) []))
        (snd (convert_user_problem (0, 0) ex_user (lp_problem_new 0 0 0 1) [])) [1, 0, 0] [0, 2] [] []))
     (snd (crush_dual_solution ex_user (fst (convert_user_problem (0, 0) ex_user (lp_problem_new 0 0 0 1) []))
        (snd (convert_user_problem (0, 0) ex_user (lp_problem_new 0 0 0 1) [])) [1, 0, 0] [0, 2] [] [])) 0 = - 2"
proof -
  have "length [1, 0, 0 :: rat] = u_num_rows ex_user" "length [0, 2 :: rat] = u_num_cols ex_user" by code_simp+
  from crush_dual_residual [OF ex_user_wf this, of "(0, 0)" "lp_problem_new 0 0 0 1" "[]" "[]"]
  have "\<forall>j<u_num_cols ex_user.
    dual_residual (lp_A (fst (convert_user_problem (0, 0) ex_user (lp_problem_new 0 0 0 1) [])))
     (objective (fst (convert_user_problem (0, 0) ex_user (lp_problem_new 0 0 0 1) [])))
     (fst (crush_dual_solution ex_user (fst (convert_user_problem (0, 0) ex_user (lp_problem_new 0 0 0 1) []))
        (snd (convert_user_problem (0, 0) ex_user (lp_problem_new 0 0 0 1) [])) [1, 0, 0] [0, 2] [] []))
     (snd (crush_dual_solution ex_user (fst (convert_user_problem (0, 0) ex_user (lp_problem_new 0 0 0 1) []))
        (snd (convert_user_problem (0, 0) ex_user (lp_problem_new 0 0 0 1) [])) [1, 0, 0] [0, 2] [] [])) j
     = dual_residual (u_A ex_user) (u_objective ex_user) [1, 0, 0] [0, 2] j
       - 2 * (\<Sum>i<u_num_rows ex_user. if flipped ex_user i then csc_dense (u_A ex_user) i j * [1, 0, 0] ! i else 0)"
    by (simp add: Let_def split_def)
  moreover have "0 < u_num_cols ex_user" "dual_residual (u_A ex_user) (u_objective ex_user) [1, 0, 0] [0, 2] 0 = 0"
    "(\<Sum>i<u_num_rows ex_user. if flipped ex_user i then csc_dense (u_A ex_user) i 0 * [1, 0, 0] ! i else 0) = 1"
    by code_simp+
  ultimately show ?thesis by simp
qed

end
