(* ===== verification/Presolve.thy ===== *)
theory Presolve
  imports Lp_Crush Sparse_Assemble
begin

text \<open>
  The presolve of the dual simplex solver (\<open>presolve.cpp\<close>): removal of empty rows and of empty
  columns, the record of what was removed, and \<open>uncrush_solution\<close>, which puts the removed variables
  back. \<open>lp_optimal\<close> states what a solution is; presolve preserves it. The return code of the helpers
  is an integer as in the code. The checks disabled at compile time (\<open>check_dependent_rows\<close>) are modelled
  as the functions they are; \<open>presolve\<close> does not call them.
\<close>

subsection \<open>Definitions\<close>

definition presolve_info_new :: "'f presolve_info" where
  "presolve_info_new = \<lparr>remaining_variables = [], removed_variables = [], removed_values = [], removed_reduced_costs = []\<rparr>"

definition remove_empty_cols ::
  "('f :: linordered_idom) lp_problem \<Rightarrow> int \<Rightarrow> 'f presolve_info \<Rightarrow> 'f lp_problem \<times> int \<times> 'f presolve_info" where
  "remove_empty_cols P num_empty_cols info =
     (let A = lp_A P;
          (col_marker, new_cols, oc, info) = for_range 0 (num_cols P)
            (\<lambda>j (col_marker, new_cols, oc, info).
               if col_start A ! Suc j - col_start A ! j = 0 then
                 let info = info\<lparr>removed_variables := removed_variables info @ [j],
                                 removed_reduced_costs := removed_reduced_costs info @ [Fin (objective P ! j)]\<rparr>;
                     bound = (if objective P ! j \<ge> 0 then lower P ! j else upper P ! j)
                 in (col_marker[j := 1], new_cols, oc + Fin (objective P ! j) * bound,
                     info\<lparr>removed_values := removed_values info @ [bound]\<rparr>)
               else (col_marker[j := 0], new_cols + 1, oc, info))
            (replicate (num_cols P) 0, 0, obj_constant P, info);
          A = remove_columns col_marker A;
          (new_j, obj, lo, up, remaining, num_empty_cols) = for_range 0 (num_cols P)
            (\<lambda>j (new_j, obj, lo, up, remaining, num_empty_cols).
               if col_marker ! j = 0
               then (new_j + 1, obj[new_j := objective P ! j], lo[new_j := lower P ! j], up[new_j := upper P ! j],
                     remaining @ [j], num_empty_cols)
               else (new_j, obj, lo, up, remaining, num_empty_cols - 1))
            (0, replicate new_cols 0, replicate new_cols MInf, replicate new_cols PInf,
             remaining_variables info, num_empty_cols)
      in (P\<lparr>lp_A := A, obj_constant := oc, objective := obj, lower := lo, upper := up, num_cols := new_cols\<rparr>,
          num_empty_cols, info\<lparr>remaining_variables := remaining\<rparr>))"

definition lp_remove_rows ::
  "('f :: linordered_idom) lp_problem \<Rightarrow> char list \<Rightarrow> 'f csr_matrix \<Rightarrow> idx list \<Rightarrow> int \<times> 'f lp_problem" where
  "lp_remove_rows P row_sense Arow row_marker =
     (let Aout = remove_rows row_marker Arow csr_new; new_rows = csr_m Aout;
          res = for_range 0 (num_rows P) (\<lambda>i res. case res of Inl e \<Rightarrow> Inl e
            | Inr (row_count, new_row_sense, new_rhs) \<Rightarrow>
                if row_marker ! i = 0
                then Inr (row_count + 1, new_row_sense[row_count := row_sense ! i], new_rhs[row_count := rhs P ! i])
                else if rhs P ! i \<noteq> 0 then Inl (int i + 1)
                else Inr (row_count, new_row_sense, new_rhs))
            (Inr (0, replicate new_rows (CHR 0x00), replicate new_rows 0))
      in case res of Inl e \<Rightarrow> (e, P)
         | Inr (row_count, new_row_sense, new_rhs) \<Rightarrow>
             (let A = to_compressed_col Aout (lp_A P) in (0, P\<lparr>rhs := new_rhs, lp_A := A, num_rows := csc_m A\<rparr>)))"

definition remove_empty_rows :: "('f :: linordered_idom) lp_problem \<Rightarrow> char list \<Rightarrow> int \<times> 'f lp_problem" where
  "remove_empty_rows P row_sense =
     (let Arow = to_compressed_row (lp_A P) csr_new;
          row_marker = for_range 0 (num_rows P)
            (\<lambda>i m. m[i := if row_start Arow ! Suc i - row_start Arow ! i = 0 then 1 else 0])
            (replicate (num_rows P) 0)
      in lp_remove_rows P row_sense Arow row_marker)"

definition remove_fixed_variables ::
  "'f \<Rightarrow> ('f :: linordered_idom) lp_problem \<Rightarrow> int \<Rightarrow> 'f lp_problem \<times> int" where
  "remove_fixed_variables fixed_tolerance P fixed_variables =
     (let A = lp_A P;
          (col_marker, b, oc) = for_range 0 (num_cols P)
            (\<lambda>j (col_marker, b, oc).
               if \<bar>upper P ! j - lower P ! j\<bar> < Fin fixed_tolerance
               then (col_marker[j := 1],
                     for_range (col_start A ! j) (col_start A ! Suc j)
                       (\<lambda>p b. b[csc_i A ! p := b ! (csc_i A ! p) - csc_x A ! p * fin_part (lower P ! j)]) b,
                     oc + Fin (objective P ! j) * lower P ! j)
               else (col_marker[j := 0], b, oc))
            (replicate (num_cols P) 0, rhs P, obj_constant P);
          A = remove_columns col_marker A; new_cols = csc_n A;
          (new_j, obj, lo, up, fixed_variables) = for_range 0 (num_cols P)
            (\<lambda>j (new_j, obj, lo, up, fixed_variables).
               if col_marker ! j = 0
               then (new_j + 1, obj[new_j := objective P ! j], lo[new_j := lower P ! j], up[new_j := upper P ! j],
                     fixed_variables - 1)
               else (new_j, obj, lo, up, fixed_variables))
            (0, replicate new_cols 0, replicate new_cols 0, replicate new_cols 0, fixed_variables)
      in (P\<lparr>lp_A := A, rhs := b, obj_constant := oc, objective := obj, lower := lo, upper := up, num_cols := new_cols\<rparr>,
          fixed_variables))"

definition presolve :: "('f :: linordered_idom) lp_problem \<Rightarrow> 'f presolve_info \<Rightarrow> int \<times> 'f lp_problem \<times> 'f presolve_info" where
  "presolve original info =
     (let P = original; row_sense = replicate (num_rows P) (CHR ''='');
          num_empty_rows = (let Arow = to_compressed_row (lp_A P) csr_new in
            for_range 0 (num_rows P)
              (\<lambda>i c. if row_start Arow ! Suc i - row_start Arow ! i = 0 then c + 1 else c) (0 :: nat));
          (ret, P) = (if num_empty_rows > 0 then remove_empty_rows P row_sense else (0, P))
      in if ret \<noteq> 0 then (-1, P, info)
         else let num_empty_cols = for_range 0 (num_cols P)
                    (\<lambda>j c. if col_start (lp_A P) ! Suc j - col_start (lp_A P) ! j = 0 then c + 1 else c) (0 :: int)
              in if num_empty_cols > 0
                 then (let (P, _, info) = remove_empty_cols P num_empty_cols info in (0, P, info))
                 else (0, P, info))"

definition uncrush_solution ::
  "('f :: linordered_idom) presolve_info \<Rightarrow> 'f ext vec \<Rightarrow> 'f ext vec \<Rightarrow> 'f ext vec \<Rightarrow> 'f ext vec \<Rightarrow> 'f ext vec \<times> 'f ext vec" where
  "uncrush_solution info crushed_x crushed_z x z =
     (if length (removed_variables info) = 0 then (crushed_x, crushed_z)
      else let n = length (removed_variables info) + length (remaining_variables info);
               x = resize n 0 x; z = resize n 0 z;
               (k, x, z) = fold (\<lambda>j (k, x, z). (k + 1, x[j := crushed_x ! k], z[j := crushed_z ! k]))
                 (remaining_variables info) (0, x, z);
               (k, x, z) = fold (\<lambda>j (k, x, z).
                   (k + 1, x[j := removed_values info ! k], z[j := removed_reduced_costs info ! k]))
                 (removed_variables info) (0 :: nat, x, z)
           in (x, z))"

subsection \<open>Kept and removed indices\<close>

definition dropped :: "idx list \<Rightarrow> idx \<Rightarrow> idx list" where
  "dropped marker n = filter (\<lambda>j. marker ! j \<noteq> 0) [0..<n]"

lemma kept_facts: "distinct (kept marker n)" "set (kept marker n) = {j. j < n \<and> marker ! j = 0}"
  "distinct (dropped marker n)" "set (dropped marker n) = {j. j < n \<and> marker ! j \<noteq> 0}"
  by (auto simp: kept_def dropped_def)

lemma kept_dropped_length: "length (kept marker n) + length (dropped marker n) = n"
  using sum_length_filter_compl [of "\<lambda>j. marker ! j = 0" "[0..<n]"] by (simp add: kept_def dropped_def)

lemma sum_kept:
  fixes f :: "nat \<Rightarrow> 'f :: comm_monoid_add"
  shows "(\<Sum>j<n. f j) = (\<Sum>k<length (kept marker n). f (kept marker n ! k)) + (\<Sum>k<length (dropped marker n). f (dropped marker n ! k))"
proof -
  have l: "(\<Sum>k<length xs. f (xs ! k)) = sum_list (map f xs)" for xs
    by (simp add: sum_list_sum_nth atLeast0LessThan)
  have "(\<Sum>j<n. f j) = sum_list (map f [0..<n])" using l [of "[0..<n]"] by simp
  also have "\<dots> = sum_list (map f (kept marker n)) + sum_list (map f (dropped marker n))"
    unfolding kept_def dropped_def by (induction n) (auto simp: add_ac)
  finally show ?thesis by (simp add: l)
qed

lemma sum_kept_zero:
  fixes f :: "nat \<Rightarrow> 'f :: comm_monoid_add"
  assumes "\<And>j. j < n \<Longrightarrow> marker ! j \<noteq> 0 \<Longrightarrow> f j = 0"
  shows "(\<Sum>j<n. f j) = (\<Sum>k<length (kept marker n). f (kept marker n ! k))"
proof -
  have "(\<Sum>k<length (dropped marker n). f (dropped marker n ! k)) = 0"
    using assms kept_facts(4) [of marker n] nth_mem [of _ "dropped marker n"] by (intro sum.neutral) auto
  then show ?thesis using sum_kept [of f n marker] by simp
qed

subsection \<open>Removing rows\<close>

lemma remove_rows_loop:
  fixes b :: "('f :: linordered_idom) vec"
  assumes "length (kept marker t) \<le> length r0"
  shows "case for_range 0 t (\<lambda>i res. case res of Inl e \<Rightarrow> Inl e
            | Inr (row_count, new_row_sense, new_rhs) \<Rightarrow>
                if marker ! i = 0
                then Inr (row_count + 1, new_row_sense[row_count := s ! i], new_rhs[row_count := b ! i])
                else if b ! i \<noteq> 0 then Inl (int i + 1)
                else Inr (row_count, new_row_sense, new_rhs)) (Inr (0, s0, r0)) of
      Inl e \<Rightarrow> e > 0 \<and> (\<exists>i<t. marker ! i \<noteq> 0 \<and> b ! i \<noteq> 0)
    | Inr (row_count, new_row_sense, new_rhs) \<Rightarrow> (\<forall>i<t. marker ! i \<noteq> 0 \<longrightarrow> b ! i = 0) \<and>
        row_count = length (kept marker t) \<and> new_rhs = overwrite 0 (map ((!) b) (kept marker t)) r0"
  using assms
proof (induction t)
  case 0
  then show ?case by (simp add: kept_def)
next
  case (Suc t)
  have "length (kept marker t) \<le> length r0" using Suc.prems by (auto simp: kept_Suc split: if_splits)
  note IH = Suc.IH [OF this]
  show ?case
    using IH Suc.prems
    by (auto simp: kept_Suc less_Suc_eq overwrite_snoc split: sum.splits prod.splits if_splits)
qed

lemma lp_remove_rows_spec:
  assumes wf: "lp_wf P"
  defines "R \<equiv> to_compressed_row (lp_A P) csr_new"
  shows "\<exists>i<num_rows P. marker ! i \<noteq> 0 \<and> rhs P ! i \<noteq> 0 \<Longrightarrow> fst (lp_remove_rows P s R marker) > 0"
    and "\<forall>i<num_rows P. marker ! i \<noteq> 0 \<longrightarrow> rhs P ! i = 0 \<Longrightarrow> \<exists>A.
      lp_remove_rows P s R marker = (0, P\<lparr>rhs := map ((!) (rhs P)) (kept marker (num_rows P)), lp_A := A,
        num_rows := length (kept marker (num_rows P))\<rparr>) \<and>
      csc_wf A \<and> csc_m A = length (kept marker (num_rows P)) \<and> csc_n A = num_cols P \<and>
      (\<forall>k<length (kept marker (num_rows P)). \<forall>c<num_cols P. csc_dense A k c = csc_dense (lp_A P) (kept marker (num_rows P) ! k) c)"
proof -
  let ?m = "num_rows P" and ?ks = "kept marker (num_rows P)"
  let ?Aout = "remove_rows marker R csr_new"
  have A: "csc_wf (lp_A P)" "csc_m (lp_A P) = ?m" "csc_n (lp_A P) = num_cols P" using wf by (auto simp: lp_wf_def)
  have R: "csr_wf R" "csr_m R = ?m" "csr_n R = num_cols P"
    unfolding R_def using csc_csr.conv_wf [OF A(1)] A by simp_all
  note o = remove_rows_spec [OF R(1), where marker = marker and B = csr_new, unfolded R]
  note loop = remove_rows_loop [where marker = marker and t = ?m and ?r0.0 = "replicate (length ?ks) 0" and s = s
      and b = "rhs P" and ?s0.0 = "replicate (length ?ks) (CHR 0x00)"]
  define res where "res = for_range 0 ?m (\<lambda>i res. case res of Inl e \<Rightarrow> Inl e
            | Inr (row_count, new_row_sense, new_rhs) \<Rightarrow>
                if marker ! i = 0
                then Inr (row_count + 1, new_row_sense[row_count := s ! i], new_rhs[row_count := rhs P ! i])
                else if rhs P ! i \<noteq> 0 then Inl (int i + 1)
                else Inr (row_count, new_row_sense, new_rhs))
       (Inr (0, replicate (length ?ks) (CHR 0x00), replicate (length ?ks) 0))"
  have L: "lp_remove_rows P s R marker = (case res of Inl e \<Rightarrow> (e, P)
         | Inr (row_count, new_row_sense, new_rhs) \<Rightarrow>
             (0, P\<lparr>rhs := new_rhs, lp_A := to_compressed_col ?Aout (lp_A P),
                   num_rows := csc_m (to_compressed_col ?Aout (lp_A P))\<rparr>))"
    unfolding lp_remove_rows_def Let_def o(2) res_def ..
  have res: "case res of Inl e \<Rightarrow> e > 0 \<and> (\<exists>i<?m. marker ! i \<noteq> 0 \<and> rhs P ! i \<noteq> 0)
    | Inr (row_count, new_row_sense, new_rhs) \<Rightarrow> (\<forall>i<?m. marker ! i \<noteq> 0 \<longrightarrow> rhs P ! i = 0) \<and>
        row_count = length ?ks \<and> new_rhs = overwrite 0 (map ((!) (rhs P)) ?ks) (replicate (length ?ks) 0)"
    unfolding res_def by (rule loop) simp
  show "fst (lp_remove_rows P s R marker) > 0" if "\<exists>i<?m. marker ! i \<noteq> 0 \<and> rhs P ! i \<noteq> 0"
    using res that by (auto simp: L split: sum.splits prod.splits)
  show "\<exists>A. lp_remove_rows P s R marker = (0, P\<lparr>rhs := map ((!) (rhs P)) ?ks, lp_A := A, num_rows := length ?ks\<rparr>) \<and>
      csc_wf A \<and> csc_m A = length ?ks \<and> csc_n A = num_cols P \<and>
      (\<forall>k<length ?ks. \<forall>c<num_cols P. csc_dense A k c = csc_dense (lp_A P) (?ks ! k) c)"
    if "\<forall>i<?m. marker ! i \<noteq> 0 \<longrightarrow> rhs P ! i = 0"
  proof (intro exI conjI allI impI)
    let ?A = "to_compressed_col ?Aout (lp_A P)"
    show "csc_wf ?A" "csc_m ?A = length ?ks" "csc_n ?A = num_cols P"
      using csr_csc.conv_wf [OF o(1)] o(2,3) by simp_all
    then show "lp_remove_rows P s R marker = (0, P\<lparr>rhs := map ((!) (rhs P)) ?ks, lp_A := ?A, num_rows := length ?ks\<rparr>)"
      using res that by (auto simp: L overwrite_def split: sum.splits prod.splits)
    fix k c assume kc: "k < length ?ks" "c < num_cols P"
    have km: "?ks ! k < ?m" using kept_less kc(1) by blast
    have "csc_dense ?A k c = lane_sum (csr_row ?Aout k) c"
      using csr_csc.conv_sum [OF o(1), of c k "lp_A P"] kc o(2,3) by (simp add: csc_dense_def)
    also have "\<dots> = lane_sum (csr_row R (?ks ! k)) c" using o(4) [OF kc(1)] by simp
    also have "\<dots> = csc_dense (lp_A P) (?ks ! k) c"
      unfolding R_def using csc_csr.conv_sum [OF A(1), of "?ks ! k" c csr_new] km kc(2) A by (simp add: csc_dense_def)
    finally show "csc_dense ?A k c = csc_dense (lp_A P) (?ks ! k) c" .
  qed
qed

definition col_empty :: "'f lp_problem \<Rightarrow> idx \<Rightarrow> bool" where
  "col_empty P j \<longleftrightarrow> csc_col (lp_A P) j = []"

definition row_empty :: "'f lp_problem \<Rightarrow> idx \<Rightarrow> bool" where
  "row_empty P i \<longleftrightarrow> (\<forall>c<num_cols P. \<forall>e \<in> set (csc_col (lp_A P) c). fst e \<noteq> i)"

definition empty_row_marker :: "('f :: linordered_idom) lp_problem \<Rightarrow> idx list" where
  "empty_row_marker P = map (\<lambda>i. if row_empty P i then 1 else 0) [0..<num_rows P]"

lemma row_empty_csr:
  fixes P :: "('f :: linordered_idom) lp_problem"
  assumes "lp_wf P" "i < num_rows P"
  defines "R \<equiv> to_compressed_row (lp_A P) csr_new"
  shows "row_start R ! Suc i - row_start R ! i = 0 \<longleftrightarrow> row_empty P i"
proof -
  have A: "csc_wf (lp_A P)" "csc_m (lp_A P) = num_rows P" "csc_n (lp_A P) = num_cols P"
    using assms(1) by (auto simp: lp_wf_def)
  have "csr_row R i = concat (map (\<lambda>c. map (\<lambda>e. (c, snd e)) (filter (\<lambda>e. fst e = i) (csc_col (lp_A P) c))) [0..<num_cols P])"
    unfolding R_def using csc_csr.conv_lane_concat [OF A(1), of i csr_new] assms(2) A by simp
  then have "csr_row R i = [] \<longleftrightarrow> row_empty P i"
    by (auto simp: row_empty_def filter_empty_conv)
  then show ?thesis using length_lane [of "row_start R" "csr_j R" "csr_x R" i] by (metis length_0_conv)
qed

lemma row_empty_dense: "row_empty P i \<Longrightarrow> c < num_cols P \<Longrightarrow> csc_dense (lp_A P) i c = 0"
  unfolding csc_dense_def by (intro lane_sum_none) (auto simp: row_empty_def)

lemma row_empty_activity:
  assumes "lp_wf P" "row_empty P i"
  shows "activity (lp_A P) x i = 0"
proof -
  have "csc_n (lp_A P) = num_cols P" using assms(1) by (simp add: lp_wf_def)
  then show ?thesis by (simp add: activity_def row_empty_dense [OF assms(2)])
qed

lemma remove_empty_rows_spec:
  assumes wf: "lp_wf P"
  shows "\<exists>i<num_rows P. row_empty P i \<and> rhs P ! i \<noteq> 0 \<Longrightarrow> fst (remove_empty_rows P s) > 0"
    and "\<forall>i<num_rows P. row_empty P i \<longrightarrow> rhs P ! i = 0 \<Longrightarrow> \<exists>P'. remove_empty_rows P s = (0, P') \<and>
      lp_wf P' \<and> num_cols P' = num_cols P \<and> lower P' = lower P \<and> upper P' = upper P \<and>
      objective P' = objective P \<and> obj_constant P' = obj_constant P \<and> (\<forall>x. lp_feasible P' x \<longleftrightarrow> lp_feasible P x) \<and>
      (\<forall>j<num_cols P. col_empty P' j \<longrightarrow> (\<forall>i<num_rows P. csc_dense (lp_A P) i j = 0))"
proof -
  let ?mk = "empty_row_marker P" and ?m = "num_rows P"
  let ?ks = "kept ?mk ?m"
  let ?R = "to_compressed_row (lp_A P) csr_new"
  have "for_range 0 ?m (\<lambda>i m. m[i := if row_start ?R ! Suc i - row_start ?R ! i = 0 then 1 else 0]) (replicate ?m 0)
      = map (\<lambda>i. if row_start ?R ! Suc i - row_start ?R ! i = 0 then 1 else 0) [0..<?m]"
    using for_range_map_update [of ?m "replicate ?m 0" "\<lambda>i _. if row_start ?R ! Suc i - row_start ?R ! i = 0 then 1 else 0"]
    by simp
  also have "\<dots> = ?mk"
    unfolding empty_row_marker_def using row_empty_csr [OF wf] by (intro map_cong) auto
  finally have E: "remove_empty_rows P s = lp_remove_rows P s ?R ?mk"
    by (simp add: remove_empty_rows_def Let_def)
  have mk: "?mk ! i \<noteq> 0 \<longleftrightarrow> row_empty P i" if "i < ?m" for i using that by (simp add: empty_row_marker_def)
  note sp = lp_remove_rows_spec [OF wf, of ?mk s, folded E]
  show "fst (remove_empty_rows P s) > 0" if "\<exists>i<?m. row_empty P i \<and> rhs P ! i \<noteq> 0"
    using sp(1) that mk by blast
  assume z: "\<forall>i<?m. row_empty P i \<longrightarrow> rhs P ! i = 0"
  then obtain A where A: "remove_empty_rows P s = (0, P\<lparr>rhs := map ((!) (rhs P)) ?ks, lp_A := A, num_rows := length ?ks\<rparr>)"
    "csc_wf A" "csc_m A = length ?ks" "csc_n A = num_cols P"
    "\<forall>k<length ?ks. \<forall>c<num_cols P. csc_dense A k c = csc_dense (lp_A P) (?ks ! k) c"
    using sp(2) mk by blast
  let ?P = "P\<lparr>rhs := map ((!) (rhs P)) ?ks, lp_A := A, num_rows := length ?ks\<rparr>"
  have n: "csc_n (lp_A P) = num_cols P" using wf by (simp add: lp_wf_def)
  have act: "activity A x k = activity (lp_A P) x (?ks ! k)" if "k < length ?ks" for x k
    unfolding activity_def n A(4) using A(5) that by (intro sum.cong) auto
  have "(\<forall>k<length ?ks. activity A x k = rhs P ! (?ks ! k)) \<longleftrightarrow> (\<forall>i<?m. activity (lp_A P) x i = rhs P ! i)" for x
  proof
    assume k: "\<forall>k<length ?ks. activity A x k = rhs P ! (?ks ! k)"
    show "\<forall>i<?m. activity (lp_A P) x i = rhs P ! i"
    proof (intro allI impI)
      fix i assume i: "i < ?m"
      show "activity (lp_A P) x i = rhs P ! i"
      proof (cases "row_empty P i")
        case True
        then show ?thesis using row_empty_activity [OF wf] z i by simp
      next
        case False
        then have "i \<in> set ?ks" using mk [OF i] i kept_facts(2) by simp
        then show ?thesis using k act by (auto simp: in_set_conv_nth)
      qed
    qed
  qed (use act kept_less in auto)
  then have "lp_feasible ?P x \<longleftrightarrow> lp_feasible P x" for x
    by (simp add: lp_feasible_def)
  moreover have "lp_wf ?P" using wf A(2-4) by (simp add: lp_wf_def)
  moreover have "csc_dense (lp_A P) i j = 0" if "j < num_cols P" "col_empty ?P j" "i < ?m" for i j
  proof (cases "row_empty P i")
    case False
    then have "?mk ! i = 0" using mk [OF that(3)] by simp
    then have "i \<in> set ?ks" using that(3) by (simp only: kept_facts mem_Collect_eq simp_thms)
    then obtain k where k: "k < length ?ks" "?ks ! k = i" by (auto simp: in_set_conv_nth)
    have "csc_dense A k j = 0" using that(2) by (simp add: csc_dense_def col_empty_def)
    then show ?thesis using A(5) [rule_format, OF k(1) that(1)] k(2) by simp
  qed (use row_empty_dense that(1) in blast)
  ultimately show "\<exists>P'. remove_empty_rows P s = (0, P') \<and>
      lp_wf P' \<and> num_cols P' = num_cols P \<and> lower P' = lower P \<and> upper P' = upper P \<and>
      objective P' = objective P \<and> obj_constant P' = obj_constant P \<and> (\<forall>x. lp_feasible P' x \<longleftrightarrow> lp_feasible P x) \<and>
      (\<forall>j<num_cols P. col_empty P' j \<longrightarrow> (\<forall>i<num_rows P. csc_dense (lp_A P) i j = 0))"
    using A(1) by (intro exI [of _ ?P]) simp
qed

subsection \<open>Removing columns\<close>

definition empty_col_marker :: "'f lp_problem \<Rightarrow> idx list" where
  "empty_col_marker P = map (\<lambda>j. if col_empty P j then 1 else 0) [0..<num_cols P]"

definition empty_cost_bound :: "('f :: linordered_idom) lp_problem \<Rightarrow> idx \<Rightarrow> 'f ext" where
  "empty_cost_bound P j = (if objective P ! j \<ge> 0 then lower P ! j else upper P ! j)"

definition removed_cost :: "('f :: linordered_idom) lp_problem \<Rightarrow> idx list \<Rightarrow> 'f ext" where
  "removed_cost P js = fold (\<lambda>j oc. oc + Fin (objective P ! j) * empty_cost_bound P j) js (obj_constant P)"

lemma col_empty_start: "col_start (lp_A P) ! Suc j - col_start (lp_A P) ! j = 0 \<longleftrightarrow> col_empty P j"
  by (metis col_empty_def length_0_conv length_lane)

lemma mark_empty_cols:
  fixes P :: "('f :: linordered_idom) lp_problem"
  assumes "t \<le> num_cols P"
  shows "for_range 0 t (\<lambda>j (col_marker, new_cols, oc, info).
      if col_start (lp_A P) ! Suc j - col_start (lp_A P) ! j = 0 then
        let info = info\<lparr>removed_variables := removed_variables info @ [j],
                        removed_reduced_costs := removed_reduced_costs info @ [Fin (objective P ! j)]\<rparr>;
            bound = (if objective P ! j \<ge> 0 then lower P ! j else upper P ! j)
        in (col_marker[j := 1], new_cols, oc + Fin (objective P ! j) * bound,
            info\<lparr>removed_values := removed_values info @ [bound]\<rparr>)
      else (col_marker[j := 0], new_cols + 1, oc, info))
     (replicate (num_cols P) (0 :: idx), 0, obj_constant P, info)
   = (map (\<lambda>j. if j < t \<and> col_empty P j then 1 else 0) [0..<num_cols P],
      length (kept (empty_col_marker P) t), removed_cost P (dropped (empty_col_marker P) t),
      info\<lparr>removed_variables := removed_variables info @ dropped (empty_col_marker P) t,
           removed_reduced_costs := removed_reduced_costs info @ map (\<lambda>j. Fin (objective P ! j)) (dropped (empty_col_marker P) t),
           removed_values := removed_values info @ map (empty_cost_bound P) (dropped (empty_col_marker P) t)\<rparr>)"
  using assms
proof (induction t)
  case 0
  then show ?case by (auto simp: kept_def dropped_def removed_cost_def intro!: nth_equalityI)
next
  case (Suc t)
  have mk: "empty_col_marker P ! t = (if col_empty P t then 1 else 0)"
    using Suc.prems by (simp add: empty_col_marker_def)
  have d: "dropped (empty_col_marker P) (Suc t) = (if col_empty P t then dropped (empty_col_marker P) t @ [t]
      else dropped (empty_col_marker P) t)" by (simp add: dropped_def mk)
  have k: "kept (empty_col_marker P) (Suc t) = (if col_empty P t then kept (empty_col_marker P) t
      else kept (empty_col_marker P) t @ [t])" by (simp add: kept_Suc mk)
  have m: "(map (\<lambda>j. if j < t \<and> col_empty P j then 1 else 0) [0..<num_cols P])[t := if col_empty P t then 1 else 0]
      = map (\<lambda>j. if j < Suc t \<and> col_empty P j then 1 else (0 :: idx)) [0..<num_cols P]"
  proof (rule nth_equalityI)
    fix i
    assume "i < length ((map (\<lambda>j. if j < t \<and> col_empty P j then 1 else (0 :: idx)) [0..<num_cols P])
      [t := if col_empty P t then 1 else 0])"
    then show "(map (\<lambda>j. if j < t \<and> col_empty P j then 1 else (0 :: idx)) [0..<num_cols P])
      [t := if col_empty P t then 1 else 0] ! i
      = map (\<lambda>j. if j < Suc t \<and> col_empty P j then 1 else (0 :: idx)) [0..<num_cols P] ! i"
      by (cases "i = t") (auto simp: less_Suc_eq)
  qed simp
  have b: "(if objective P ! t \<ge> 0 then lower P ! t else upper P ! t) = empty_cost_bound P t"
    by (simp add: empty_cost_bound_def)
  show ?case
  proof (cases "col_empty P t")
    case True
    show ?thesis
      unfolding for_range_Suc [OF le0] Suc.IH [OF Suc_leD [OF Suc.prems]]
      unfolding col_empty_start b Let_def prod.case d k
      using True m [unfolded if_P [OF True]] by (simp add: removed_cost_def)
  next
    case False
    show ?thesis
      unfolding for_range_Suc [OF le0] Suc.IH [OF Suc_leD [OF Suc.prems]]
      unfolding col_empty_start b Let_def prod.case d k
      using False m [unfolded if_not_P [OF False]] by (simp add: removed_cost_def)
  qed
qed

lemma keep_loop:
  fixes P :: "('f :: linordered_idom) lp_problem"
  assumes "length (kept marker t) \<le> n"
  shows "for_range 0 t
            (\<lambda>j (new_j, obj, lo, up, remaining, num_empty_cols).
               if marker ! j = 0
               then (new_j + 1, obj[new_j := objective P ! j], lo[new_j := lower P ! j], up[new_j := upper P ! j],
                     remaining @ [j], num_empty_cols)
               else (new_j, obj, lo, up, remaining, num_empty_cols - 1))
            (0, replicate n o0, replicate n l0, replicate n u0, r0, c :: int)
   = (length (kept marker t), overwrite 0 (map ((!) (objective P)) (kept marker t)) (replicate n o0),
      overwrite 0 (map ((!) (lower P)) (kept marker t)) (replicate n l0),
      overwrite 0 (map ((!) (upper P)) (kept marker t)) (replicate n u0),
      r0 @ kept marker t, c - int (length (dropped marker t)))"
  using assms
proof (induction t)
  case 0
  then show ?case by (simp add: kept_def dropped_def)
next
  case (Suc t)
  have le: "length (kept marker t) \<le> n" using Suc.prems by (auto simp: kept_Suc split: if_splits)
  have d: "dropped marker (Suc t) = (if marker ! t = 0 then dropped marker t else dropped marker t @ [t])"
    by (simp add: dropped_def)
  show ?case
    unfolding for_range_Suc [OF le0] Suc.IH [OF le]
    using Suc.prems by (cases "marker ! t = 0") (simp_all add: kept_Suc d overwrite_snoc)
qed

lemma overwrite_replicate: "overwrite 0 zs (replicate (length zs) d) = zs"
  by (simp add: overwrite_def)

text \<open>What the column removal returns: the kept columns in order, and the record of the others.\<close>

lemma remove_empty_cols_spec:
  fixes P :: "('f :: linordered_idom) lp_problem"
  defines "ks \<equiv> kept (empty_col_marker P) (num_cols P)" and "ds \<equiv> dropped (empty_col_marker P) (num_cols P)"
  shows "remove_empty_cols P c info =
    (P\<lparr>lp_A := remove_columns (empty_col_marker P) (lp_A P), obj_constant := removed_cost P ds,
       objective := map ((!) (objective P)) ks, lower := map ((!) (lower P)) ks, upper := map ((!) (upper P)) ks,
       num_cols := length ks\<rparr>, c - int (length ds),
     info\<lparr>removed_variables := removed_variables info @ ds,
          removed_reduced_costs := removed_reduced_costs info @ map (\<lambda>j. Fin (objective P ! j)) ds,
          removed_values := removed_values info @ map (empty_cost_bound P) ds,
          remaining_variables := remaining_variables info @ ks\<rparr>)"
proof -
  have mk: "map (\<lambda>j. if j < num_cols P \<and> col_empty P j then 1 else 0) [0..<num_cols P] = empty_col_marker P"
    by (auto simp: empty_col_marker_def)
  have ov: "overwrite 0 (map f ks) (replicate (length ks) d) = map f ks" for f :: "nat \<Rightarrow> 'b" and d
    using overwrite_replicate [of "map f ks" d] by simp
  show ?thesis
    unfolding remove_empty_cols_def Let_def
    unfolding mark_empty_cols [OF order_refl, unfolded Let_def] prod.case
    unfolding mk
    unfolding keep_loop [OF order_refl] prod.case
    unfolding ks_def [symmetric] ds_def [symmetric] ov by simp
qed

lemma empty_col_facts:
  fixes P :: "('f :: linordered_idom) lp_problem"
  shows "j \<in> set (kept (empty_col_marker P) (num_cols P)) \<longleftrightarrow> j < num_cols P \<and> \<not> col_empty P j"
    and "j \<in> set (dropped (empty_col_marker P) (num_cols P)) \<longleftrightarrow> j < num_cols P \<and> col_empty P j"
  by (auto simp: kept_facts empty_col_marker_def split: if_splits)

subsection \<open>Reinsertion of the removed variables\<close>

lemma place_fold:
  fixes k0 :: nat
  assumes "distinct js" "\<forall>j\<in>set js. j < length x \<and> j < length z"
  shows "\<exists>x' z'. fold (\<lambda>j (k, x, z). (k + 1, x[j := cx ! k], z[j := cz ! k])) js (k0, x, z) = (k0 + length js, x', z')
    \<and> length x' = length x \<and> length z' = length z
    \<and> (\<forall>i<length js. x' ! (js ! i) = cx ! (k0 + i) \<and> z' ! (js ! i) = cz ! (k0 + i))
    \<and> (\<forall>j. j \<notin> set js \<longrightarrow> x' ! j = x ! j \<and> z' ! j = z ! j)"
  using assms
proof (induction js arbitrary: k0 x z)
  case (Cons a js)
  have "\<forall>j\<in>set js. j < length (x[a := cx ! k0]) \<and> j < length (z[a := cz ! k0])" using Cons.prems by simp
  then obtain x' z' where
    1: "fold (\<lambda>j (k, x, z). (k + 1, x[j := cx ! k], z[j := cz ! k])) js (k0 + 1, x[a := cx ! k0], z[a := cz ! k0])
      = (k0 + 1 + length js, x', z')" and
    2: "length x' = length x" "length z' = length z" and
    3: "\<forall>i<length js. x' ! (js ! i) = cx ! (k0 + 1 + i) \<and> z' ! (js ! i) = cz ! (k0 + 1 + i)" and
    4: "\<forall>j. j \<notin> set js \<longrightarrow> x' ! j = (x[a := cx ! k0]) ! j \<and> z' ! j = (z[a := cz ! k0]) ! j"
    using Cons.IH [of "x[a := cx ! k0]" "z[a := cz ! k0]" "k0 + 1"] Cons.prems(1) by auto
  show ?case
  proof (intro exI conjI allI impI)
    show "fold (\<lambda>j (k, x, z). (k + 1, x[j := cx ! k], z[j := cz ! k])) (a # js) (k0, x, z) = (k0 + length (a # js), x', z')"
      using 1 by simp
    show "length x' = length x" "length z' = length z" by fact+
    have a: "x' ! a = cx ! k0" "z' ! a = cz ! k0" using 4 Cons.prems by auto
    show "x' ! ((a # js) ! i) = cx ! (k0 + i)" "z' ! ((a # js) ! i) = cz ! (k0 + i)" if "i < length (a # js)" for i
      using that a 3 by (cases i; simp)+
    show "x' ! j = x ! j" "z' ! j = z ! j" if "j \<notin> set (a # js)" for j using that 4 by auto
  qed
qed simp

lemma uncrush_solution_spec:
  assumes "distinct ks" "distinct ds" "set ks \<inter> set ds = {}" "set ks \<union> set ds = {..<n}" "ds \<noteq> []"
    and info: "remaining_variables info = ks" "removed_variables info = ds"
  shows "\<exists>X Z. uncrush_solution info cx cz x z = (X, Z) \<and> length X = n \<and> length Z = n
    \<and> (\<forall>i<length ks. X ! (ks ! i) = cx ! i \<and> Z ! (ks ! i) = cz ! i)
    \<and> (\<forall>i<length ds. X ! (ds ! i) = removed_values info ! i \<and> Z ! (ds ! i) = removed_reduced_costs info ! i)"
proof -
  have n: "length ds + length ks = n"
  proof -
    have "card (set ks) + card (set ds) = card {..<n}"
      using assms(3,4) card_Un_disjoint [of "set ks" "set ds"] by simp
    then show ?thesis using distinct_card assms(1,2) by (metis add.commute card_lessThan)
  qed
  have k: "\<forall>j\<in>set ks. j < length (resize n 0 x) \<and> j < length (resize n 0 z)" using assms(4) by auto
  obtain x1 z1 where
    1: "fold (\<lambda>j (k, x, z). (k + 1, x[j := cx ! k], z[j := cz ! k])) ks (0, resize n 0 x, resize n 0 z) = (length ks, x1, z1)" and
    2: "length x1 = n" "length z1 = n" "\<forall>i<length ks. x1 ! (ks ! i) = cx ! i \<and> z1 ! (ks ! i) = cz ! i"
    using place_fold [OF assms(1) k, of cx cz 0] by auto
  have d: "\<forall>j\<in>set ds. j < length x1 \<and> j < length z1" using assms(4) 2 by auto
  obtain x2 z2 where
    3: "fold (\<lambda>j (k, x, z). (k + 1, x[j := removed_values info ! k], z[j := removed_reduced_costs info ! k])) ds (0, x1, z1)
      = (length ds, x2, z2)" and
    4: "length x2 = n" "length z2 = n"
      "\<forall>i<length ds. x2 ! (ds ! i) = removed_values info ! i \<and> z2 ! (ds ! i) = removed_reduced_costs info ! i"
      "\<forall>j. j \<notin> set ds \<longrightarrow> x2 ! j = x1 ! j \<and> z2 ! j = z1 ! j"
    using place_fold [OF assms(2) d, of "removed_values info" "removed_reduced_costs info" 0] 2 by auto
  have "uncrush_solution info cx cz x z = (x2, z2)"
    using assms(5) 1 3 by (simp add: uncrush_solution_def info n)
  moreover have "ks ! i \<notin> set ds" if "i < length ks" for i using that assms(3) nth_mem by blast
  ultimately show ?thesis using 2 4 by (intro exI [of _ x2] exI [of _ z2]) auto
qed

subsection \<open>Presolve\<close>

lemma count_range: "for_range 0 t (\<lambda>i c. if p i then c + 1 else c) (0 :: 'c :: semiring_1) = of_nat (length (filter p [0..<t]))"
  by (induction t) auto

lemma count_range_pos: "length (filter p [0..<t]) > 0 \<longleftrightarrow> (\<exists>i<t. p i)"
  by (auto simp: filter_empty_conv)

lemma presolve_unfold:
  fixes P :: "('f :: linordered_idom) lp_problem"
  assumes "lp_wf P"
  shows "presolve P info =
    (let (ret, P1) = (if \<exists>i<num_rows P. row_empty P i then remove_empty_rows P (replicate (num_rows P) (CHR ''='')) else (0, P))
     in if ret \<noteq> 0 then (-1, P1, info)
        else if \<exists>j<num_cols P1. col_empty P1 j
        then (0, let (P', _, info') = remove_empty_cols P1 (int (length (filter (col_empty P1) [0..<num_cols P1]))) info in (P', info'))
        else (0, P1, info))"
proof -
  let ?R = "to_compressed_row (lp_A P) csr_new"
  have r: "(for_range 0 (num_rows P) (\<lambda>i c. if row_start ?R ! Suc i - row_start ?R ! i = 0 then c + 1 else c) (0 :: nat) > 0)
      = (\<exists>i<num_rows P. row_empty P i)"
    unfolding count_range of_nat_id count_range_pos using row_empty_csr [OF assms] by blast
  have c: "(for_range 0 (num_cols Q) (\<lambda>j c. if col_start (lp_A Q) ! Suc j - col_start (lp_A Q) ! j = 0 then c + 1 else c) (0 :: int)
      = int (length (filter (col_empty Q) [0..<num_cols Q])))" for Q :: "'f lp_problem"
    unfolding col_empty_start count_range ..
  have cp: "(int (length (filter (col_empty Q) [0..<num_cols Q])) > 0) = (\<exists>j<num_cols Q. col_empty Q j)" for Q :: "'f lp_problem"
    using count_range_pos by (metis of_nat_0_less_iff)
  show ?thesis
    unfolding presolve_def Let_def unfolding r unfolding c unfolding cp
    by (auto split: prod.splits)
qed

definition removable :: "('f :: linordered_idom) lp_problem \<Rightarrow> idx \<Rightarrow> bool" where
  "removable P j \<longleftrightarrow> is_fin (empty_cost_bound P j) \<and> lower P ! j \<le> upper P ! j"

lemma removed_cost_Fin:
  assumes "\<forall>j\<in>set js. is_fin (empty_cost_bound P j)" "obj_constant P = Fin k"
  shows "removed_cost P js = Fin (k + (\<Sum>j\<leftarrow>js. objective P ! j * fin_part (empty_cost_bound P j)))"
  using assms(1)
proof (induction js rule: rev_induct)
  case Nil
  then show ?case using assms(2) by (simp add: removed_cost_def)
next
  case (snoc j js)
  then obtain v where "empty_cost_bound P j = Fin v" by (auto simp: is_fin_iff)
  then show ?case using snoc by (simp add: removed_cost_def add.assoc)
qed

lemma removed_cols_activity:
  fixes P :: "('f :: linordered_idom) lp_problem"
  assumes "lp_wf P"
  shows "activity (lp_A P) X r = activity (remove_columns (empty_col_marker P) (lp_A P))
    (map ((!) X) (kept (empty_col_marker P) (num_cols P))) r"
proof -
  let ?mk = "empty_col_marker P" and ?n = "num_cols P"
  have A: "csc_wf (lp_A P)" "csc_n (lp_A P) = ?n" using assms by (auto simp: lp_wf_def)
  note R = remove_columns_spec [OF A(1), where marker = ?mk, unfolded A(2)]
  have "activity (lp_A P) X r = (\<Sum>k<length (kept ?mk ?n). csc_dense (lp_A P) r (kept ?mk ?n ! k) * X ! (kept ?mk ?n ! k))"
    unfolding activity_def A(2)
    by (rule sum_kept_zero) (simp add: empty_col_marker_def csc_dense_def col_empty_def split: if_splits)
  then show ?thesis unfolding activity_def R(2) by (simp add: csc_dense_def R(4))
qed

lemma removed_cols_feasible:
  fixes P :: "('f :: linordered_idom) lp_problem"
  assumes "lp_wf P" "remove_empty_cols P c info = (P', c', info')"
  shows "lp_feasible P X \<longleftrightarrow> length X = num_cols P \<and>
    lp_feasible P' (map ((!) X) (kept (empty_col_marker P) (num_cols P))) \<and>
    (\<forall>j<num_cols P. col_empty P j \<longrightarrow> in_bounds (lower P ! j) (X ! j) (upper P ! j))"
proof -
  let ?ks = "kept (empty_col_marker P) (num_cols P)"
  have P': "P' = P\<lparr>lp_A := remove_columns (empty_col_marker P) (lp_A P),
      obj_constant := removed_cost P (dropped (empty_col_marker P) (num_cols P)),
      objective := map ((!) (objective P)) ?ks, lower := map ((!) (lower P)) ?ks, upper := map ((!) (upper P)) ?ks,
      num_cols := length ?ks\<rparr>"
    using assms(2) by (simp add: remove_empty_cols_spec)
  have "(\<forall>j<num_cols P. Q j) \<longleftrightarrow> (\<forall>k<length ?ks. Q (?ks ! k)) \<and> (\<forall>j<num_cols P. col_empty P j \<longrightarrow> Q j)" for Q
  proof -
    have "(\<forall>k<length ?ks. Q (?ks ! k)) \<longleftrightarrow> (\<forall>j\<in>set ?ks. Q j)" by (simp add: all_set_conv_all_nth)
    then show ?thesis using empty_col_facts(1) by blast
  qed
  note split = this
  show ?thesis
    unfolding lp_feasible_def P' using split [of "\<lambda>j. in_bounds (lower P ! j) (X ! j) (upper P ! j)"]
    by (auto simp: removed_cols_activity [OF assms(1), symmetric])
qed

lemma removed_cols_value:
  fixes P :: "('f :: linordered_idom) lp_problem"
  assumes wf: "lp_wf P" and R: "remove_empty_cols P c info = (P', c', info')"
    and rem: "\<forall>j<num_cols P. col_empty P j \<longrightarrow> removable P j" and k: "obj_constant P = Fin k"
  shows "lp_value P' (map ((!) X) (kept (empty_col_marker P) (num_cols P))) =
    Fin (k + objective_value (objective P) X - (\<Sum>i<length (dropped (empty_col_marker P) (num_cols P)).
       (let j = dropped (empty_col_marker P) (num_cols P) ! i in
          objective P ! j * (X ! j - fin_part (empty_cost_bound P j)))))"
proof -
  let ?ks = "kept (empty_col_marker P) (num_cols P)" and ?ds = "dropped (empty_col_marker P) (num_cols P)"
  let ?b = "\<lambda>j. fin_part (empty_cost_bound P j)" and ?c = "(!) (objective P)"
  have n: "length (objective P) = num_cols P" using wf by (simp add: lp_wf_def)
  have P': "obj_constant P' = removed_cost P ?ds" "objective P' = map ?c ?ks"
    using R by (auto simp: remove_empty_cols_spec)
  have "\<forall>j\<in>set ?ds. is_fin (empty_cost_bound P j)" using rem empty_col_facts(2) by (auto simp: removable_def)
  then have 1: "removed_cost P ?ds = Fin (k + (\<Sum>i<length ?ds. ?c (?ds ! i) * ?b (?ds ! i)))"
    using removed_cost_Fin k by (auto simp: sum_list_sum_nth atLeast0LessThan)
  have 2: "objective_value (objective P) X = (\<Sum>i<length ?ks. ?c (?ks ! i) * X ! (?ks ! i)) + (\<Sum>i<length ?ds. ?c (?ds ! i) * X ! (?ds ! i))"
    unfolding objective_value_def n by (rule sum_kept)
  show ?thesis
    unfolding lp_value_def P' 1 2 by (simp add: objective_value_def Let_def right_diff_distrib sum_subtractf)
qed

text \<open>The bound chosen for an empty column is the cheapest value in its interval.\<close>

lemma empty_cost_bound_cheapest:
  assumes "removable P j" "in_bounds (lower P ! j) v (upper P ! j)"
  shows "objective P ! j * fin_part (empty_cost_bound P j) \<le> objective P ! j * v"
  using assms unfolding removable_def empty_cost_bound_def in_bounds_def
  by (auto simp: is_fin_iff mult_left_mono mult_left_mono_neg split: if_splits)

lemma empty_cost_bound_in_bounds:
  assumes "removable P j"
  shows "in_bounds (lower P ! j) (fin_part (empty_cost_bound P j)) (upper P ! j)"
  using assms unfolding removable_def empty_cost_bound_def in_bounds_def
  by (cases "lower P ! j"; cases "upper P ! j") (auto split: if_splits)

lemma removed_cols_uncrush:
  fixes P :: "('f :: linordered_idom) lp_problem"
  assumes wf: "lp_wf P" and R: "remove_empty_cols P c presolve_info_new = (P', c', info')"
    and rem: "\<forall>j<num_cols P. col_empty P j \<longrightarrow> removable P j" and k: "obj_constant P = Fin k"
    and ne: "\<exists>j<num_cols P. col_empty P j" and x: "lp_feasible P' x"
  shows "\<exists>X Z. uncrush_solution info' (map Fin x) z x0 z0 = (map Fin X, Z) \<and> lp_feasible P X \<and> lp_value P X = lp_value P' x"
proof -
  let ?mk = "empty_col_marker P" and ?n = "num_cols P"
  let ?ks = "kept ?mk ?n" and ?ds = "dropped ?mk ?n" and ?b = "\<lambda>j. fin_part (empty_cost_bound P j)"
  have info: "remaining_variables info' = ?ks" "removed_variables info' = ?ds" "removed_values info' = map (empty_cost_bound P) ?ds"
    and c: "num_cols P' = length ?ks"
    using R by (auto simp: remove_empty_cols_spec presolve_info_new_def)
  have lx: "length x = length ?ks" using x c by (simp add: lp_feasible_def)
  have set: "set ?ks \<inter> set ?ds = {}" "set ?ks \<union> set ?ds = {..<?n}" by (auto simp: kept_facts)
  have "?ds \<noteq> []" using ne empty_col_facts(2) [of _ P] by (metis list.distinct(1) list.set(1) empty_iff)
  from uncrush_solution_spec [OF kept_facts(1,3) set this info(1,2)]
  obtain E Z where E: "uncrush_solution info' (map Fin x) z x0 z0 = (E, Z)" "length E = ?n"
    "\<forall>i<length ?ks. E ! (?ks ! i) = map Fin x ! i" "\<forall>i<length ?ds. E ! (?ds ! i) = map (empty_cost_bound P) ?ds ! i"
    unfolding info(3) by metis
  define X where "X = map fin_part E"
  have Xk: "X ! (?ks ! i) = x ! i" if "i < length ?ks" for i
    using that E lx kept_less [of i ?mk ?n] by (simp add: X_def)
  have Xd: "X ! j = ?b j" "is_fin (E ! j)" if j: "j < ?n" "col_empty P j" for j
  proof -
    obtain i where i: "i < length ?ds" "?ds ! i = j" using empty_col_facts(2) [of j P] j by (auto simp: in_set_conv_nth)
    then have "E ! j = empty_cost_bound P j" using E(4) by auto
    then show "X ! j = ?b j" "is_fin (E ! j)" using j E(2) rem by (auto simp: X_def removable_def)
  qed
  have "map Fin X = E"
  proof (rule nth_equalityI)
    fix j assume "j < length (map Fin X)"
    then have j: "j < ?n" by (simp add: X_def E(2))
    have "is_fin (E ! j)"
    proof (cases "col_empty P j")
      case False
      then obtain i where "i < length ?ks" "?ks ! i = j" using empty_col_facts(1) [of j P] j by (auto simp: in_set_conv_nth)
      then show ?thesis using E(3) lx by auto
    qed (use Xd j in blast)
    then show "map Fin X ! j = E ! j" using j E(2) by (simp add: X_def)
  qed (simp add: X_def)
  moreover have mX: "map ((!) X) ?ks = x" using lx Xk by (intro nth_equalityI) auto
  have "lp_feasible P X"
    unfolding removed_cols_feasible [OF wf R] mX
    using x E(2) Xd(1) rem empty_cost_bound_in_bounds by (auto simp: X_def)
  moreover have "lp_value P X = lp_value P' x"
  proof -
    have "X ! (?ds ! i) = ?b (?ds ! i)" if "i < length ?ds" for i
      using Xd(1) empty_col_facts(2) [of "?ds ! i" P] that by auto
    then have "(\<Sum>i<length ?ds. let j = ?ds ! i in objective P ! j * (X ! j - ?b j)) = 0"
      by (intro sum.neutral) (simp add: Let_def)
    then show ?thesis using removed_cols_value [OF wf R rem k, of X] by (simp add: mX lp_value_def k)
  qed
  ultimately show ?thesis using E(1) by metis
qed

lemma removed_cols_crush:
  fixes P :: "('f :: linordered_idom) lp_problem"
  assumes wf: "lp_wf P" and R: "remove_empty_cols P c presolve_info_new = (P', c', info')"
    and rem: "\<forall>j<num_cols P. col_empty P j \<longrightarrow> removable P j" and k: "obj_constant P = Fin k"
    and y: "lp_feasible P y"
  shows "\<exists>y'. lp_feasible P' y' \<and> lp_value P' y' \<le> lp_value P y"
proof (intro exI conjI)
  let ?ks = "kept (empty_col_marker P) (num_cols P)" and ?ds = "dropped (empty_col_marker P) (num_cols P)"
  note f = y [unfolded removed_cols_feasible [OF wf R]]
  show "lp_feasible P' (map ((!) y) ?ks)" using f by blast
  have "0 \<le> (let j = ?ds ! i in objective P ! j * (y ! j - fin_part (empty_cost_bound P j)))" if "i < length ?ds" for i
  proof -
    have "?ds ! i < num_cols P" "col_empty P (?ds ! i)"
      using empty_col_facts(2) [of "?ds ! i" P] that by auto
    then show ?thesis
      using empty_cost_bound_cheapest [of P "?ds ! i" "y ! (?ds ! i)"] rem f by (simp add: Let_def right_diff_distrib)
  qed
  then have "0 \<le> (\<Sum>i<length ?ds. let j = ?ds ! i in objective P ! j * (y ! j - fin_part (empty_cost_bound P j)))"
    by (intro sum_nonneg) simp
  then show "lp_value P' (map ((!) y) ?ks) \<le> lp_value P y"
    using removed_cols_value [OF wf R rem k, of y] by (simp add: lp_value_def k)
qed

text \<open>The two outcomes of presolve: an inconsistent empty row, or a problem with the empty rows and columns gone.\<close>

lemma presolve_cases:
  fixes P :: "('f :: linordered_idom) lp_problem"
  assumes wf: "lp_wf P"
  shows "\<exists>i<num_rows P. row_empty P i \<and> rhs P ! i \<noteq> 0 \<Longrightarrow> fst (presolve P info) = -1"
    and "\<forall>i<num_rows P. row_empty P i \<longrightarrow> rhs P ! i = 0 \<Longrightarrow> \<exists>P1.
      presolve P info = (if \<exists>j<num_cols P. col_empty P1 j
        then (0, let (P', _, info') = remove_empty_cols P1 (int (length (filter (col_empty P1) [0..<num_cols P]))) info in (P', info'))
        else (0, P1, info)) \<and>
      lp_wf P1 \<and> num_cols P1 = num_cols P \<and> lower P1 = lower P \<and> upper P1 = upper P \<and>
      objective P1 = objective P \<and> obj_constant P1 = obj_constant P \<and> (\<forall>x. lp_feasible P1 x \<longleftrightarrow> lp_feasible P x) \<and>
      (\<forall>j<num_cols P. col_empty P1 j \<longrightarrow> (\<forall>i<num_rows P. csc_dense (lp_A P) i j = 0))"
proof -
  let ?s = "replicate (num_rows P) (CHR ''='')"
  show "fst (presolve P info) = -1" if h: "\<exists>i<num_rows P. row_empty P i \<and> rhs P ! i \<noteq> 0"
  proof -
    obtain e Q where "remove_empty_rows P ?s = (e, Q)" "e > 0"
      using remove_empty_rows_spec(1) [OF wf h, of ?s] by (cases "remove_empty_rows P ?s") auto
    then show ?thesis using h by (auto simp: presolve_unfold [OF wf])
  qed
  assume h: "\<forall>i<num_rows P. row_empty P i \<longrightarrow> rhs P ! i = 0"
  show "\<exists>P1. presolve P info = (if \<exists>j<num_cols P. col_empty P1 j
        then (0, let (P', _, info') = remove_empty_cols P1 (int (length (filter (col_empty P1) [0..<num_cols P]))) info in (P', info'))
        else (0, P1, info)) \<and>
      lp_wf P1 \<and> num_cols P1 = num_cols P \<and> lower P1 = lower P \<and> upper P1 = upper P \<and>
      objective P1 = objective P \<and> obj_constant P1 = obj_constant P \<and> (\<forall>x. lp_feasible P1 x \<longleftrightarrow> lp_feasible P x) \<and>
      (\<forall>j<num_cols P. col_empty P1 j \<longrightarrow> (\<forall>i<num_rows P. csc_dense (lp_A P) i j = 0))"
  proof (cases "\<exists>i<num_rows P. row_empty P i")
    case True
    obtain P1 where P1: "remove_empty_rows P ?s = (0, P1)"
      "lp_wf P1 \<and> num_cols P1 = num_cols P \<and> lower P1 = lower P \<and> upper P1 = upper P \<and>
      objective P1 = objective P \<and> obj_constant P1 = obj_constant P \<and> (\<forall>x. lp_feasible P1 x \<longleftrightarrow> lp_feasible P x) \<and>
      (\<forall>j<num_cols P. col_empty P1 j \<longrightarrow> (\<forall>i<num_rows P. csc_dense (lp_A P) i j = 0))"
      using remove_empty_rows_spec(2) [OF wf h, of ?s] by blast
    have E: "presolve P info = (if \<exists>j<num_cols P1. col_empty P1 j
        then (0, let (P', _, info') = remove_empty_cols P1 (int (length (filter (col_empty P1) [0..<num_cols P1]))) info in (P', info'))
        else (0, P1, info))"
      using True P1(1) by (simp add: presolve_unfold [OF wf])
    have n: "num_cols P1 = num_cols P" using P1(2) by blast
    show ?thesis by (rule exI [of _ P1]) (use E [unfolded n] P1(2) in blast)
  next
    case False
    have E: "presolve P info = (if \<exists>j<num_cols P. col_empty P j
        then (0, let (P', _, info') = remove_empty_cols P (int (length (filter (col_empty P) [0..<num_cols P]))) info in (P', info'))
        else (0, P, info))"
      unfolding presolve_unfold [OF wf] if_not_P [OF False] by simp
    show ?thesis
      by (rule exI [of _ P], intro conjI allI impI; (rule E | rule wf | simp add: csc_dense_def col_empty_def))
  qed
qed

text \<open>The column removal applied to a problem that agrees with the original in its columns.\<close>

lemma lp_value_cong: "obj_constant P = obj_constant Q \<Longrightarrow> objective P = objective Q \<Longrightarrow> lp_value P = lp_value Q"
  by (simp add: lp_value_def fun_eq_iff)

definition zero_column :: "('f :: linordered_idom) lp_problem \<Rightarrow> idx \<Rightarrow> bool" where
  "zero_column P j \<longleftrightarrow> (\<forall>i<num_rows P. csc_dense (lp_A P) i j = 0)"

lemma presolve_relation:
  fixes P :: "('f :: linordered_idom) lp_problem"
  assumes wf: "lp_wf P" and pre: "presolve P presolve_info_new = (0, P', info')" and k: "obj_constant P = Fin k"
    and rem: "\<forall>j<num_cols P. zero_column P j \<longrightarrow> removable P j"
  shows "lp_feasible P' x \<Longrightarrow> \<exists>X Z. uncrush_solution info' (map Fin x) z x0 z0 = (map Fin X, Z) \<and>
      lp_feasible P X \<and> lp_value P X = lp_value P' x"
    and "lp_feasible P y \<Longrightarrow> \<exists>y'. lp_feasible P' y' \<and> lp_value P' y' \<le> lp_value P y"
proof -
  have "\<not> (\<exists>i<num_rows P. row_empty P i \<and> rhs P ! i \<noteq> 0)"
    using presolve_cases(1) [OF wf, of presolve_info_new] pre by auto
  then have "\<forall>i<num_rows P. row_empty P i \<longrightarrow> rhs P ! i = 0" by blast
  from presolve_cases(2) [OF wf this, of presolve_info_new] obtain P1 where
    P1: "presolve P presolve_info_new = (if \<exists>j<num_cols P. col_empty P1 j
        then (0, let (P', _, info') = remove_empty_cols P1 (int (length (filter (col_empty P1) [0..<num_cols P]))) presolve_info_new in (P', info'))
        else (0, P1, presolve_info_new))"
    and wf1: "lp_wf P1" and n: "num_cols P1 = num_cols P" and b: "lower P1 = lower P" "upper P1 = upper P" "objective P1 = objective P"
      "obj_constant P1 = obj_constant P" and fe: "\<forall>x. lp_feasible P1 x \<longleftrightarrow> lp_feasible P x"
    and z: "\<forall>j<num_cols P. col_empty P1 j \<longrightarrow> zero_column P j"
    unfolding zero_column_def by blast
  have k1: "obj_constant P1 = Fin k" using b k by simp
  have rem1: "\<forall>j<num_cols P1. col_empty P1 j \<longrightarrow> removable P1 j"
    using rem z unfolding n removable_def empty_cost_bound_def b by blast
  have v: "lp_value P1 = lp_value P" using b by (intro lp_value_cong) auto
  have R: "\<exists>c c'. remove_empty_cols P1 c presolve_info_new = (P', c', info')" if "\<exists>j<num_cols P. col_empty P1 j"
    using P1 pre that by (auto split: prod.splits)
  have N: "P' = P1" "info' = presolve_info_new" if "\<not> (\<exists>j<num_cols P. col_empty P1 j)"
    using P1 pre that by auto
  show "\<exists>X Z. uncrush_solution info' (map Fin x) z x0 z0 = (map Fin X, Z) \<and> lp_feasible P X \<and> lp_value P X = lp_value P' x"
    if x: "lp_feasible P' x"
  proof (cases "\<exists>j<num_cols P. col_empty P1 j")
    case True
    then obtain c c' where "remove_empty_cols P1 c presolve_info_new = (P', c', info')" using R by blast
    from removed_cols_uncrush [OF wf1 this rem1 k1 True [folded n] x] show ?thesis using fe v by metis
  next
    case False
    then show ?thesis using N x fe v by (auto simp: uncrush_solution_def presolve_info_new_def)
  qed
  show "\<exists>y'. lp_feasible P' y' \<and> lp_value P' y' \<le> lp_value P y" if y: "lp_feasible P y"
  proof (cases "\<exists>j<num_cols P. col_empty P1 j")
    case True
    then obtain c c' where "remove_empty_cols P1 c presolve_info_new = (P', c', info')" using R by blast
    from removed_cols_crush [OF wf1 this rem1 k1] show ?thesis using fe v y by metis
  next
    case False
    then show ?thesis using N y fe v k by (auto simp: lp_value_def)
  qed
qed

text \<open>Presolve is a reduction where the bounds that it moves empty columns to are finite and consistent.\<close>

definition presolved :: "('f :: linordered_idom) lp_problem \<Rightarrow> 'f lp_problem \<Rightarrow> 'f presolve_info \<Rightarrow> bool" where
  "presolved P Q info \<longleftrightarrow> lp_wf P \<and> is_fin (obj_constant P) \<and> presolve P presolve_info_new = (0, Q, info) \<and>
     (\<forall>j<num_cols P. zero_column P j \<longrightarrow> removable P j)"

definition uncrush_point :: "('f :: linordered_idom) presolve_info \<Rightarrow> 'f vec \<Rightarrow> 'f vec" where
  "uncrush_point info x = map fin_part (fst (uncrush_solution info (map Fin x) [] [] []))"

interpretation presolving: lp_reduction presolved lp_feasible lp_value lp_feasible lp_value uncrush_point
proof
  fix P Q :: "'a lp_problem" and info x y
  assume ok: "presolved P Q info"
  then obtain k where k: "obj_constant P = Fin k" by (auto simp: presolved_def is_fin_iff)
  note rel = presolve_relation [OF _ _ k]
  show "lp_feasible P (uncrush_point info y)" "lp_value P (uncrush_point info y) = lp_value Q y" if "lp_feasible Q y"
    using rel(1) [of Q info y "[]" "[]" "[]"] ok that by (auto simp: presolved_def uncrush_point_def comp_def)
  show "\<exists>y. lp_feasible Q y \<and> lp_value Q y \<le> lp_value P x" if "lp_feasible P x"
    using rel(2) [of Q info x] ok that by (auto simp: presolved_def)
qed

lemma presolve_optimal:
  fixes P :: "('f :: linordered_idom) lp_problem"
  assumes "lp_wf P" "presolve P presolve_info_new = (0, P', info')" "is_fin (obj_constant P)"
    "\<forall>j<num_cols P. zero_column P j \<longrightarrow> removable P j" "lp_optimal P' x"
  shows "\<exists>X Z. uncrush_solution info' (map Fin x) z x0 z0 = (map Fin X, Z) \<and> lp_optimal P X \<and> lp_value P X = lp_value P' x"
proof -
  obtain k where k: "obj_constant P = Fin k" using assms(3) by (auto simp: is_fin_iff)
  note rel = presolve_relation [OF assms(1,2) k assms(4)]
  have x: "lp_feasible P' x" "\<And>y. lp_feasible P' y \<Longrightarrow> lp_value P' x \<le> lp_value P' y"
    using assms(5) by (auto simp: lp_optimal_def)
  obtain X Z where X: "uncrush_solution info' (map Fin x) z x0 z0 = (map Fin X, Z)" "lp_feasible P X" "lp_value P X = lp_value P' x"
    using rel(1) [OF x(1)] by blast
  have "lp_value P X \<le> lp_value P y" if y: "lp_feasible P y" for y
  proof -
    obtain y' where y': "lp_feasible P' y'" "lp_value P' y' \<le> lp_value P y" using rel(2) [OF y] by blast
    have "lp_value P' x \<le> lp_value P y" using ext_le_trans [OF x(2) [OF y'(1)] y'(2)] .
    then show ?thesis by (simp only: X(3))
  qed
  then show ?thesis using X by (auto simp: lp_optimal_def)
qed

lemma presolve_status:
  fixes P :: "('f :: linordered_idom) lp_problem"
  assumes "lp_wf P"
  shows "fst (presolve P info) \<in> {0, -1} \<and>
    (fst (presolve P info) = -1 \<longleftrightarrow> (\<exists>i<num_rows P. row_empty P i \<and> rhs P ! i \<noteq> 0)) \<and>
    (fst (presolve P info) = -1 \<longrightarrow> \<not> lp_feasible P x)"
proof -
  have "fst (presolve P info) = 0" if "\<not> (\<exists>i<num_rows P. row_empty P i \<and> rhs P ! i \<noteq> 0)"
  proof -
    have "\<forall>i<num_rows P. row_empty P i \<longrightarrow> rhs P ! i = 0" using that by blast
    from presolve_cases(2) [OF assms this, of info] show ?thesis by (auto simp: Let_def split: if_splits)
  qed
  moreover have "\<not> lp_feasible P x" if "\<exists>i<num_rows P. row_empty P i \<and> rhs P ! i \<noteq> 0"
    using that row_empty_activity [OF assms] by (auto simp: lp_feasible_def)
  ultimately show ?thesis
    by (cases "\<exists>i<num_rows P. row_empty P i \<and> rhs P ! i \<noteq> 0") (use presolve_cases(1) [OF assms, of info] in simp_all)
qed

lemma removal_scale:
  "obj_scale (snd (remove_empty_rows P s)) = obj_scale P" "obj_scale (fst (remove_empty_cols P c info)) = obj_scale P"
  by (simp_all add: remove_empty_rows_def lp_remove_rows_def remove_empty_cols_spec Let_def split_def split: sum.split)

lemma presolve_scale: "obj_scale (fst (snd (presolve P info))) = obj_scale P"
  by (simp add: presolve_def Let_def split_def removal_scale)

lemma removed_cols_wf:
  assumes wf: "lp_wf P" and R: "remove_empty_cols P c info = (P', c', info')"
    and rem: "\<forall>j<num_cols P. col_empty P j \<longrightarrow> removable P j" and k: "is_fin (obj_constant P)"
  shows "lp_wf P' \<and> is_fin (obj_constant P')"
proof -
  have A: "csc_wf (lp_A P)" "csc_n (lp_A P) = num_cols P" "csc_m (lp_A P) = num_rows P" "length (rhs P) = num_rows P"
    using wf by (simp_all add: lp_wf_def)
  note C = remove_columns_spec [OF A(1), where marker = "empty_col_marker P", unfolded A(2,3)]
  obtain v where "obj_constant P = Fin v" using k by (auto simp: is_fin_iff)
  moreover have "\<forall>j\<in>set (dropped (empty_col_marker P) (num_cols P)). is_fin (empty_cost_bound P j)"
    using rem empty_col_facts(2) by (auto simp: removable_def)
  ultimately have "is_fin (removed_cost P (dropped (empty_col_marker P) (num_cols P)))" by (simp add: removed_cost_Fin)
  then show ?thesis using R C(1-3) A(4) by (auto simp: remove_empty_cols_spec lp_wf_def)
qed

lemma presolved_wf:
  assumes "presolved P Q info"
  shows "lp_wf Q \<and> is_fin (obj_constant Q)"
proof -
  have wf: "lp_wf P" and pre: "presolve P presolve_info_new = (0, Q, info)" and k: "is_fin (obj_constant P)"
    and rem: "\<forall>j<num_cols P. zero_column P j \<longrightarrow> removable P j" using assms by (auto simp: presolved_def)
  have "\<not> (\<exists>i<num_rows P. row_empty P i \<and> rhs P ! i \<noteq> 0)"
    using presolve_cases(1) [OF wf, of presolve_info_new] pre by auto
  then have "\<forall>i<num_rows P. row_empty P i \<longrightarrow> rhs P ! i = 0" by blast
  from presolve_cases(2) [OF wf this, of presolve_info_new] obtain P1 where
    P1: "presolve P presolve_info_new = (if \<exists>j<num_cols P. col_empty P1 j
        then (0, let (P', _, info') = remove_empty_cols P1 (int (length (filter (col_empty P1) [0..<num_cols P]))) presolve_info_new in (P', info'))
        else (0, P1, presolve_info_new))"
    and wf1: "lp_wf P1" and n: "num_cols P1 = num_cols P" and b: "lower P1 = lower P" "upper P1 = upper P" "objective P1 = objective P"
      "obj_constant P1 = obj_constant P" and z: "\<forall>j<num_cols P. col_empty P1 j \<longrightarrow> zero_column P j"
    unfolding zero_column_def by blast
  have rem1: "\<forall>j<num_cols P1. col_empty P1 j \<longrightarrow> removable P1 j"
    using rem z unfolding n removable_def empty_cost_bound_def b by blast
  show ?thesis
  proof (cases "\<exists>j<num_cols P. col_empty P1 j")
    case True
    then obtain c c' where "remove_empty_cols P1 c presolve_info_new = (Q, c', info)"
      using P1 pre by (auto split: prod.splits)
    from removed_cols_wf [OF wf1 this rem1] show ?thesis using k b by simp
  next
    case False
    show ?thesis using P1 [unfolded if_not_P [OF False]] pre wf1 k b by simp
  qed
qed

definition compute_user_objective :: "('f :: linordered_idom) lp_problem \<Rightarrow> 'f ext \<Rightarrow> 'f ext" where
  "compute_user_objective P obj = obj * Fin (obj_scale P) + obj_constant P"

definition ex_pre :: "rat lp_problem" where
  "ex_pre = \<lparr>num_rows = 3, num_cols = 3, objective = [1, 3, -2],
     lp_A = \<lparr>csc_nz_max = 2, csc_m = 3, csc_n = 3, col_start = [0, 2, 2, 2], csc_i = [0, 2], csc_x = [1, 2]\<rparr>,
     rhs = [4, 0, 8], lower = [Fin 0, Fin 2, MInf], upper = [PInf, Fin 5, Fin 6], obj_constant = Fin 1, obj_scale = 1\<rparr>"

lemma ex_pre_wf: "lp_wf ex_pre"
  by code_simp

text \<open>C27. The user objective of a presolved point is not that of the original point: presolve adds the cost of the
  removed columns to the objective constant without the scale that \<open>compute_user_objective\<close> applies to the
  remaining cost. The two agree exactly when the scale is 1 or the removed cost is 0; for a maximisation
  problem (scale -1) the reported value is off by twice the removed cost.\<close>

theorem presolved_user_objective:
  fixes P :: "('f :: linordered_idom) lp_problem"
  assumes "presolved P Q info" "lp_feasible Q x"
  shows "\<exists>removed. obj_constant Q = obj_constant P + Fin removed \<and>
    compute_user_objective Q (Fin (objective_value (objective Q) x)) =
      compute_user_objective P (Fin (objective_value (objective P) (uncrush_point info x))) + Fin ((1 - obj_scale P) * removed)"
proof -
  obtain k k' where k: "obj_constant P = Fin k" "obj_constant Q = Fin k'"
    using assms(1) presolved_wf [OF assms(1)] by (auto simp: presolved_def is_fin_iff)
  have sc: "obj_scale Q = obj_scale P" using assms(1) presolve_scale [of P presolve_info_new] by (simp add: presolved_def)
  have "k + objective_value (objective P) (uncrush_point info x) = k' + objective_value (objective Q) x"
    using presolving.restore_value [OF assms] by (simp add: lp_value_def k)
  then have e: "objective_value (objective Q) x = objective_value (objective P) (uncrush_point info x) - (k' - k)" by simp
  show ?thesis
    by (intro exI [of _ "k' - k"], unfold compute_user_objective_def k sc e) (simp add: algebra_simps)
qed

theorem presolved_user_objective_witness:
  "compute_user_objective (fst (snd (presolve (ex_pre\<lparr>obj_scale := -1\<rparr>) presolve_info_new))) (Fin 4) = Fin (- 9) \<and>
   compute_user_objective (ex_pre\<lparr>obj_scale := -1\<rparr>) (Fin (objective_value (objective ex_pre) [4, 2, 6])) = Fin 3"
proof -
  let ?P = "ex_pre\<lparr>obj_scale := -1\<rparr>"
  let ?Q = "fst (snd (presolve ?P presolve_info_new))" and ?i = "snd (snd (presolve ?P presolve_info_new))"
  have "presolve ?P presolve_info_new = (0, ?Q, ?i)" "lp_wf ?P" "is_fin (obj_constant ?P)" by code_simp+
  moreover have "num_cols ?P = 3" "\<not> zero_column ?P 0" "removable ?P 1" "removable ?P 2" by code_simp+
  ultimately have "presolved ?P ?Q ?i" by (simp add: presolved_def All_less_Suc numeral_3_eq_3 numeral_2_eq_2)
  moreover have "lp_feasible ?Q [4]" by code_simp
  ultimately obtain r where r: "obj_constant ?Q = obj_constant ?P + Fin r"
    "compute_user_objective ?Q (Fin (objective_value (objective ?Q) [4])) =
      compute_user_objective ?P (Fin (objective_value (objective ?P) (uncrush_point ?i [4]))) + Fin ((1 - obj_scale ?P) * r)"
    using presolved_user_objective by metis
  have "obj_constant ?Q = Fin (- 5)" "obj_constant ?P = Fin 1" "objective_value (objective ?Q) [4] = 4" "uncrush_point ?i [4] = [4, 2, 6]"
    by code_simp+
  moreover have "compute_user_objective ?P (Fin (objective_value (objective ex_pre) [4, 2, 6])) = Fin 3" by code_simp
  ultimately show ?thesis using r by simp
qed

subsection \<open>Properties of presolve\<close>

text \<open>C30. Presolve returns 0 or -1, and it reports infeasibility exactly when some empty row has a nonzero
  right-hand side; then the problem has no feasible point.\<close>

theorem presolve_infeasible:
  fixes P :: "('f :: linordered_idom) lp_problem"
  assumes "lp_wf P"
  shows "fst (presolve P info) \<in> {0, -1} \<and>
    (fst (presolve P info) = -1 \<longleftrightarrow> (\<exists>i<num_rows P. row_empty P i \<and> rhs P ! i \<noteq> 0)) \<and>
    (fst (presolve P info) = -1 \<longrightarrow> \<not> lp_feasible P x)"
  by (rule presolve_status [OF assms])

theorem presolve_infeasible_witness:
  "fst (presolve (ex_pre\<lparr>rhs := [4, 1, 8]\<rparr>) presolve_info_new) = -1 \<and> \<not> lp_feasible (ex_pre\<lparr>rhs := [4, 1, 8]\<rparr>) [4, 2, 6]"
proof -
  have "lp_wf (ex_pre\<lparr>rhs := [4, 1, 8]\<rparr>)" by code_simp
  moreover have "fst (presolve (ex_pre\<lparr>rhs := [4, 1, 8]\<rparr>) presolve_info_new) = -1" by code_simp
  ultimately show ?thesis
    using presolve_infeasible [of "ex_pre\<lparr>rhs := [4, 1, 8]\<rparr>" presolve_info_new "[4, 2, 6]"] by blast
qed

text \<open>C29. An optimal solution of the presolved problem, put back by \<open>uncrush_solution\<close>, is an optimal solution of
  the original problem with the same objective value, whatever vectors it overwrites. The bound that each
  removed column's cost selects must be finite, and its bounds consistent.\<close>

theorem presolve_preserves_optimal:
  fixes P :: "('f :: linordered_idom) lp_problem"
  assumes "lp_wf P" "presolve P presolve_info_new = (0, P', info')" "is_fin (obj_constant P)"
    "\<forall>j<num_cols P. zero_column P j \<longrightarrow> removable P j" "lp_optimal P' x"
  shows "\<exists>X Z. uncrush_solution info' (map Fin x) z x0 z0 = (map Fin X, Z) \<and> lp_optimal P X \<and> lp_value P X = lp_value P' x"
  by (rule presolve_optimal [OF assms])

theorem presolve_preserves_optimal_witness:
  "lp_optimal ex_pre [4, 2, 6] \<and> lp_value ex_pre [4, 2, 6] = Fin (- 1)"
proof -
  let ?Q = "fst (snd (presolve ex_pre presolve_info_new))" and ?i = "snd (snd (presolve ex_pre presolve_info_new))"
  have pre: "presolve ex_pre presolve_info_new = (0, ?Q, ?i)" by code_simp
  have "num_cols ex_pre = 3" "\<not> zero_column ex_pre 0" "removable ex_pre 1" "removable ex_pre 2" by code_simp+
  then have rem: "\<forall>j<num_cols ex_pre. zero_column ex_pre j \<longrightarrow> removable ex_pre j"
    by (simp add: All_less_Suc numeral_3_eq_3 numeral_2_eq_2)
  have k: "is_fin (obj_constant ex_pre)" by code_simp
  have Q: "num_cols ?Q = 1" "csc_n (lp_A ?Q) = 1" "csc_dense (lp_A ?Q) 0 0 = 1" "rhs ?Q ! 0 = 4" "0 < num_rows ?Q"
    by code_simp+
  have only: "y = [4]" if y: "lp_feasible ?Q y" for y
  proof -
    have "length y = 1" "activity (lp_A ?Q) y 0 = 4"
      using y [unfolded lp_feasible_def Q(1,4)] Q(4,5) by auto
    moreover have "activity (lp_A ?Q) y 0 = y ! 0" unfolding activity_def Q(2) using Q(3) by simp
    ultimately show ?thesis by (cases y) auto
  qed
  have "lp_feasible ?Q [4]" "lp_value ?Q [4] \<le> lp_value ?Q [4]" by code_simp+
  then have "lp_optimal ?Q [4]" unfolding lp_optimal_def by (blast dest: only)
  from presolve_preserves_optimal [OF ex_pre_wf pre k rem this, of "[]" "[]" "[]"]
  obtain X Z where X: "uncrush_solution ?i (map Fin [4]) [] [] [] = (map Fin X, Z)" "lp_optimal ex_pre X"
    "lp_value ex_pre X = lp_value ?Q [4]" by blast
  have "fst (uncrush_solution ?i (map Fin [4]) [] [] []) = map Fin [4, 2, 6]" by code_simp
  then have "map Fin X = map Fin [4, 2, 6]" unfolding X(1) by simp
  then have "X = [4, 2, 6]" by (cases X; cases "tl X"; cases "tl (tl X)") auto
  moreover have "lp_value ?Q [4] = Fin (- 1)" by code_simp
  ultimately show ?thesis using X(2,3) by simp
qed

text \<open>A column without entries whose cost is zero and whose lower bound is \<open>-\<infinity>\<close> is removed at its
  lower bound: the objective constant of the presolved problem is NaN (\<open>0 * \<infinity>\<close>), so is every objective value.\<close>

theorem presolve_free_column_nan:
  fixes P :: "('f :: linordered_idom) lp_problem"
  assumes "lp_wf P" "\<forall>i<num_rows P. \<not> row_empty P i" "j < num_cols P" "col_empty P j" "objective P ! j = 0" "lower P ! j = MInf"
    "presolve P info = (ret, P', info')"
  shows "ret = 0 \<and> obj_constant P' = NaN \<and> lp_value P' x = NaN"
proof -
  have E: "presolve P info = (0, let (P', _, info') = remove_empty_cols P (int (length (filter (col_empty P) [0..<num_cols P]))) info in (P', info'))"
    using assms(2-4) by (auto simp: presolve_unfold [OF assms(1)])
  let ?ds = "dropped (empty_col_marker P) (num_cols P)"
  have j: "j \<in> set ?ds" using assms(3,4) empty_col_facts(2) by blast
  have nan: "fold (\<lambda>j oc. oc + Fin (objective P ! j) * empty_cost_bound P j) js NaN = NaN" for js
    by (induction js) auto
  have step: "k + Fin (objective P ! j) * empty_cost_bound P j = NaN" for k
    using assms(5,6) by (cases k) (simp_all add: empty_cost_bound_def)
  obtain as bs where "?ds = as @ j # bs" using j by (meson split_list)
  then have "removed_cost P ?ds = NaN" by (simp add: removed_cost_def step nan)
  then show ?thesis using assms(7) by (auto simp: E remove_empty_cols_spec lp_value_def)
qed

theorem presolve_free_column_nan_witness:
  "obj_constant (fst (snd (presolve (ex_pre\<lparr>num_rows := 1, rhs := [4], objective := [1, 3, 0],
     lp_A := \<lparr>csc_nz_max = 1, csc_m = 1, csc_n = 3, col_start = [0, 1, 1, 1], csc_i = [0], csc_x = [1]\<rparr>\<rparr>) presolve_info_new))) = NaN"
proof -
  let ?P = "ex_pre\<lparr>num_rows := 1, rhs := [4], objective := [1, 3, 0],
     lp_A := \<lparr>csc_nz_max = 1, csc_m = 1, csc_n = 3, col_start = [0, 1, 1, 1], csc_i = [0], csc_x = [1]\<rparr>\<rparr>"
  have "lp_wf ?P" "\<forall>i<num_rows ?P. \<not> row_empty ?P i" "2 < num_cols ?P" "col_empty ?P 2" "objective ?P ! 2 = 0" "lower ?P ! 2 = MInf"
    by code_simp+
  from presolve_free_column_nan [OF this, of presolve_info_new "fst (presolve ?P presolve_info_new)"
      "fst (snd (presolve ?P presolve_info_new))" "snd (snd (presolve ?P presolve_info_new))"]
  show ?thesis by simp
qed

end
