(* ===== verification/Mps_Strings.thy ===== *)
theory Mps_Strings
  imports Ext_Float
begin

text \<open>
  The parts of the C++ standard library that the MPS reader uses, on character lists: the searches of
  \<open>std::string_view\<close>, \<open>substr\<close> with its exception, \<open>strtok\<close> with the separator newline, word extraction
  from a \<open>std::stringstream\<close>, and \<open>std::stod\<close>; and the two helpers \<open>get_next_string\<close> and \<open>trim\<close> of
  \<open>mps_parser.cpp\<close>. Positions are integers, with -1 for \<open>npos\<close>, as the code's conversions to \<open>int\<close>
  make them. \<open>stod\<close> computes exact values: the rounding and the range errors of \<open>double\<close> are not
  modelled.
\<close>

subsection \<open>Searching\<close>

definition find_from :: "(char \<Rightarrow> bool) \<Rightarrow> string \<Rightarrow> int \<Rightarrow> int" where
  "find_from p s pos =
     (if pos < 0 then -1
      else let n = nat pos + length (takeWhile (\<lambda>c. \<not> p c) (drop (nat pos) s))
           in if n < length s then int n else -1)"

definition find_first_of :: "char list \<Rightarrow> string \<Rightarrow> int \<Rightarrow> int" where
  "find_first_of cs s pos = find_from (\<lambda>c. c \<in> set cs) s pos"

definition find_first_not_of :: "char list \<Rightarrow> string \<Rightarrow> int \<Rightarrow> int" where
  "find_first_not_of cs s pos = find_from (\<lambda>c. c \<notin> set cs) s pos"

definition find_last_not_of :: "char list \<Rightarrow> string \<Rightarrow> int" where
  "find_last_not_of cs s = int (length s) - 1 - int (length (takeWhile (\<lambda>c. c \<in> set cs) (rev s)))"

text \<open>Comparison after the conversion to \<open>size_t\<close>: \<open>npos\<close> is the largest value.\<close>

definition size_gt :: "int \<Rightarrow> int \<Rightarrow> bool" where
  "size_gt a b \<longleftrightarrow> b \<noteq> -1 \<and> (a = -1 \<or> a > b)"

fun starts_with :: "string \<Rightarrow> string \<Rightarrow> bool" where
  "starts_with [] s = True"
| "starts_with (c # cs) [] = False"
| "starts_with (c # cs) (d # ds) = (c = d \<and> starts_with cs ds)"

fun contains :: "string \<Rightarrow> string \<Rightarrow> bool" where
  "contains p [] = (p = [])"
| "contains p (d # ds) = (starts_with p (d # ds) \<or> contains p ds)"

text \<open>\<open>s.substr(pos, n)\<close>; \<open>None\<close> is the exception \<open>std::out_of_range\<close>.\<close>

definition substr :: "string \<Rightarrow> int \<Rightarrow> nat \<Rightarrow> string option" where
  "substr s pos n = (if pos < 0 \<or> pos > int (length s) then None else Some (take n (drop (nat pos) s)))"

definition TAB :: char where "TAB = CHR 0x09"
definition CR :: char where "CR = CHR 0x0D"
definition NL :: char where "NL = CHR 0x0A"
definition BLANK :: char where "BLANK = CHR '' ''"

subsection \<open>The helpers of the reader\<close>

definition get_next_string :: "string \<Rightarrow> int \<Rightarrow> string \<times> int \<times> int" where
  "get_next_string line end_pos =
     (let pos = find_first_not_of [BLANK, TAB] line end_pos
      in if pos = -1 then ([], pos, end_pos)
         else let end_pos = find_first_of [BLANK, TAB, NL, CR] line pos
              in if end_pos = -1 then (drop (nat pos) line, pos, end_pos)
                 else (take (nat (end_pos - pos)) (drop (nat pos) line), pos, end_pos))"

definition trim :: "string \<Rightarrow> string" where
  "trim str =
     (let start = find_first_not_of [BLANK, CR, TAB] str 0
      in if start = -1 then []
         else let end_pos = find_last_not_of [BLANK, CR, TAB] str
              in take (nat (end_pos - start + 1)) (drop (nat start) str))"

text \<open>\<open>s[0] == '$'\<close>; the empty views that occur are literals, whose first character is the terminator.\<close>

definition dollar :: "string \<Rightarrow> bool" where
  "dollar s \<longleftrightarrow> s \<noteq> [] \<and> hd s = CHR ''$''"

subsection \<open>Lines and words\<close>

text \<open>\<open>strtok\<close> cuts at newlines, never returns an empty token, and stops at the terminating zero.\<close>

fun split_at :: "char \<Rightarrow> string \<Rightarrow> string list" where
  "split_at c [] = [[]]"
| "split_at c (d # ds) = (if c = d then [] # split_at c ds
     else (case split_at c ds of [] \<Rightarrow> [[d]] | w # ws \<Rightarrow> (d # w) # ws))"

definition strtok_lines :: "string \<Rightarrow> string list" where
  "strtok_lines buf = filter (\<lambda>l. l \<noteq> []) (split_at NL (takeWhile (\<lambda>c. c \<noteq> CHR 0x00) buf))"

definition is_space :: "char \<Rightarrow> bool" where
  "is_space c \<longleftrightarrow> c \<in> set [BLANK, TAB, NL, CHR 0x0B, CHR 0x0C, CR]"

definition is_alpha :: "char \<Rightarrow> bool" where
  "is_alpha c \<longleftrightarrow> (let n = of_char c :: nat in (65 \<le> n \<and> n \<le> 90) \<or> (97 \<le> n \<and> n \<le> 122))"

text \<open>\<open>ss >> word\<close>: skip white space and take the longest word; \<open>None\<close> when the stream is at its end,
  in which case the code's variable keeps its value.\<close>

definition next_word :: "string \<Rightarrow> string option \<times> string" where
  "next_word s = (let t = dropWhile is_space s
     in if t = [] then (None, []) else (Some (takeWhile (\<lambda>c. \<not> is_space c) t), dropWhile (\<lambda>c. \<not> is_space c) t))"

definition next_char :: "string \<Rightarrow> char option \<times> string" where
  "next_char s = (case dropWhile is_space s of [] \<Rightarrow> (None, []) | c # t \<Rightarrow> (Some c, t))"

subsection \<open>\<open>std::stod\<close>\<close>

definition digit_value :: "nat \<Rightarrow> char \<Rightarrow> nat option" where
  "digit_value base c =
     (let n = of_char c :: nat;
          v = (if 48 \<le> n \<and> n \<le> 57 then n - 48 else if 97 \<le> n \<and> n \<le> 102 then n - 87
               else if 65 \<le> n \<and> n \<le> 70 then n - 55 else base)
      in if v < base then Some v else None)"

fun read_digits :: "nat \<Rightarrow> string \<Rightarrow> nat list \<times> string" where
  "read_digits base [] = ([], [])"
| "read_digits base (c # cs) = (case digit_value base c of None \<Rightarrow> ([], c # cs)
     | Some v \<Rightarrow> (let (vs, r) = read_digits base cs in (v # vs, r)))"

definition digits_value :: "nat \<Rightarrow> nat list \<Rightarrow> nat" where
  "digits_value base vs = foldl (\<lambda>a d. base * a + d) 0 vs"

definition read_sign :: "string \<Rightarrow> bool \<times> string" where
  "read_sign s = (case s of [] \<Rightarrow> (False, s) | c # t \<Rightarrow>
     if c = CHR ''-'' then (True, t) else if c = CHR ''+'' then (False, t) else (False, s))"

text \<open>An exponent part counts only when a digit follows the letter and the optional sign.\<close>

definition read_exponent :: "char list \<Rightarrow> string \<Rightarrow> int" where
  "read_exponent letters s = (case s of [] \<Rightarrow> 0 | c # t \<Rightarrow>
     if c \<in> set letters
     then let (neg, t) = read_sign t; v = int (digits_value 10 (fst (read_digits 10 t)))
          in if neg then - v else v
     else 0)"

definition scale_by :: "nat \<Rightarrow> int \<Rightarrow> 'f \<Rightarrow> 'f :: field" where
  "scale_by b e v = (if e \<ge> 0 then v * of_nat b ^ nat e else v / of_nat b ^ nat (- e))"

text \<open>Digits with an optional point, in base 10 or 16; \<open>None\<close> when there is no digit.\<close>

definition read_mantissa :: "nat \<Rightarrow> string \<Rightarrow> ('f :: field \<times> string) option" where
  "read_mantissa base s =
     (let (whole, r) = read_digits base s;
          (frac, r) = (case r of [] \<Rightarrow> ([], r) | c # t \<Rightarrow> if c = CHR ''.'' then read_digits base t else ([], r))
      in if whole = [] \<and> frac = [] then None
         else Some (of_nat (digits_value base (whole @ frac)) / of_nat base ^ length frac, r))"

fun lower_char :: "char \<Rightarrow> char" where
  "lower_char c = (let n = of_char c :: nat in if 65 \<le> n \<and> n \<le> 90 then char_of (n + 32) else c)"

definition read_unsigned :: "string \<Rightarrow> ('f :: linordered_field) ext option" where
  "read_unsigned s =
     (let l = map lower_char s;
          hex = (if starts_with ''0x'' l then read_mantissa 16 (drop 2 s) else None)
      in if starts_with ''inf'' l then Some PInf
         else if starts_with ''nan'' l then Some NaN
         else case hex of Some (v, r) \<Rightarrow> Some (Fin (scale_by 2 (read_exponent [CHR ''p'', CHR ''P''] r) v))
         | None \<Rightarrow> (case read_mantissa 10 s of None \<Rightarrow> None
             | Some (v, r) \<Rightarrow> Some (Fin (scale_by 10 (read_exponent [CHR ''e'', CHR ''E''] r) v))))"

definition stod :: "string \<Rightarrow> ('f :: linordered_field) ext option" where
  "stod s = (let (neg, t) = read_sign (dropWhile is_space s)
     in map_option (\<lambda>v. if neg then - v else v) (read_unsigned t))"

end
