(* ===== verification/Mps_Model.thy ===== *)
theory Mps_Model
  imports Mps_Strings
begin

text \<open>
  The container of a parsed problem (\<open>mps_data_model.hpp\<close>, \<open>mps_data_model.cpp\<close>): its fields, and the
  setters with their validation. A pointer argument is an optional list (\<open>None\<close> is the null
  pointer), a size counts the elements the setter copies; copying more elements than the array has
  is \<open>Undefined\<close>. \<open>mps_error\<close> is the error of the whole reader: a failed \<open>mps_parser_expects\<close> (one
  constructor per message), the exception of \<open>substr\<close>, or behaviour that C++ leaves undefined.
\<close>

datatype validation =
    Null_Pointer | Empty_Offsets
  | Bad_Bound_Type | Bad_Objsense | Bad_Csr | Size_Mismatch | Nan_Value | Bad_Row_Type
  | No_Line | Bad_Block | Bad_State | No_Objective | Missing_Rows | Missing_Columns | Missing_Rhs
  | Internal | Duplicate_Row | Short_Columns | Nested_Int | Int_Not_Started | Not_Contiguous
  | Bad_Value_Columns | Bad_Row_Columns | Short_Rhs | Bad_Value_Rhs | Bad_Row_Rhs
  | Short_Bounds | Bad_Value_Bounds | Semi_Continuous
  | Short_Ranges | Bad_Value_Ranges | Bad_Row_Ranges
  | Objsense_Fixed | Objname_Fixed | Objname_Late

datatype mps_error = Validation validation | Out_Of_Range | Undefined

text \<open>Sequencing of fallible steps: the first error ends the computation.\<close>

definition bind_ok :: "'e + 'a \<Rightarrow> ('a \<Rightarrow> 'e + 'b) \<Rightarrow> 'e + 'b" where
  "bind_ok r f = (case r of Inl e \<Rightarrow> Inl e | Inr a \<Rightarrow> f a)"

definition expects :: "bool \<Rightarrow> validation \<Rightarrow> (mps_error + 'a) \<Rightarrow> mps_error + 'a" where
  "expects cond e k = (if cond then k else Inl (Validation e))"

lemma bind_ok_simps [simp]: "bind_ok (Inl e) f = Inl e" "bind_ok (Inr a) f = f a"
  by (simp_all add: bind_ok_def)

lemma bind_ok_Inr: "bind_ok r f = Inr b \<longleftrightarrow> (\<exists>a. r = Inr a \<and> f a = Inr b)"
  by (cases r) simp_all

lemma bind_ok_Inl: "bind_ok r f = Inl e \<longleftrightarrow> r = Inl e \<or> (\<exists>a. r = Inr a \<and> f a = Inl e)"
  by (cases r) simp_all

lemma expects_Inr [simp]: "expects c e k = Inr a \<longleftrightarrow> c \<and> k = Inr a"
  by (simp add: expects_def)

lemma expects_Undefined [simp]: "expects c e k = Inl Undefined \<longleftrightarrow> c \<and> k = Inl Undefined"
  by (simp add: expects_def)

text \<open>
  The outcome calculus of the fallible steps: \<open>outcome E P r\<close> says that \<open>r\<close> is an error in \<open>E\<close> or a result
  in \<open>P\<close>. It distributes over the sequencing, so that a method is verified along its text.
\<close>

definition outcome :: "('e \<Rightarrow> bool) \<Rightarrow> ('a \<Rightarrow> bool) \<Rightarrow> 'e + 'a \<Rightarrow> bool" where
  "outcome E P r = (case r of Inl e \<Rightarrow> E e | Inr a \<Rightarrow> P a)"

lemma outcome_simps [simp]: "outcome E P (Inl e) = E e" "outcome E P (Inr a) = P a"
  by (simp_all add: outcome_def)

lemma outcome_bind [simp]: "outcome E P (bind_ok r f) = outcome E (\<lambda>a. outcome E P (f a)) r"
  by (cases r) simp_all

lemma outcome_expects [simp]:
  "outcome E P (expects c e k) = (if c then outcome E P k else E (Validation e))"
  by (simp add: expects_def)

lemma outcome_mono: "outcome E P r \<Longrightarrow> (\<And>e. E e \<Longrightarrow> E' e) \<Longrightarrow> (\<And>a. P a \<Longrightarrow> P' a) \<Longrightarrow> outcome E' P' r"
  by (cases r) simp_all

lemma outcome_snd [simp]: "outcome E P (case a of (p, x) \<Rightarrow> Inr x) = P (snd a)"
  by (cases a) simp

lemma outcomeI: "(\<And>e. r = Inl e \<Longrightarrow> E e) \<Longrightarrow> (\<And>a. r = Inr a \<Longrightarrow> P a) \<Longrightarrow> outcome E P r"
  by (cases r) simp_all

lemma outcomeD: "outcome E P r \<Longrightarrow> r = Inr a \<Longrightarrow> P a" "outcome E P r \<Longrightarrow> r = Inl e \<Longrightarrow> E e"
  by simp_all

subsection \<open>The data model\<close>

record 'f mps_data_model =
  dm_maximize :: bool
  dm_A :: "'f ext list"
  dm_A_indices :: "nat list"
  dm_A_offsets :: "nat list"
  dm_b :: "'f ext list"
  dm_c :: "'f ext list"
  dm_objective_scaling_factor :: "'f ext"
  dm_objective_offset :: "'f ext"
  dm_variable_lower_bounds :: "'f ext list"
  dm_variable_upper_bounds :: "'f ext list"
  dm_var_types :: "char list"
  dm_constraint_lower_bounds :: "'f ext list"
  dm_constraint_upper_bounds :: "'f ext list"
  dm_row_types :: "char list"
  dm_objective_name :: string
  dm_problem_name :: string
  dm_var_names :: "string list"
  dm_row_names :: "string list"
  dm_n_vars :: nat
  dm_n_constraints :: nat
  dm_initial_primal_solution :: "'f ext list"
  dm_initial_dual_solution :: "'f ext list"

text \<open>The default constructor; \<open>maximize_\<close> has no initialiser, its value is a parameter.\<close>

definition mps_data_model_new :: "bool \<Rightarrow> ('f :: linordered_idom) mps_data_model" where
  "mps_data_model_new uninit =
     \<lparr>dm_maximize = uninit, dm_A = [], dm_A_indices = [], dm_A_offsets = [], dm_b = [], dm_c = [],
      dm_objective_scaling_factor = 1, dm_objective_offset = 0,
      dm_variable_lower_bounds = [], dm_variable_upper_bounds = [], dm_var_types = [],
      dm_constraint_lower_bounds = [], dm_constraint_upper_bounds = [], dm_row_types = [],
      dm_objective_name = [], dm_problem_name = [], dm_var_names = [], dm_row_names = [],
      dm_n_vars = 0, dm_n_constraints = 0, dm_initial_primal_solution = [], dm_initial_dual_solution = []\<rparr>"

definition copy_array :: "'a list option \<Rightarrow> nat \<Rightarrow> mps_error + 'a list" where
  "copy_array p cnt = (case p of
       None \<Rightarrow> if cnt = 0 then Inr [] else Inl Undefined
     | Some xs \<Rightarrow> if cnt \<le> length xs then Inr (take cnt xs) else Inl Undefined)"

definition set_csr_constraint_matrix ::
  "'f ext list option \<Rightarrow> nat \<Rightarrow> nat list option \<Rightarrow> nat \<Rightarrow> nat list option \<Rightarrow> nat \<Rightarrow> 'f mps_data_model \<Rightarrow>
     mps_error + 'f mps_data_model" where
  "set_csr_constraint_matrix vals size_values indices size_indices offsets size_offsets M =
     expects (size_values = 0 \<or> vals \<noteq> None) Null_Pointer
     (bind_ok (copy_array vals size_values) (\<lambda>A.
      expects (size_indices = 0 \<or> indices \<noteq> None) Null_Pointer
     (bind_ok (copy_array indices size_indices) (\<lambda>A_ind.
      expects (offsets \<noteq> None) Null_Pointer
     (expects (size_offsets > 0) Empty_Offsets
     (bind_ok (copy_array offsets size_offsets) (\<lambda>A_off.
      Inr (M\<lparr>dm_A := A, dm_A_indices := A_ind, dm_A_offsets := A_off\<rparr>))))))))"

definition set_constraint_bounds :: "'f ext list option \<Rightarrow> nat \<Rightarrow> 'f mps_data_model \<Rightarrow> mps_error + 'f mps_data_model" where
  "set_constraint_bounds b cnt M = expects (cnt = 0 \<or> b \<noteq> None) Null_Pointer
     (bind_ok (copy_array b cnt) (\<lambda>xs. Inr (M\<lparr>dm_n_constraints := cnt, dm_b := xs\<rparr>)))"

definition set_objective_coefficients :: "'f ext list option \<Rightarrow> nat \<Rightarrow> 'f mps_data_model \<Rightarrow> mps_error + 'f mps_data_model" where
  "set_objective_coefficients c cnt M = expects (cnt = 0 \<or> c \<noteq> None) Null_Pointer
     (bind_ok (copy_array c cnt) (\<lambda>xs. Inr (M\<lparr>dm_n_vars := cnt, dm_c := xs\<rparr>)))"

definition set_objective_scaling_factor :: "'f ext \<Rightarrow> 'f mps_data_model \<Rightarrow> 'f mps_data_model" where
  "set_objective_scaling_factor s M = M\<lparr>dm_objective_scaling_factor := s\<rparr>"

definition set_objective_offset :: "'f ext \<Rightarrow> 'f mps_data_model \<Rightarrow> 'f mps_data_model" where
  "set_objective_offset s M = M\<lparr>dm_objective_offset := s\<rparr>"

definition set_variable_lower_bounds :: "'f ext list option \<Rightarrow> nat \<Rightarrow> 'f mps_data_model \<Rightarrow> mps_error + 'f mps_data_model" where
  "set_variable_lower_bounds l cnt M = expects (cnt = 0 \<or> l \<noteq> None) Null_Pointer
     (bind_ok (copy_array l cnt) (\<lambda>xs. Inr (M\<lparr>dm_variable_lower_bounds := xs\<rparr>)))"

definition set_variable_upper_bounds :: "'f ext list option \<Rightarrow> nat \<Rightarrow> 'f mps_data_model \<Rightarrow> mps_error + 'f mps_data_model" where
  "set_variable_upper_bounds u cnt M = expects (cnt = 0 \<or> u \<noteq> None) Null_Pointer
     (bind_ok (copy_array u cnt) (\<lambda>xs. Inr (M\<lparr>dm_variable_upper_bounds := xs\<rparr>)))"

definition set_constraint_lower_bounds :: "'f ext list option \<Rightarrow> nat \<Rightarrow> 'f mps_data_model \<Rightarrow> mps_error + 'f mps_data_model" where
  "set_constraint_lower_bounds l cnt M = expects (cnt = 0 \<or> l \<noteq> None) Null_Pointer
     (bind_ok (copy_array l cnt) (\<lambda>xs. Inr (M\<lparr>dm_n_constraints := cnt, dm_constraint_lower_bounds := xs\<rparr>)))"

definition set_constraint_upper_bounds :: "'f ext list option \<Rightarrow> nat \<Rightarrow> 'f mps_data_model \<Rightarrow> mps_error + 'f mps_data_model" where
  "set_constraint_upper_bounds u cnt M = expects (cnt = 0 \<or> u \<noteq> None) Null_Pointer
     (bind_ok (copy_array u cnt) (\<lambda>xs. Inr (M\<lparr>dm_constraint_upper_bounds := xs\<rparr>)))"

definition set_row_types :: "char list option \<Rightarrow> nat \<Rightarrow> 'f mps_data_model \<Rightarrow> mps_error + 'f mps_data_model" where
  "set_row_types t cnt M = expects (t \<noteq> None) Null_Pointer
     (bind_ok (copy_array t cnt) (\<lambda>xs. Inr (M\<lparr>dm_row_types := xs\<rparr>)))"

definition set_objective_name :: "string \<Rightarrow> 'f mps_data_model \<Rightarrow> 'f mps_data_model" where
  "set_objective_name s M = M\<lparr>dm_objective_name := s\<rparr>"

definition set_problem_name :: "string \<Rightarrow> 'f mps_data_model \<Rightarrow> 'f mps_data_model" where
  "set_problem_name s M = M\<lparr>dm_problem_name := s\<rparr>"

definition set_variable_names :: "string list \<Rightarrow> 'f mps_data_model \<Rightarrow> 'f mps_data_model" where
  "set_variable_names ns M = M\<lparr>dm_var_names := ns\<rparr>"

definition set_variable_types :: "char list \<Rightarrow> 'f mps_data_model \<Rightarrow> 'f mps_data_model" where
  "set_variable_types ts M = M\<lparr>dm_var_types := ts\<rparr>"

definition set_row_names :: "string list \<Rightarrow> 'f mps_data_model \<Rightarrow> 'f mps_data_model" where
  "set_row_names ns M = M\<lparr>dm_row_names := ns\<rparr>"

definition set_maximize :: "bool \<Rightarrow> 'f mps_data_model \<Rightarrow> 'f mps_data_model" where
  "set_maximize m M = M\<lparr>dm_maximize := m\<rparr>"

definition set_initial_primal_solution :: "'f ext list option \<Rightarrow> nat \<Rightarrow> 'f mps_data_model \<Rightarrow> mps_error + 'f mps_data_model" where
  "set_initial_primal_solution x cnt M = expects (x \<noteq> None) Null_Pointer
     (bind_ok (copy_array x cnt) (\<lambda>xs. Inr (M\<lparr>dm_initial_primal_solution := xs\<rparr>)))"

definition set_initial_dual_solution :: "'f ext list option \<Rightarrow> nat \<Rightarrow> 'f mps_data_model \<Rightarrow> mps_error + 'f mps_data_model" where
  "set_initial_dual_solution y cnt M = expects (y \<noteq> None) Null_Pointer
     (bind_ok (copy_array y cnt) (\<lambda>xs. Inr (M\<lparr>dm_initial_dual_solution := xs\<rparr>)))"

definition get_nnz :: "'f mps_data_model \<Rightarrow> nat" where
  "get_nnz M = length (dm_A M)"

lemma copy_array_all [simp]: "copy_array (Some xs) (length xs) = Inr xs"
  by (simp add: copy_array_def)

lemma set_all_elements [simp]:
  "set_csr_constraint_matrix (Some a) (length a) (Some i) (length i) (Some p) (length p) M =
     expects (p \<noteq> []) Empty_Offsets (Inr (M\<lparr>dm_A := a, dm_A_indices := i, dm_A_offsets := p\<rparr>))"
  "set_constraint_bounds (Some b) (length b) M = Inr (M\<lparr>dm_n_constraints := length b, dm_b := b\<rparr>)"
  "set_objective_coefficients (Some b) (length b) M = Inr (M\<lparr>dm_n_vars := length b, dm_c := b\<rparr>)"
  "set_variable_lower_bounds (Some b) (length b) M = Inr (M\<lparr>dm_variable_lower_bounds := b\<rparr>)"
  "set_variable_upper_bounds (Some b) (length b) M = Inr (M\<lparr>dm_variable_upper_bounds := b\<rparr>)"
  "set_constraint_lower_bounds (Some b) (length b) M =
     Inr (M\<lparr>dm_n_constraints := length b, dm_constraint_lower_bounds := b\<rparr>)"
  "set_constraint_upper_bounds (Some b) (length b) M = Inr (M\<lparr>dm_constraint_upper_bounds := b\<rparr>)"
  by (simp_all add: set_csr_constraint_matrix_def set_constraint_bounds_def set_objective_coefficients_def
      set_variable_lower_bounds_def set_variable_upper_bounds_def set_constraint_lower_bounds_def
      set_constraint_upper_bounds_def expects_def)

end
