(* ===== verification/Mps_Parser.thy ===== *)
theory Mps_Parser
  imports Mps_Model
begin

text \<open>
  The MPS reader (\<open>mps_parser.hpp\<close>, \<open>mps_parser.cpp\<close>, \<open>parser.cpp\<close>): the parser's state, one function
  per method, the section automaton over the lines and the final transfer into the data model. The
  methods return the new state or an error; the position that a method hands back through a reference
  is returned too. Sizes are assumed to fit in \<open>int\<close>. The file is a character list: opening and reading
  it (\<open>file_to_string\<close>) is not modelled. The hash tables are maps and sets.
\<close>

subsection \<open>Data\<close>

datatype row_type = Objective | LesserThanOrEqual | GreaterThanOrEqual | Equality | Other_Row char

definition row_type_of_char :: "char \<Rightarrow> row_type" where
  "row_type_of_char c =
     (if c = CHR ''N'' then Objective else if c = CHR ''L'' then LesserThanOrEqual
      else if c = CHR ''G'' then GreaterThanOrEqual else if c = CHR ''E'' then Equality else Other_Row c)"

datatype bound_type = LowerBound | UpperBound | Fixed | Free | LowerBoundNegInf | UpperBoundInf
  | BinaryVariable | LowerBoundIntegerVariable | UpperBoundIntegerVariable | SemiContiniousVariable

datatype obj_sense = Minimize | Maximize

datatype in_section = In_Rows | In_Columns | In_Rhs | In_Bounds | In_Ranges | In_Objsense | In_Objname

record 'f mps_parser =
  fixed_mps_format :: bool
  problem_name :: string
  row_names :: "string list"
  row_types :: "row_type list"
  objective_name :: string
  var_names :: "string list"
  var_types :: "char list"
  A_indices :: "nat list list"
  A_values :: "'f ext list list"
  b_values :: "'f ext list"
  c_values :: "'f ext list"
  objective_scaling_factor_value :: "'f ext"
  objective_offset_value :: "'f ext"
  variable_upper_bounds :: "'f ext list"
  variable_lower_bounds :: "'f ext list"
  ranges_values :: "'f ext list"
  maximize :: bool
  inside_rows :: bool
  inside_columns :: bool
  inside_rhs :: bool
  inside_bounds :: bool
  inside_ranges :: bool
  inside_objsense :: bool
  inside_intcapture :: bool
  inside_objname :: bool
  encountered_sections :: "string set"
  row_names_map :: "string \<Rightarrow> nat option"
  var_names_map :: "string \<Rightarrow> nat option"
  ignored_objective_names :: "string set"
  bounds_defined_for_var_id :: "nat set"

definition mps_parser_new :: "bool \<Rightarrow> ('f :: linordered_idom) mps_parser" where
  "mps_parser_new fixed_format =
     \<lparr>fixed_mps_format = fixed_format, problem_name = [], row_names = [], row_types = [], objective_name = [],
      var_names = [], var_types = [], A_indices = [], A_values = [], b_values = [], c_values = [],
      objective_scaling_factor_value = 1, objective_offset_value = 0,
      variable_upper_bounds = [], variable_lower_bounds = [], ranges_values = [], maximize = False,
      inside_rows = False, inside_columns = False, inside_rhs = False, inside_bounds = False,
      inside_ranges = False, inside_objsense = False, inside_intcapture = False, inside_objname = False,
      encountered_sections = {}, row_names_map = (\<lambda>_. None), var_names_map = (\<lambda>_. None),
      ignored_objective_names = {}, bounds_defined_for_var_id = {}\<rparr>"

abbreviation unset_range_value :: "'f ext" where "unset_range_value \<equiv> PInf"

text \<open>\<open>insert\<close> of a hash map keeps an entry that exists.\<close>

definition insert_name :: "string \<Rightarrow> nat \<Rightarrow> (string \<Rightarrow> nat option) \<Rightarrow> string \<Rightarrow> nat option" where
  "insert_name name i m = (case m name of None \<Rightarrow> m(name \<mapsto> i) | Some _ \<Rightarrow> m)"

definition convert :: "string \<Rightarrow> mps_error + bound_type" where
  "convert str =
     (if str = ''LO'' then Inr LowerBound else if str = ''UP'' then Inr UpperBound
      else if str = ''FX'' then Inr Fixed else if str = ''FR'' then Inr Free
      else if str = ''MI'' then Inr LowerBoundNegInf else if str = ''PL'' then Inr UpperBoundInf
      else if str = ''BV'' then Inr BinaryVariable else if str = ''LI'' then Inr LowerBoundIntegerVariable
      else if str = ''UI'' then Inr UpperBoundIntegerVariable else if str = ''LC'' then Inr SemiContiniousVariable
      else Inl (Validation Bad_Bound_Type))"

definition convert_to_obj_sense :: "string \<Rightarrow> mps_error + obj_sense" where
  "convert_to_obj_sense str =
     (if str = ''MIN'' \<or> str = ''MINIMIZE'' then Inr Minimize
      else if str = ''MAX'' \<or> str = ''MAXIMIZE'' then Inr Maximize else Inl (Validation Bad_Objsense))"

text \<open>\<open>substr\<close>, \<open>stod\<close> and element access as fallible steps.\<close>

definition sub :: "string \<Rightarrow> int \<Rightarrow> nat \<Rightarrow> mps_error + string" where
  "sub s pos n = (case substr s pos n of None \<Rightarrow> Inl Out_Of_Range | Some t \<Rightarrow> Inr t)"

definition number :: "validation \<Rightarrow> string \<Rightarrow> mps_error + ('f :: linordered_field) ext" where
  "number e s = (case stod s of None \<Rightarrow> Inl (Validation e) | Some v \<Rightarrow> Inr v)"

definition store :: "nat \<Rightarrow> 'a \<Rightarrow> 'a list \<Rightarrow> mps_error + 'a list" where
  "store i v xs = (if i < length xs then Inr (xs[i := v]) else Inl Undefined)"

subsection \<open>ROWS\<close>

definition add_row :: "string \<Rightarrow> row_type \<Rightarrow> 'f mps_parser \<Rightarrow> 'f mps_parser" where
  "add_row name type st =
     (let n_rows = length (row_names st)
      in st\<lparr>row_names := row_names st @ [name],
            row_names_map := insert_name name n_rows (row_names_map st),
            row_types := row_types st @ [type]\<rparr>)"

definition parse_rows :: "'f mps_parser \<Rightarrow> string \<Rightarrow> mps_error + 'f mps_parser" where
  "parse_rows st line =
     bind_ok
       (if fixed_mps_format st
        then (if length line \<le> 1 then Inl Undefined
              else bind_ok (sub line 4 8) (\<lambda>s. Inr (row_type_of_char (line ! 1), trim s)))
        else (case next_char line of (None, _) \<Rightarrow> Inl Undefined
              | (Some read_word, rest) \<Rightarrow>
                  Inr (row_type_of_char read_word, case fst (next_word rest) of None \<Rightarrow> [] | Some w \<Rightarrow> w)))
       (\<lambda>(type, name).
          if type = Objective
          then Inr (if objective_name st = [] then st\<lparr>objective_name := name\<rparr>
                    else st\<lparr>ignored_objective_names := insert name (ignored_objective_names st)\<rparr>)
          else expects (row_names_map st name = None) Duplicate_Row
                 (Inr (add_row name type st)))"

subsection \<open>COLUMNS\<close>

definition add_column :: "string \<Rightarrow> char \<Rightarrow> 'f mps_parser \<Rightarrow> ('f :: linordered_idom) mps_parser" where
  "add_column var_name var_type st =
     st\<lparr>var_names := var_names st @ [var_name], var_types := var_types st @ [var_type],
        var_names_map := insert_name var_name (length (var_names st)) (var_names_map st),
        c_values := c_values st @ [0]\<rparr>"

definition parse_column_var_name :: "('f :: linordered_idom) mps_parser \<Rightarrow> string \<Rightarrow> mps_error + (int \<times> 'f mps_parser)" where
  "parse_column_var_name st line =
     bind_ok
       (if fixed_mps_format st
        then expects (length line \<ge> 25) Short_Columns (bind_ok (sub line 4 8) (\<lambda>s. Inr (trim s, 14)))
        else (let (var_name, _, end_var) = get_next_string line 0 in Inr (var_name, end_var)))
       (\<lambda>(var_name, pos).
          if contains ([CHR 0x27] @ ''MARKER'' @ [CHR 0x27]) line
          then bind_ok (if contains ''INTORG'' line
                        then expects (\<not> inside_intcapture st) Nested_Int (Inr (st\<lparr>inside_intcapture := True\<rparr>)) else Inr st)
               (\<lambda>st. bind_ok (if contains ''INTEND'' line
                        then expects (inside_intcapture st) Int_Not_Started (Inr (st\<lparr>inside_intcapture := False\<rparr>)) else Inr st)
               (\<lambda>st. Inr (-1, st)))
          else let var_type = (if inside_intcapture st then CHR ''I'' else CHR ''C'')
               in if var_names st \<noteq> []
                  then if last (var_names st) \<noteq> var_name
                       then expects (var_names_map st var_name = None) Not_Contiguous
                              (Inr (pos, add_column var_name var_type st))
                       else Inr (pos, st)
                  else Inr (pos, add_column var_name var_type st))"

definition parse_row_name_and_num :: "bool \<Rightarrow> string \<Rightarrow> int \<Rightarrow> mps_error + (string \<times> string \<times> int)" where
  "parse_row_name_and_num fixed_format line start =
     (if fixed_format
      then bind_ok (sub line start 8) (\<lambda>s. let row_name = trim s
           in bind_ok (sub line (start + 10) 12) (\<lambda>num.
                if dollar row_name then Inr ([], [], -1) else Inr (row_name, num, start)))
      else let (row_name, _, start) = get_next_string line start
           in if dollar row_name then Inr ([], [], -1)
              else let (num, _, start) = get_next_string line start in Inr (row_name, num, start))"

definition insert_row_name_and_value ::
  "('f :: linordered_field) mps_parser \<Rightarrow> string \<Rightarrow> string \<Rightarrow> nat \<Rightarrow> mps_error + 'f mps_parser" where
  "insert_row_name_and_value st row_name num var_id =
     (if row_name \<in> ignored_objective_names st then Inr st
      else bind_ok (number Bad_Value_Columns num) (\<lambda>val.
        if row_name = objective_name st
        then bind_ok (store var_id val (c_values st)) (\<lambda>c. Inr (st\<lparr>c_values := c\<rparr>))
        else case row_names_map st row_name of
            None \<Rightarrow> Inl (Validation Bad_Row_Columns)
          | Some row_id \<Rightarrow>
              if row_id < length (A_indices st) \<and> row_id < length (A_values st)
              then Inr (st\<lparr>A_indices := (A_indices st)[row_id := A_indices st ! row_id @ [var_id]],
                           A_values := (A_values st)[row_id := A_values st ! row_id @ [val]]\<rparr>)
              else Inl Undefined))"

definition read_row_and_value ::
  "('f :: linordered_field) mps_parser \<Rightarrow> string \<Rightarrow> int \<Rightarrow> nat \<Rightarrow> mps_error + (int \<times> 'f mps_parser)" where
  "read_row_and_value st line start var_id =
     bind_ok (parse_row_name_and_num (fixed_mps_format st) line start) (\<lambda>(row_name, num, end_pos).
       if row_name = [] then Inr (-1, st)
       else bind_ok (insert_row_name_and_value st row_name num var_id) (\<lambda>st. Inr (end_pos, st)))"

definition parse_column_row_and_value :: "('f :: linordered_field) mps_parser \<Rightarrow> string \<Rightarrow> int \<Rightarrow> mps_error + 'f mps_parser" where
  "parse_column_row_and_value st line pos =
     (let var_id = length (var_names st) - 1
      in bind_ok (read_row_and_value st line pos var_id) (\<lambda>(pos, st).
           if pos = -1 then Inr st
           else let pos = (if fixed_mps_format st then 39 else pos)
                in if size_gt (find_last_not_of [BLANK, CR, TAB, NL] line) pos
                   then bind_ok (read_row_and_value st line pos var_id) (\<lambda>(_, st). Inr st)
                   else Inr st))"

definition parse_columns :: "('f :: linordered_field) mps_parser \<Rightarrow> string \<Rightarrow> mps_error + 'f mps_parser" where
  "parse_columns st line = bind_ok (parse_column_var_name st line) (\<lambda>(pos, st).
     if pos = -1 then Inr st else parse_column_row_and_value st line pos)"

subsection \<open>RHS\<close>

definition read_rhs_row_and_value ::
  "('f :: linordered_field) mps_parser \<Rightarrow> string \<Rightarrow> int \<Rightarrow> mps_error + (int \<times> 'f mps_parser)" where
  "read_rhs_row_and_value st line start =
     bind_ok
       (if fixed_mps_format st
        then bind_ok (sub line start 8) (\<lambda>s. let row_name = trim s
             in if dollar row_name then Inr None
                else bind_ok (sub line (start + 10) 12) (\<lambda>num. Inr (Some (row_name, num, start))))
        else let (row_name, _, start) = get_next_string line start
             in if dollar row_name then Inr None
                else let (num, _, start) = get_next_string line start in Inr (Some (row_name, num, start)))
       (\<lambda>fields. case fields of None \<Rightarrow> Inr (-1, st)
        | Some (row_name, num, start) \<Rightarrow>
            bind_ok (number Bad_Value_Rhs num) (\<lambda>val.
              if row_name = objective_name st then Inr (start, st\<lparr>objective_offset_value := - val\<rparr>)
              else case row_names_map st row_name of
                  None \<Rightarrow> Inl (Validation Bad_Row_Rhs)
                | Some row_id \<Rightarrow> bind_ok (store row_id val (b_values st)) (\<lambda>b. Inr (start, st\<lparr>b_values := b\<rparr>))))"

definition parse_rhs :: "('f :: linordered_field) mps_parser \<Rightarrow> string \<Rightarrow> mps_error + 'f mps_parser" where
  "parse_rhs st line =
     bind_ok
       (if fixed_mps_format st
        then expects (length line \<ge> 25) Short_Rhs (read_rhs_row_and_value st line 14)
        else let (first_field, _, pos) = get_next_string line 0;
                 pos = (if first_field = objective_name st \<or> row_names_map st first_field \<noteq> None then 0 else pos)
             in read_rhs_row_and_value st line pos)
       (\<lambda>(pos, st).
          if pos = -1 then Inr st
          else let pos = (if fixed_mps_format st then 39 else pos)
               in if size_gt (find_last_not_of [BLANK, CR, TAB, NL] line) pos
                  then bind_ok (read_rhs_row_and_value st line pos) (\<lambda>(_, st). Inr st)
                  else Inr st)"

subsection \<open>BOUNDS\<close>

text \<open>The field with the value: 12 characters in the fixed format, the next word in the free one.\<close>

definition get_numerical_bound ::
  "bool \<Rightarrow> validation \<Rightarrow> string \<Rightarrow> int \<Rightarrow> mps_error + (('f :: linordered_field) ext \<times> int)" where
  "get_numerical_bound fixed_format e line start =
     bind_ok (if fixed_format then bind_ok (sub line start 12) (\<lambda>num. Inr (num, start))
              else let (num, _, start) = get_next_string line start in Inr (num, start))
       (\<lambda>(num, start). bind_ok (number e num) (\<lambda>val. Inr (val, start)))"

definition set_lower :: "nat \<Rightarrow> 'f ext \<Rightarrow> 'f mps_parser \<Rightarrow> mps_error + 'f mps_parser" where
  "set_lower i v st = bind_ok (store i v (variable_lower_bounds st)) (\<lambda>l. Inr (st\<lparr>variable_lower_bounds := l\<rparr>))"

definition set_upper :: "nat \<Rightarrow> 'f ext \<Rightarrow> 'f mps_parser \<Rightarrow> mps_error + 'f mps_parser" where
  "set_upper i v st = bind_ok (store i v (variable_upper_bounds st)) (\<lambda>u. Inr (st\<lparr>variable_upper_bounds := u\<rparr>))"

definition set_type :: "nat \<Rightarrow> char \<Rightarrow> 'f mps_parser \<Rightarrow> mps_error + 'f mps_parser" where
  "set_type i c st = bind_ok (store i c (var_types st)) (\<lambda>t. Inr (st\<lparr>var_types := t\<rparr>))"

definition set_upper_value :: "nat \<Rightarrow> ('f :: linordered_idom) ext \<Rightarrow> 'f mps_parser \<Rightarrow> mps_error + 'f mps_parser" where
  "set_upper_value i v st = bind_ok (set_upper i v st) (\<lambda>st.
     if i \<notin> bounds_defined_for_var_id st \<and> v < 0 then set_lower i MInf st else Inr st)"

definition read_bound_and_value ::
  "('f :: linordered_field) mps_parser \<Rightarrow> string \<Rightarrow> bound_type \<Rightarrow> nat \<Rightarrow> int \<Rightarrow> mps_error + 'f mps_parser" where
  "read_bound_and_value st line bt var_id start =
     (let value = get_numerical_bound (fixed_mps_format st) Bad_Value_Bounds line start
      in case bt of
        LowerBound \<Rightarrow> bind_ok value (\<lambda>(v, _). set_lower var_id v st)
      | UpperBound \<Rightarrow> bind_ok value (\<lambda>(v, _). set_upper_value var_id v st)
      | Fixed \<Rightarrow> bind_ok value (\<lambda>(v, _). bind_ok (set_lower var_id v st) (set_upper var_id v))
      | Free \<Rightarrow> bind_ok (set_lower var_id MInf st) (set_upper var_id PInf)
      | LowerBoundNegInf \<Rightarrow> set_lower var_id MInf st
      | UpperBoundInf \<Rightarrow> set_upper var_id PInf st
      | BinaryVariable \<Rightarrow> bind_ok (set_lower var_id 0 st) (\<lambda>st. bind_ok (set_upper var_id 1 st) (set_type var_id (CHR ''I'')))
      | LowerBoundIntegerVariable \<Rightarrow>
          bind_ok (if var_id \<notin> bounds_defined_for_var_id st then set_upper var_id PInf st else Inr st)
            (\<lambda>st. bind_ok value (\<lambda>(v, _). bind_ok (set_lower var_id v st) (set_type var_id (CHR ''I''))))
      | UpperBoundIntegerVariable \<Rightarrow>
          bind_ok value (\<lambda>(v, _). bind_ok (set_upper_value var_id v st) (set_type var_id (CHR ''I'')))
      | SemiContiniousVariable \<Rightarrow> Inl (Validation Semi_Continuous))"

text \<open>A variable first named in BOUNDS: its type is the zero character that \<open>resize\<close> leaves.\<close>

definition add_bounds_variable :: "string \<Rightarrow> 'f mps_parser \<Rightarrow> ('f :: linordered_idom) mps_parser" where
  "add_bounds_variable var_name st =
     st\<lparr>var_names := var_names st @ [var_name],
        var_names_map := insert_name var_name (length (var_names st)) (var_names_map st),
        c_values := c_values st @ [0],
        variable_lower_bounds := variable_lower_bounds st @ [0],
        variable_upper_bounds := variable_upper_bounds st @ [PInf],
        var_types := var_types st @ [CHR 0x00]\<rparr>"

definition parse_bounds :: "('f :: linordered_field) mps_parser \<Rightarrow> string \<Rightarrow> mps_error + 'f mps_parser" where
  "parse_bounds st line =
     bind_ok
       (if fixed_mps_format st
        then expects (length line \<ge> 14) Short_Bounds
          (bind_ok (sub line 1 2) (\<lambda>t. bind_ok (convert t) (\<lambda>type.
           bind_ok (sub line 4 8) (\<lambda>_. bind_ok (sub line 14 8) (\<lambda>v. Inr (type, trim v, 24))))))
        else let (t, _, end_pos) = get_next_string line 0
             in bind_ok (convert t) (\<lambda>type.
                let (bound_name, _, end_after_first_field) = get_next_string line end_pos;
                    (var_name, _, end_pos) = get_next_string line end_after_first_field
                in if var_names_map st bound_name \<noteq> None
                   then Inr (type, bound_name, end_after_first_field)
                   else Inr (type, var_name, end_pos)))
       (\<lambda>(type, var_name, end_pos).
          if dollar var_name then Inr st
          else let st = (if var_names_map st var_name = None then add_bounds_variable var_name st else st)
               in case var_names_map st var_name of
                   None \<Rightarrow> Inl Undefined
                 | Some var_id \<Rightarrow> bind_ok (read_bound_and_value st line type var_id end_pos)
                     (\<lambda>st. Inr (st\<lparr>bounds_defined_for_var_id := insert var_id (bounds_defined_for_var_id st)\<rparr>)))"

subsection \<open>RANGES\<close>

definition insert_range_value ::
  "('f :: linordered_field) mps_parser \<Rightarrow> string \<Rightarrow> bool \<Rightarrow> mps_error + (int \<times> 'f mps_parser)" where
  "insert_range_value st line skip_range =
     bind_ok
       (if fixed_mps_format st
        then bind_ok (sub line 14 8) (\<lambda>s. let row_name = trim s
             in if dollar row_name then Inr None
                else bind_ok (get_numerical_bound True Bad_Value_Ranges line 24) (\<lambda>(v, _). Inr (Some (row_name, v, 39))))
        else let pos = find_first_not_of [BLANK, TAB] line 0;
                 pos = (if skip_range then find_first_of [BLANK, TAB] line pos else pos);
                 (row_name, _, end_pos) = get_next_string line pos
             in if dollar row_name then Inr None
                else bind_ok (get_numerical_bound False Bad_Value_Ranges line end_pos)
                       (\<lambda>(v, end_pos). Inr (Some (row_name, v, end_pos))))
       (\<lambda>fields. case fields of None \<Rightarrow> Inr (-1, st)
        | Some (row_name, v, end_pos) \<Rightarrow>
            (case row_names_map st row_name of
                None \<Rightarrow> Inl (Validation Bad_Row_Ranges)
              | Some row_id \<Rightarrow> bind_ok (store row_id v (ranges_values st)) (\<lambda>r. Inr (end_pos, st\<lparr>ranges_values := r\<rparr>))))"

definition parse_ranges :: "('f :: linordered_field) mps_parser \<Rightarrow> string \<Rightarrow> mps_error + 'f mps_parser" where
  "parse_ranges st line =
     (let length_first_section = 25
      in expects (fixed_mps_format st \<longrightarrow> length line \<ge> length_first_section) Short_Ranges
           (bind_ok (insert_range_value st line True) (\<lambda>(end_pos, st).
              if end_pos = -1 then Inr st
              else if size_gt (find_last_not_of [BLANK, TAB] line) end_pos
              then bind_ok (if fixed_mps_format st then insert_range_value st (drop length_first_section line) True
                            else insert_range_value st (drop (nat end_pos) line) False) (\<lambda>(_, st). Inr st)
              else Inr st)))"

subsection \<open>OBJSENSE and OBJNAME\<close>

text \<open>Two extractions into one string: the second keeps the first word when it finds nothing.\<close>

definition word_after :: "string \<Rightarrow> string \<Rightarrow> string" where
  "word_after header line =
     (let (first, rest) = (if starts_with header line then next_word line else (None, line))
      in case fst (next_word rest) of Some w \<Rightarrow> w
         | None \<Rightarrow> (case first of Some w \<Rightarrow> w | None \<Rightarrow> []))"

definition parse_objsense :: "'f mps_parser \<Rightarrow> string \<Rightarrow> mps_error + 'f mps_parser" where
  "parse_objsense st line =
     expects (\<not> fixed_mps_format st) Objsense_Fixed
       (bind_ok (convert_to_obj_sense (word_after ''OBJSENSE'' line)) (\<lambda>type.
          Inr (st\<lparr>maximize := (type = Maximize)\<rparr>)))"

definition parse_objname :: "'f mps_parser \<Rightarrow> string \<Rightarrow> mps_error + 'f mps_parser" where
  "parse_objname st line =
     expects (\<not> fixed_mps_format st) Objname_Fixed
       (expects (objective_name st = []) Objname_Late
          (Inr (st\<lparr>objective_name := word_after ''OBJNAME'' line\<rparr>)))"

subsection \<open>Lines and sections\<close>

definition enter_section :: "in_section \<Rightarrow> 'f mps_parser \<Rightarrow> 'f mps_parser" where
  "enter_section s st =
     st\<lparr>inside_rows := (s = In_Rows), inside_columns := (s = In_Columns), inside_rhs := (s = In_Rhs),
        inside_bounds := (s = In_Bounds), inside_ranges := (s = In_Ranges),
        inside_objsense := (s = In_Objsense), inside_objname := (s = In_Objname)\<rparr>"

definition encounter :: "string \<Rightarrow> 'f mps_parser \<Rightarrow> 'f mps_parser" where
  "encounter s st = st\<lparr>encountered_sections := insert s (encountered_sections st)\<rparr>"

definition parse_name :: "'f mps_parser \<Rightarrow> string \<Rightarrow> mps_error + 'f mps_parser" where
  "parse_name st line =
     (let name_start = find_first_not_of [BLANK, TAB] line 4
      in if name_start = -1 then Inr st
         else if fixed_mps_format st
         then bind_ok (sub line name_start 8) (\<lambda>s. Inr (st\<lparr>problem_name := trim s\<rparr>))
         else case fst (next_word (drop (nat name_start) line)) of
             None \<Rightarrow> Inr st | Some w \<Rightarrow> Inr (st\<lparr>problem_name := w\<rparr>))"

definition begin_columns :: "('f :: linordered_idom) mps_parser \<Rightarrow> 'f mps_parser" where
  "begin_columns st =
     (let m = length (row_names st)
      in st\<lparr>A_indices := resize m [] (A_indices st), A_values := resize m [] (A_values st),
            b_values := replicate m 0\<rparr>)"

definition default_bounds :: "('f :: linordered_idom) mps_parser \<Rightarrow> 'f mps_parser" where
  "default_bounds st =
     (let n = length (var_names st)
      in st\<lparr>variable_lower_bounds := replicate n 0, variable_upper_bounds := replicate n PInf\<rparr>)"

definition begin_ranges :: "'f mps_parser \<Rightarrow> 'f mps_parser" where
  "begin_ranges st = st\<lparr>ranges_values := replicate (length (row_types st)) unset_range_value\<rparr>"

text \<open>A line that starts a section; the flag tells that the loop is left (\<open>ENDATA\<close>).\<close>

definition parse_header :: "('f :: linordered_idom) mps_parser \<Rightarrow> string \<Rightarrow> mps_error + ('f mps_parser \<times> bool)" where
  "parse_header st line =
     (if starts_with ''NAME'' line
      then bind_ok (parse_name (encounter ''NAME'' st) line) (\<lambda>st. Inr (st, False))
      else if starts_with ''ROWS'' line then Inr (enter_section In_Rows (encounter ''ROWS'' st), False)
      else if starts_with ''COLUMNS'' line
      then Inr (begin_columns (enter_section In_Columns (encounter ''COLUMNS'' st)), False)
      else if starts_with ''RHS'' line then Inr (enter_section In_Rhs (encounter ''RHS'' st), False)
      else if starts_with ''BOUNDS'' line
      then Inr (default_bounds (enter_section In_Bounds (encounter ''BOUNDS'' st)), False)
      else if starts_with ''RANGES'' line
      then Inr (begin_ranges (enter_section In_Ranges (encounter ''RANGES'' st)), False)
      else if starts_with ''OBJSENSE'' line
      then if \<not> list_all (\<lambda>c. \<not> is_alpha c) (drop 8 line)
           then bind_ok (parse_objsense st line) (\<lambda>st. Inr (st, False))
           else Inr (enter_section In_Objsense (encounter ''OBJSENSE'' st), False)
      else if starts_with ''OBJNAME'' line
      then let st = encounter ''OBJNAME'' st
           in if \<not> list_all (\<lambda>c. \<not> is_alpha c) (drop 7 line)
              then bind_ok (parse_objname st line) (\<lambda>st. Inr (st, False))
              else Inr (enter_section In_Objname st, False)
      else if starts_with ''ENDATA'' line then Inr (encounter ''ENDATA'' st, True)
      else if starts_with ''LAZYCONS'' line then Inr (enter_section In_Rows (encounter ''LAZYCONS'' st), False)
      else Inl (Validation Bad_Block))"

definition parse_entry :: "('f :: linordered_field) mps_parser \<Rightarrow> string \<Rightarrow> mps_error + 'f mps_parser" where
  "parse_entry st line =
     (if inside_rows st then parse_rows st line
      else if inside_columns st then parse_columns st line
      else if inside_rhs st then parse_rhs st line
      else if inside_bounds st then parse_bounds st line
      else if inside_ranges st then parse_ranges st line
      else if inside_objsense st then parse_objsense st line
      else if inside_objname st then parse_objname st line
      else Inl (Validation Bad_State))"

definition ignored_line :: "string \<Rightarrow> bool" where
  "ignored_line line \<longleftrightarrow> line = [] \<or> hd line \<in> set [CHR ''*'', CHR ''$'', NL, CR]"

definition parse_line :: "('f :: linordered_field) mps_parser \<Rightarrow> string \<Rightarrow> mps_error + ('f mps_parser \<times> bool)" where
  "parse_line st line =
     (if ignored_line line then Inr (st, False)
      else if hd line \<noteq> BLANK then parse_header st line
      else bind_ok (parse_entry st line) (\<lambda>st. Inr (st, False)))"

fun parse_lines :: "string list \<Rightarrow> ('f :: linordered_field) mps_parser \<Rightarrow> mps_error + 'f mps_parser" where
  "parse_lines [] st = Inr st"
| "parse_lines (line # lines) st = bind_ok (parse_line st line) (\<lambda>(st, stop).
     if stop then Inr st else parse_lines lines st)"

text \<open>The last part of \<open>parse_string\<close>: mandatory sections, default bounds, and the bounds check.\<close>

definition check_variable :: "nat \<Rightarrow> ('f :: linordered_idom) mps_parser \<Rightarrow> mps_error + 'f mps_parser" where
  "check_variable i st =
     (let st = (if i \<notin> bounds_defined_for_var_id st \<and> var_types st ! i = CHR ''I''
                then st\<lparr>variable_lower_bounds := (variable_lower_bounds st)[i := 0],
                        variable_upper_bounds := (variable_upper_bounds st)[i := 1]\<rparr> else st)
      in expects (variable_lower_bounds st ! i \<le> variable_upper_bounds st ! i) Internal (Inr st))"

definition finish_parse :: "('f :: linordered_idom) mps_parser \<Rightarrow> mps_error + 'f mps_parser" where
  "finish_parse st =
     expects (objective_name st \<noteq> []) No_Objective
     (expects (''ROWS'' \<in> encountered_sections st) Missing_Rows
     (expects (''COLUMNS'' \<in> encountered_sections st) Missing_Columns
     (expects (''RHS'' \<in> encountered_sections st) Missing_Rhs
     (let st = (if length (variable_upper_bounds st) = 0 then default_bounds st else st)
      in expects (length (variable_lower_bounds st) = length (variable_upper_bounds st) \<and>
                  length (variable_upper_bounds st) = length (var_names st)) Internal
         (if length (var_types st) < length (var_names st) then Inl Undefined
          else for_range 0 (length (var_names st)) (\<lambda>i r. bind_ok r (check_variable i)) (Inr st))))))"

definition parse_string :: "string \<Rightarrow> ('f :: linordered_field) mps_parser \<Rightarrow> mps_error + 'f mps_parser" where
  "parse_string buf st =
     (let lines = strtok_lines buf
      in expects (lines \<noteq> []) No_Line (bind_ok (parse_lines lines st) finish_parse))"

subsection \<open>The transfer into the data model\<close>

text \<open>The interval of one row: right-hand side \<open>b\<close> and, where the file has a RANGES section, the range value.\<close>

definition row_interval :: "row_type \<Rightarrow> ('f :: linordered_idom) ext \<Rightarrow> 'f ext option \<Rightarrow> mps_error + ('f ext \<times> 'f ext)" where
  "row_interval t b rng =
     bind_ok
       (case t of
          Equality \<Rightarrow> (case rng of None \<Rightarrow> Inr (b, b)
            | Some r \<Rightarrow> if r \<noteq> unset_range_value
                then expects (b \<noteq> NaN) Nan_Value (expects (r \<noteq> NaN) Nan_Value
                       (if r < 0 then Inr (b + r, b) else Inr (b, b + r)))
                else Inr (b, b))
        | GreaterThanOrEqual \<Rightarrow> (case rng of None \<Rightarrow> Inr (b, PInf)
            | Some r \<Rightarrow> if r \<noteq> unset_range_value
                then expects (b \<noteq> NaN) Nan_Value (expects (r \<noteq> NaN) Nan_Value (Inr (b, b + \<bar>r\<bar>)))
                else Inr (b, PInf))
        | LesserThanOrEqual \<Rightarrow> (case rng of None \<Rightarrow> Inr (MInf, b)
            | Some r \<Rightarrow> if r \<noteq> unset_range_value
                then expects (b \<noteq> NaN) Nan_Value (expects (r \<noteq> NaN) Nan_Value (Inr (b - \<bar>r\<bar>, b)))
                else Inr (MInf, b))
        | _ \<Rightarrow> Inl (Validation Bad_Row_Type))
       (\<lambda>(l, u). expects (l \<noteq> NaN) Nan_Value (expects (u \<noteq> NaN) Nan_Value (Inr (l, u))))"

definition row_of :: "'f mps_parser \<Rightarrow> nat \<Rightarrow> mps_error + (('f :: linordered_idom) ext \<times> 'f ext)" where
  "row_of st i =
     (if i < length (b_values st) \<and> (ranges_values st = [] \<or> i < length (ranges_values st))
      then row_interval (row_types st ! i) (b_values st ! i)
             (if ranges_values st = [] then None else Some (ranges_values st ! i))
      else if row_types st ! i \<in> {Equality, GreaterThanOrEqual, LesserThanOrEqual} then Inl Undefined
      else Inl (Validation Bad_Row_Type))"

definition row_intervals :: "('f :: linordered_idom) mps_parser \<Rightarrow> mps_error + ('f ext list \<times> 'f ext list)" where
  "row_intervals st =
     for_range 0 (length (row_types st)) (\<lambda>i r. bind_ok r (\<lambda>(ls, us).
       bind_ok (row_of st i) (\<lambda>(l, u). Inr (ls @ [l], us @ [u])))) (Inr ([], []))"

text \<open>The rows, concatenated: offsets, column indices and values.\<close>

definition csr_of_rows :: "nat list list \<Rightarrow> 'f ext list list \<Rightarrow> nat list \<times> nat list \<times> 'f ext list" where
  "csr_of_rows ind vals =
     for_range 0 (length ind) (\<lambda>i (h_offsets, h_indices, h_values).
       (h_offsets @ [last h_offsets + length (ind ! i)], h_indices @ ind ! i, h_values @ vals ! i)) ([0], [], [])"

definition fill_problem :: "('f :: linordered_idom) mps_parser \<Rightarrow> 'f mps_data_model \<Rightarrow> mps_error + 'f mps_data_model" where
  "fill_problem st problem =
     (let (h_offsets, h_indices, h_values) = csr_of_rows (A_indices st) (A_values st);
          l = variable_lower_bounds st; u = variable_upper_bounds st; b = b_values st; c = c_values st
      in if length (A_values st) < length (A_indices st) then Inl Undefined
         else bind_ok (set_csr_constraint_matrix (Some h_values) (length h_values) (Some h_indices) (length h_indices)
                         (Some h_offsets) (length h_offsets) problem) (\<lambda>problem.
         expects (length (A_indices st) + 1 = length h_offsets) Bad_Csr
        (expects (length h_indices = length h_values) Bad_Csr
        (expects (last h_offsets = length h_values) Bad_Csr
        (bind_ok (set_constraint_bounds (Some b) (length b) problem) (\<lambda>problem.
         bind_ok (set_objective_coefficients (Some c) (length c) problem) (\<lambda>problem.
         let problem = set_objective_offset (objective_offset_value st)
                         (set_objective_scaling_factor (objective_scaling_factor_value st) problem) in
         bind_ok (set_variable_lower_bounds (Some l) (length l) problem) (\<lambda>problem.
         bind_ok (set_variable_upper_bounds (Some u) (length u) problem) (\<lambda>problem.
         expects (length (dm_variable_lower_bounds problem) = length (dm_variable_upper_bounds problem) \<and>
                  length (dm_variable_upper_bounds problem) = length (dm_c problem)) Size_Mismatch
        (bind_ok (row_intervals st) (\<lambda>(h_lower, h_upper).
         bind_ok (set_constraint_lower_bounds (Some h_lower) (length h_lower) problem) (\<lambda>problem.
         bind_ok (set_constraint_upper_bounds (Some h_upper) (length h_upper) problem) (\<lambda>problem.
         expects (length (dm_constraint_lower_bounds problem) = length (dm_constraint_upper_bounds problem) \<and>
                  length (dm_constraint_upper_bounds problem) = length (dm_b problem)) Size_Mismatch
        (Inr (set_maximize (maximize st) (set_row_names (row_names st) (set_variable_types (var_types st)
               (set_variable_names (var_names st) (set_objective_name (objective_name st)
               (set_problem_name (problem_name st) problem))))))))))))))))))))"

definition parse_mps :: "bool \<Rightarrow> string \<Rightarrow> bool \<Rightarrow> mps_error + ('f :: linordered_field) mps_data_model" where
  "parse_mps uninit buf fixed_format =
     bind_ok (parse_string buf (mps_parser_new fixed_format)) (\<lambda>st. fill_problem st (mps_data_model_new uninit))"

end
