(* ===== verification/Mps_Invariant.thy ===== *)
theory Mps_Invariant
  imports Mps_Parser
begin

text \<open>
  The invariant of the MPS reader: name tables that are inverse to the name lists, vectors whose sizes
  agree, and the sizes that the current section relies on. Every line preserves it, and it bounds the
  places where the reader can index out of range: a blank line in ROWS, and an RHS entry whose row
  came after the COLUMNS header. \<open>name_table\<close> is the interface of the three insertions of names.
\<close>

subsection \<open>Name tables\<close>

definition names_ok :: "string list \<Rightarrow> (string \<Rightarrow> nat option) \<Rightarrow> bool" where
  "names_ok ns m \<longleftrightarrow> (\<forall>n i. m n = Some i \<longleftrightarrow> i < length ns \<and> ns ! i = n)"

locale name_table =
  fixes names :: "'s \<Rightarrow> string list"
    and lookup :: "'s \<Rightarrow> string \<Rightarrow> nat option"
    and add :: "string \<Rightarrow> 's \<Rightarrow> 's"
  assumes add_names: "lookup s n = None \<Longrightarrow> names (add n s) = names s @ [n]"
    and add_lookup: "lookup s n = None \<Longrightarrow> lookup (add n s) = (lookup s)(n \<mapsto> length (names s))"
begin

lemma add_ok:
  assumes "names_ok (names s) (lookup s)" "lookup s n = None"
  shows "names_ok (names (add n s)) (lookup (add n s))"
  unfolding names_ok_def
proof (intro allI)
  fix k i
  show "lookup (add n s) k = Some i \<longleftrightarrow> i < length (names (add n s)) \<and> names (add n s) ! i = k"
  proof (cases "k = n")
    case True
    have "\<not> (i < length (names s) \<and> names s ! i = n)" using assms(1) [unfolded names_ok_def, rule_format, of n i] assms(2) by auto
    then show ?thesis using True assms(2) by (auto simp: add_names add_lookup nth_append)
  next
    case False
    then show ?thesis using assms by (auto simp: add_names add_lookup nth_append names_ok_def less_Suc_eq)
  qed
qed

lemma add_self: "lookup s n = None \<Longrightarrow> lookup (add n s) n = Some (length (names s))"
  by (simp add: add_lookup)

end

lemma names_ok_less: "names_ok ns m \<Longrightarrow> m n = Some i \<Longrightarrow> i < length ns"
  by (simp add: names_ok_def)

lemma names_ok_distinct: "names_ok ns m \<Longrightarrow> distinct ns"
  unfolding distinct_conv_nth names_ok_def by (metis option.inject)

lemma names_ok_mem: "names_ok ns m \<Longrightarrow> m n \<noteq> None \<longleftrightarrow> n \<in> set ns"
  unfolding names_ok_def in_set_conv_nth by (metis not_None_eq)

lemma insert_name_None: "m n = None \<Longrightarrow> insert_name n i m = m(n \<mapsto> i)"
  by (simp add: insert_name_def)

interpretation row_table: name_table row_names row_names_map "\<lambda>n. add_row n t" for t
  by unfold_locales (simp_all add: add_row_def insert_name_None)

interpretation column_table: name_table var_names var_names_map "\<lambda>n. add_column n c" for c
  by unfold_locales (simp_all add: add_column_def insert_name_None)

interpretation bounds_table: name_table var_names var_names_map add_bounds_variable
  by unfold_locales (simp_all add: add_bounds_variable_def insert_name_None)

subsection \<open>The invariant\<close>

definition entries_ok :: "nat \<Rightarrow> nat list list \<Rightarrow> 'f ext list list \<Rightarrow> bool" where
  "entries_ok n ind vals \<longleftrightarrow> length vals = length ind \<and>
     (\<forall>r<length ind. length (ind ! r) = length (vals ! r) \<and> (\<forall>j\<in>set (ind ! r). j < n))"

definition one_section :: "'f mps_parser \<Rightarrow> bool" where
  "one_section st \<longleftrightarrow>
     length (filter id [inside_rows st, inside_columns st, inside_rhs st, inside_bounds st, inside_ranges st,
       inside_objsense st, inside_objname st]) \<le> 1"

definition mps_wf :: "'f mps_parser \<Rightarrow> bool" where
  "mps_wf st \<longleftrightarrow>
     names_ok (row_names st) (row_names_map st) \<and> length (row_types st) = length (row_names st) \<and>
     names_ok (var_names st) (var_names_map st) \<and> length (var_types st) = length (var_names st) \<and>
     length (c_values st) = length (var_names st) \<and>
     entries_ok (length (var_names st)) (A_indices st) (A_values st) \<and>
     length (b_values st) = length (A_indices st) \<and> length (A_indices st) \<le> length (row_names st) \<and>
     length (variable_lower_bounds st) = length (variable_upper_bounds st) \<and>
     length (variable_upper_bounds st) \<le> length (var_names st) \<and>
     length (ranges_values st) \<le> length (row_types st) \<and>
     (\<forall>i\<in>bounds_defined_for_var_id st. i < length (var_names st)) \<and>
     (inside_columns st \<longrightarrow> length (A_indices st) = length (row_names st)) \<and>
     (inside_bounds st \<longrightarrow> length (variable_upper_bounds st) = length (var_names st)) \<and>
     (inside_ranges st \<longrightarrow> length (ranges_values st) = length (row_types st)) \<and>
     Objective \<notin> set (row_types st) \<and> one_section st"

lemma one_section_simps:
  assumes "one_section st"
  shows "inside_rows st \<Longrightarrow> \<not> inside_columns st \<and> \<not> inside_bounds st \<and> \<not> inside_ranges st"
    "inside_columns st \<Longrightarrow> \<not> inside_bounds st \<and> \<not> inside_ranges st \<and> \<not> inside_rows st"
    "inside_bounds st \<Longrightarrow> \<not> inside_columns st \<and> \<not> inside_ranges st \<and> \<not> inside_rows st"
  using assms by (auto simp: one_section_def split: if_splits)

lemma mps_wf_new [simp]: "mps_wf (mps_parser_new f)"
  by (simp add: mps_wf_def mps_parser_new_def names_ok_def entries_ok_def one_section_def)

lemma entries_ok_mono: "entries_ok n ind vals \<Longrightarrow> n \<le> m \<Longrightarrow> entries_ok m ind vals"
  by (auto simp: entries_ok_def intro: less_le_trans)

lemma entries_ok_push:
  assumes "entries_ok n ind vals" "r < length ind" "j < n"
  shows "entries_ok n (ind[r := ind ! r @ [j]]) (vals[r := vals ! r @ [v]])"
  using assms by (auto simp: entries_ok_def nth_list_update)

lemma entries_ok_resize:
  assumes "entries_ok n ind vals" "length ind \<le> m"
  shows "entries_ok n (resize m [] ind) (resize m [] vals)"
  using assms by (auto simp: entries_ok_def resize_def nth_append)

text \<open>Updates that the invariant does not see, or sees only through a length.\<close>

lemma mps_wf_other [simp]:
  "mps_wf (st\<lparr>problem_name := s\<rparr>) = mps_wf st" "mps_wf (st\<lparr>objective_name := s\<rparr>) = mps_wf st"
  "mps_wf (st\<lparr>ignored_objective_names := S\<rparr>) = mps_wf st" "mps_wf (st\<lparr>objective_offset_value := v\<rparr>) = mps_wf st"
  "mps_wf (st\<lparr>maximize := b\<rparr>) = mps_wf st" "mps_wf (st\<lparr>inside_intcapture := b\<rparr>) = mps_wf st"
  "mps_wf (st\<lparr>encountered_sections := S\<rparr>) = mps_wf st"
  by (simp_all add: mps_wf_def one_section_def)

lemma mps_wf_resized:
  "mps_wf st \<Longrightarrow> length xs = length (c_values st) \<Longrightarrow> mps_wf (st\<lparr>c_values := xs\<rparr>)"
  "mps_wf st \<Longrightarrow> length xs = length (b_values st) \<Longrightarrow> mps_wf (st\<lparr>b_values := xs\<rparr>)"
  "mps_wf st \<Longrightarrow> length xs = length (variable_lower_bounds st) \<Longrightarrow> mps_wf (st\<lparr>variable_lower_bounds := xs\<rparr>)"
  "mps_wf st \<Longrightarrow> length xs = length (variable_upper_bounds st) \<Longrightarrow> mps_wf (st\<lparr>variable_upper_bounds := xs\<rparr>)"
  "mps_wf st \<Longrightarrow> length xs = length (ranges_values st) \<Longrightarrow> mps_wf (st\<lparr>ranges_values := xs\<rparr>)"
  "mps_wf st \<Longrightarrow> length cs = length (var_types st) \<Longrightarrow> mps_wf (st\<lparr>var_types := cs\<rparr>)"
  "mps_wf st \<Longrightarrow> i < length (var_names st) \<Longrightarrow>
     mps_wf (st\<lparr>bounds_defined_for_var_id := insert i (bounds_defined_for_var_id st)\<rparr>)"
  by (simp_all add: mps_wf_def one_section_def)

lemma mps_wf_push:
  assumes "mps_wf st" "r < length (A_indices st)" "j < length (var_names st)"
  shows "mps_wf (st\<lparr>A_indices := (A_indices st)[r := A_indices st ! r @ [j]],
                    A_values := (A_values st)[r := A_values st ! r @ [v]]\<rparr>)"
  using assms entries_ok_push by (fastforce simp: mps_wf_def one_section_def)

lemma mps_wf_lengths:
  assumes "mps_wf st"
  shows "length (row_types st) = length (row_names st)" "length (var_types st) = length (var_names st)"
    "length (c_values st) = length (var_names st)" "length (A_values st) = length (A_indices st)"
    "length (b_values st) = length (A_indices st)" "length (A_indices st) \<le> length (row_names st)"
    "length (variable_lower_bounds st) = length (variable_upper_bounds st)"
    "inside_columns st \<Longrightarrow> length (A_indices st) = length (row_names st)"
    "inside_bounds st \<Longrightarrow> length (variable_upper_bounds st) = length (var_names st)"
    "inside_ranges st \<Longrightarrow> length (ranges_values st) = length (row_names st)"
  using assms by (simp_all add: mps_wf_def entries_ok_def)

lemma mps_wf_lookup:
  assumes "mps_wf st"
  shows "row_names_map st n = Some i \<Longrightarrow> i < length (row_names st)"
    "var_names_map st n = Some i \<Longrightarrow> i < length (var_names st)"
    "var_names st = [] \<Longrightarrow> var_names_map st n = None"
  using assms by (auto simp: mps_wf_def names_ok_def)

subsection \<open>What an entry leaves alone\<close>

text \<open>Only ROWS entries add rows; no entry changes the section or the sizes that a header sets.\<close>

definition frame :: "'f mps_parser \<Rightarrow> 'f mps_parser \<Rightarrow> bool" where
  "frame st st' \<longleftrightarrow>
     length (A_indices st') = length (A_indices st) \<and> length (ranges_values st') = length (ranges_values st) \<and>
     inside_rows st' = inside_rows st \<and> inside_columns st' = inside_columns st \<and> inside_rhs st' = inside_rhs st \<and>
     inside_bounds st' = inside_bounds st \<and> inside_ranges st' = inside_ranges st \<and>
     (inside_rows st \<or> row_names st' = row_names st) \<and> fixed_mps_format st' = fixed_mps_format st \<and>
     encountered_sections st' = encountered_sections st"

lemma frame_refl [simp]: "frame st st"
  by (simp add: frame_def)

lemma frame_other [simp]:
  "frame a (st\<lparr>problem_name := s\<rparr>) = frame a st" "frame a (st\<lparr>objective_name := s\<rparr>) = frame a st"
  "frame a (st\<lparr>ignored_objective_names := S\<rparr>) = frame a st" "frame a (st\<lparr>objective_offset_value := v\<rparr>) = frame a st"
  "frame a (st\<lparr>maximize := b\<rparr>) = frame a st" "frame a (st\<lparr>inside_intcapture := b\<rparr>) = frame a st"
  "frame a (st\<lparr>c_values := xs\<rparr>) = frame a st" "frame a (st\<lparr>b_values := xs\<rparr>) = frame a st"
  "frame a (st\<lparr>variable_lower_bounds := xs\<rparr>) = frame a st" "frame a (st\<lparr>variable_upper_bounds := xs\<rparr>) = frame a st"
  "frame a (st\<lparr>var_types := cs\<rparr>) = frame a st" "frame a (st\<lparr>bounds_defined_for_var_id := B\<rparr>) = frame a st"
  "length xs = length (ranges_values st) \<Longrightarrow> frame a (st\<lparr>ranges_values := xs\<rparr>) = frame a st"
  "length ks = length (A_indices st) \<Longrightarrow> frame a (st\<lparr>A_indices := ks, A_values := vs\<rparr>) = frame a st"
  by (simp_all add: frame_def)

lemma frame_trans: "frame a b \<Longrightarrow> frame b c \<Longrightarrow> frame a c"
  by (auto simp: frame_def)

abbreviation wf_frame :: "'f mps_parser \<Rightarrow> 'f mps_parser \<Rightarrow> bool" where
  "wf_frame st st' \<equiv> mps_wf st' \<and> frame st st'"

abbreviation defined :: "mps_error \<Rightarrow> bool" where
  "defined e \<equiv> e \<noteq> Undefined"

lemma outcome_store [simp]: "outcome E P (store i v xs) = (if i < length xs then P (xs[i := v]) else E Undefined)"
  by (simp add: store_def)

lemma outcome_sub: "E Out_Of_Range \<Longrightarrow> (\<And>t. P t) \<Longrightarrow> outcome E P (sub s p n)"
  by (simp add: sub_def split: option.split)

lemma outcome_number: "E (Validation e) \<Longrightarrow> (\<And>v. P v) \<Longrightarrow> outcome E P (number e s)"
  by (simp add: number_def split: option.split)

lemma outcome_convert: "E (Validation Bad_Bound_Type) \<Longrightarrow> (\<And>v. P v) \<Longrightarrow> outcome E P (convert s)"
  by (simp add: convert_def)

lemma outcome_sense: "E (Validation Bad_Objsense) \<Longrightarrow> (\<And>v. P v) \<Longrightarrow> outcome E P (convert_to_obj_sense s)"
  by (simp add: convert_to_obj_sense_def)

lemmas outcome_intros = outcome_sub outcome_number outcome_convert outcome_sense

subsection \<open>ROWS and COLUMNS entries\<close>

lemma wf_add_row:
  assumes "mps_wf st" "row_names_map st n = None" "inside_rows st" "t \<noteq> Objective"
  shows "wf_frame st (add_row n t st)"
proof -
  have "names_ok (row_names (add_row n t st)) (row_names_map (add_row n t st))"
    using assms by (intro row_table.add_ok) (auto simp: mps_wf_def)
  moreover have "\<not> inside_columns st \<and> \<not> inside_bounds st \<and> \<not> inside_ranges st"
    using assms one_section_simps by (auto simp: mps_wf_def)
  ultimately show ?thesis using assms by (auto simp: mps_wf_def add_row_def one_section_def frame_def)
qed

definition bad_row_line :: "bool \<Rightarrow> string \<Rightarrow> bool" where
  "bad_row_line fixed_format line \<longleftrightarrow> (if fixed_format then length line \<le> 1 else list_all is_space line)"

lemma next_char_None: "fst (next_char line) = None \<longleftrightarrow> list_all is_space line"
  unfolding next_char_def by (induction line) auto

lemma parse_rows_outcome:
  assumes "mps_wf st" "inside_rows st"
  shows "outcome (\<lambda>e. e = Undefined \<longrightarrow> bad_row_line (fixed_mps_format st) line) (wf_frame st) (parse_rows st line)"
proof -
  have "outcome (\<lambda>e. e = Undefined \<longrightarrow> bad_row_line (fixed_mps_format st) line) (\<lambda>_. True)
      (if fixed_mps_format st
        then (if length line \<le> 1 then Inl Undefined
              else bind_ok (sub line 4 8) (\<lambda>s. Inr (row_type_of_char (line ! 1), trim s)))
        else (case next_char line of (None, _) \<Rightarrow> Inl Undefined
              | (Some read_word, rest) \<Rightarrow>
                  Inr (row_type_of_char read_word, case fst (next_word rest) of None \<Rightarrow> [] | Some w \<Rightarrow> w)))"
    using next_char_None [of line]
    by (auto simp: bad_row_line_def split: prod.split option.split intro!: outcome_intros)
  then show ?thesis
    unfolding parse_rows_def outcome_bind
    by (rule outcome_mono) (use wf_add_row [OF assms(1) _ assms(2)] assms(1) in auto)
qed

lemma wf_add_column:
  assumes "mps_wf st" "var_names_map st n = None" "inside_columns st"
  shows "wf_frame st (add_column n c st)"
proof -
  have "names_ok (var_names (add_column n c st)) (var_names_map (add_column n c st))"
    using assms by (intro column_table.add_ok) (auto simp: mps_wf_def)
  moreover have "\<not> inside_rows st \<and> \<not> inside_bounds st \<and> \<not> inside_ranges st"
    using assms one_section_simps by (auto simp: mps_wf_def)
  ultimately show ?thesis
    using assms by (auto simp: mps_wf_def add_column_def one_section_def frame_def intro: entries_ok_mono less_SucI)
qed

lemma parse_column_var_name_outcome:
  assumes wf: "mps_wf st" and ins: "inside_columns st"
  shows "outcome defined (\<lambda>(pos, st'). wf_frame st st' \<and> (pos \<noteq> -1 \<longrightarrow> var_names st' \<noteq> [])) (parse_column_var_name st line)"
proof -
  have col: "wf_frame st (add_column n c st) \<and> var_names (add_column n c st) \<noteq> []"
    if "var_names_map st n = None" for n c
    using wf_add_column [OF wf that ins] by (simp add: add_column_def)
  have name: "outcome defined (\<lambda>_. True)
      (if fixed_mps_format st
        then expects (length line \<ge> 25) Short_Columns (bind_ok (sub line 4 8) (\<lambda>s. Inr (trim s, 14)))
        else (let (var_name, _, end_var) = get_next_string line 0 in Inr (var_name, end_var)))"
    by (auto simp: split: prod.split intro!: outcome_intros)
  show ?thesis
    unfolding parse_column_var_name_def outcome_bind
    by (rule outcome_mono [OF name])
      (use wf col mps_wf_lookup(3) [OF wf] in \<open>auto simp: Let_def\<close>)
qed

lemma parse_row_name_and_num_outcome: "outcome defined (\<lambda>_. True) (parse_row_name_and_num f line start)"
  unfolding parse_row_name_and_num_def
  by (auto simp: Let_def split: prod.split intro!: outcome_intros)

lemma insert_row_name_and_value_outcome:
  assumes wf: "mps_wf st" and ins: "inside_columns st" and j: "j < length (var_names st)"
  shows "outcome defined (\<lambda>st'. wf_frame st st' \<and> var_names st' = var_names st) (insert_row_name_and_value st row num j)"
proof -
  have r: "i < length (A_indices st)" "i < length (A_values st)" if "row_names_map st row = Some i" for i
    using mps_wf_lookup(1) [OF wf that] mps_wf_lengths(4,8) [OF wf] ins by simp_all
  have p: "mps_wf (st\<lparr>A_indices := (A_indices st)[i := A_indices st ! i @ [j]],
                    A_values := (A_values st)[i := A_values st ! i @ [v]]\<rparr>)" if "row_names_map st row = Some i" for i v
    using mps_wf_push [OF wf r(1) [OF that] j] .
  have c: "mps_wf (st\<lparr>c_values := (c_values st)[j := v]\<rparr>)" for v
    using mps_wf_resized(1) [OF wf] by simp
  have j': "j < length (c_values st)" using j mps_wf_lengths(3) [OF wf] by simp
  show ?thesis
  proof (cases "row \<in> ignored_objective_names st")
    case False
    show ?thesis
      unfolding insert_row_name_and_value_def if_not_P [OF False] outcome_bind
      by (rule outcome_number) (auto simp: wf c j' r p split: option.split)
  qed (simp add: insert_row_name_and_value_def wf)
qed

lemma read_row_and_value_outcome:
  assumes "mps_wf st" "inside_columns st" "j < length (var_names st)"
  shows "outcome defined (\<lambda>(_, st'). wf_frame st st' \<and> var_names st' = var_names st) (read_row_and_value st line start j)"
  unfolding read_row_and_value_def outcome_bind
  by (rule outcome_mono [OF parse_row_name_and_num_outcome])
    (auto simp: assms intro: outcome_mono [OF insert_row_name_and_value_outcome [OF assms]])

lemma parse_column_row_and_value_outcome:
  assumes wf: "mps_wf st" and ins: "inside_columns st" and ne: "var_names st \<noteq> []"
  shows "outcome defined (wf_frame st) (parse_column_row_and_value st line pos)"
proof -
  let ?j = "length (var_names st) - 1"
  have j: "?j < length (var_names st)" using ne by simp
  have second: "outcome defined (\<lambda>a. wf_frame st (snd a)) (read_row_and_value st1 line p ?j)"
    if "wf_frame st st1" "var_names st1 = var_names st" for st1 p
  proof -
    have "inside_columns st1" using that ins by (simp add: frame_def)
    from read_row_and_value_outcome [OF _ this, of ?j line p] show ?thesis
      using that j frame_trans by (auto elim!: outcome_mono)
  qed
  show ?thesis
    unfolding parse_column_row_and_value_def Let_def outcome_bind
    by (rule outcome_mono [OF read_row_and_value_outcome [OF wf ins j]])
      (use second in auto)
qed

lemma parse_columns_outcome:
  assumes wf: "mps_wf st" and ins: "inside_columns st"
  shows "outcome defined (wf_frame st) (parse_columns st line)"
  unfolding parse_columns_def outcome_bind
proof (rule outcome_mono [OF parse_column_var_name_outcome [OF wf ins]], simp, clarify)
  fix pos :: int and st1
  assume 1: "mps_wf st1" "frame st st1" "pos \<noteq> -1 \<longrightarrow> var_names st1 \<noteq> []"
  then have "inside_columns st1" using ins by (simp add: frame_def)
  then show "outcome defined (wf_frame st) (if pos = -1 then Inr st1 else parse_column_row_and_value st1 line pos)"
    using 1 frame_trans by (auto intro: outcome_mono [OF parse_column_row_and_value_outcome])
qed

subsection \<open>RHS entries\<close>

definition rhs_known :: "'f mps_parser \<Rightarrow> bool" where
  "rhs_known st \<longleftrightarrow> length (row_names st) \<le> length (b_values st)"

lemma read_rhs_row_and_value_outcome:
  assumes wf: "mps_wf st"
  shows "outcome (\<lambda>e. e = Undefined \<longrightarrow> \<not> rhs_known st)
    (\<lambda>a. wf_frame st (snd a) \<and> row_names (snd a) = row_names st \<and> length (b_values (snd a)) = length (b_values st))
    (read_rhs_row_and_value st line start)"
proof -
  have fields: "outcome defined (\<lambda>_. True)
      (if fixed_mps_format st
        then bind_ok (sub line start 8) (\<lambda>s. let row_name = trim s
             in if dollar row_name then Inr None
                else bind_ok (sub line (start + 10) 12) (\<lambda>num. Inr (Some (row_name, num, start))))
        else let (row_name, _, start) = get_next_string line start
             in if dollar row_name then Inr None
                else let (num, _, start) = get_next_string line start in Inr (Some (row_name, num, start)))"
    by (auto simp: Let_def split: prod.split intro!: outcome_intros)
  have known: "rhs_known st \<Longrightarrow> row_names_map st n = Some i \<Longrightarrow> i < length (b_values st)" for n i
    using mps_wf_lookup(1) [OF wf] by (force simp: rhs_known_def)
  show ?thesis
    unfolding read_rhs_row_and_value_def outcome_bind
    by (rule outcome_mono [OF fields])
      (use known in \<open>auto simp: wf mps_wf_resized split: option.split intro!: outcome_number\<close>)
qed

lemma parse_rhs_outcome:
  assumes wf: "mps_wf st"
  shows "outcome (\<lambda>e. e = Undefined \<longrightarrow> \<not> rhs_known st) (wf_frame st) (parse_rhs st line)"
proof -
  note one = read_rhs_row_and_value_outcome [OF wf]
  have second: "outcome (\<lambda>e. e = Undefined \<longrightarrow> \<not> rhs_known st) (\<lambda>a. wf_frame st (snd a)) (read_rhs_row_and_value st1 line p)"
    if "wf_frame st st1" "row_names st1 = row_names st" "length (b_values st1) = length (b_values st)" for st1 p
    using read_rhs_row_and_value_outcome [of st1 line p] that frame_trans
    by (auto elim!: outcome_mono simp: rhs_known_def)
  have first: "outcome (\<lambda>e. e = Undefined \<longrightarrow> \<not> rhs_known st)
    (\<lambda>a. wf_frame st (snd a) \<and> row_names (snd a) = row_names st \<and> length (b_values (snd a)) = length (b_values st))
       (if fixed_mps_format st
        then expects (length line \<ge> 25) Short_Rhs (read_rhs_row_and_value st line 14)
        else let (first_field, _, pos) = get_next_string line 0;
                 pos = (if first_field = objective_name st \<or> row_names_map st first_field \<noteq> None then 0 else pos)
             in read_rhs_row_and_value st line pos)"
    using one by (simp add: Let_def split: prod.split)
  show ?thesis
    unfolding parse_rhs_def outcome_bind
    by (rule outcome_mono [OF first]) (use second in \<open>auto simp: Let_def\<close>)
qed

subsection \<open>BOUNDS and RANGES entries\<close>

lemma get_numerical_bound_outcome: "outcome defined (\<lambda>_. True) (get_numerical_bound f e line start)"
  unfolding get_numerical_bound_def
  by (auto simp: Let_def split: prod.split intro!: outcome_intros)

definition bounds_full :: "'f mps_parser \<Rightarrow> nat \<Rightarrow> bool" where
  "bounds_full st n \<longleftrightarrow> mps_wf st \<and> length (variable_upper_bounds st) = n \<and> length (var_names st) = n"

text \<open>The setters of a bound on a state whose bound vectors cover all variables.\<close>

lemma set_bound_outcome:
  assumes "bounds_full st n" "i < n" "frame st0 st"
  shows "outcome defined (\<lambda>st'. bounds_full st' n \<and> frame st0 st') (set_lower i v st)"
    "outcome defined (\<lambda>st'. bounds_full st' n \<and> frame st0 st') (set_upper i v st)"
    "outcome defined (\<lambda>st'. bounds_full st' n \<and> frame st0 st') (set_type i c st)"
  using assms mps_wf_lengths(2,7) [of st]
  by (auto simp: set_lower_def set_upper_def set_type_def bounds_full_def mps_wf_resized)

lemma set_upper_value_outcome:
  assumes "bounds_full st n" "i < n" "frame st0 st"
  shows "outcome defined (\<lambda>st'. bounds_full st' n \<and> frame st0 st') (set_upper_value i v st)"
  unfolding set_upper_value_def outcome_bind
  by (rule outcome_mono [OF set_bound_outcome(2) [OF assms]]) (auto intro: set_bound_outcome(1) assms(2))

lemma read_bound_and_value_outcome:
  fixes st :: "('f :: linordered_field) mps_parser"
  assumes "bounds_full st n" "i < n"
  shows "outcome defined (\<lambda>st'. bounds_full st' n \<and> frame st st') (read_bound_and_value st line bt i start)"
proof -
  let ?Q = "\<lambda>st'. bounds_full st' n \<and> frame st st'"
  have num: "(\<And>v. outcome defined ?Q (f v)) \<Longrightarrow> outcome defined ?Q (bind_ok (get_numerical_bound fx e line start) f)"
    for f and fx e
    unfolding outcome_bind by (rule outcome_mono [OF get_numerical_bound_outcome])
  have one: "?Q a \<Longrightarrow> outcome defined ?Q (set_lower i v a)" "?Q a \<Longrightarrow> outcome defined ?Q (set_upper i v a)"
    "?Q a \<Longrightarrow> outcome defined ?Q (set_type i c a)" "?Q a \<Longrightarrow> outcome defined ?Q (set_upper_value i v a)" for a v c
    using set_bound_outcome set_upper_value_outcome assms(2) by blast+
  have two: "(\<And>b. ?Q b \<Longrightarrow> outcome defined ?Q (k b)) \<Longrightarrow> outcome defined ?Q r \<Longrightarrow> outcome defined ?Q (bind_ok r k)"
    for k and r :: "mps_error + 'f mps_parser"
    unfolding outcome_bind by (erule outcome_mono) auto
  have "?Q st" using assms(1) by simp
  then show ?thesis
    unfolding read_bound_and_value_def Let_def
    by (cases bt) (auto simp del: outcome_bind intro!: one num two)
qed

lemma wf_bounds_variable:
  assumes "mps_wf st" "var_names_map st n = None" "inside_bounds st"
  shows "wf_frame st (add_bounds_variable n st)"
proof -
  have "names_ok (var_names (add_bounds_variable n st)) (var_names_map (add_bounds_variable n st))"
    using assms by (intro bounds_table.add_ok) (auto simp: mps_wf_def)
  then show ?thesis
    using assms by (auto simp: mps_wf_def add_bounds_variable_def one_section_def frame_def intro: entries_ok_mono less_SucI)
qed

lemma parse_bounds_outcome:
  assumes wf: "mps_wf st" and ins: "inside_bounds st"
  shows "outcome defined (wf_frame st) (parse_bounds st line)"
proof -
  have fields: "outcome defined (\<lambda>_. True)
       (if fixed_mps_format st
        then expects (length line \<ge> 14) Short_Bounds
          (bind_ok (sub line 1 2) (\<lambda>t. bind_ok (convert t) (\<lambda>type.
           bind_ok (sub line 4 8) (\<lambda>_. bind_ok (sub line 14 8) (\<lambda>v. Inr (type, trim v, 24))))))
        else let (t, _, end_pos) = get_next_string line 0
             in bind_ok (convert t) (\<lambda>type.
                let (bound_name, _, end_after_first_field) = get_next_string line end_pos;
                    (var_name, _, end_pos) = get_next_string line end_after_first_field
                in if var_names_map st bound_name \<noteq> None
                   then Inr (type, bound_name, end_after_first_field)
                   else Inr (type, var_name, end_pos)))"
    by (auto simp: Let_def split: prod.split intro!: outcome_intros)
  have entry: "outcome defined (wf_frame st)
      (case var_names_map st1 v of None \<Rightarrow> Inl Undefined
       | Some i \<Rightarrow> bind_ok (read_bound_and_value st1 line t i e)
                     (\<lambda>st. Inr (st\<lparr>bounds_defined_for_var_id := insert i (bounds_defined_for_var_id st)\<rparr>)))"
    if st1: "st1 = (if var_names_map st v = None then add_bounds_variable v st else st)" for st1 t v e
  proof -
    have w: "wf_frame st st1" using st1 wf wf_bounds_variable [OF wf _ ins] by auto
    then have full: "bounds_full st1 (length (var_names st1))"
      using mps_wf_lengths(9) [of st1] ins by (auto simp: bounds_full_def frame_def)
    have "var_names_map st1 v \<noteq> None" using st1 bounds_table.add_self [of st v] by auto
    then obtain i where i: "var_names_map st1 v = Some i" by blast
    then have "i < length (var_names st1)" using mps_wf_lookup(2) w by blast
    from read_bound_and_value_outcome [OF full this, of line t e]
    have "outcome defined (\<lambda>st'. wf_frame st (st'\<lparr>bounds_defined_for_var_id := insert i (bounds_defined_for_var_id st')\<rparr>))
        (read_bound_and_value st1 line t i e)"
      by (rule outcome_mono)
        (use \<open>i < length (var_names st1)\<close> frame_trans w in \<open>auto simp: bounds_full_def mps_wf_resized\<close>)
    then show ?thesis by (simp add: i)
  qed
  show ?thesis
    unfolding parse_bounds_def outcome_bind
    by (rule outcome_mono [OF fields]) (use wf entry in \<open>auto simp: Let_def\<close>)
qed

lemma insert_range_value_outcome:
  assumes wf: "mps_wf st" and ins: "inside_ranges st"
  shows "outcome defined (\<lambda>a. wf_frame st (snd a)) (insert_range_value st line skip)"
proof -
  have fields: "outcome defined (\<lambda>_. True)
       (if fixed_mps_format st
        then bind_ok (sub line 14 8) (\<lambda>s. let row_name = trim s
             in if dollar row_name then Inr None
                else bind_ok (get_numerical_bound True Bad_Value_Ranges line 24) (\<lambda>(v, _). Inr (Some (row_name, v, 39))))
        else let pos = find_first_not_of [BLANK, TAB] line 0;
                 pos = (if skip then find_first_of [BLANK, TAB] line pos else pos);
                 (row_name, _, end_pos) = get_next_string line pos
             in if dollar row_name then Inr None
                else bind_ok (get_numerical_bound False Bad_Value_Ranges line end_pos)
                       (\<lambda>(v, end_pos). Inr (Some (row_name, v, end_pos))))"
    by (auto simp: Let_def split: prod.split intro!: outcome_intros outcome_mono [OF get_numerical_bound_outcome])
  have known: "row_names_map st n = Some i \<Longrightarrow> i < length (ranges_values st)" for n i
    using mps_wf_lookup(1) [OF wf] mps_wf_lengths(10) [OF wf ins] by simp
  show ?thesis
    unfolding insert_range_value_def outcome_bind
    by (rule outcome_mono [OF fields]) (use known in \<open>auto simp: wf mps_wf_resized split: option.split\<close>)
qed

lemma parse_ranges_outcome:
  assumes wf: "mps_wf st" and ins: "inside_ranges st"
  shows "outcome defined (wf_frame st) (parse_ranges st line)"
proof -
  have second: "outcome defined (\<lambda>a. wf_frame st (snd a)) (insert_range_value st1 l b)" if "wf_frame st st1" for st1 l b
  proof -
    have "inside_ranges st1" using that ins by (simp add: frame_def)
    with that show ?thesis
      using frame_trans by (auto intro!: outcome_mono [OF insert_range_value_outcome])
  qed
  have "outcome defined (\<lambda>a. wf_frame st (snd a)) (insert_range_value st line True)" using second [of st] wf by simp
  then show ?thesis
    unfolding parse_ranges_def Let_def outcome_expects outcome_bind
    by (auto elim!: outcome_mono simp: second)
qed

subsection \<open>Lines\<close>

lemma objsense_objname_outcome:
  assumes "mps_wf st"
  shows "outcome defined (wf_frame st) (parse_objsense st line)" "outcome defined (wf_frame st) (parse_objname st line)"
  using assms by (auto simp: parse_objsense_def parse_objname_def intro!: outcome_intros)

definition unsafe_entry :: "'f mps_parser \<Rightarrow> string \<Rightarrow> bool" where
  "unsafe_entry st line \<longleftrightarrow>
     inside_rows st \<and> bad_row_line (fixed_mps_format st) line \<or> inside_rhs st \<and> \<not> rhs_known st"

lemma parse_entry_outcome:
  assumes wf: "mps_wf st"
  shows "outcome (\<lambda>e. e = Undefined \<longrightarrow> unsafe_entry st line) (wf_frame st) (parse_entry st line)"
proof -
  show ?thesis
    using parse_rows_outcome [OF wf, of line] parse_rhs_outcome [OF wf, of line]
    by (auto simp: parse_entry_def unsafe_entry_def elim!: outcome_mono
        intro!: outcome_mono [OF parse_columns_outcome [OF wf]] outcome_mono [OF parse_bounds_outcome [OF wf]]
          outcome_mono [OF parse_ranges_outcome [OF wf]] outcome_mono [OF objsense_objname_outcome(1) [OF wf]]
          outcome_mono [OF objsense_objname_outcome(2) [OF wf]])
qed

end
