(* ===== verification/Mps_File.thy ===== *)
theory Mps_File
  imports Mps_Invariant
begin

text \<open>
  The MPS reader over a whole file: headers and lines preserve the invariant, a file whose sections come
  in a safe order never reaches undefined behaviour, and a file that is accepted yields a well-formed
  data model with the row intervals of the MPS format.
\<close>

subsection \<open>Headers\<close>

lemma wf_enter_section [simp]:
  "s \<notin> {In_Columns, In_Bounds, In_Ranges} \<Longrightarrow> mps_wf st \<Longrightarrow> mps_wf (enter_section s st)"
  by (cases s) (simp_all add: mps_wf_def enter_section_def one_section_def)

lemma wf_encounter [simp]: "mps_wf (encounter s st) = mps_wf st"
  by (simp add: encounter_def)

lemma wf_begin_columns: "mps_wf st \<Longrightarrow> mps_wf (begin_columns (enter_section In_Columns st))"
  using entries_ok_resize by (auto simp: mps_wf_def begin_columns_def enter_section_def one_section_def Let_def)

lemma wf_default_bounds: "mps_wf st \<Longrightarrow> mps_wf (default_bounds st)"
  by (simp add: mps_wf_def default_bounds_def one_section_def Let_def)

lemma wf_begin_bounds: "mps_wf st \<Longrightarrow> mps_wf (default_bounds (enter_section In_Bounds st))"
  by (simp add: mps_wf_def default_bounds_def enter_section_def one_section_def Let_def)

lemma wf_begin_ranges: "mps_wf st \<Longrightarrow> mps_wf (begin_ranges (enter_section In_Ranges st))"
  by (simp add: mps_wf_def begin_ranges_def enter_section_def one_section_def)

lemma parse_name_outcome:
  assumes "mps_wf st"
  shows "outcome defined (wf_frame st) (parse_name st line)"
  using assms by (auto simp: parse_name_def Let_def split: option.split intro!: outcome_intros)

text \<open>
  The progress of a file: \<open>c\<close> tells that COLUMNS has been seen, \<open>r\<close> that a section has been seen
  after which no rows may be added (COLUMNS, RHS or RANGES).
\<close>

definition progress :: "bool \<Rightarrow> bool \<Rightarrow> 'f mps_parser \<Rightarrow> bool" where
  "progress c r st \<longleftrightarrow> mps_wf st \<and> (c \<longrightarrow> r \<and> length (A_indices st) = length (row_names st)) \<and>
     (r \<longrightarrow> \<not> inside_rows st) \<and> (inside_rhs st \<longrightarrow> c) \<and>
     (\<not> r \<longrightarrow> ranges_values st = []) \<and> (ranges_values st = [] \<or> length (ranges_values st) = length (row_names st)) \<and>
     (''COLUMNS'' \<in> encountered_sections st \<longrightarrow> c)"

definition is_header :: "string \<Rightarrow> bool" where
  "is_header line \<longleftrightarrow> \<not> ignored_line line \<and> hd line \<noteq> BLANK"

text \<open>The sections in a safe order: no rows after COLUMNS, RHS or RANGES, RHS after COLUMNS, no blank entries.\<close>

fun safe_order :: "bool \<Rightarrow> bool \<Rightarrow> string list \<Rightarrow> bool" where
  "safe_order c r [] = True"
| "safe_order c r (line # lines) =
     (if ignored_line line then safe_order c r lines
      else if hd line = BLANK then \<not> list_all is_space line \<and> safe_order c r lines
      else if starts_with ''NAME'' line then safe_order c r lines
      else if starts_with ''ROWS'' line \<or> starts_with ''LAZYCONS'' line then \<not> r \<and> safe_order c r lines
      else if starts_with ''COLUMNS'' line then safe_order True True lines
      else if starts_with ''RHS'' line then c \<and> safe_order c True lines
      else if starts_with ''RANGES'' line then safe_order c True lines
      else safe_order c r lines)"

lemma progress_frame:
  assumes "progress c r st" "wf_frame st st'"
  shows "progress c r st'"
proof -
  note p = assms(1) [unfolded progress_def]
  have f: "length (A_indices st') = length (A_indices st)" "length (ranges_values st') = length (ranges_values st)"
    "inside_rows st' = inside_rows st" "inside_rhs st' = inside_rhs st" "inside_rows st \<or> row_names st' = row_names st"
    "encountered_sections st' = encountered_sections st" "mps_wf st'"
    using assms(2) by (simp_all add: frame_def)
  have "ranges_values st' = [] \<longleftrightarrow> ranges_values st = []" using f(2) by (metis length_0_conv)
  then show ?thesis unfolding progress_def f(1-4) using p f(5-7) by (cases r) auto
qed

text \<open>What the header operations do to the fields that the progress reads.\<close>

lemma enter_section_simps [simp]:
  "row_names (enter_section k st) = row_names st"
  "row_types (enter_section k st) = row_types st"
  "var_names (enter_section k st) = var_names st"
  "A_indices (enter_section k st) = A_indices st"
  "ranges_values (enter_section k st) = ranges_values st"
  "inside_rows (enter_section k st) = (k = In_Rows)"
  "inside_rhs (enter_section k st) = (k = In_Rhs)"
  "fixed_mps_format (enter_section k st) = fixed_mps_format st"
  "objective_name (enter_section k st) = objective_name st"
  "ignored_objective_names (enter_section k st) = ignored_objective_names st"
  "c_values (enter_section k st) = c_values st"
  "encountered_sections (enter_section k st) = encountered_sections st"
  by (simp_all add: enter_section_def Let_def)

lemma encounter_simps [simp]:
  "row_names (encounter e st) = row_names st"
  "row_types (encounter e st) = row_types st"
  "var_names (encounter e st) = var_names st"
  "A_indices (encounter e st) = A_indices st"
  "ranges_values (encounter e st) = ranges_values st"
  "inside_rows (encounter e st) = inside_rows st"
  "inside_rhs (encounter e st) = inside_rhs st"
  "fixed_mps_format (encounter e st) = fixed_mps_format st"
  "objective_name (encounter e st) = objective_name st"
  "ignored_objective_names (encounter e st) = ignored_objective_names st"
  "c_values (encounter e st) = c_values st"
  "encountered_sections (encounter e st) = insert e (encountered_sections st)"
  by (simp_all add: encounter_def Let_def)

lemma begin_columns_simps [simp]:
  "row_names (begin_columns st) = row_names st"
  "row_types (begin_columns st) = row_types st"
  "var_names (begin_columns st) = var_names st"
  "length (A_indices (begin_columns st)) = length (row_names st)"
  "ranges_values (begin_columns st) = ranges_values st"
  "inside_rows (begin_columns st) = inside_rows st"
  "inside_rhs (begin_columns st) = inside_rhs st"
  "fixed_mps_format (begin_columns st) = fixed_mps_format st"
  "objective_name (begin_columns st) = objective_name st"
  "ignored_objective_names (begin_columns st) = ignored_objective_names st"
  "c_values (begin_columns st) = c_values st"
  "encountered_sections (begin_columns st) = encountered_sections st"
  by (simp_all add: begin_columns_def Let_def)

lemma default_bounds_simps [simp]:
  "row_names (default_bounds st) = row_names st"
  "row_types (default_bounds st) = row_types st"
  "var_names (default_bounds st) = var_names st"
  "A_indices (default_bounds st) = A_indices st"
  "ranges_values (default_bounds st) = ranges_values st"
  "inside_rows (default_bounds st) = inside_rows st"
  "inside_rhs (default_bounds st) = inside_rhs st"
  "fixed_mps_format (default_bounds st) = fixed_mps_format st"
  "objective_name (default_bounds st) = objective_name st"
  "ignored_objective_names (default_bounds st) = ignored_objective_names st"
  "c_values (default_bounds st) = c_values st"
  "encountered_sections (default_bounds st) = encountered_sections st"
  by (simp_all add: default_bounds_def Let_def)

lemma begin_ranges_simps [simp]:
  "row_names (begin_ranges st) = row_names st"
  "row_types (begin_ranges st) = row_types st"
  "var_names (begin_ranges st) = var_names st"
  "A_indices (begin_ranges st) = A_indices st"
  "length (ranges_values (begin_ranges st)) = length (row_types st)"
  "inside_rows (begin_ranges st) = inside_rows st"
  "inside_rhs (begin_ranges st) = inside_rhs st"
  "fixed_mps_format (begin_ranges st) = fixed_mps_format st"
  "objective_name (begin_ranges st) = objective_name st"
  "ignored_objective_names (begin_ranges st) = ignored_objective_names st"
  "c_values (begin_ranges st) = c_values st"
  "encountered_sections (begin_ranges st) = encountered_sections st"
  by (simp_all add: begin_ranges_def Let_def)

lemma progress_sections:
  assumes "progress c r st" "s \<noteq> ''COLUMNS''"
  shows "\<not> r \<Longrightarrow> progress c r (enter_section In_Rows (encounter s st))"
    "progress True True (begin_columns (enter_section In_Columns (encounter k st)))"
    "c \<Longrightarrow> progress c True (enter_section In_Rhs (encounter s st))"
    "progress c r (default_bounds (enter_section In_Bounds (encounter s st)))"
    "progress c True (begin_ranges (enter_section In_Ranges (encounter s st)))"
    "progress c r (enter_section In_Objsense (encounter s st))"
    "progress c r (enter_section In_Objname (encounter s st))"
    "progress c r (encounter s st)"
  using assms wf_begin_columns [of "encounter k st"] wf_begin_bounds [of "encounter s st"] wf_begin_ranges [of "encounter s st"]
    mps_wf_lengths(1) [of st]
  by (auto simp: progress_def)

lemma starts_with_hd: "starts_with (c # cs) line \<Longrightarrow> line \<noteq> [] \<and> hd line = c"
  by (cases line) auto

lemma starts_with_snd: "starts_with (c # d # cs) line \<Longrightarrow> line \<noteq> [] \<and> hd line = c \<and> tl line \<noteq> [] \<and> hd (tl line) = d"
  by (cases line; cases "tl line") auto

lemma parse_header_progress:
  fixes st :: "('f :: linordered_idom) mps_parser"
  assumes pr: "progress c r st" and ord: "safe_order c r (line # lines)" and h: "\<not> ignored_line line" "hd line \<noteq> BLANK"
  shows "outcome defined (\<lambda>(st', stop). mps_wf st' \<and> (stop \<longrightarrow> progress c r st') \<and>
    (\<not> stop \<longrightarrow> (\<exists>c' r'. progress c' r' st' \<and> safe_order c' r' lines))) (parse_header st line)"
proof -
  note sec = progress_sections [OF pr]
  have wf: "progress c' r' st' \<Longrightarrow> mps_wf st'" for c' r' and st' :: "'f mps_parser" by (simp add: progress_def)
  have name: "outcome defined (progress c r) (parse_name (encounter s st) line)"
    "outcome defined (progress c r) (parse_objsense st line)"
    "outcome defined (progress c r) (parse_objname (encounter s st) line)" if "s \<noteq> ''COLUMNS''" for s
    using progress_frame [OF pr] progress_frame [OF sec(8) [OF that]] wf [OF pr] wf [OF sec(8) [OF that]]
    by (auto intro!: outcome_mono [OF parse_name_outcome] outcome_mono [OF objsense_objname_outcome(1)]
        outcome_mono [OF objsense_objname_outcome(2)])
  define ok where "ok r' = outcome defined (\<lambda>(st', stop). mps_wf st' \<and> (stop \<longrightarrow> progress c r st') \<and>
    (\<not> stop \<longrightarrow> (\<exists>c' r'. progress c' r' st' \<and> safe_order c' r' lines))) r'"
    for r' :: "mps_error + 'f mps_parser \<times> bool"
  have go: "ok (Inr (st', False))" if "progress c' r' st'" "safe_order c' r' lines" for c' r' st'
    using that wf unfolding ok_def by auto
  have bind: "ok (bind_ok m (\<lambda>st. Inr (st, False)))" if "outcome defined (progress c r) m" "safe_order c r lines" for m
    using that wf unfolding ok_def by (auto elim!: outcome_mono)
  have ords: "starts_with ''NAME'' line \<Longrightarrow> safe_order c r lines"
    "starts_with ''ROWS'' line \<or> starts_with ''LAZYCONS'' line \<Longrightarrow> \<not> r \<and> safe_order c r lines"
    "starts_with ''COLUMNS'' line \<Longrightarrow> safe_order True True lines"
    "starts_with ''RHS'' line \<Longrightarrow> c \<and> safe_order c True lines"
    "starts_with ''RANGES'' line \<Longrightarrow> safe_order c True lines"
    "starts_with ''BOUNDS'' line \<Longrightarrow> safe_order c r lines" "starts_with ''OBJSENSE'' line \<Longrightarrow> safe_order c r lines"
    "starts_with ''OBJNAME'' line \<Longrightarrow> safe_order c r lines"
    using ord h by (auto dest!: starts_with_snd split: if_splits)
  have fixed: "starts_with ''COLUMNS'' line \<Longrightarrow> ok (Inr (begin_columns (enter_section In_Columns (encounter s st)), False))"
    "starts_with ''OBJSENSE'' line \<Longrightarrow> ok (bind_ok (parse_objsense st line) (\<lambda>st. Inr (st, False)))"
    "ok (Inl (Validation Bad_Block))" for s
    using ords go sec(2) [of "''ROWS''"] bind name(2) [of "''ROWS''"]
    by (blast, simp, simp add: ok_def)
  have branch: "starts_with ''NAME'' line \<Longrightarrow> ok (bind_ok (parse_name (encounter s st) line) (\<lambda>st. Inr (st, False)))"
    "starts_with ''ROWS'' line \<or> starts_with ''LAZYCONS'' line \<Longrightarrow> ok (Inr (enter_section In_Rows (encounter s st), False))"
    "starts_with ''RHS'' line \<Longrightarrow> ok (Inr (enter_section In_Rhs (encounter s st), False))"
    "starts_with ''RANGES'' line \<Longrightarrow> ok (Inr (begin_ranges (enter_section In_Ranges (encounter s st)), False))"
    "starts_with ''BOUNDS'' line \<Longrightarrow> ok (Inr (default_bounds (enter_section In_Bounds (encounter s st)), False))"
    "starts_with ''OBJSENSE'' line \<Longrightarrow> ok (Inr (enter_section In_Objsense (encounter s st), False))"
    "starts_with ''OBJNAME'' line \<Longrightarrow> ok (bind_ok (parse_objname (encounter s st) line) (\<lambda>st. Inr (st, False)))"
    "starts_with ''OBJNAME'' line \<Longrightarrow> ok (Inr (enter_section In_Objname (encounter s st), False))"
    "ok (Inr (encounter s st, True))" if s: "s \<noteq> ''COLUMNS''" for s
    using ords bind go sec(1,3-8) [OF s] name [OF s] wf [OF sec(8) [OF s]]
    by (blast, blast, blast, blast, blast, blast, blast, blast, simp add: ok_def)
  have "ok (parse_header st line)"
    unfolding parse_header_def Let_def by (simp add: branch fixed)
  then show ?thesis by (simp add: ok_def)
qed

lemma bad_row_line_blank:
  assumes "\<not> list_all is_space line" "line \<noteq> []" "hd line = BLANK"
  shows "\<not> bad_row_line f line"
proof -
  obtain t where "line = BLANK # t" using assms(2,3) by (cases line) auto
  moreover have "is_space BLANK" by (simp add: is_space_def)
  ultimately have "t \<noteq> []" using assms(1) by auto
  then show ?thesis using assms(1) \<open>line = BLANK # t\<close> by (cases t) (auto simp: bad_row_line_def)
qed

text \<open>Any line keeps the invariant; in a safe file it also keeps the progress and is never undefined.\<close>

lemma parse_line_progress:
  assumes pr: "progress c r st" and ord: "safe_order c r (line # lines)"
  shows "outcome defined (\<lambda>(st', stop). (stop \<longrightarrow> progress c r st') \<and>
    (\<not> stop \<longrightarrow> (\<exists>c' r'. progress c' r' st' \<and> safe_order c' r' lines))) (parse_line st line)"
proof -
  have wf: "mps_wf st" using pr by (simp add: progress_def)
  consider "ignored_line line" | "\<not> ignored_line line" "hd line \<noteq> BLANK" | "\<not> ignored_line line" "hd line = BLANK" by blast
  then show ?thesis
  proof cases
    case 1
    then show ?thesis using pr ord by (auto simp: parse_line_def)
  next
    case 2
    then show ?thesis
      using parse_header_progress [OF pr ord 2] by (auto simp: parse_line_def elim!: outcome_mono)
  next
    case 3
    have ne: "line \<noteq> []" using 3 by (auto simp: ignored_line_def)
    have ord': "\<not> list_all is_space line" "safe_order c r lines" using ord 3 by auto
    have "rhs_known st" if "inside_rhs st"
      using pr that mps_wf_lengths(5) [OF wf] by (auto simp: progress_def rhs_known_def)
    then have safe: "\<not> unsafe_entry st line"
      using bad_row_line_blank [OF ord'(1) ne 3(2)] by (auto simp: unsafe_entry_def)
    have "outcome defined (progress c r) (parse_entry st line)"
      by (rule outcome_mono [OF parse_entry_outcome [OF wf]]) (use safe progress_frame [OF pr] in auto)
    then show ?thesis using 3 ord'(2) by (auto simp: parse_line_def elim!: outcome_mono)
  qed
qed

lemma parse_lines_progress:
  assumes "progress c r st" "safe_order c r lines"
  shows "outcome defined (\<lambda>st'. \<exists>c' r'. progress c' r' st') (parse_lines lines st)"
  using assms
proof (induction lines arbitrary: c r st)
  case (Cons line lines)
  have "outcome defined (\<lambda>(st', stop). outcome defined (\<lambda>st'. \<exists>c' r'. progress c' r' st')
      (if stop then Inr st' else parse_lines lines st')) (parse_line st line)"
    by (rule outcome_mono [OF parse_line_progress [OF Cons.prems]]) (use Cons.IH in auto)
  then show ?case by (auto elim!: outcome_mono)
qed auto

text \<open>Without an assumption on the order of the sections: every accepted prefix is well formed.\<close>

lemma parse_header_wf:
  assumes "mps_wf st"
  shows "outcome defined (\<lambda>(st', _). mps_wf st') (parse_header st line)"
proof -
  have e: "mps_wf (encounter s st)" for s using assms by simp
  show ?thesis
    using assms wf_begin_columns [OF e] wf_begin_bounds [OF e] wf_begin_ranges [OF e]
    by (auto simp: parse_header_def Let_def intro!: outcome_mono [OF parse_name_outcome [OF e]]
        outcome_mono [OF objsense_objname_outcome(1) [OF assms]] outcome_mono [OF objsense_objname_outcome(2) [OF e]])
qed

lemma parse_lines_wf:
  assumes "mps_wf st"
  shows "outcome (\<lambda>_. True) mps_wf (parse_lines lines st)"
  using assms
proof (induction lines arbitrary: st)
  case (Cons line lines)
  have "outcome (\<lambda>_. True) (\<lambda>(st', _). mps_wf st') (parse_line st line)"
    using Cons.prems
    by (auto simp: parse_line_def intro!: outcome_mono [OF parse_header_wf] outcome_mono [OF parse_entry_outcome])
  then show ?case using Cons.IH by (auto elim!: outcome_mono)
qed simp

end
