(* ===== verification/Mps_Result.thy ===== *)
theory Mps_Result
  imports Mps_File
begin

text \<open>
  What the MPS reader returns: the final bounds of the variables, the compressed rows and the row intervals
  of the data model, and the properties of the reader as a whole.
\<close>

subsection \<open>The end of \<open>parse_string\<close>\<close>

definition unbounded_integer :: "'f mps_parser \<Rightarrow> nat \<Rightarrow> bool" where
  "unbounded_integer st i \<longleftrightarrow> i \<notin> bounds_defined_for_var_id st \<and> var_types st ! i = CHR ''I''"

definition final_bounds :: "('f :: linordered_idom) mps_parser \<Rightarrow> nat \<Rightarrow> 'f ext \<times> 'f ext" where
  "final_bounds st i = (if unbounded_integer st i then (0, 1) else (variable_lower_bounds st ! i, variable_upper_bounds st ! i))"

definition bounds_checked :: "('f :: linordered_idom) mps_parser \<Rightarrow> nat \<Rightarrow> 'f mps_parser \<Rightarrow> bool" where
  "bounds_checked st k st' \<longleftrightarrow> (\<exists>l u. st' = st\<lparr>variable_lower_bounds := l, variable_upper_bounds := u\<rparr> \<and>
     length l = length (variable_lower_bounds st) \<and> length u = length (variable_upper_bounds st) \<and>
     (\<forall>j<length u. (l ! j, u ! j) = (if j < k then final_bounds st j
        else (variable_lower_bounds st ! j, variable_upper_bounds st ! j))) \<and>
     (\<forall>j<k. l ! j \<le> u ! j))"

lemma check_variable_step:
  assumes "bounds_checked st k st'" "k < length (variable_upper_bounds st)"
    "length (variable_lower_bounds st) = length (variable_upper_bounds st)"
  shows "outcome defined (bounds_checked st (Suc k)) (check_variable k st')"
proof -
  obtain l u where S: "st' = st\<lparr>variable_lower_bounds := l, variable_upper_bounds := u\<rparr>"
    and L: "length l = length (variable_lower_bounds st)" "length u = length (variable_upper_bounds st)"
    and E: "\<forall>j<length u. (l ! j, u ! j) = (if j < k then final_bounds st j
        else (variable_lower_bounds st ! j, variable_upper_bounds st ! j))"
    and O: "\<forall>j<k. l ! j \<le> u ! j"
    using assms(1) unfolding bounds_checked_def by blast
  define l' where "l' = (if unbounded_integer st k then l[k := 0] else l)"
  define u' where "u' = (if unbounded_integer st k then u[k := 1] else u)"
  have C: "check_variable k st' = expects (l' ! k \<le> u' ! k) Internal
      (Inr (st\<lparr>variable_lower_bounds := l', variable_upper_bounds := u'\<rparr>))"
    by (simp add: check_variable_def S Let_def l'_def u'_def unbounded_integer_def)
  have L': "length l' = length (variable_lower_bounds st)" "length u' = length (variable_upper_bounds st)"
    by (simp_all add: l'_def u'_def L)
  have E': "(l' ! j, u' ! j) = (if j < Suc k then final_bounds st j
        else (variable_lower_bounds st ! j, variable_upper_bounds st ! j))" if j: "j < length u'" for j
  proof (cases "j = k")
    case True
    then show ?thesis using E [rule_format, of k] assms(2,3) L
      by (auto simp: l'_def u'_def final_bounds_def)
  next
    case False
    then show ?thesis using E [rule_format, of j] j L L' by (auto simp: l'_def u'_def less_Suc_eq split: if_splits)
  qed
  have O': "\<forall>j<k. l' ! j \<le> u' ! j" using O by (auto simp: l'_def u'_def)
  have "bounds_checked st (Suc k) (st\<lparr>variable_lower_bounds := l', variable_upper_bounds := u'\<rparr>)" if "l' ! k \<le> u' ! k"
    unfolding bounds_checked_def
    by (rule exI [of _ l'], rule exI [of _ u']) (use L' E' O' that in \<open>auto simp: less_Suc_eq\<close>)
  then show ?thesis by (simp add: C)
qed

text \<open>The states that \<open>finish_parse\<close> returns: complete bounds, each interval nonempty.\<close>

definition finished :: "('f :: linordered_idom) mps_parser \<Rightarrow> 'f mps_parser \<Rightarrow> bool" where
  "finished st st' \<longleftrightarrow>
     (let st0 = (if variable_upper_bounds st = [] then default_bounds st else st) in
      objective_name st \<noteq> [] \<and> {''ROWS'', ''COLUMNS'', ''RHS''} \<subseteq> encountered_sections st \<and>
      length (variable_lower_bounds st0) = length (var_names st) \<and> length (variable_upper_bounds st0) = length (var_names st) \<and>
      bounds_checked st0 (length (var_names st)) st')"

lemma finish_parse_outcome:
  assumes wf: "mps_wf st"
  shows "outcome defined (finished st) (finish_parse st)"
proof -
  define st0 where "st0 = (if variable_upper_bounds st = [] then default_bounds st else st)"
  have n: "var_names st0 = var_names st" "var_types st0 = var_types st"
    by (simp_all add: st0_def default_bounds_def Let_def)
  have loop: "outcome defined (bounds_checked st0 (length (var_names st)))
      (for_range 0 (length (var_names st)) (\<lambda>i r. bind_ok r (check_variable i)) (Inr st0))"
    if L: "length (variable_lower_bounds st0) = length (variable_upper_bounds st0)"
      "length (variable_upper_bounds st0) = length (var_names st)"
  proof (rule for_range_inv [where P = "\<lambda>i. outcome defined (bounds_checked st0 i)"])
    show "outcome defined (bounds_checked st0 0) (Inr st0)"
      unfolding bounds_checked_def outcome_simps
      by (rule exI [of _ "variable_lower_bounds st0"], rule exI [of _ "variable_upper_bounds st0"]) simp
    fix i r assume i: "i < length (var_names st)" and IH: "outcome defined (bounds_checked st0 i) r"
    show "outcome defined (bounds_checked st0 (Suc i)) (bind_ok r (check_variable i))"
      unfolding outcome_bind
      by (rule outcome_mono [OF IH]) (use check_variable_step [of st0 i] i L in auto)
  qed simp
  show ?thesis
    using loop mps_wf_lengths(2) [OF wf] n
    by (auto simp: finish_parse_def finished_def Let_def simp flip: st0_def intro: outcome_mono [OF loop])
qed

subsection \<open>The data model\<close>

definition row_offset :: "'a list list \<Rightarrow> nat \<Rightarrow> nat" where
  "row_offset ls k = length (concat (take k ls))"

lemma row_offset_Suc: "k < length ls \<Longrightarrow> row_offset ls (Suc k) = row_offset ls k + length (ls ! k)"
  by (simp add: row_offset_def take_Suc_conv_app_nth)

lemma csr_of_rows_closed:
  assumes "length vals = length ind"
  shows "csr_of_rows ind vals = (map (row_offset ind) [0..<Suc (length ind)], concat ind, concat vals)"
proof -
  have "k \<le> length ind \<Longrightarrow> for_range 0 k (\<lambda>i (h_offsets, h_indices, h_values).
       (h_offsets @ [last h_offsets + length (ind ! i)], h_indices @ ind ! i, h_values @ vals ! i)) ([0], [], [])
    = (map (row_offset ind) [0..<Suc k], concat (take k ind), concat (take k vals))" for k
  proof (induction k)
    case 0
    then show ?case by (simp add: row_offset_def)
  next
    case (Suc k)
    then show ?case
      using assms by (simp add: for_range_Suc row_offset_Suc take_Suc_conv_app_nth)
  qed
  from this [of "length ind"] show ?thesis using assms by (simp add: csr_of_rows_def)
qed

lemma row_offset_mono: "i \<le> j \<Longrightarrow> row_offset ls i \<le> row_offset ls j"
proof -
  assume "i \<le> j"
  then have "take j ls = take i ls @ take (j - i) (drop i ls)" by (metis le_add_diff_inverse take_add)
  then show ?thesis by (simp add: row_offset_def)
qed

lemma entries_ok_concat:
  assumes "entries_ok n ind vals"
  shows "length (concat ind) = length (concat vals)" "\<forall>j\<in>set (concat ind). j < n"
proof -
  have "map length ind = map length vals" using assms by (auto simp: entries_ok_def intro: nth_equalityI)
  then show "length (concat ind) = length (concat vals)" by (simp add: length_concat)
  show "\<forall>j\<in>set (concat ind). j < n" using assms by (auto simp: entries_ok_def in_set_conv_nth [of _ ind])
qed

lemma row_intervals_outcome:
  assumes "\<forall>i<length (row_types st). \<forall>e. row_of st i = Inl e \<longrightarrow> E e"
  shows "outcome E (\<lambda>(ls, us). length ls = length (row_types st) \<and> length us = length (row_types st) \<and>
    (\<forall>i<length (row_types st). row_of st i = Inr (ls ! i, us ! i))) (row_intervals st)"
proof -
  let ?P = "\<lambda>k. outcome E (\<lambda>(ls, us). length ls = k \<and> length us = k \<and> (\<forall>i<k. row_of st i = Inr (ls ! i, us ! i)))"
  have "?P (length (row_types st)) (row_intervals st)"
    unfolding row_intervals_def
  proof (rule for_range_inv [where P = ?P])
    fix i r assume i: "i < length (row_types st)" and IH: "?P i r"
    show "?P (Suc i) (bind_ok r (\<lambda>(ls, us). bind_ok (row_of st i) (\<lambda>(l, u). Inr (ls @ [l], us @ [u]))))"
      unfolding outcome_bind
    proof (rule outcome_mono [OF IH], assumption)
      fix p assume "case p of (ls, us) \<Rightarrow> length ls = i \<and> length us = i \<and> (\<forall>j<i. row_of st j = Inr (ls ! j, us ! j))"
      then obtain ls us where p: "p = (ls, us)" "length ls = i" "length us = i" "\<forall>j<i. row_of st j = Inr (ls ! j, us ! j)"
        by (cases p) auto
      show "?P (Suc i) (case p of (ls, us) \<Rightarrow> bind_ok (row_of st i) (\<lambda>(l, u). Inr (ls @ [l], us @ [u])))"
        unfolding p(1) prod.case outcome_bind
        by (rule outcomeI) (use assms i p in \<open>auto simp: less_Suc_eq nth_append\<close>)
    qed
  qed simp_all
  then show ?thesis .
qed

text \<open>
  A well-formed data model: compressed rows over the variables, one value per variable and per
  constraint, no NaN among the row bounds, and nonempty intervals for the variables.
\<close>

definition model_wf :: "('f :: linordered_idom) mps_data_model \<Rightarrow> bool" where
  "model_wf M \<longleftrightarrow>
     length (dm_A_offsets M) = dm_n_constraints M + 1 \<and> dm_A_offsets M ! 0 = 0 \<and> sorted (dm_A_offsets M) \<and>
     last (dm_A_offsets M) = length (dm_A M) \<and> length (dm_A_indices M) = length (dm_A M) \<and>
     (\<forall>j\<in>set (dm_A_indices M). j < dm_n_vars M) \<and>
     length (dm_b M) = dm_n_constraints M \<and> length (dm_row_names M) = dm_n_constraints M \<and> distinct (dm_row_names M) \<and>
     length (dm_constraint_lower_bounds M) = dm_n_constraints M \<and> length (dm_constraint_upper_bounds M) = dm_n_constraints M \<and>
     NaN \<notin> set (dm_constraint_lower_bounds M) \<and> NaN \<notin> set (dm_constraint_upper_bounds M) \<and>
     length (dm_c M) = dm_n_vars M \<and> length (dm_var_types M) = dm_n_vars M \<and>
     length (dm_var_names M) = dm_n_vars M \<and> distinct (dm_var_names M) \<and>
     length (dm_variable_lower_bounds M) = dm_n_vars M \<and> length (dm_variable_upper_bounds M) = dm_n_vars M \<and>
     (\<forall>j<dm_n_vars M. dm_variable_lower_bounds M ! j \<le> dm_variable_upper_bounds M ! j)"

text \<open>The model that a parser state is transferred to.\<close>

definition model_of :: "'f mps_parser \<Rightarrow> ('f :: linordered_idom) ext list \<Rightarrow> 'f ext list \<Rightarrow> 'f mps_data_model \<Rightarrow> 'f mps_data_model" where
  "model_of st ls us M =
     M\<lparr>dm_maximize := maximize st, dm_A := concat (A_values st), dm_A_indices := concat (A_indices st),
       dm_A_offsets := map (row_offset (A_indices st)) [0..<Suc (length (A_indices st))],
       dm_b := b_values st, dm_c := c_values st,
       dm_objective_scaling_factor := objective_scaling_factor_value st,
       dm_objective_offset := objective_offset_value st,
       dm_variable_lower_bounds := variable_lower_bounds st, dm_variable_upper_bounds := variable_upper_bounds st,
       dm_var_types := var_types st, dm_constraint_lower_bounds := ls, dm_constraint_upper_bounds := us,
       dm_objective_name := objective_name st, dm_problem_name := problem_name st,
       dm_var_names := var_names st, dm_row_names := row_names st,
       dm_n_vars := length (c_values st), dm_n_constraints := length ls\<rparr>"

lemma fill_problem_outcome:
  assumes wf: "mps_wf st"
    and E: "\<forall>i<length (row_types st). \<forall>e. row_of st i = Inl e \<longrightarrow> E e" "\<And>v. E (Validation v)"
  shows "outcome E (\<lambda>M'. M' = model_of st (dm_constraint_lower_bounds M') (dm_constraint_upper_bounds M') M \<and>
      length (row_types st) = length (b_values st) \<and> length (dm_constraint_lower_bounds M') = length (row_types st) \<and>
      length (dm_constraint_upper_bounds M') = length (row_types st) \<and>
      (\<forall>i<length (row_types st). row_of st i = Inr (dm_constraint_lower_bounds M' ! i, dm_constraint_upper_bounds M' ! i)) \<and>
      length (variable_lower_bounds st) = length (c_values st) \<and> length (variable_upper_bounds st) = length (c_values st))
    (fill_problem st M)"
proof -
  have v: "length (A_values st) = length (A_indices st)" using mps_wf_lengths [OF wf] by simp
  have e: "entries_ok (length (var_names st)) (A_indices st) (A_values st)" using wf by (simp add: mps_wf_def)
  have off: "row_offset (A_indices st) (length (A_indices st)) = length (concat (A_values st))"
    using entries_ok_concat(1) [OF e] by (simp add: row_offset_def)
  define offs where "offs = map (row_offset (A_indices st)) [0..<Suc (length (A_indices st))]"
  have o: "offs \<noteq> []" "length offs = length (A_indices st) + 1" "last offs = length (concat (A_values st))"
    using off by (simp_all add: offs_def)
  show ?thesis
    unfolding fill_problem_def csr_of_rows_closed [OF v] Let_def prod.case model_of_def
    unfolding offs_def [symmetric] set_all_elements
    using entries_ok_concat(1) [OF e] o v E(2)
    by (auto simp: set_objective_offset_def set_objective_scaling_factor_def set_maximize_def set_row_names_def
        set_variable_types_def set_variable_names_def set_objective_name_def set_problem_name_def
        intro!: outcome_mono [OF row_intervals_outcome [OF E(1)]])
qed

end
