(* ===== verification/Mps_Lift.thy ===== *)
theory Mps_Lift
  imports Mps_Result
begin

text \<open>
  Invariants of the parser state over the lines of a file: what each elementary update preserves is
  preserved by every entry and every header, so by \<open>parse_lines\<close>. Two instances: the state in which the
  declared objective is ignored, and the default bounds of the variables that BOUNDS does not name.
\<close>

abbreviation any :: "mps_error \<Rightarrow> bool" where "any \<equiv> \<lambda>_. True"

locale line_invariant =
  fixes I :: "('f :: linordered_field) mps_parser \<Rightarrow> bool"
  assumes plain: "I st \<Longrightarrow> I (st\<lparr>problem_name := s\<rparr>)" "I st \<Longrightarrow> I (st\<lparr>objective_offset_value := v\<rparr>)"
    "I st \<Longrightarrow> I (st\<lparr>maximize := b\<rparr>)" "I st \<Longrightarrow> I (st\<lparr>inside_intcapture := b\<rparr>)"
    "I st \<Longrightarrow> I (st\<lparr>A_indices := ks, A_values := vs\<rparr>)" "I st \<Longrightarrow> I (st\<lparr>b_values := xs\<rparr>)"
    "I st \<Longrightarrow> I (st\<lparr>ranges_values := xs\<rparr>)"
    and sections: "I st \<Longrightarrow> I (enter_section k st)" "I st \<Longrightarrow> I (encounter e st)" "I st \<Longrightarrow> I (begin_columns st)"
    "I st \<Longrightarrow> I (default_bounds st)" "I st \<Longrightarrow> I (begin_ranges st)"
    and names: "I st \<Longrightarrow> I (add_row n t st)" "I st \<Longrightarrow> I (add_column n c st)"
    "I st \<Longrightarrow> objective_name st = [] \<Longrightarrow> I (st\<lparr>objective_name := n\<rparr>)"
    "I st \<Longrightarrow> objective_name st \<noteq> [] \<Longrightarrow> I (st\<lparr>ignored_objective_names := insert n (ignored_objective_names st)\<rparr>)"
    and cost: "I st \<Longrightarrow> objective_name st \<notin> ignored_objective_names st \<Longrightarrow> I (st\<lparr>c_values := (c_values st)[j := v]\<rparr>)"
    and bounds: "I st \<Longrightarrow> outcome any I (parse_bounds st line)"
begin

lemma rows: "I st \<Longrightarrow> outcome any I (parse_rows st line)"
  unfolding parse_rows_def outcome_bind by (rule outcomeI) (auto intro: names)

lemma insert_value: "I st \<Longrightarrow> outcome any I (insert_row_name_and_value st row num j)"
  by (auto simp: insert_row_name_and_value_def split: option.split intro!: outcome_number intro: plain cost)

lemma read: "I st \<Longrightarrow> outcome any (\<lambda>a. I (snd a)) (read_row_and_value st line start j)"
  unfolding read_row_and_value_def outcome_bind
  by (rule outcomeI) (auto intro: outcome_mono [OF insert_value])

lemma column_name: "I st \<Longrightarrow> outcome any (\<lambda>a. I (snd a)) (parse_column_var_name st line)"
  unfolding parse_column_var_name_def outcome_bind by (rule outcomeI) (auto simp: Let_def intro: plain names)

lemma columns:
  assumes "I st"
  shows "outcome any I (parse_columns st line)"
proof -
  have two: "outcome any I (parse_column_row_and_value st1 line pos)" if "I st1" for st1 pos
    unfolding parse_column_row_and_value_def Let_def outcome_bind
    by (rule outcome_mono [OF read [OF that]]) (auto intro: read)
  show ?thesis
    unfolding parse_columns_def outcome_bind
    by (rule outcome_mono [OF column_name [OF assms]]) (auto intro: two)
qed

lemma rhs:
  assumes st: "I st"
  shows "outcome any I (parse_rhs st line)"
proof -
  have rd: "outcome any (\<lambda>a. I (snd a)) (read_rhs_row_and_value st1 line p)" if "I st1" for st1 p
    unfolding read_rhs_row_and_value_def outcome_bind
    by (rule outcomeI) (auto split: option.split intro!: outcome_number intro: plain that)
  have first: "outcome any (\<lambda>a. I (snd a)) (if fixed_mps_format st
        then expects (length line \<ge> 25) Short_Rhs (read_rhs_row_and_value st line 14)
        else let (first_field, _, pos) = get_next_string line 0;
                 pos = (if first_field = objective_name st \<or> row_names_map st first_field \<noteq> None then 0 else pos)
             in read_rhs_row_and_value st line pos)"
    using rd [OF st] by (simp add: Let_def split: prod.split)
  show ?thesis
    unfolding parse_rhs_def outcome_bind
    by (rule outcome_mono [OF first]) (auto simp: Let_def intro: rd)
qed

lemma ranges:
  assumes "I st"
  shows "outcome any I (parse_ranges st line)"
proof -
  have ins: "outcome any (\<lambda>a. I (snd a)) (insert_range_value st1 l b)" if "I st1" for st1 l b
    unfolding insert_range_value_def outcome_bind
    by (rule outcomeI) (auto split: option.split intro: plain that)
  show ?thesis
    unfolding parse_ranges_def Let_def outcome_expects outcome_bind
    by (auto intro!: outcome_mono [OF ins [OF assms]] intro: ins)
qed

lemma line:
  assumes "I st"
  shows "outcome any (\<lambda>a. I (fst a)) (parse_line st line)"
proof -
  have sense: "outcome any I (parse_objsense st1 line)" "outcome any I (parse_objname st1 line)"
    "outcome any I (parse_name st1 line)" if "I st1" for st1
    using that
    by (auto simp: parse_objsense_def parse_objname_def parse_name_def Let_def split: option.split
        intro!: outcomeI intro: plain names)
  have e: "I (encounter s st)" for s using assms by (rule sections)
  have "outcome any I (parse_entry st line)"
    unfolding parse_entry_def
    by (simp add: rows columns rhs bounds ranges sense assms)
  moreover have "outcome any (\<lambda>a. I (fst a)) (parse_header st line)"
    unfolding parse_header_def Let_def
    by (simp add: sense [OF e] sense [OF assms] sections assms)
  ultimately show ?thesis by (simp add: parse_line_def assms)
qed

lemma lines: "I st \<Longrightarrow> outcome any I (parse_lines ls st)"
proof (induction ls arbitrary: st)
  case (Cons l ls)
  show ?case
    unfolding parse_lines.simps outcome_bind
    by (rule outcome_mono [OF line [OF Cons.prems]]) (use Cons.IH in \<open>auto split: prod.split\<close>)
qed simp

end

subsection \<open>The declared objective that is ignored\<close>

definition zero_cost :: "string \<Rightarrow> ('f :: linordered_idom) mps_parser \<Rightarrow> bool" where
  "zero_cost nm st \<longleftrightarrow> objective_name st = nm \<and> nm \<noteq> [] \<and> nm \<in> ignored_objective_names st \<and> set (c_values st) \<subseteq> {0}"

text \<open>A BOUNDS entry changes bounds and types, and may add a variable with cost 0.\<close>

definition bounds_step :: "nat \<Rightarrow> ('f :: linordered_idom) mps_parser \<Rightarrow> 'f mps_parser \<Rightarrow> bool" where
  "bounds_step i st st' \<longleftrightarrow>
     st' = st\<lparr>variable_lower_bounds := variable_lower_bounds st', variable_upper_bounds := variable_upper_bounds st',
              var_types := var_types st'\<rparr> \<and>
     length (variable_lower_bounds st') = length (variable_lower_bounds st) \<and>
     length (variable_upper_bounds st') = length (variable_upper_bounds st) \<and>
     (\<forall>j. j \<noteq> i \<longrightarrow> variable_lower_bounds st' ! j = variable_lower_bounds st ! j \<and>
        variable_upper_bounds st' ! j = variable_upper_bounds st ! j)"

lemma bounds_step_refl: "bounds_step i st st"
  by (simp add: bounds_step_def)

lemma bounds_step_upd:
  assumes "bounds_step i st0 st"
  shows "bounds_step i st0 (st\<lparr>variable_lower_bounds := (variable_lower_bounds st)[i := v]\<rparr>)"
    "bounds_step i st0 (st\<lparr>variable_upper_bounds := (variable_upper_bounds st)[i := v]\<rparr>)"
    "bounds_step i st0 (st\<lparr>var_types := cs\<rparr>)"
proof -
  have e: "st = st0\<lparr>variable_lower_bounds := variable_lower_bounds st, variable_upper_bounds := variable_upper_bounds st,
              var_types := var_types st\<rparr>"
    using assms by (simp add: bounds_step_def)
  have u: "st\<lparr>variable_lower_bounds := l\<rparr> = st0\<lparr>variable_lower_bounds := l, variable_upper_bounds := variable_upper_bounds st,
              var_types := var_types st\<rparr>" for l by (subst e) simp
  have v: "st\<lparr>variable_upper_bounds := l\<rparr> = st0\<lparr>variable_lower_bounds := variable_lower_bounds st, variable_upper_bounds := l,
              var_types := var_types st\<rparr>" for l by (subst e) simp
  have t: "st\<lparr>var_types := cs\<rparr> = st0\<lparr>variable_lower_bounds := variable_lower_bounds st,
              variable_upper_bounds := variable_upper_bounds st, var_types := cs\<rparr>" by (subst e) simp
  show "bounds_step i st0 (st\<lparr>variable_lower_bounds := (variable_lower_bounds st)[i := v]\<rparr>)"
    "bounds_step i st0 (st\<lparr>variable_upper_bounds := (variable_upper_bounds st)[i := v]\<rparr>)"
    "bounds_step i st0 (st\<lparr>var_types := cs\<rparr>)"
    unfolding bounds_step_def using u v t assms by (simp_all add: bounds_step_def)
qed

lemma read_bound_step:
  fixes st :: "('f :: linordered_field) mps_parser"
  shows "outcome any (bounds_step i st) (read_bound_and_value st line bt i e)"
proof -
  have one: "bounds_step i st a \<Longrightarrow> outcome any (bounds_step i st) (set_lower i v a)"
    "bounds_step i st a \<Longrightarrow> outcome any (bounds_step i st) (set_upper i v a)"
    "bounds_step i st a \<Longrightarrow> outcome any (bounds_step i st) (set_type i c a)" for a v c
    using bounds_step_upd [of i st a] by (auto simp: set_lower_def set_upper_def set_type_def)
  have three: "bounds_step i st a \<Longrightarrow> outcome any (bounds_step i st) (set_upper_value i v a)" for a v
    unfolding set_upper_value_def outcome_bind by (rule outcome_mono [OF one(2)]) (auto intro: one)
  have num: "(\<And>v. outcome any (bounds_step i st) (f v)) \<Longrightarrow>
      outcome any (bounds_step i st) (bind_ok (get_numerical_bound fx er line e) f)"
    for f :: "'f ext \<times> int \<Rightarrow> mps_error + 'f mps_parser" and fx er
    unfolding outcome_bind by (rule outcomeI) simp_all
  have two: "(\<And>b. bounds_step i st b \<Longrightarrow> outcome any (bounds_step i st) (k b)) \<Longrightarrow> outcome any (bounds_step i st) r \<Longrightarrow>
      outcome any (bounds_step i st) (bind_ok r k)"
    for k and r :: "mps_error + 'f mps_parser"
    unfolding outcome_bind by (erule outcome_mono) auto
  show ?thesis
    unfolding read_bound_and_value_def Let_def
    by (cases bt) (auto simp del: outcome_bind intro!: bounds_step_refl one three num two)
qed

text \<open>A BOUNDS entry either is a comment or updates one variable, which is recorded.\<close>

lemma parse_bounds_step:
  fixes st :: "('f :: linordered_field) mps_parser"
  assumes "I st" "\<And>n. I st \<Longrightarrow> var_names_map st n = None \<Longrightarrow> I (add_bounds_variable n st)"
    and "\<And>a b i. I a \<Longrightarrow> bounds_step i a b \<Longrightarrow>
      I (b\<lparr>bounds_defined_for_var_id := insert i (bounds_defined_for_var_id b)\<rparr>)"
  shows "outcome any I (parse_bounds st line)"
proof -
  have entry: "outcome any I (bind_ok (read_bound_and_value a line t i e)
      (\<lambda>st. Inr (st\<lparr>bounds_defined_for_var_id := insert i (bounds_defined_for_var_id st)\<rparr>)))" if "I a" for a t i e
    unfolding outcome_bind by (rule outcome_mono [OF read_bound_step]) (use assms(3) [OF that] in auto)
  show ?thesis
    unfolding parse_bounds_def outcome_bind [where P = I]
    by (rule outcomeI)
      (use assms(1,2) entry in \<open>auto simp: Let_def simp del: outcome_bind split: option.split\<close>)
qed

lemma zero_cost_bounds_step:
  assumes "zero_cost nm a" "bounds_step i a b"
  shows "zero_cost nm (b\<lparr>bounds_defined_for_var_id := B\<rparr>)"
proof -
  have b: "b = a\<lparr>variable_lower_bounds := variable_lower_bounds b, variable_upper_bounds := variable_upper_bounds b,
              var_types := var_types b\<rparr>"
    using assms(2) by (simp add: bounds_step_def)
  show ?thesis by (subst b) (use assms(1) in \<open>simp add: zero_cost_def\<close>)
qed

interpretation zero_cost: line_invariant "zero_cost nm" for nm
proof unfold_locales
  fix st line
  show "zero_cost nm st \<Longrightarrow> outcome any (zero_cost nm) (parse_bounds st line)"
    by (rule parse_bounds_step) (auto simp: zero_cost_bounds_step, simp add: zero_cost_def add_bounds_variable_def)
qed (auto simp: zero_cost_def add_row_def add_column_def Let_def enter_section_def encounter_def begin_columns_def
    default_bounds_def begin_ranges_def)

subsection \<open>The bounds of variables without an entry\<close>

definition default_unless_defined :: "('f :: linordered_idom) mps_parser \<Rightarrow> bool" where
  "default_unless_defined st \<longleftrightarrow> length (variable_lower_bounds st) = length (variable_upper_bounds st) \<and>
     (\<forall>j<length (variable_upper_bounds st). j \<notin> bounds_defined_for_var_id st \<longrightarrow>
        variable_lower_bounds st ! j = 0 \<and> variable_upper_bounds st ! j = PInf)"

lemma default_bounds_step:
  assumes "default_unless_defined a" "bounds_step i a b"
  shows "default_unless_defined (b\<lparr>bounds_defined_for_var_id := insert i (bounds_defined_for_var_id b)\<rparr>)"
proof -
  have b: "b = a\<lparr>variable_lower_bounds := variable_lower_bounds b, variable_upper_bounds := variable_upper_bounds b,
              var_types := var_types b\<rparr>"
    using assms(2) by (simp add: bounds_step_def)
  have "bounds_defined_for_var_id b = bounds_defined_for_var_id a" by (subst b) simp
  then show ?thesis using assms by (auto simp: default_unless_defined_def bounds_step_def)
qed

interpretation default_bounds: line_invariant default_unless_defined
proof unfold_locales
  fix st :: "'a mps_parser" and line
  show "default_unless_defined st \<Longrightarrow> outcome any default_unless_defined (parse_bounds st line)"
    by (rule parse_bounds_step)
      (auto simp: default_bounds_step, simp add: default_unless_defined_def add_bounds_variable_def nth_append)
qed (auto simp: default_unless_defined_def add_row_def add_column_def Let_def enter_section_def encounter_def
    begin_columns_def default_bounds_def begin_ranges_def)

end
