(* ===== verification/Mps_Properties.thy ===== *)
theory Mps_Properties
  imports Mps_Lift
begin

text \<open>The properties of the MPS reader, with a small file for the witnesses.\<close>

definition ex_lines :: "string list" where
  "ex_lines = [''NAME good'', ''ROWS'', '' N COST'', '' L R1'', '' G R2'', ''COLUMNS'', '' X COST 2 R1 1'', '' Y R1 4 R2 1.5'',
    ''RHS'', '' RHS R1 8 R2 3'', ''RANGES'', '' RNG R1 2.5'', ''BOUNDS'', '' UP BND X -4'', ''ENDATA'']"

definition ex_file :: string where
  "ex_file = concat (map (\<lambda>l. l @ [NL]) ex_lines)"

lemma bounds_checkedD:
  assumes "bounds_checked st n st'" "length (variable_lower_bounds st) = n" "length (variable_upper_bounds st) = n"
  shows "\<exists>l u. st' = st\<lparr>variable_lower_bounds := l, variable_upper_bounds := u\<rparr> \<and> length l = n \<and> length u = n \<and>
    (\<forall>j<n. (l ! j, u ! j) = final_bounds st j \<and> l ! j \<le> u ! j)"
proof -
  obtain l u where "st' = st\<lparr>variable_lower_bounds := l, variable_upper_bounds := u\<rparr>" "length l = n" "length u = n"
    "\<forall>j<length u. (l ! j, u ! j) = (if j < n then final_bounds st j
       else (variable_lower_bounds st ! j, variable_upper_bounds st ! j))" "\<forall>j<n. l ! j \<le> u ! j"
    using assms(1) unfolding bounds_checked_def assms(2,3) by blast
  then show ?thesis by (intro exI [of _ l] exI [of _ u]) simp
qed

lemma finishedD:
  assumes "finished st st'" "mps_wf st"
  shows "mps_wf st'" "length (variable_lower_bounds st') = length (var_names st')"
    "length (variable_upper_bounds st') = length (var_names st')"
    "\<forall>j<length (var_names st'). variable_lower_bounds st' ! j \<le> variable_upper_bounds st' ! j"
    "row_names st' = row_names st" "row_types st' = row_types st" "ranges_values st' = ranges_values st"
    "b_values st' = b_values st" "A_indices st' = A_indices st" "c_values st' = c_values st" "''COLUMNS'' \<in> encountered_sections st"
    "objective_name st' = objective_name st"
proof -
  define st0 where "st0 = (if variable_upper_bounds st = [] then default_bounds st else st)"
  have same: "var_names st0 = var_names st" "row_names st0 = row_names st" "row_types st0 = row_types st"
    "ranges_values st0 = ranges_values st" "b_values st0 = b_values st" "A_indices st0 = A_indices st" "c_values st0 = c_values st"
    "objective_name st0 = objective_name st"
    by (simp_all add: st0_def default_bounds_def Let_def)
  have wf0: "mps_wf st0" using assms(2) wf_default_bounds [of st] by (simp add: st0_def)
  have f: "length (variable_lower_bounds st0) = length (var_names st)" "length (variable_upper_bounds st0) = length (var_names st)"
    "bounds_checked st0 (length (var_names st)) st'" "''COLUMNS'' \<in> encountered_sections st"
    using assms(1) by (simp_all add: finished_def Let_def flip: st0_def)
  from bounds_checkedD [OF f(3,1,2)] obtain l u where S: "st' = st0\<lparr>variable_lower_bounds := l, variable_upper_bounds := u\<rparr>"
    "length l = length (var_names st)" "length u = length (var_names st)"
    "\<forall>j<length (var_names st). (l ! j, u ! j) = final_bounds st0 j \<and> l ! j \<le> u ! j" by blast
  show "mps_wf st'"
    unfolding S(1) using wf0 S(2,3) f(1,2) by (auto simp: mps_wf_def one_section_def)
  show "length (variable_lower_bounds st') = length (var_names st')"
    "length (variable_upper_bounds st') = length (var_names st')"
    "\<forall>j<length (var_names st'). variable_lower_bounds st' ! j \<le> variable_upper_bounds st' ! j"
    "row_names st' = row_names st" "row_types st' = row_types st" "ranges_values st' = ranges_values st"
    "b_values st' = b_values st" "A_indices st' = A_indices st" "c_values st' = c_values st" "''COLUMNS'' \<in> encountered_sections st"
    "objective_name st' = objective_name st"
    using S f same by simp_all
qed

text \<open>What the reader returns, and the errors it can end with, in terms of the state after the last line.\<close>

definition read_result :: "string \<Rightarrow> bool \<Rightarrow> ('f :: linordered_field) mps_data_model \<Rightarrow> 'f mps_data_model \<Rightarrow> bool" where
  "read_result buf f M0 M \<longleftrightarrow> (\<exists>st st'. parse_lines (strtok_lines buf) (mps_parser_new f) = Inr st \<and> mps_wf st \<and> finished st st' \<and>
      M = model_of st' (dm_constraint_lower_bounds M) (dm_constraint_upper_bounds M) M0 \<and>
      length (row_types st') = length (b_values st') \<and> length (dm_constraint_lower_bounds M) = length (row_types st') \<and>
      length (dm_constraint_upper_bounds M) = length (row_types st') \<and>
      (\<forall>i<length (row_types st'). row_of st' i = Inr (dm_constraint_lower_bounds M ! i, dm_constraint_upper_bounds M ! i)))"

lemma parse_mps_outcome:
  fixes st0 :: "('f :: linordered_field) mps_parser"
  assumes E: "\<And>v. E (Validation v)" "\<And>e. defined e \<Longrightarrow> E e"
    and lines: "outcome E (\<lambda>st. \<forall>st' :: 'f mps_parser. finished st st' \<longrightarrow>
      (\<forall>i<length (row_types st'). \<forall>e. row_of st' i = Inl e \<longrightarrow> E e)) (parse_lines (strtok_lines buf) (mps_parser_new f))"
  shows "outcome E (read_result buf f (mps_data_model_new uninit)) (parse_mps uninit buf f :: mps_error + 'f mps_data_model)"
proof (cases "parse_lines (strtok_lines buf) (mps_parser_new f) :: mps_error + 'f mps_parser")
  case (Inl e)
  then show ?thesis using lines E by (simp add: parse_mps_def parse_string_def Let_def)
next
  case (Inr st)
  have wf: "mps_wf st" using parse_lines_wf [OF mps_wf_new, where 'a = 'f, of "strtok_lines buf" f] Inr by simp
  have "outcome E (read_result buf f (mps_data_model_new uninit))
      (bind_ok (finish_parse st) (\<lambda>st'. fill_problem st' (mps_data_model_new uninit)))"
    unfolding outcome_bind
  proof (rule outcome_mono [OF finish_parse_outcome [OF wf]])
    fix st' assume fin: "finished st st'"
    have rows: "\<forall>i<length (row_types st'). \<forall>e. row_of st' i = Inl e \<longrightarrow> E e" using lines Inr fin by simp
    show "outcome E (read_result buf f (mps_data_model_new uninit)) (fill_problem st' (mps_data_model_new uninit))"
      by (rule outcome_mono [OF fill_problem_outcome [OF finishedD(1) [OF fin wf] rows E(1)]])
        (use Inr wf fin in \<open>auto simp: read_result_def\<close>)
  qed (rule E(2))
  then show ?thesis using Inr E(1) by (simp add: parse_mps_def parse_string_def Let_def)
qed

lemma parse_mps_result:
  fixes M :: "('f :: linordered_field) mps_data_model"
  assumes "parse_mps uninit buf f = Inr M"
  shows "read_result buf f (mps_data_model_new uninit) M"
proof -
  have "outcome (\<lambda>_. True) (\<lambda>st. \<forall>st' :: 'f mps_parser. finished st st' \<longrightarrow>
      (\<forall>i<length (row_types st'). \<forall>e. row_of st' i = Inl e \<longrightarrow> True)) (parse_lines (strtok_lines buf) (mps_parser_new f))"
    by (rule outcomeI) simp_all
  from parse_mps_outcome [OF _ _ this, of uninit] show ?thesis using assms by simp
qed

lemma row_interval_no_nan: "row_interval t b r = Inr (l, u) \<Longrightarrow> l \<noteq> NaN \<and> u \<noteq> NaN"
  by (auto simp: row_interval_def bind_ok_Inr split: prod.splits)

lemma read_result_wf:
  assumes "read_result buf f M0 M"
  shows "model_wf M"
proof -
  from assms obtain st st' where R: "mps_wf st" "finished st st'"
    "M = model_of st' (dm_constraint_lower_bounds M) (dm_constraint_upper_bounds M) M0"
    "length (row_types st') = length (b_values st')" "length (dm_constraint_lower_bounds M) = length (row_types st')"
    "length (dm_constraint_upper_bounds M) = length (row_types st')"
    "\<forall>i<length (row_types st'). row_of st' i = Inr (dm_constraint_lower_bounds M ! i, dm_constraint_upper_bounds M ! i)"
    unfolding read_result_def by blast
  note fin = finishedD [OF R(2,1)]
  note len = mps_wf_lengths [OF fin(1)]
  have e: "entries_ok (length (var_names st')) (A_indices st') (A_values st')" using fin(1) by (simp add: mps_wf_def)
  have names: "distinct (row_names st')" "distinct (var_names st')"
    using fin(1) names_ok_distinct by (auto simp: mps_wf_def)
  have nan: "dm_constraint_lower_bounds M ! i \<noteq> NaN \<and> dm_constraint_upper_bounds M ! i \<noteq> NaN" if "i < length (row_types st')" for i
    using R(7) that row_interval_no_nan by (auto simp: row_of_def split: if_splits) blast+
  have s: "sorted (map (row_offset (A_indices st')) [0..<Suc (length (A_indices st'))])"
    using row_offset_mono by (auto simp: sorted_iff_nth_mono simp del: upt_Suc)
  define ls where "ls = dm_constraint_lower_bounds M"
  define us where "us = dm_constraint_upper_bounds M"
  have M: "M = model_of st' ls us M0" "length ls = length (row_types st')" "length us = length (row_types st')"
    using R(3,5,6) by (simp_all add: ls_def us_def)
  have "NaN \<notin> set ls" "NaN \<notin> set us" using nan M(2,3) by (auto simp: ls_def us_def in_set_conv_nth)
  moreover have "row_offset (A_indices st') (length (A_indices st')) = length (concat (A_values st'))"
    using entries_ok_concat(1) [OF e] by (simp add: row_offset_def)
  moreover define offs where "offs = map (row_offset (A_indices st')) [0..<Suc (length (A_indices st'))]"
  moreover have "length offs = length (A_indices st') + 1" "offs ! 0 = 0" "sorted offs" "last offs = length (concat (A_values st'))"
    using s entries_ok_concat(1) [OF e] len(4) by (auto simp: offs_def row_offset_def nth_append)
  ultimately show ?thesis
    unfolding M(1) model_wf_def model_of_def offs_def [symmetric]
    using M(2,3) R(4) fin(2-4) len names entries_ok_concat [OF e] by simp
qed

subsection \<open>Well-formed results\<close>

text \<open>C10. Every file that the reader accepts, in either format, yields a well-formed data model: the
  compressed rows have one offset more than constraints, ascending from 0 to the number of
  nonzeros, all column indices name variables, every vector has its size, names are distinct, the
  constraint bounds hold no NaN and each variable's interval is nonempty.\<close>

theorem parse_mps_wf:
  fixes M :: "('f :: linordered_field) mps_data_model"
  assumes "parse_mps uninit buf fixed_format = Inr M"
  shows "model_wf M"
proof -
  from parse_mps_result [OF assms] show ?thesis by (rule read_result_wf)
qed

definition ex_model :: "rat mps_data_model" where
  "ex_model = (mps_data_model_new False)
     \<lparr>dm_A := [Fin 1, Fin 4, Fin (3/2)], dm_A_indices := [0, 1, 1], dm_A_offsets := [0, 2, 3], dm_b := [Fin 8, Fin 3],
      dm_c := [Fin 2, Fin 0], dm_variable_lower_bounds := [MInf, Fin 0], dm_variable_upper_bounds := [Fin (-4), PInf],
      dm_var_types := ''CC'', dm_constraint_lower_bounds := [Fin (11/2), Fin 3], dm_constraint_upper_bounds := [Fin 8, PInf],
      dm_objective_name := ''COST'', dm_problem_name := ''good'', dm_var_names := [''X'', ''Y''], dm_row_names := [''R1'', ''R2''],
      dm_n_vars := 2, dm_n_constraints := 2\<rparr>"

lemma ex_file_parse: "parse_mps False ex_file False = Inr ex_model"
  by code_simp

theorem parse_mps_wf_witness: "model_wf ex_model"
  by (rule parse_mps_wf [OF ex_file_parse])

subsection \<open>No undefined behaviour\<close>




subsection \<open>The objective named by OBJNAME\<close>

definition word :: "string \<Rightarrow> bool" where
  "word w \<longleftrightarrow> w \<noteq> [] \<and> list_all (\<lambda>c. \<not> is_space c) w"

lemma word_hd: "word w \<Longrightarrow> w \<noteq> [] \<and> \<not> is_space (hd w)"
  by (cases w) (auto simp: word_def)

lemma takeWhile_word: "word w \<Longrightarrow> takeWhile (\<lambda>c. \<not> is_space c) w = w" "word w \<Longrightarrow> dropWhile (\<lambda>c. \<not> is_space c) w = []"
  by (auto simp: word_def list_all_iff takeWhile_eq_all_conv)

lemma next_word_word: "word w \<Longrightarrow> next_word w = (Some w, [])" "word w \<Longrightarrow> next_word (CHR '' '' # w) = (Some w, [])"
proof -
  assume w: "word w"
  then have d: "dropWhile is_space w = w" using word_hd [of w] by (cases w) auto
  have b: "is_space (CHR '' '')" by (simp add: is_space_def BLANK_def)
  show "next_word w = (Some w, [])" "next_word (CHR '' '' # w) = (Some w, [])"
    using w by (simp_all add: next_word_def d b takeWhile_word word_hd)
qed

lemma objname_header:
  assumes w: "word nm" and a: "\<not> list_all (\<lambda>c. \<not> is_alpha c) nm"
  shows "parse_line (mps_parser_new False) (''OBJNAME '' @ nm) =
    Inr ((encounter ''OBJNAME'' (mps_parser_new False))\<lparr>objective_name := nm\<rparr>, False)"
proof -
  have "next_word (''OBJNAME '' @ nm) = (Some ''OBJNAME'', CHR '' '' # nm)"
    by (simp add: next_word_def is_space_def BLANK_def TAB_def NL_def CR_def)
  then have "word_after ''OBJNAME'' (''OBJNAME '' @ nm) = nm"
    by (simp add: word_after_def next_word_word(2) [OF w])
  then show ?thesis
    using a by (simp add: parse_line_def ignored_line_def parse_header_def parse_objname_def expects_def Let_def
        BLANK_def NL_def CR_def mps_parser_new_def encounter_def)
qed

text \<open>A row that OBJNAME has declared to be the objective is treated as an ignored objective when ROWS
  lists it: whatever follows in the file, every objective coefficient of the result is 0.\<close>

theorem objname_objective_dropped:
  fixes M :: "('f :: linordered_field) mps_data_model"
  assumes lines: "strtok_lines buf = (''OBJNAME '' @ nm) # ''ROWS'' # ('' N '' @ nm) # rest"
    and nm: "word nm" "\<not> list_all (\<lambda>c. \<not> is_alpha c) nm"
    and parse: "parse_mps uninit buf False = Inr M"
  shows "dm_objective_name M = nm \<and> set (dm_c M) \<subseteq> {0}"
proof -
  let ?st1 = "(encounter ''OBJNAME'' (mps_parser_new False))\<lparr>objective_name := nm\<rparr> :: 'f mps_parser"
  let ?st2 = "enter_section In_Rows (encounter ''ROWS'' ?st1)"
  let ?st3 = "?st2\<lparr>ignored_objective_names := {nm}\<rparr>"
  have ne: "nm \<noteq> []" using nm(1) by (simp add: word_def)
  have 2: "parse_line ?st1 ''ROWS'' = Inr (?st2, False)"
    by (simp add: parse_line_def ignored_line_def parse_header_def BLANK_def NL_def CR_def)
  have "next_char ('' N '' @ nm) = (Some (CHR ''N''), CHR '' '' # nm)"
    by (simp add: next_char_def is_space_def BLANK_def TAB_def NL_def CR_def)
  then have 3: "parse_line ?st2 ('' N '' @ nm) = Inr (?st3, False)"
    using ne by (simp add: parse_line_def ignored_line_def parse_entry_def parse_rows_def next_word_word(2) [OF nm(1)]
        row_type_of_char_def BLANK_def NL_def CR_def enter_section_def encounter_def mps_parser_new_def)
  have z: "zero_cost nm ?st3" using ne by (simp add: zero_cost_def mps_parser_new_def encounter_def enter_section_def)
  have P: "parse_lines (strtok_lines buf) (mps_parser_new False) = parse_lines rest ?st3"
    using objname_header [OF nm, where 'a = 'f] 2 3 by (simp add: lines)
  from parse_mps_result [OF parse] have "read_result buf False (mps_data_model_new uninit) M" .
  then obtain st st' ls us M0 where R: "parse_lines (strtok_lines buf) (mps_parser_new False) = Inr st" "mps_wf st"
    "finished st st'" "M = model_of st' ls us M0" unfolding read_result_def by blast
  have "zero_cost nm st" using zero_cost.lines [of nm ?st3 rest] z R(1) P by simp
  then show ?thesis using finishedD(10,12) [OF R(3,2)] by (simp add: R(4) model_of_def zero_cost_def)
qed

definition ex_objname :: string where
  "ex_objname = concat (map (\<lambda>l. l @ [NL]) [''OBJNAME COST'', ''ROWS'', '' N COST'', '' L R1'', ''COLUMNS'', '' X COST 2 R1 1'',
    ''RHS'', '' RHS R1 8'', ''ENDATA''])"

theorem objname_objective_dropped_witness:
  "\<exists>M :: rat mps_data_model. parse_mps False ex_objname False = Inr M \<and> dm_c M = [Fin 0] \<and> set (dm_c M) \<subseteq> {0}"
proof -
  have "map_sum id dm_c (parse_mps False ex_objname False :: mps_error + rat mps_data_model) = Inr [Fin 0]" by code_simp
  then obtain M :: "rat mps_data_model" where M: "parse_mps False ex_objname False = Inr M" "dm_c M = [Fin 0]"
    by (cases "parse_mps False ex_objname False :: mps_error + rat mps_data_model") auto
  have "strtok_lines ex_objname = (''OBJNAME '' @ ''COST'') # ''ROWS'' # ('' N '' @ ''COST'') #
      ['' L R1'', ''COLUMNS'', '' X COST 2 R1 1'', ''RHS'', '' RHS R1 8'', ''ENDATA'']" by code_simp
  moreover have "word ''COST''" "\<not> list_all (\<lambda>c. \<not> is_alpha c) ''COST''" by code_simp+
  ultimately show ?thesis using objname_objective_dropped [OF _ _ _ M(1)] M by blast
qed

subsection \<open>Default bounds\<close>

text \<open>A variable without an entry in BOUNDS has the bounds 0 and infinity, or 0 and 1 when it was
  declared between the integer markers, also when BOUNDS is missing or given twice.\<close>

theorem default_variable_bounds:
  fixes M :: "('f :: linordered_field) mps_data_model" and st :: "'f mps_parser"
  assumes lines: "parse_lines (strtok_lines buf) (mps_parser_new fixed_format) = Inr st"
    and parse: "parse_mps uninit buf fixed_format = Inr M"
    and j: "j < dm_n_vars M" "j \<notin> bounds_defined_for_var_id st"
  shows "dm_variable_lower_bounds M ! j = 0 \<and>
    dm_variable_upper_bounds M ! j = (if dm_var_types M ! j = CHR ''I'' then 1 else PInf)"
proof -
  from parse_mps_result [OF parse] lines obtain st' ls us M0 where R: "mps_wf st" "finished st st'" "M = model_of st' ls us M0"
    unfolding read_result_def by auto
  define st0 where "st0 = (if variable_upper_bounds st = [] then default_bounds st else st)"
  have "default_unless_defined (mps_parser_new fixed_format :: 'f mps_parser)" by (simp add: default_unless_defined_def mps_parser_new_def)
  from default_bounds.lines [OF this, of "strtok_lines buf"] have d: "default_unless_defined st" by (simp add: lines)
  then have d0: "default_unless_defined st0" using default_bounds.sections(4) [OF d] by (simp add: st0_def)
  have same: "var_names st0 = var_names st" "var_types st0 = var_types st" "c_values st0 = c_values st"
    "bounds_defined_for_var_id st0 = bounds_defined_for_var_id st"
    by (simp_all add: st0_def default_bounds_def Let_def)
  have f: "length (variable_lower_bounds st0) = length (var_names st)" "length (variable_upper_bounds st0) = length (var_names st)"
    "bounds_checked st0 (length (var_names st)) st'"
    using R(2) by (simp_all add: finished_def Let_def flip: st0_def)
  from bounds_checkedD [OF f(3,1,2)] obtain l u where S: "st' = st0\<lparr>variable_lower_bounds := l, variable_upper_bounds := u\<rparr>"
    "\<forall>j<length (var_names st). (l ! j, u ! j) = final_bounds st0 j" by blast
  have "j < length (var_names st)" using j(1) mps_wf_lengths(3) [OF R(1)] by (simp add: R(3) model_of_def S(1) same)
  then have "(l ! j, u ! j) = final_bounds st0 j" "variable_lower_bounds st0 ! j = 0" "variable_upper_bounds st0 ! j = PInf"
    using S(2) d0 j(2) f(2) by (auto simp: default_unless_defined_def same)
  then show ?thesis
    using j(2) by (auto simp: R(3) model_of_def S(1) final_bounds_def unbounded_integer_def same split: if_splits)
qed

theorem default_variable_bounds_witness: "dm_variable_upper_bounds ex_model ! 1 = PInf \<and> dm_variable_lower_bounds ex_model ! 1 = 0"
proof -
  obtain st :: "rat mps_parser" where st: "parse_lines (strtok_lines ex_file) (mps_parser_new False) = Inr st"
    using ex_file_parse by (auto simp: parse_mps_def parse_string_def Let_def bind_ok_Inr)
  have "map_sum id (\<lambda>st. 1 \<in> bounds_defined_for_var_id st) (parse_lines (strtok_lines ex_file) (mps_parser_new False) :: mps_error + rat mps_parser)
    = Inr False" by code_simp
  then have "1 \<notin> bounds_defined_for_var_id st" by (simp add: st)
  moreover have "1 < dm_n_vars ex_model" "dm_var_types ex_model ! 1 = CHR ''C''" by code_simp+
  ultimately show ?thesis using default_variable_bounds [OF st ex_file_parse, of 1] by simp
qed

end
