(* ===== verification/Mps_Entries.thy ===== *)
theory Mps_Entries
  imports Mps_Properties
begin

text \<open>
  The free format: an entry line is a sequence of words, each preceded by blanks or tabs (none are needed
  before the first), and may end in further white space, such as the carriage return of a DOS file.
  \<open>get_next_string\<close> returns the words in order, so that a COLUMNS line adds exactly the entries it writes.
\<close>

text \<open>The fields of a line are pairs of a separator and a word; \<open>trail\<close> is what follows the last word.\<close>

definition entry_line :: "(string \<times> string) list \<Rightarrow> string \<Rightarrow> string" where
  "entry_line fs trail = concat (map (\<lambda>(s, w). s @ w) fs) @ trail"

definition good_fields :: "(string \<times> string) list \<Rightarrow> string \<Rightarrow> bool" where
  "good_fields fs trail \<longleftrightarrow> (\<forall>(s, w)\<in>set fs. set s \<subseteq> {BLANK, TAB} \<and> word w) \<and> (\<forall>(s, w)\<in>set (tl fs). s \<noteq> []) \<and>
     set trail \<subseteq> {BLANK, TAB, CR}"

abbreviation fields_text :: "(string \<times> string) list \<Rightarrow> string" where "fields_text fs \<equiv> entry_line fs []"

abbreviation spaced :: "string list \<Rightarrow> (string \<times> string) list" where "spaced ws \<equiv> map (\<lambda>w. ([BLANK], w)) ws"

definition token_start :: "(string \<times> string) list \<Rightarrow> nat \<Rightarrow> int" where
  "token_start fs k = int (length (fields_text (take k fs)))"

lemma entry_line_simps [simp]: "entry_line [] trail = trail" "entry_line ((s, w) # fs) trail = s @ w @ entry_line fs trail"
  "entry_line (fs @ gs) trail = fields_text fs @ entry_line gs trail"
  by (simp_all add: entry_line_def)

lemma entry_line_trail: "entry_line fs trail = fields_text fs @ trail"
  by (simp add: entry_line_def)

text \<open>The position after the last token read: \<open>npos\<close> at the end of the line.\<close>

definition token_end :: "(string \<times> string) list \<Rightarrow> string \<Rightarrow> nat \<Rightarrow> int" where
  "token_end fs trail k = (if k < length fs \<or> trail \<noteq> [] then token_start fs k else -1)"

lemma is_space_blank [simp]: "is_space BLANK" "is_space TAB" "is_space NL" "is_space CR"
  by (simp_all add: is_space_def)

lemma word_chars: "word w \<Longrightarrow> c \<in> set w \<Longrightarrow> c \<noteq> BLANK \<and> c \<noteq> TAB \<and> c \<noteq> NL \<and> c \<noteq> CR"
  unfolding word_def list_all_iff using is_space_blank by metis

lemma find_from_app:
  assumes "\<forall>c\<in>set w. \<not> p c" "rest = [] \<or> p (hd rest)"
  shows "find_from p (pre @ w @ rest) (int (length pre)) = (if rest = [] then -1 else int (length pre + length w))"
proof -
  have "takeWhile (\<lambda>c. \<not> p c) (w @ rest) = w" using assms by (cases rest) (auto simp: takeWhile_append)
  then show ?thesis by (simp add: find_from_def)
qed

lemma get_next_string_token:
  assumes "word w" "set s \<subseteq> {BLANK, TAB}" "rest = [] \<or> hd rest \<in> {BLANK, TAB, NL, CR}"
  shows "get_next_string (pre @ s @ w @ rest) (int (length pre)) =
    (w, int (length pre + length s), if rest = [] then -1 else int (length pre + length s + length w))"
proof -
  have w: "w \<noteq> []" "\<forall>c\<in>set w. c \<noteq> BLANK \<and> c \<noteq> TAB \<and> c \<noteq> NL \<and> c \<noteq> CR"
    using assms(1) word_chars by (auto simp: word_def)
  have 1: "find_first_not_of [BLANK, TAB] (pre @ s @ w @ rest) (int (length pre)) = int (length pre + length s)"
  proof -
    have "w @ rest \<noteq> []" "hd (w @ rest) \<notin> set [BLANK, TAB]" using w by (cases w; simp)+
    moreover have "\<forall>c\<in>set s. \<not> c \<notin> set [BLANK, TAB]" using assms(2) by auto
    ultimately show ?thesis
      using find_from_app [of s "\<lambda>c. c \<notin> set [BLANK, TAB]" "w @ rest" pre] by (simp add: find_first_not_of_def)
  qed
  have 2: "find_first_of [BLANK, TAB, NL, CR] (pre @ s @ w @ rest) (int (length pre + length s))
      = (if rest = [] then -1 else int (length pre + length s + length w))"
  proof -
    have "\<forall>c\<in>set w. c \<notin> set [BLANK, TAB, NL, CR]" "rest = [] \<or> hd rest \<in> set [BLANK, TAB, NL, CR]" using w(2) assms(3) by auto
    from find_from_app [where p = "\<lambda>c. c \<in> set [BLANK, TAB, NL, CR]", of w rest "pre @ s"] this
    show ?thesis by (simp add: find_first_of_def)
  qed
  show ?thesis
    unfolding get_next_string_def Let_def 1 2 nat_int by simp
qed

lemma good_fields_split:
  assumes "good_fields fs trail" "k < length fs"
  shows "set (fst (fs ! k)) \<subseteq> {BLANK, TAB}" "word (snd (fs ! k))" "0 < k \<Longrightarrow> fst (fs ! k) \<noteq> []"
    "entry_line (drop (Suc k) fs) trail = [] \<or> hd (entry_line (drop (Suc k) fs) trail) \<in> {BLANK, TAB, NL, CR}"
proof -
  obtain s w where sw: "fs ! k = (s, w)" by (rule prod.exhaust)
  have in_fs: "(s, w) \<in> set fs" using assms(2) sw by (metis nth_mem)
  then show "set (fst (fs ! k)) \<subseteq> {BLANK, TAB}" "word (snd (fs ! k))" using assms(1) sw by (auto simp: good_fields_def)
  show "fst (fs ! k) \<noteq> []" if "0 < k"
  proof -
    have "tl fs ! (k - 1) = (s, w)" "k - 1 < length (tl fs)" using that assms(2) sw by (simp_all add: nth_tl)
    then have "(s, w) \<in> set (tl fs)" by (metis nth_mem)
    then show ?thesis using assms(1) sw by (auto simp: good_fields_def)
  qed
  show "entry_line (drop (Suc k) fs) trail = [] \<or> hd (entry_line (drop (Suc k) fs) trail) \<in> {BLANK, TAB, NL, CR}"
  proof (cases "drop (Suc k) fs")
    case Nil
    then show ?thesis using assms(1) by (cases trail) (auto simp: good_fields_def)
  next
    case (Cons f gs)
    then obtain s' w' where f: "f = (s', w')" "(s', w') \<in> set (drop (Suc k) fs)" by (cases f) auto
    then have "(s', w') \<in> set (tl fs)" by (metis drop_Suc in_set_dropD)
    then have "s' \<noteq> []" using assms(1) by (auto simp: good_fields_def)
    moreover have "set s' \<subseteq> {BLANK, TAB}" using assms(1) in_set_dropD [OF f(2)] by (auto simp: good_fields_def)
    ultimately show ?thesis using Cons f(1) by (cases s') auto
  qed
qed

lemma fields_split: "k < length fs \<Longrightarrow> entry_line fs trail = fields_text (take k fs) @ fst (fs ! k) @ snd (fs ! k) @ entry_line (drop (Suc k) fs) trail"
  using arg_cong [OF id_take_nth_drop [of k fs], of "\<lambda>f. entry_line f trail"] by (cases "fs ! k") simp

lemma token_start_Suc: "k < length fs \<Longrightarrow> token_start fs (Suc k) = token_start fs k + int (length (fst (fs ! k)) + length (snd (fs ! k)))"
  by (cases "fs ! k") (simp add: token_start_def take_Suc_conv_app_nth)

lemma tokens:
  assumes "k < length fs" "good_fields fs trail"
  shows "\<exists>p. get_next_string (entry_line fs trail) (token_start fs k) = (snd (fs ! k), p, token_end fs trail (Suc k))"
proof -
  let ?pre = "fields_text (take k fs)" and ?rest = "entry_line (drop (Suc k) fs) trail"
  note g = good_fields_split [OF assms(2,1)]
  have "fields_text (drop (Suc k) fs) = [] \<longleftrightarrow> \<not> Suc k < length fs"
  proof (cases "Suc k < length fs")
    case True
    then have "word (snd (fs ! Suc k))" using good_fields_split(2) [OF assms(2)] by blast
    then show ?thesis using True Cons_nth_drop_Suc [OF True, symmetric] by (cases "fs ! Suc k") (simp add: word_def)
  qed simp
  then have e: "?rest = [] \<longleftrightarrow> \<not> (Suc k < length fs \<or> trail \<noteq> [])" by (auto simp: entry_line_trail [of _ trail])
  have l: "int (length ?pre + length (fst (fs ! k)) + length (snd (fs ! k))) = token_start fs (Suc k)"
    using token_start_Suc [OF assms(1)] by (simp add: token_start_def)
  from get_next_string_token [OF g(2,1,4), of ?pre] show ?thesis
    unfolding fields_split [OF assms(1), symmetric] e l by (auto simp: token_end_def token_start_def)
qed

lemma token_start_0 [simp]: "token_start fs 0 = 0"
  by (simp add: token_start_def)

lemma token_start_le: "k \<le> m \<Longrightarrow> m \<le> length fs \<Longrightarrow> token_start fs k \<le> token_start fs m"
  by (induction m) (auto simp: le_Suc_eq token_start_Suc)

text \<open>The last character that is not white space is that of the last word.\<close>

lemma last_char:
  assumes "fs \<noteq> []" "good_fields fs trail"
  shows "find_last_not_of [BLANK, CR, TAB, NL] (entry_line fs trail) = token_start fs (length fs) - 1"
proof -
  have n: "length fs - 1 < length fs" using assms(1) by simp
  have "word (snd (last fs))" using good_fields_split(2) [OF assms(2) n] assms(1) by (simp add: last_conv_nth)
  then obtain u c where u: "snd (last fs) = u @ [c]" "c \<notin> set [BLANK, CR, TAB, NL]"
    using word_chars [of "snd (last fs)"] by (cases "snd (last fs)" rule: rev_cases) (auto simp: word_def)
  have "fields_text fs = fields_text (butlast fs) @ fst (last fs) @ u @ [c]"
    using arg_cong [OF append_butlast_last_id [OF assms(1)], of fields_text] u(1) by (cases "last fs") simp
  then have "takeWhile (\<lambda>x. x \<in> set [BLANK, CR, TAB, NL]) (rev (fields_text fs)) = []" using u(2) by simp
  moreover have "takeWhile (\<lambda>x. x \<in> set [BLANK, CR, TAB, NL]) (rev trail) = rev trail"
    using assms(2) by (intro takeWhile_eq_all_conv [THEN iffD2]) (auto simp: good_fields_def)
  ultimately have "takeWhile (\<lambda>x. x \<in> set [BLANK, CR, TAB, NL]) (rev (entry_line fs trail)) = rev trail"
    unfolding entry_line_trail [of fs trail] rev_append by (simp add: takeWhile_append)
  then show ?thesis unfolding find_last_not_of_def by (simp add: token_start_def entry_line_trail [of fs trail])
qed

lemma more_tokens:
  assumes "0 < k" "k < length fs" "good_fields fs trail"
  shows "size_gt (find_last_not_of [BLANK, CR, TAB, NL] (entry_line fs trail)) (token_start fs k)"
proof -
  have ne: "fs \<noteq> []" using assms(2) by auto
  have "fst (fs ! k) \<noteq> []" "snd (fs ! k) \<noteq> []" using good_fields_split(2,3) [OF assms(3,2)] assms(1) by (auto simp: word_def)
  then have "2 \<le> length (fst (fs ! k)) + length (snd (fs ! k))" by (cases "fst (fs ! k)"; cases "snd (fs ! k)") auto
  then have "token_start fs k + 2 \<le> token_start fs (length fs)"
    using token_start_Suc [OF assms(2)] token_start_le [of "Suc k" "length fs" fs] assms(2) by simp
  then show ?thesis using last_char [OF ne assms(3)] by (simp add: size_gt_def token_start_def)
qed

lemma no_more_tokens:
  assumes "fs \<noteq> []" "good_fields fs trail"
  shows "\<not> size_gt (find_last_not_of [BLANK, CR, TAB, NL] (entry_line fs trail)) (token_end fs trail (length fs))"
proof -
  have "\<exists>n > 0. token_start fs (length fs) = int n"
  proof -
    have "0 < length fs" using assms(1) by simp
    moreover have "snd (fs ! 0) \<noteq> []" using good_fields_split(2) [OF assms(2) calculation] by (simp add: word_def)
    ultimately have "0 < token_start fs (length fs)" using token_start_Suc [of 0 fs] token_start_le [of 1 "length fs" fs]
      by (cases "snd (fs ! 0)") (simp_all add: Suc_le_eq)
    then show ?thesis by (intro exI [of _ "nat (token_start fs (length fs))"]) simp
  qed
  then show ?thesis using last_char [OF assms] by (auto simp: size_gt_def token_end_def)
qed

subsection \<open>COLUMNS lines\<close>

text \<open>The effect of the pairs (row, number) of a line on the state.\<close>

definition add_entry :: "nat \<Rightarrow> string \<Rightarrow> ('f :: linordered_field) ext \<Rightarrow> 'f mps_parser \<Rightarrow> 'f mps_parser" where
  "add_entry j r v st =
     (if r \<in> ignored_objective_names st then st
      else if r = objective_name st then st\<lparr>c_values := (c_values st)[j := v]\<rparr>
      else case row_names_map st r of None \<Rightarrow> st
        | Some i \<Rightarrow> st\<lparr>A_indices := (A_indices st)[i := A_indices st ! i @ [j]],
                       A_values := (A_values st)[i := A_values st ! i @ [v]]\<rparr>)"

definition known_row :: "'f mps_parser \<Rightarrow> string \<Rightarrow> bool" where
  "known_row st r \<longleftrightarrow> r \<in> ignored_objective_names st \<or> r = objective_name st \<or> row_names_map st r \<noteq> None"

lemma insert_add_entry:
  assumes wf: "mps_wf st" "inside_columns st" "j < length (var_names st)" and r: "known_row st r" and v: "stod num = Some v"
  shows "insert_row_name_and_value st r num j = Inr (add_entry j r v st)"
proof -
  have "i < length (A_indices st) \<and> i < length (A_values st)" if "row_names_map st r = Some i" for i
    using mps_wf_lookup(1) [OF wf(1) that] mps_wf_lengths(4,8) [OF wf(1)] wf(2) by simp
  moreover have "j < length (c_values st)" using mps_wf_lengths(3) [OF wf(1)] wf(3) by simp
  ultimately show ?thesis
    using r by (auto simp: insert_row_name_and_value_def add_entry_def known_row_def number_def v store_def split: option.split)
qed

lemma add_entry_frame:
  assumes "mps_wf st" "inside_columns st" "j < length (var_names st)"
  shows "mps_wf (add_entry j r v st)" "inside_columns (add_entry j r v st)" "var_names (add_entry j r v st) = var_names st"
    "known_row (add_entry j r v st) = known_row st" "fixed_mps_format (add_entry j r v st) = fixed_mps_format st"
proof -
  have "row_names_map st r = Some i \<Longrightarrow> i < length (A_indices st)" for i
    using mps_wf_lookup(1) [OF assms(1)] mps_wf_lengths(8) [OF assms(1,2)] by simp
  then show "mps_wf (add_entry j r v st)"
    using assms by (auto simp: add_entry_def intro!: mps_wf_resized mps_wf_push split: option.split)
qed (use assms in \<open>auto simp: add_entry_def known_row_def fun_eq_iff split: option.split\<close>)

lemma read_row_and_value_token:
  assumes wf: "mps_wf st" "inside_columns st" "j < length (var_names st)" and free: "\<not> fixed_mps_format st"
    and fs: "good_fields fs trail" "Suc k < length fs" and r: "known_row st (snd (fs ! k))" "hd (snd (fs ! k)) \<noteq> CHR ''$''"
    and v: "stod (snd (fs ! Suc k)) = Some v"
  shows "read_row_and_value st (entry_line fs trail) (token_start fs k) j =
    Inr (token_end fs trail (Suc (Suc k)), add_entry j (snd (fs ! k)) v st)"
proof -
  obtain p where p: "get_next_string (entry_line fs trail) (token_start fs k) = (snd (fs ! k), p, token_start fs (Suc k))"
    using tokens [of k fs trail] fs by (auto simp: token_end_def)
  obtain q where q: "get_next_string (entry_line fs trail) (token_start fs (Suc k)) = (snd (fs ! Suc k), q, token_end fs trail (Suc (Suc k)))"
    using tokens [of "Suc k" fs trail] fs by auto
  have "snd (fs ! k) \<noteq> []" using good_fields_split(2) [OF fs(1), of k] fs(2) by (simp add: word_def)
  then show ?thesis
    using r(2) free
    by (simp add: read_row_and_value_def parse_row_name_and_num_def p q dollar_def insert_add_entry [OF wf r(1) v])
qed

text \<open>The variable of a column line: new, or the one of the previous line.\<close>

definition open_column :: "string \<Rightarrow> ('f :: linordered_idom) mps_parser \<Rightarrow> 'f mps_parser" where
  "open_column v st = (if var_names st \<noteq> [] \<and> last (var_names st) = v then st
     else add_column v (if inside_intcapture st then CHR ''I'' else CHR ''C'') st)"

definition column_fits :: "string \<Rightarrow> 'f mps_parser \<Rightarrow> bool" where
  "column_fits v st \<longleftrightarrow> (var_names st \<noteq> [] \<and> last (var_names st) = v) \<or> var_names_map st v = None"

lemma parse_columns_pairs:
  fixes st :: "('f :: linordered_field) mps_parser"
  assumes wf: "mps_wf st" "inside_columns st" "\<not> fixed_mps_format st" and fits: "column_fits v st"
    and fs: "good_fields fs trail" "\<not> contains ([CHR 0x27] @ ''MARKER'' @ [CHR 0x27]) (entry_line fs trail)" and ws: "map snd fs = ws"
    and pair: "ws = [v, r, num] \<and> st' = add_entry (length (var_names (open_column v st)) - 1) r x (open_column v st)
      \<or> ws = [v, r, num, r2, num2] \<and> st' = add_entry (length (var_names (open_column v st)) - 1) r2 x2
           (add_entry (length (var_names (open_column v st)) - 1) r x (open_column v st))
        \<and> known_row st r2 \<and> hd r2 \<noteq> CHR ''$'' \<and> stod num2 = Some x2"
    and r: "known_row st r" "hd r \<noteq> CHR ''$''" "stod num = Some x"
  shows "parse_columns st (entry_line fs trail) = Inr st'"
proof -
  let ?l = "entry_line fs trail" and ?o = "open_column v st"
  let ?j = "length (var_names ?o) - 1"
  have ln: "length fs = length ws" using ws by auto
  have nth: "snd (fs ! k) = ws ! k" if "k < length ws" for k using that ws by auto
  have len: "length ws > 2" "ws ! 0 = v" "ws ! 1 = r" "ws ! 2 = num" using pair by auto
  obtain p where p: "get_next_string ?l 0 = (v, p, token_start fs 1)"
    using tokens [of 0 fs trail] fs(1) len ln nth [of 0] by (cases "ws = []") (auto simp: token_end_def)
  have t: "token_start fs k \<noteq> -1" for k by (simp add: token_start_def)
  have ne: "fs \<noteq> []" using len(1) ln by auto
  have name: "parse_column_var_name st ?l = Inr (token_start fs 1, ?o)"
    using fs(2) wf(3) fits
    by (auto simp: parse_column_var_name_def p Let_def open_column_def column_fits_def expects_def)
  have o: "mps_wf ?o" "inside_columns ?o" "\<not> fixed_mps_format ?o" "var_names ?o \<noteq> []" "known_row ?o = known_row st"
    using wf_add_column [OF wf(1) _ wf(2)] wf fits
    by (auto simp: open_column_def column_fits_def frame_def known_row_def fun_eq_iff add_column_def)
  have j: "?j < length (var_names ?o)" using o(4) by simp
  have 1: "read_row_and_value ?o ?l (token_start fs 1) ?j = Inr (token_end fs trail 3, add_entry ?j r x ?o)"
    using read_row_and_value_token [OF o(1,2) j o(3) fs(1), of 1 x] len r o(5) nth [of 1] nth [of 2] ln by (simp add: numeral_3_eq_3 numeral_2_eq_2)
  note a = add_entry_frame [OF o(1,2) j, of r x]
  show ?thesis
  proof (cases "length ws = 3")
    case True
    then have "\<not> size_gt (find_last_not_of [BLANK, CR, TAB, NL] ?l) (token_end fs trail 3)" using no_more_tokens [OF ne fs(1)] ln by simp
    moreover have "st' = add_entry ?j r x ?o" using pair True by auto
    ultimately show ?thesis using 1 t add_entry_frame(5) [OF o(1,2) j, of r x] o(3)
      by (simp add: parse_columns_def name parse_column_row_and_value_def Let_def)
  next
    case False
    then have ws5: "ws = [v, r, num, r2, num2]" and st': "st' = add_entry ?j r2 x2 (add_entry ?j r x ?o)"
      and r2: "known_row st r2" "hd r2 \<noteq> CHR ''$''" "stod num2 = Some x2" using pair by auto
    have e: "token_end fs trail 3 = token_start fs 3" by (simp add: token_end_def ws5 ln)
    have more: "size_gt (find_last_not_of [BLANK, CR, TAB, NL] ?l) (token_start fs 3)"
      using more_tokens [of 3 fs trail] fs(1) ws5 ln by simp
    have "snd (fs ! 3) = r2" "snd (fs ! 4) = num2" using nth [of 3] nth [of 4] ws5 by simp_all
    then have "read_row_and_value (add_entry ?j r x ?o) ?l (token_start fs 3) ?j = Inr (token_end fs trail 5, add_entry ?j r2 x2 (add_entry ?j r x ?o))"
      using read_row_and_value_token [OF a(1,2), of ?j fs trail 3 x2] j a(3,4,5) o(3,5) fs(1) r2 ln by (simp add: ws5)
    then show ?thesis
      using 1 e more t a(5) o(3) st' by (simp add: parse_columns_def name parse_column_row_and_value_def Let_def)
  qed
qed

text \<open>C32. In the free format, a COLUMNS line with a variable and one or two pairs of a known row and a
  number, however many blanks and tabs stand between its words and whatever white space ends it, adds
  these entries and nothing else: the variable is opened when it is new, and each pair is appended to
  its row, stored as the objective coefficient, or, for an objective row other than the first, skipped.\<close>

theorem parse_columns_entries:
  fixes st :: "('f :: linordered_field) mps_parser"
  assumes "mps_wf st" "inside_columns st" "\<not> fixed_mps_format st" "column_fits v st"
    and "good_fields fs trail" "\<not> contains ([CHR 0x27] @ ''MARKER'' @ [CHR 0x27]) (entry_line fs trail)"
    and "map snd fs = v # concat (map (\<lambda>(r, num). [r, num]) pairs)" "length pairs \<in> {1, 2}"
    and "\<forall>(r, num)\<in>set pairs. known_row st r \<and> hd r \<noteq> CHR ''$'' \<and> (stod num :: 'f ext option) \<noteq> None"
  shows "parse_columns st (entry_line fs trail) =
    Inr (fold (\<lambda>(r, num). add_entry (length (var_names (open_column v st)) - 1) r (the (stod num))) pairs (open_column v st))"
proof -
  consider r num where "pairs = [(r, num)]" | r num r2 num2 where "pairs = [(r, num), (r2, num2)]"
    using assms(8) by (auto simp: numeral_2_eq_2 length_Suc_conv)
  then show ?thesis
  proof cases
    case (1 r num)
    then show ?thesis
      using assms(9) by (intro parse_columns_pairs [where num = num and r = r and x = "the (stod num)", OF assms(1-7)])
        auto
  next
    case (2 r num r2 num2)
    then show ?thesis
      using assms(9) by (intro parse_columns_pairs [where num = num and r = r and x = "the (stod num)" and ?num2.0 = num2
            and ?r2.0 = r2 and ?x2.0 = "the (stod num2)", OF assms(1-7)])
        auto
  qed
qed

definition ex_state :: "rat mps_parser" where
  "ex_state = begin_columns (enter_section In_Columns (add_row ''R2'' GreaterThanOrEqual
     (add_row ''R1'' LesserThanOrEqual ((mps_parser_new False)\<lparr>objective_name := ''COST'', inside_rows := True\<rparr>))))"

lemma ex_state_wf: "mps_wf ex_state"
proof -
  let ?s = "(mps_parser_new False)\<lparr>objective_name := ''COST'', inside_rows := True\<rparr> :: rat mps_parser"
  have 0: "mps_wf ?s" by (simp add: mps_wf_def mps_parser_new_def names_ok_def entries_ok_def one_section_def)
  have 1: "mps_wf (add_row ''R1'' LesserThanOrEqual ?s)"
    using wf_add_row [OF 0, of "''R1''" LesserThanOrEqual] by (simp add: mps_parser_new_def)
  have "mps_wf (add_row ''R2'' GreaterThanOrEqual (add_row ''R1'' LesserThanOrEqual ?s))"
    using wf_add_row [OF 1, of "''R2''" GreaterThanOrEqual] by (simp add: mps_parser_new_def add_row_def insert_name_def)
  then show ?thesis unfolding ex_state_def by (rule wf_begin_columns)
qed

text \<open>With two blanks, tabs, and a carriage return at the end.\<close>

definition ex_fields :: "(string \<times> string) list" where
  "ex_fields = [([BLANK, BLANK], ''X''), ([TAB], ''COST''), ([BLANK], ''2''), ([BLANK, TAB, BLANK], ''R2''), ([BLANK], ''1.5'')]"

theorem parse_columns_entries_witness:
  "map_sum id A_values (parse_columns ex_state (''  X'' @ [TAB] @ ''COST 2 '' @ [TAB] @ '' R2 1.5 '' @ [CR])) = Inr [[], [Fin (3/2)]]"
proof -
  have "inside_columns ex_state" "\<not> fixed_mps_format ex_state" "column_fits ''X'' ex_state" "good_fields ex_fields [BLANK, CR]"
    "\<not> contains ([CHR 0x27] @ ''MARKER'' @ [CHR 0x27]) (entry_line ex_fields [BLANK, CR])"
    "map snd ex_fields = ''X'' # concat (map (\<lambda>(r, num). [r, num]) [(''COST'', ''2''), (''R2'', ''1.5'')])"
    "length [(''COST'', ''2''), (''R2'', ''1.5'')] \<in> {1, 2 :: nat}"
    "\<forall>(r, num)\<in>set [(''COST'', ''2''), (''R2'', ''1.5'')]. known_row ex_state r \<and> hd r \<noteq> CHR ''$'' \<and> (stod num :: rat ext option) \<noteq> None"
    by code_simp+
  from parse_columns_entries [OF ex_state_wf this]
  have "parse_columns ex_state (entry_line ex_fields [BLANK, CR]) = Inr (fold (\<lambda>(r, num). add_entry (length (var_names (open_column ''X'' ex_state)) - 1) r (the (stod num)))
      [(''COST'', ''2''), (''R2'', ''1.5'')] (open_column ''X'' ex_state))" .
  moreover have "entry_line ex_fields [BLANK, CR] = ''  X'' @ [TAB] @ ''COST 2 '' @ [TAB] @ '' R2 1.5 '' @ [CR]" by code_simp
  moreover have "A_values (fold (\<lambda>(r, num). add_entry (length (var_names (open_column ''X'' ex_state)) - 1) r (the (stod num)))
      [(''COST'', ''2''), (''R2'', ''1.5'')] (open_column ''X'' ex_state)) = [[], [Fin (3/2)]]" by code_simp
  ultimately show ?thesis by simp
qed

subsection \<open>A carriage return after a RANGES entry\<close>

text \<open>A RANGES line of the free format that ends in a blank and a carriage return is rejected although its
  row and its number are good: the test for a second pair does not count the carriage return as
  white space (those of COLUMNS and RHS do), and the pair that is then read has no number.\<close>

theorem ranges_carriage_return_rejected:
  fixes st :: "('f :: linordered_field) mps_parser"
  assumes wf: "mps_wf st" "inside_ranges st" "\<not> fixed_mps_format st"
    and ws: "word rng" "word r" "word num" "row_names_map st r = Some i" "hd r \<noteq> CHR ''$''" "stod num = Some (v :: 'f ext)"
  shows "parse_ranges st (entry_line (spaced [rng, r, num]) [BLANK, CR]) = Inl (Validation Bad_Value_Ranges)"
proof -
  define l where "l = entry_line (spaced [rng, r, num]) [BLANK, CR]"
  define e1 where "e1 = int (1 + length rng)"
  define e2 where "e2 = int (2 + length rng + length r)"
  define e3 where "e3 = int (3 + length rng + length r + length num)"
  have ls: "l = [] @ BLANK # rng @ (BLANK # r @ BLANK # num @ [BLANK, CR])"
    "l = (BLANK # rng) @ BLANK # r @ (BLANK # num @ [BLANK, CR])"
    "l = (BLANK # rng @ BLANK # r) @ BLANK # num @ [BLANK, CR]" by (simp_all add: l_def)
  have chars: "word w \<Longrightarrow> w \<noteq> [] \<and> (\<forall>c\<in>set w. c \<notin> set [BLANK, TAB])" for w
    using word_chars [of w] by (auto simp: word_def)
  have p: "find_first_not_of [BLANK, TAB] l 0 = 1"
    using find_from_app [of "[BLANK]" "\<lambda>c. c \<notin> set [BLANK, TAB]" "rng @ BLANK # r @ BLANK # num @ [BLANK, CR]" "[]"] chars [OF ws(1)]
    by (cases rng) (simp_all add: find_first_not_of_def l_def)
  have q: "find_first_of [BLANK, TAB] l 1 = e1"
    using find_from_app [where p = "\<lambda>c. c \<in> set [BLANK, TAB]", of rng "BLANK # r @ BLANK # num @ [BLANK, CR]" "[BLANK]"] chars [OF ws(1)]
    by (simp add: find_first_of_def l_def e1_def)
  have g1: "get_next_string l e1 = (r, e1 + 1, e2)"
    using get_next_string_token [OF ws(2), of "[BLANK]" "BLANK # num @ [BLANK, CR]" "BLANK # rng"] by (simp add: ls(2) e1_def e2_def)
  have g2: "get_next_string l e2 = (num, e2 + 1, e3)"
    using get_next_string_token [OF ws(3), of "[BLANK]" "[BLANK, CR]" "BLANK # rng @ BLANK # r"] by (simp add: ls(3) e2_def e3_def)
  have i: "i < length (ranges_values st)" using mps_wf_lookup(1) [OF wf(1) ws(4)] mps_wf_lengths(10) [OF wf(1,2)] by simp
  have one: "insert_range_value st l True = Inr (e3, st\<lparr>ranges_values := (ranges_values st)[i := v]\<rparr>)"
    using wf(3) ws(4-6) i
    by (simp add: insert_range_value_def p q g1 g2 dollar_def get_numerical_bound_def number_def store_def)
  have last: "find_last_not_of [BLANK, TAB] l = e3 + 1"
    by (simp add: find_last_not_of_def l_def e3_def BLANK_def TAB_def CR_def)
  have rest: "drop (nat e3) l = [BLANK, CR]"
  proof -
    have "nat e3 = length (BLANK # rng @ BLANK # r @ BLANK # num)" by (simp add: e3_def)
    moreover have "l = (BLANK # rng @ BLANK # r @ BLANK # num) @ [BLANK, CR]" by (simp add: l_def)
    ultimately show ?thesis by (metis append_eq_conv_conj)
  qed
  have "e3 \<noteq> -1" by (simp add: e3_def)
  have none: "stod [] = (None :: 'f ext option)" by code_simp
  have g3: "get_next_string [BLANK, CR] 1 = ([], 1, 1)" "find_first_not_of [BLANK, TAB] [BLANK, CR] 0 = 1" by code_simp+
  have two: "insert_range_value (st\<lparr>ranges_values := xs\<rparr>) [BLANK, CR] False = Inl (Validation Bad_Value_Ranges)" for xs
    using wf(3) by (simp add: insert_range_value_def g3 dollar_def get_numerical_bound_def number_def none)
  show ?thesis
    unfolding l_def [symmetric]
    using wf(3) \<open>e3 \<noteq> -1\<close> by (simp add: parse_ranges_def expects_def one last rest two size_gt_def)
qed

theorem ranges_carriage_return_rejected_witness:
  "parse_ranges (begin_ranges (enter_section In_Ranges ex_state)) ('' RNG R1 4 '' @ [CR]) = Inl (Validation Bad_Value_Ranges)
   \<and> map_sum id ranges_values (parse_ranges (begin_ranges (enter_section In_Ranges ex_state)) ('' RNG R1 4'' @ [CR])) = Inr [Fin 4, PInf]"
proof -
  let ?s = "begin_ranges (enter_section In_Ranges ex_state)"
  have "inside_ranges ?s" "\<not> fixed_mps_format ?s" "word ''RNG''" "word ''R1''" "word ''4''" "row_names_map ?s ''R1'' = Some 0"
    "hd ''R1'' \<noteq> CHR ''$''" "stod ''4'' = Some (Fin (4 :: rat))" by code_simp+
  from ranges_carriage_return_rejected [OF wf_begin_ranges [OF ex_state_wf] this]
  have "parse_ranges ?s (entry_line (spaced [''RNG'', ''R1'', ''4'']) [BLANK, CR]) = Inl (Validation Bad_Value_Ranges)" .
  moreover have "entry_line (spaced [''RNG'', ''R1'', ''4'']) [BLANK, CR] = '' RNG R1 4 '' @ [CR]" by code_simp
  moreover have "map_sum id ranges_values (parse_ranges ?s ('' RNG R1 4'' @ [CR])) = Inr [Fin 4, PInf]" by code_simp
  ultimately show ?thesis by simp
qed

end
