(* ===== verification/Mip_Node.thy ===== *)
theory Mip_Node
  imports Lp_Crush
begin

text \<open>
  The branch-and-bound tree (\<open>mip_node.hpp\<close>, \<open>mip_node.cpp\<close>). Nodes live in a store from pointers to
  records; the pointer of a node is its \<open>node_id\<close>, which the search never reuses, and a freed node is
  absent from the store. The operations return \<open>None\<close> when they dereference a null or dangling
  pointer, index a vector out of its range, or follow a chain of pointers that does not end. The fields
  that the root constructor leaves uninitialised are a parameter. Debug output (\<open>traverse_children\<close>)
  is not modelled.
\<close>

subsection \<open>Data\<close>

datatype node_status = ACTIVE | IN_PROGRESS | INTEGER_FEASIBLE | INFEASIBLE | FATHOMED

datatype variable_status = BASIC | NONBASIC_LOWER | NONBASIC_UPPER | NONBASIC_FREE | NONBASIC_FIXED | SUPERBASIC

type_synonym ptr = nat

record 'f mip_node =
  status :: node_status
  lower_bound :: "'f ext"
  depth :: nat
  node_id :: nat
  branch_var :: int
  branch_dir :: int
  branch_var_lower :: "'f ext"
  branch_var_upper :: "'f ext"
  fractional_val :: 'f
  parent :: "ptr option"
  child0 :: "ptr option"
  child1 :: "ptr option"
  vstatus :: "variable_status list"

type_synonym 'f tree = "ptr \<Rightarrow> 'f mip_node option"

definition inactive_status :: "node_status \<Rightarrow> bool" where
  "inactive_status s \<longleftrightarrow> s = FATHOMED \<or> s = INTEGER_FEASIBLE \<or> s = INFEASIBLE"

definition mip_node_root :: "'f ext \<times> 'f ext \<times> 'f \<Rightarrow> 'f ext \<Rightarrow> variable_status list \<Rightarrow> 'f mip_node" where
  "mip_node_root uninit root_lower_bound basis =
     \<lparr>status = ACTIVE, lower_bound = root_lower_bound, depth = 0, node_id = 0, branch_var = -1, branch_dir = -1,
      branch_var_lower = fst uninit, branch_var_upper = fst (snd uninit), fractional_val = snd (snd uninit),
      parent = None, child0 = None, child1 = None, vstatus = basis\<rparr>"

text \<open>The constructor of a child reads the parent's bound and depth, and the bounds of the branching variable.\<close>

definition mip_node_child ::
  "'f lp_problem \<Rightarrow> 'f tree \<Rightarrow> ptr \<Rightarrow> nat \<Rightarrow> int \<Rightarrow> int \<Rightarrow> 'f \<Rightarrow> variable_status list \<Rightarrow> ('f :: floor_ceiling) mip_node option" where
  "mip_node_child P t parent_node node_num branch_variable branch_direction branch_var_value basis =
     (case t parent_node of None \<Rightarrow> None
      | Some pn \<Rightarrow>
         if branch_variable < 0 \<or> nat branch_variable \<ge> length (if branch_direction = 0 then lower P else upper P) then None
         else Some
           \<lparr>status = ACTIVE, lower_bound = lower_bound pn, depth = depth pn + 1, node_id = node_num,
            branch_var = branch_variable, branch_dir = branch_direction,
            branch_var_lower = (if branch_direction = 0 then lower P ! nat branch_variable else Fin (of_int \<lceil>branch_var_value\<rceil>)),
            branch_var_upper = (if branch_direction = 0 then Fin (of_int \<lfloor>branch_var_value\<rfloor>) else upper P ! nat branch_variable),
            fractional_val = branch_var_value, parent = Some parent_node, child0 = None, child1 = None, vstatus = basis\<rparr>)"

subsection \<open>The bounds of a node\<close>

definition write_bounds :: "'f mip_node \<Rightarrow> 'f ext vec \<times> 'f ext vec \<Rightarrow> ('f ext vec \<times> 'f ext vec) option" where
  "write_bounds nd b =
     (let v = branch_var nd
      in if v < 0 \<or> nat v \<ge> length (fst b) \<or> nat v \<ge> length (snd b) then None
         else Some ((fst b)[nat v := branch_var_lower nd], (snd b)[nat v := branch_var_upper nd]))"

text \<open>The loop over the ancestors, up to the root.\<close>

partial_function (option) apply_ancestors ::
  "'f tree \<Rightarrow> ptr option \<Rightarrow> 'f ext vec \<times> 'f ext vec \<Rightarrow> ('f ext vec \<times> 'f ext vec) option" where
  "apply_ancestors t parent_ptr b =
     (case parent_ptr of None \<Rightarrow> Some b
      | Some p \<Rightarrow> (case t p of None \<Rightarrow> None
          | Some nd \<Rightarrow> if node_id nd = 0 then Some b
              else Option.bind (write_bounds nd b) (apply_ancestors t (parent nd))))"

definition get_variable_bounds ::
  "'f tree \<Rightarrow> ptr \<Rightarrow> 'f ext vec \<times> 'f ext vec \<Rightarrow> ('f ext vec \<times> 'f ext vec) option" where
  "get_variable_bounds t p b = (case t p of None \<Rightarrow> None
     | Some nd \<Rightarrow> Option.bind (write_bounds nd b) (apply_ancestors t (parent nd)))"

subsection \<open>Children and status\<close>

definition add_children :: "ptr \<Rightarrow> ptr \<Rightarrow> ptr \<Rightarrow> 'f tree \<Rightarrow> 'f tree option" where
  "add_children p down_child up_child t = (case t p of None \<Rightarrow> None
     | Some nd \<Rightarrow> Some (t(p \<mapsto> nd\<lparr>child0 := Some down_child, child1 := Some up_child, vstatus := []\<rparr>)))"

definition child_inactive :: "'f tree \<Rightarrow> ptr \<Rightarrow> bool option" where
  "child_inactive t c = map_option (\<lambda>nd. inactive_status (status nd)) (t c)"

definition is_inactive :: "'f tree \<Rightarrow> 'f mip_node \<Rightarrow> bool option" where
  "is_inactive t nd =
     (if inactive_status (status nd) then Some True
      else case (child0 nd, child1 nd) of
          (Some c, Some d) \<Rightarrow> Option.bind (child_inactive t c) (\<lambda>b. if b then child_inactive t d else Some False)
        | (None, Some d) \<Rightarrow> child_inactive t d
        | (Some c, None) \<Rightarrow> child_inactive t c
        | (None, None) \<Rightarrow> None)"

definition update_bound :: "'f tree \<Rightarrow> 'f mip_node \<Rightarrow> ('f :: linordered_idom) mip_node option" where
  "update_bound t nd =
     (case (child0 nd, child1 nd) of
        (Some c, Some d) \<Rightarrow> (case (t c, t d) of
            (Some cn, Some dn) \<Rightarrow> Some (if inactive_status (status cn) \<and> inactive_status (status dn)
               then nd\<lparr>lower_bound := ext_min (lower_bound cn) (lower_bound dn)\<rparr> else nd)
          | _ \<Rightarrow> None)
      | (Some c, None) \<Rightarrow> (case t c of None \<Rightarrow> None
          | Some cn \<Rightarrow> Some (if inactive_status (status cn) then nd\<lparr>lower_bound := lower_bound cn\<rparr> else nd))
      | (None, Some d) \<Rightarrow> (case t d of None \<Rightarrow> None
          | Some dn \<Rightarrow> Some (if inactive_status (status dn) then nd\<lparr>lower_bound := lower_bound dn\<rparr> else nd))
      | (None, None) \<Rightarrow> Some nd)"

partial_function (option) propagate ::
  "('f :: linordered_idom) tree \<Rightarrow> ptr option \<Rightarrow> ptr list \<Rightarrow> ('f tree \<times> ptr list) option" where
  "propagate t parent_ptr stack =
     (case parent_ptr of None \<Rightarrow> Some (t, stack)
      | Some p \<Rightarrow> (case t p of None \<Rightarrow> None
          | Some nd \<Rightarrow> Option.bind (is_inactive t nd) (\<lambda>b.
              if b then Option.bind (update_bound t (nd\<lparr>status := FATHOMED\<rparr>))
                          (\<lambda>nd'. propagate (t(p \<mapsto> nd')) (parent nd) (stack @ [p]))
              else Some (t, stack))))"

definition set_status :: "node_status \<Rightarrow> ptr \<Rightarrow> ('f :: linordered_idom) tree \<Rightarrow> ptr list \<Rightarrow> ('f tree \<times> ptr list) option" where
  "set_status s p t stack = (case t p of None \<Rightarrow> None
     | Some nd \<Rightarrow> if inactive_status s
         then Option.bind (update_bound t (nd\<lparr>status := s\<rparr>))
                (\<lambda>nd'. propagate (t(p \<mapsto> nd')) (parent nd) (stack @ [p]))
         else Some (t(p \<mapsto> nd\<lparr>status := s\<rparr>), stack))"

subsection \<open>Freeing nodes\<close>

text \<open>The destructor of a node destroys its children; \<open>reset\<close> clears the pointer and destroys what it owned.\<close>

partial_function (option) destroy :: "'f tree \<Rightarrow> ptr option \<Rightarrow> 'f tree option" where
  "destroy t c = (case c of None \<Rightarrow> Some t
     | Some p \<Rightarrow> (case t p of None \<Rightarrow> None
         | Some nd \<Rightarrow> Option.bind (destroy t (child1 nd)) (\<lambda>t.
             Option.bind (destroy t (child0 nd)) (\<lambda>t. Some (t(p := None))))))"

definition reset_child0 :: "ptr \<Rightarrow> 'f tree \<Rightarrow> 'f tree option" where
  "reset_child0 p t = (case t p of None \<Rightarrow> None
     | Some nd \<Rightarrow> if child0 nd \<noteq> None then destroy (t(p \<mapsto> nd\<lparr>child0 := None\<rparr>)) (child0 nd) else Some t)"

definition reset_child1 :: "ptr \<Rightarrow> 'f tree \<Rightarrow> 'f tree option" where
  "reset_child1 p t = (case t p of None \<Rightarrow> None
     | Some nd \<Rightarrow> if child1 nd \<noteq> None then destroy (t(p \<mapsto> nd\<lparr>child1 := None\<rparr>)) (child1 nd) else Some t)"

fun remove_fathomed_nodes :: "ptr list \<Rightarrow> 'f tree \<Rightarrow> 'f tree option" where
  "remove_fathomed_nodes [] t = Some t"
| "remove_fathomed_nodes (p # stack) t =
     Option.bind (reset_child0 p t) (\<lambda>t. Option.bind (reset_child1 p t) (remove_fathomed_nodes stack))"

text \<open>\<open>set_status\<close> on an empty stack followed by \<open>remove_fathomed_nodes\<close>, as the search always calls them.\<close>

definition close_node :: "node_status \<Rightarrow> ptr \<Rightarrow> ('f :: linordered_idom) tree \<Rightarrow> 'f tree option" where
  "close_node s p t = Option.bind (set_status s p t []) (\<lambda>(t, stack). remove_fathomed_nodes stack t)"

end
