(* ===== verification/Pseudo_Costs.thy ===== *)
theory Pseudo_Costs
  imports Mip_Node
begin

text \<open>
  Pseudo costs and strong branching (\<open>pseudo_costs.hpp\<close>, \<open>pseudo_costs.cpp\<close>). The sums may be infinite: a
  strong branch that is infeasible has the objective infinity. An access out of range is \<open>None\<close>. In
  \<open>strong_branch_helper\<close> the results of the simplex solves and the readings of the clock are
  parameters; the threads of \<open>strong_branching\<close> write disjoint parts of the two result vectors and
  are run one after the other.
\<close>

record 'f pseudo_costs =
  pseudo_cost_sum_up :: "'f ext vec"
  pseudo_cost_sum_down :: "'f ext vec"
  pseudo_cost_num_up :: "nat list"
  pseudo_cost_num_down :: "nat list"

definition pseudo_costs_new :: "nat \<Rightarrow> ('f :: linordered_idom) pseudo_costs" where
  "pseudo_costs_new num_variables =
     \<lparr>pseudo_cost_sum_up = replicate num_variables 0, pseudo_cost_sum_down = replicate num_variables 0,
      pseudo_cost_num_up = replicate num_variables 0, pseudo_cost_num_down = replicate num_variables 0\<rparr>"

text \<open>\<open>frac\<close>: the distance to the rounded value of the branch.\<close>

definition branch_fraction :: "bool \<Rightarrow> 'f \<Rightarrow> 'f :: floor_ceiling" where
  "branch_fraction down v = (if down then v - of_int \<lfloor>v\<rfloor> else of_int \<lceil>v\<rceil> - v)"

definition record_change :: "bool \<Rightarrow> idx \<Rightarrow> ('f :: floor_ceiling) ext \<Rightarrow> 'f \<Rightarrow> 'f pseudo_costs \<Rightarrow> 'f pseudo_costs option" where
  "record_change down j change_in_obj fr pc =
     (if j \<ge> length (if down then pseudo_cost_sum_down pc else pseudo_cost_sum_up pc) then None
      else Some (if down
        then pc\<lparr>pseudo_cost_sum_down := (pseudo_cost_sum_down pc)[j := pseudo_cost_sum_down pc ! j + change_in_obj / Fin fr],
                pseudo_cost_num_down := (pseudo_cost_num_down pc)[j := pseudo_cost_num_down pc ! j + 1]\<rparr>
        else pc\<lparr>pseudo_cost_sum_up := (pseudo_cost_sum_up pc)[j := pseudo_cost_sum_up pc ! j + change_in_obj / Fin fr],
                pseudo_cost_num_up := (pseudo_cost_num_up pc)[j := pseudo_cost_num_up pc ! j + 1]\<rparr>))"

definition update_pseudo_costs :: "('f :: floor_ceiling) mip_node \<Rightarrow> 'f ext \<Rightarrow> 'f pseudo_costs \<Rightarrow> 'f pseudo_costs option" where
  "update_pseudo_costs nd leaf_objective pc =
     (let change_in_obj = leaf_objective - lower_bound nd;
          down = (branch_dir nd = 0);
          fr = branch_fraction down (fractional_val nd)
      in if branch_var nd < 0 then None else record_change down (nat (branch_var nd)) change_in_obj fr pc)"

text \<open>The number of initialised costs and their average in one direction, 1 when there is none.\<close>

definition average :: "('f :: floor_ceiling) ext vec \<Rightarrow> nat list \<Rightarrow> nat \<times> 'f ext" where
  "average costs nums =
     (let (cnt, tot) = for_range 0 (length costs) (\<lambda>j (cnt, tot).
            if nums ! j > 0 then (cnt + 1, tot + costs ! j / Fin (of_nat (nums ! j))) else (cnt, tot)) (0, 0)
      in (cnt, if cnt > 0 then tot / Fin (of_nat cnt) else 1))"

definition initialized :: "('f :: floor_ceiling) pseudo_costs \<Rightarrow> (nat \<times> 'f ext) \<times> (nat \<times> 'f ext)" where
  "initialized pc = (average (pseudo_cost_sum_down pc) (pseudo_cost_num_down pc),
                     average (pseudo_cost_sum_up pc) (pseudo_cost_num_up pc))"

text \<open>\<open>eps\<close> is 1e-6.\<close>

definition score_eps :: "'f :: floor_ceiling" where "score_eps = 1 / 1000000"

definition branch_score :: "('f :: floor_ceiling) pseudo_costs \<Rightarrow> 'f vec \<Rightarrow> idx \<Rightarrow> 'f ext" where
  "branch_score pc solution j =
     (let ((_, down_avg), (_, up_avg)) = initialized pc;
          down = (if pseudo_cost_num_down pc ! j \<noteq> 0
                  then pseudo_cost_sum_down pc ! j / Fin (of_nat (pseudo_cost_num_down pc ! j)) else down_avg);
          up = (if pseudo_cost_num_up pc ! j \<noteq> 0
                then pseudo_cost_sum_up pc ! j / Fin (of_nat (pseudo_cost_num_up pc ! j)) else up_avg);
          f_down = branch_fraction True (solution ! j);
          f_up = branch_fraction False (solution ! j)
      in ext_max (Fin f_down * down) (Fin score_eps) * ext_max (Fin f_up * up) (Fin score_eps))"

text \<open>The selected variable; when no score is above -1 the final message reads \<open>score[-1]\<close>.\<close>

definition variable_selection :: "('f :: floor_ceiling) pseudo_costs \<Rightarrow> idx list \<Rightarrow> 'f vec \<Rightarrow> idx option" where
  "variable_selection pc fractional solution =
     (let score = map (branch_score pc solution) fractional
      in if fractional = [] then None
         else let (bv, _, select) = for_range 0 (length fractional) (\<lambda>k (bv, max_score, select).
                    if score ! k > max_score then (fractional ! k, score ! k, Some k) else (bv, max_score, select))
                    (fractional ! 0, Fin (-1), None)
              in if select = None then None else Some bv)"

definition update_pseudo_costs_from_strong_branching ::
  "idx list \<Rightarrow> 'f vec \<Rightarrow> ('f :: floor_ceiling) ext vec \<Rightarrow> 'f ext vec \<Rightarrow> 'f pseudo_costs \<Rightarrow> 'f pseudo_costs option" where
  "update_pseudo_costs_from_strong_branching fractional root_soln strong_branch_down strong_branch_up pc =
     for_range 0 (length fractional) (\<lambda>k r.
       let j = fractional ! k
       in Option.bind (Option.bind r (record_change True j (strong_branch_down ! k) (branch_fraction True (root_soln ! j))))
            (record_change False j (strong_branch_up ! k) (branch_fraction False (root_soln ! j)))) (Some pc)"

subsection \<open>Strong branching\<close>

datatype dual_status = OPTIMAL | DUAL_UNBOUNDED | NUMERICAL | CUTOFF | TIME_LIMIT | ITERATION_LIMIT | CONCURRENT_LIMIT | UNSET

definition get_partitioning :: "nat \<Rightarrow> nat \<Rightarrow> nat \<Rightarrow> nat \<times> nat" where
  "get_partitioning N num_threads tid =
     (let base_tasks = N div num_threads; remaining_tasks = N mod num_threads
      in if tid < remaining_tasks then (tid * (base_tasks + 1), tid * (base_tasks + 1) + base_tasks + 1)
         else (tid * base_tasks + remaining_tasks, tid * base_tasks + remaining_tasks + base_tasks))"

definition compute_objective :: "('f :: linordered_idom) lp_problem \<Rightarrow> 'f vec \<Rightarrow> 'f" where
  "compute_objective P x = for_range 0 (num_cols P) (\<lambda>j obj. obj + objective P ! j * x ! j) 0"

text \<open>The problem of one branch, and the change of the objective that its solve gives.\<close>

definition branch_problem :: "('f :: floor_ceiling) lp_problem \<Rightarrow> 'f vec \<Rightarrow> idx \<Rightarrow> bool \<Rightarrow> 'f lp_problem \<Rightarrow> 'f lp_problem" where
  "branch_problem P root_soln j down child_problem =
     (if down then child_problem\<lparr>lower := (lower child_problem)[j := lower P ! j],
                                 upper := (upper child_problem)[j := Fin (of_int \<lfloor>root_soln ! j\<rfloor>)]\<rparr>
      else child_problem\<lparr>lower := (lower child_problem)[j := Fin (of_int \<lceil>root_soln ! j\<rceil>)],
                         upper := (upper child_problem)[j := upper P ! j]\<rparr>)"

definition branch_change :: "('f :: floor_ceiling) lp_problem \<Rightarrow> 'f \<Rightarrow> dual_status \<times> 'f vec \<Rightarrow> 'f ext" where
  "branch_change P root_obj r =
     (if fst r = OPTIMAL \<or> fst r = ITERATION_LIMIT then Fin (compute_objective P (snd r)) else PInf) - Fin root_obj"

text \<open>
  The loop over the fractional variables of one thread. \<open>late i\<close> is the \<open>i\<close>-th comparison of the clock
  with the limit; once it is late the code leaves both loops. \<open>solve\<close> is the result of the simplex solve of a branch problem.
\<close>

fun strong_branch_loop ::
  "(nat \<Rightarrow> bool) \<Rightarrow> ('f lp_problem \<Rightarrow> dual_status \<times> 'f vec) \<Rightarrow> ('f :: floor_ceiling) lp_problem \<Rightarrow> idx list \<Rightarrow> 'f \<Rightarrow> 'f vec
   \<Rightarrow> idx list \<Rightarrow> nat \<Rightarrow> 'f lp_problem \<Rightarrow> 'f ext vec \<times> 'f ext vec \<Rightarrow> 'f ext vec \<times> 'f ext vec" where
  "strong_branch_loop late solve P fractional root_obj root_soln [] clock child_problem out = out"
| "strong_branch_loop late solve P fractional root_obj root_soln (k # ks) clock child_problem out =
     (let j = fractional ! k;
          child = branch_problem P root_soln j True child_problem
      in if late clock then out
         else let out = ((fst out)[k := branch_change child root_obj (solve child)], snd out)
         in if late (clock + 1) then out
         else let child = branch_problem P root_soln j False child
         in if late (clock + 2) then out
         else let out = (fst out, (snd out)[k := branch_change child root_obj (solve child)])
         in if late (clock + 3) \<or> late (clock + 4) then out
         else let child = child\<lparr>lower := (lower child)[j := lower P ! j], upper := (upper child)[j := upper P ! j]\<rparr>
         in if late (clock + 5) then out
         else strong_branch_loop late solve P fractional root_obj root_soln ks (clock + 6) child out)"

definition strong_branch_helper ::
  "(nat \<Rightarrow> bool) \<Rightarrow> ('f lp_problem \<Rightarrow> dual_status \<times> 'f vec) \<Rightarrow> nat \<Rightarrow> nat \<Rightarrow> ('f :: floor_ceiling) lp_problem \<Rightarrow> idx list \<Rightarrow> 'f \<Rightarrow> 'f vec
   \<Rightarrow> 'f ext vec \<times> 'f ext vec \<Rightarrow> 'f ext vec \<times> 'f ext vec" where
  "strong_branch_helper late solve start end_pos P fractional root_obj root_soln out =
     strong_branch_loop late solve P fractional root_obj root_soln [start..<end_pos] 0 P out"

definition strong_branching ::
  "(nat \<Rightarrow> nat \<Rightarrow> bool) \<Rightarrow> ('f lp_problem \<Rightarrow> dual_status \<times> 'f vec) \<Rightarrow> nat \<Rightarrow> ('f :: floor_ceiling) lp_problem \<Rightarrow> idx list \<Rightarrow> 'f \<Rightarrow> 'f vec
   \<Rightarrow> 'f ext vec \<times> 'f ext vec \<Rightarrow> 'f pseudo_costs \<Rightarrow> 'f pseudo_costs option" where
  "strong_branching late solve num_threads P fractional root_obj root_soln out pc =
     (let k = length fractional;
          out = (resize k 0 (fst out), resize k 0 (snd out));
          out = (if k > num_threads
                 then for_range 0 num_threads (\<lambda>tid out.
                        let (start, end_pos) = get_partitioning k num_threads tid
                        in strong_branch_helper (late tid) solve start end_pos P fractional root_obj root_soln out) out
                 else strong_branch_helper (late 0) solve 0 k P fractional root_obj root_soln out)
      in update_pseudo_costs_from_strong_branching fractional root_soln (fst out) (snd out) pc)"

end
