(* ===== verification/Branch_Bound.thy ===== *)
theory Branch_Bound
  imports Pseudo_Costs
begin

text \<open>
  The branch-and-bound search (\<open>branch_and_bound.hpp\<close>, \<open>branch_and_bound.cpp\<close>) as a state machine. The
  search thread runs \<open>solve\<close>; other threads call \<open>set_new_solution\<close> at any time. Both work on the
  global upper bound and the repair queue, under mutexes, so \<open>solve\<close> is cut into steps with at most
  one access to this shared state each, and a solution may be injected between any two of them.
  The simplex solver, the clock and the choice of the priority queue among equal bounds are inputs of
  the steps. \<open>None\<close> is an access through a null or dangling pointer or out of a vector's range.
  Logging, callbacks, the edge norms (which only the simplex solver reads) and iteration counts are not modelled.
\<close>

subsection \<open>State\<close>

datatype mip_status = MIP_OPTIMAL | MIP_UNBOUNDED | MIP_INFEASIBLE | MIP_TIME_LIMIT | MIP_NODE_LIMIT | MIP_NUMERICAL | MIP_UNSET

datatype lp_status = LP_OPTIMAL | LP_INFEASIBLE | LP_UNBOUNDED | LP_ITERATION_LIMIT | LP_TIME_LIMIT
  | LP_NUMERICAL_ISSUES | LP_CUTOFF | LP_CONCURRENT_LIMIT | LP_UNSET

record 'f simplex_solver_settings =
  integer_tol :: 'f
  primal_tol :: 'f
  dual_tol :: 'f
  absolute_mip_gap_tol :: 'f
  relative_mip_gap_tol :: 'f
  scale_columns :: bool

record 'f branch_and_bound =
  original_problem :: "'f user_problem"
  settings :: "'f simplex_solver_settings"
  original_lp :: "'f lp_problem"
  new_slacks :: "idx list"
  bb_var_types :: "variable_type list"

text \<open>Where the search thread stands.\<close>

datatype 'f phase = Guess | Root | Test | Take | Repair "'f vec list" | Select | Leaf ptr "'f ext"
  | Finish | Decide | Conclude | Finished

record 'f bb_state =
  phase :: "'f phase"
  g_upper_bound :: "'f ext"
  g_lower_bound :: "'f ext"
  gap :: "'f ext"
  currently_branching :: bool
  repair_queue :: "'f vec list"
  incumbent_x :: "'f vec"
  incumbent_objective :: "'f ext"
  tree :: "'f tree"
  heap :: "ptr list"
  num_nodes :: nat
  nodes_explored :: nat
  costs :: "'f pseudo_costs"
  result :: mip_status
  solution_x :: "'f vec"
  solution_objective :: "'f ext"
  solution_lower_bound :: "'f ext"

subsection \<open>Checks on solutions\<close>

text \<open>\<open>std::round\<close> rounds halves away from zero.\<close>

definition std_round :: "'f :: floor_ceiling \<Rightarrow> int" where
  "std_round x = (if x < 0 then - \<lfloor>- x + 1 / 2\<rfloor> else \<lfloor>x + 1 / 2\<rfloor>)"

definition is_fractional :: "('f :: floor_ceiling) \<Rightarrow> variable_type \<Rightarrow> 'f \<Rightarrow> bool" where
  "is_fractional x var_type tol = (if var_type = CONTINUOUS then False else \<bar>of_int (std_round x) - x\<bar> > tol)"

definition fractional_variables :: "('f :: floor_ceiling) simplex_solver_settings \<Rightarrow> 'f vec \<Rightarrow> variable_type list \<Rightarrow> idx list" where
  "fractional_variables S x var_types =
     for_range 0 (length x) (\<lambda>j fractional.
       if is_fractional (x ! j) (var_types ! j) (integer_tol S) then fractional @ [j] else fractional) []"

definition full_variable_types :: "'f user_problem \<Rightarrow> 'f lp_problem \<Rightarrow> variable_type list" where
  "full_variable_types U P =
     (if num_cols P > u_num_cols U
      then for_range (u_num_cols U) (num_cols P) (\<lambda>k ts. ts[k := CONTINUOUS]) (resize (num_cols P) CONTINUOUS (u_var_types U))
      else u_var_types U)"

text \<open>Feasibility, the two errors and the number of fractional variables.\<close>

definition check_guess ::
  "('f :: floor_ceiling) lp_problem \<Rightarrow> 'f simplex_solver_settings \<Rightarrow> variable_type list \<Rightarrow> 'f vec \<Rightarrow> bool \<times> 'f \<times> 'f ext \<times> nat" where
  "check_guess P S var_types guess =
     (let residual = matrix_vector_multiply (lp_A P) 1 guess (-1) (rhs P);
          primal_error = vector_norm_inf residual;
          bound_error = for_range 0 (num_cols P) (\<lambda>j bound_error.
            let low_bound_err = ext_max 0 (lower P ! j - Fin (guess ! j));
                up_bound_err = ext_max 0 (Fin (guess ! j) - upper P ! j)
            in ext_max bound_error (ext_max low_bound_err up_bound_err)) 0;
          num_fractional = length (fractional_variables S guess var_types)
      in (bound_error < Fin (primal_tol S) \<and> primal_error < 2 * primal_tol S \<and> num_fractional = 0,
          primal_error, bound_error, num_fractional))"

definition relative_gap :: "('f :: floor_ceiling) ext \<Rightarrow> 'f ext \<Rightarrow> 'f ext" where
  "relative_gap obj_value bound =
     (let user_mip_gap = (if obj_value = 0 then (if bound = 0 then 0 else PInf)
                          else \<bar>obj_value - bound\<bar> / \<bar>obj_value\<bar>)
      in if user_mip_gap = NaN then PInf else user_mip_gap)"

subsection \<open>Construction and injected solutions\<close>

definition branch_and_bound_new ::
  "'f \<times> 'f \<Rightarrow> ('f :: floor_ceiling) user_problem \<Rightarrow> 'f simplex_solver_settings \<Rightarrow> 'f \<Rightarrow> 'f branch_and_bound" where
  "branch_and_bound_new uninit U S scale =
     (let (P, slacks) = convert_user_problem uninit U (lp_problem_new 1 1 1 scale) []
      in \<lparr>original_problem = U, settings = S, original_lp = P, new_slacks = slacks,
          bb_var_types = full_variable_types U P\<rparr>)"

definition bb_init :: "('f :: floor_ceiling) branch_and_bound \<Rightarrow> 'f bb_state" where
  "bb_init B =
     \<lparr>phase = Guess, g_upper_bound = PInf, g_lower_bound = MInf, gap = NaN, currently_branching = False,
      repair_queue = [], incumbent_x = replicate (num_cols (original_lp B)) 0, incumbent_objective = NaN,
      tree = (\<lambda>_. None), heap = [], num_nodes = 0, nodes_explored = 0, costs = pseudo_costs_new 0,
      result = MIP_UNSET, solution_x = [], solution_objective = NaN, solution_lower_bound = MInf\<rparr>"

text \<open>
  The size of an injected solution is compared with the number of the user's columns and a difference is
  only logged; \<open>crush_primal_solution\<close> then reads one entry for every user column, so a shorter vector
  is read out of its range.
\<close>

definition set_new_solution :: "('f :: floor_ceiling) branch_and_bound \<Rightarrow> 'f vec \<Rightarrow> 'f bb_state \<Rightarrow> 'f bb_state option" where
  "set_new_solution B x st =
     (if length x < u_num_cols (original_problem B) then None
      else let P = original_lp B;
          crushed_solution = crush_primal_solution (original_problem B) P x (new_slacks B) [];
          obj = Fin (compute_objective P crushed_solution)
      in Some (if obj < g_upper_bound st
         then if fst (check_guess P (settings B) (bb_var_types B) crushed_solution)
              then st\<lparr>g_upper_bound := obj\<rparr>
              else st\<lparr>repair_queue := repair_queue st @ [crushed_solution]\<rparr>
         else st))"

definition set_incumbent_solution :: "'f ext \<Rightarrow> 'f vec \<Rightarrow> 'f bb_state \<Rightarrow> 'f bb_state" where
  "set_incumbent_solution obj x st = st\<lparr>incumbent_x := x, incumbent_objective := obj\<rparr>"

subsection \<open>Before the loop\<close>

definition try_guess :: "('f :: floor_ceiling) branch_and_bound \<Rightarrow> 'f vec \<Rightarrow> 'f bb_state \<Rightarrow> 'f bb_state option" where
  "try_guess B guess st =
     (let P = original_lp B; st = st\<lparr>phase := Root\<rparr>
      in if guess = [] then Some st
         else if length guess < u_num_cols (original_problem B) then None
         else let crushed_guess = crush_primal_solution (original_problem B) P guess (new_slacks B) [];
                  obj = Fin (compute_objective P crushed_guess)
              in Some (if fst (check_guess P (settings B) (bb_var_types B) crushed_guess)
                 then (set_incumbent_solution obj crushed_guess st)\<lparr>g_upper_bound := obj\<rparr> else st))"

text \<open>The answer of \<open>solve\<close>: the incumbent, translated back.\<close>

definition answer :: "('f :: floor_ceiling) branch_and_bound \<Rightarrow> 'f bb_state \<Rightarrow> 'f bb_state" where
  "answer B st = st\<lparr>phase := Finished,
     solution_x := uncrush_primal_solution (original_problem B) (incumbent_x st) (solution_x st),
     solution_objective := incumbent_objective st, solution_lower_bound := g_lower_bound st\<rparr>"

text \<open>Two children of a node for the two sides of a fractional value, pushed and linked.\<close>

definition branch_on ::
  "('f :: floor_ceiling) branch_and_bound \<Rightarrow> ptr \<Rightarrow> idx \<Rightarrow> 'f \<Rightarrow> variable_status list \<Rightarrow> 'f bb_state \<Rightarrow> 'f bb_state option" where
  "branch_on B p bv v basis st =
     (let P = original_lp B; d = num_nodes st + 1; u = num_nodes st + 2
      in Option.bind (mip_node_child P (tree st) p d (int bv) 0 v basis) (\<lambda>down_child.
         Option.bind (mip_node_child P (tree st) p u (int bv) 1 v basis) (\<lambda>up_child.
         Option.bind (add_children p d u ((tree st)(d \<mapsto> down_child, u \<mapsto> up_child))) (\<lambda>t.
           Some (st\<lparr>tree := t, heap := heap st @ [d, u], num_nodes := u\<rparr>)))))"

text \<open>
  The root relaxation has been solved: \<open>relax\<close> is its status, solution and basis, \<open>strong\<close> the results of
  strong branching. The statuses that stop the search do so without touching the solution.
\<close>

definition start_search ::
  "'f ext \<times> 'f ext \<times> 'f \<Rightarrow> ('f :: floor_ceiling) branch_and_bound \<Rightarrow> lp_status \<times> 'f vec \<times> variable_status list
   \<Rightarrow> (idx list \<Rightarrow> 'f \<Rightarrow> 'f vec \<Rightarrow> 'f pseudo_costs \<Rightarrow> 'f pseudo_costs option) \<Rightarrow> 'f bb_state \<Rightarrow> 'f bb_state option" where
  "start_search uninit B relax strong st =
     (let (root_status, x, root_vstatus) = relax
      in if root_status = LP_INFEASIBLE then Some (st\<lparr>result := MIP_INFEASIBLE, phase := Finished\<rparr>)
         else if root_status = LP_UNBOUNDED then Some (st\<lparr>result := MIP_UNBOUNDED, phase := Finished\<rparr>)
         else if root_status = LP_TIME_LIMIT then Some (st\<lparr>result := MIP_TIME_LIMIT, phase := Finished\<rparr>)
         else let fractional = fractional_variables (settings B) x (bb_var_types B);
                  root_objective = compute_objective (original_lp B) x;
                  st = st\<lparr>g_lower_bound := Fin root_objective\<rparr>
         in if fractional = []
            then Some ((answer B ((set_incumbent_solution (Fin root_objective) x st)\<lparr>g_upper_bound := Fin root_objective\<rparr>))
                         \<lparr>result := MIP_OPTIMAL\<rparr>)
            else Option.bind (strong fractional root_objective x (pseudo_costs_new (num_cols (original_lp B)))) (\<lambda>pc.
                 Option.bind (variable_selection pc fractional x) (\<lambda>bv.
                 Option.bind (branch_on B 0 bv (x ! bv) root_vstatus
                     (st\<lparr>costs := pc, num_nodes := 0, heap := [],
                         tree := [0 \<mapsto> mip_node_root uninit (Fin root_objective) root_vstatus]\<rparr>)) (\<lambda>st.
                 Some (st\<lparr>gap := g_upper_bound st - g_lower_bound st, nodes_explored := 0,
                          currently_branching := True, phase := Test\<rparr>)))))"

subsection \<open>The loop\<close>

definition loop_test :: "('f :: floor_ceiling) branch_and_bound \<Rightarrow> 'f bb_state \<Rightarrow> 'f bb_state" where
  "loop_test B st =
     (if gap st > Fin (absolute_mip_gap_tol (settings B)) \<and>
         relative_gap (g_upper_bound st) (g_lower_bound st) > Fin (relative_mip_gap_tol (settings B)) \<and>
         length (heap st) > 0
      then st\<lparr>phase := Take\<rparr> else st\<lparr>phase := Finish\<rparr>)"

definition take_repairs :: "'f bb_state \<Rightarrow> 'f bb_state" where
  "take_repairs st = st\<lparr>phase := Repair (repair_queue st), repair_queue := []\<rparr>"

text \<open>The problem that fixes the integer variables at their rounded values, and the check of its solution \<open>r\<close>.\<close>

definition repair_lp :: "('f :: floor_ceiling) branch_and_bound \<Rightarrow> 'f vec \<Rightarrow> 'f lp_problem" where
  "repair_lp B potential_solution =
     (let (l, u) = for_range 0 (num_cols (original_lp B)) (\<lambda>j (l, u).
            if bb_var_types B ! j = INTEGER
            then (l[j := Fin (of_int (std_round (potential_solution ! j)))], u[j := Fin (of_int (std_round (potential_solution ! j)))])
            else (l, u)) (lower (original_lp B), upper (original_lp B))
      in (original_lp B)\<lparr>lower := l, upper := u\<rparr>)"

definition repair_solution :: "('f :: floor_ceiling) branch_and_bound \<Rightarrow> dual_status \<times> 'f vec \<Rightarrow> bool \<times> 'f ext \<times> 'f vec" where
  "repair_solution B r =
     (if fst r = OPTIMAL
      then (fst (check_guess (original_lp B) (settings B) (bb_var_types B) (snd r)),
            Fin (compute_objective (original_lp B) (snd r)), snd r)
      else (False, NaN, snd r))"

definition repair_one :: "('f :: floor_ceiling) branch_and_bound \<Rightarrow> dual_status \<times> 'f vec \<Rightarrow> 'f vec list \<Rightarrow> 'f bb_state \<Rightarrow> 'f bb_state" where
  "repair_one B r rest st =
     (let (feasible, repaired_obj, repaired_solution) = repair_solution B r; st = st\<lparr>phase := Repair rest\<rparr>
      in if feasible \<and> repaired_obj < g_upper_bound st
         then set_incumbent_solution repaired_obj repaired_solution (st\<lparr>g_upper_bound := repaired_obj\<rparr>) else st)"

text \<open>The element on top of the priority queue: no other one has a smaller bound.\<close>

definition heap_top :: "('f :: linorder) tree \<Rightarrow> ptr list \<Rightarrow> ptr \<Rightarrow> bool" where
  "heap_top t hp p \<longleftrightarrow> p \<in> set hp \<and> (\<forall>q\<in>set hp. \<forall>pn qn. t p = Some pn \<longrightarrow> t q = Some qn \<longrightarrow> \<not> lower_bound qn < lower_bound pn)"

definition select_node :: "('f :: floor_ceiling) branch_and_bound \<Rightarrow> ptr \<Rightarrow> bool \<Rightarrow> 'f bb_state \<Rightarrow> 'f bb_state option" where
  "select_node B p late st =
     (case tree st p of None \<Rightarrow> None
      | Some nd \<Rightarrow>
         let st = st\<lparr>heap := remove1 p (heap st)\<rparr>; upper_bound = g_upper_bound st
         in if upper_bound < lower_bound nd
            then map_option (\<lambda>t. st\<lparr>tree := t, phase := Test\<rparr>) (close_node FATHOMED p (tree st))
            else let st = st\<lparr>g_lower_bound := lower_bound nd, gap := upper_bound - lower_bound nd\<rparr>
                 in if late then Some (st\<lparr>result := MIP_TIME_LIMIT, phase := Finish\<rparr>)
                    else Some (st\<lparr>phase := Leaf p upper_bound\<rparr>))"

definition leaf_problem :: "'f branch_and_bound \<Rightarrow> ptr \<Rightarrow> 'f bb_state \<Rightarrow> 'f lp_problem option" where
  "leaf_problem B p st = map_option (\<lambda>(l, u). (original_lp B)\<lparr>lower := l, upper := u\<rparr>)
     (get_variable_bounds (tree st) p (lower (original_lp B), upper (original_lp B)))"

text \<open>\<open>fathom_tol\<close> is 1e-5.\<close>

definition fathom_tol :: "'f :: floor_ceiling" where "fathom_tol = 1 / 100000"

definition close_leaf :: "node_status \<Rightarrow> ptr \<Rightarrow> 'f mip_node \<Rightarrow> ('f :: floor_ceiling) bb_state \<Rightarrow> 'f bb_state option" where
  "close_leaf s p nd st = map_option (\<lambda>t. st\<lparr>tree := t\<rparr>) (close_node s p ((tree st)(p \<mapsto> nd)))"

text \<open>The solve of node \<open>p\<close> has given the status, solution and basis \<open>r\<close>; \<open>upper_bound\<close> is the bound read before it.\<close>

definition process_leaf ::
  "('f :: floor_ceiling) branch_and_bound \<Rightarrow> ptr \<Rightarrow> 'f ext \<Rightarrow> dual_status \<times> 'f vec \<times> variable_status list \<Rightarrow> 'f bb_state \<Rightarrow> 'f bb_state option" where
  "process_leaf B p upper_bound r st =
     (case tree st p of None \<Rightarrow> None
      | Some nd \<Rightarrow>
         let (lp_stat, x, leaf_vstatus) = r;
             nd = nd\<lparr>vstatus := leaf_vstatus\<rparr>;
             st = st\<lparr>nodes_explored := nodes_explored st + 1, phase := Test\<rparr>
         in if lp_stat = DUAL_UNBOUNDED then close_leaf INFEASIBLE p (nd\<lparr>lower_bound := PInf\<rparr>) st
            else if lp_stat = CUTOFF then close_leaf FATHOMED p (nd\<lparr>lower_bound := upper_bound\<rparr>) st
            else if lp_stat = OPTIMAL
            then let fractional = fractional_variables (settings B) x (bb_var_types B);
                     leaf_objective = Fin (compute_objective (original_lp B) x)
                 in Option.bind (update_pseudo_costs nd leaf_objective (costs st)) (\<lambda>pc.
                    let nd = nd\<lparr>lower_bound := leaf_objective\<rparr>; st = st\<lparr>costs := pc\<rparr>
                    in if fractional = []
                       then close_leaf INTEGER_FEASIBLE p nd
                              (if leaf_objective < g_upper_bound st
                               then (set_incumbent_solution leaf_objective x st)
                                      \<lparr>g_upper_bound := leaf_objective, gap := leaf_objective - g_lower_bound st\<rparr>
                               else st)
                       else if leaf_objective \<le> upper_bound + Fin fathom_tol
                       then Option.bind (variable_selection pc fractional x) (\<lambda>bv.
                              branch_on B p bv (x ! bv) leaf_vstatus (st\<lparr>tree := (tree st)(p \<mapsto> nd)\<rparr>))
                       else close_leaf FATHOMED p nd st)
            else Some (st\<lparr>tree := (tree st)(p \<mapsto> nd), result := MIP_NUMERICAL, phase := Finish\<rparr>))"

subsection \<open>After the loop\<close>

definition finish_search :: "('f :: floor_ceiling) bb_state \<Rightarrow> 'f bb_state option" where
  "finish_search st =
     (let st = st\<lparr>currently_branching := False, phase := Decide\<rparr>
      in if length (heap st) = 0
         then map_option (\<lambda>rt. st\<lparr>g_lower_bound := lower_bound rt, gap := g_upper_bound st - lower_bound rt\<rparr>) (tree st 0)
         else Some st)"

definition decide_status :: "('f :: floor_ceiling) branch_and_bound \<Rightarrow> 'f bb_state \<Rightarrow> 'f bb_state" where
  "decide_status B st =
     (if gap st \<le> Fin (absolute_mip_gap_tol (settings B)) \<or>
         relative_gap (g_upper_bound st) (g_lower_bound st) \<le> Fin (relative_mip_gap_tol (settings B))
      then st\<lparr>result := MIP_OPTIMAL, phase := Conclude\<rparr> else st\<lparr>phase := Conclude\<rparr>)"

definition conclude :: "('f :: floor_ceiling) branch_and_bound \<Rightarrow> 'f bb_state \<Rightarrow> 'f bb_state" where
  "conclude B st = answer B (if length (heap st) = 0 \<and> g_upper_bound st = PInf then st\<lparr>result := MIP_INFEASIBLE\<rparr> else st)"

end
