(* ===== verification/Bb_Tree.thy ===== *)
theory Bb_Tree
  imports Mip_Node
begin

text \<open>
  The pointer structure of the branch-and-bound tree and the effect of closing a leaf: \<open>set_status\<close>
  marks the ancestors whose children are all inactive, \<open>remove_fathomed_nodes\<close> frees the children of
  all marked nodes. Neither dereferences a null or freed pointer, and the result is a tree again.
\<close>

abbreviation inactive :: "'f mip_node \<Rightarrow> bool" where "inactive nd \<equiv> inactive_status (status nd)"

abbreviation childless :: "'f mip_node \<Rightarrow> bool" where "childless nd \<equiv> child0 nd = None \<and> child1 nd = None"

subsection \<open>The invariant\<close>

definition parent_ok :: "'f tree \<Rightarrow> ptr \<Rightarrow> 'f mip_node \<Rightarrow> bool" where
  "parent_ok t q nd = (case parent nd of None \<Rightarrow> q = 0
     | Some p \<Rightarrow> p < q \<and> (\<exists>pn. t p = Some pn \<and> (child0 pn = Some q \<or> child1 pn = Some q)))"

definition two_children :: "'f tree \<Rightarrow> ptr \<Rightarrow> 'f mip_node \<Rightarrow> bool" where
  "two_children t q nd = (\<exists>c d cn dn. child0 nd = Some c \<and> child1 nd = Some d \<and> c \<noteq> d \<and>
     t c = Some cn \<and> t d = Some dn \<and> parent cn = Some q \<and> parent dn = Some q \<and> \<not> (inactive cn \<and> inactive dn))"

definition node_ok :: "'f tree \<Rightarrow> ptr set \<Rightarrow> ptr \<Rightarrow> 'f mip_node \<Rightarrow> bool" where
  "node_ok t opn q nd \<longleftrightarrow> node_id nd = q \<and> parent_ok t q nd \<and>
     (inactive nd \<and> childless nd \<and> q \<notin> opn \<or>
      status nd = ACTIVE \<and> (childless nd \<and> q \<in> opn \<or> two_children t q nd \<and> q \<notin> opn))"

text \<open>\<open>opn\<close> is the set of the nodes that still have to be solved.\<close>

definition tree_ok :: "'f tree \<Rightarrow> ptr set \<Rightarrow> bool" where
  "tree_ok t opn \<longleftrightarrow> (\<forall>q nd. t q = Some nd \<longrightarrow> node_ok t opn q nd) \<and> (\<forall>q\<in>opn. t q \<noteq> None) \<and> t 0 \<noteq> None"

lemma inactive_status_simps [simp]:
  "inactive_status FATHOMED" "inactive_status INTEGER_FEASIBLE" "inactive_status INFEASIBLE"
  "\<not> inactive_status ACTIVE" "\<not> inactive_status IN_PROGRESS"
  by (simp_all add: inactive_status_def)

lemma tree_okD: "tree_ok t opn \<Longrightarrow> t q = Some nd \<Longrightarrow> node_ok t opn q nd"
  by (simp add: tree_ok_def)

lemma tree_ok_open:
  assumes "tree_ok t opn" "q \<in> opn"
  obtains nd where "t q = Some nd" "status nd = ACTIVE" "childless nd"
proof -
  have "t q \<noteq> None" using assms unfolding tree_ok_def by blast
  then obtain nd where nd: "t q = Some nd" by blast
  then show ?thesis using tree_okD [OF assms(1) nd] assms(2) that by (auto simp: node_ok_def)
qed

lemma tree_ok_root: "tree_ok t opn \<Longrightarrow> \<exists>rn. t 0 = Some rn"
  unfolding tree_ok_def by blast

lemma tree_ok_parent:
  assumes "tree_ok t opn" "t q = Some nd" "parent nd = Some p"
  obtains pn where "p < q" "t p = Some pn" "child0 pn = Some q \<or> child1 pn = Some q"
  using tree_okD [OF assms(1,2)] assms(3) by (auto simp: node_ok_def parent_ok_def)

lemma tree_ok_internal:
  assumes "tree_ok t opn" "t p = Some pn" "child0 pn = Some q \<or> child1 pn = Some q"
  shows "status pn = ACTIVE" "two_children t p pn" "p \<notin> opn"
  using tree_okD [OF assms(1,2)] assms(3) by (auto simp: node_ok_def)

text \<open>While no node is open, the root is inactive: an active node has an active child with a larger id.\<close>

lemma tree_ok_closed:
  assumes "tree_ok t {}" "t q = Some nd" "\<forall>q nd. t q = Some nd \<longrightarrow> q \<le> N"
  shows "inactive nd"
  using assms(2)
proof (induction "N - q" arbitrary: q nd rule: less_induct)
  case less
  show ?case
  proof (rule ccontr)
    assume "\<not> inactive nd"
    then have "two_children t q nd" using tree_okD [OF assms(1) less.prems] by (simp add: node_ok_def)
    then obtain c cn where c: "t c = Some cn" "parent cn = Some q" "\<not> inactive cn"
      by (auto simp: two_children_def)
    then have "q < c" by (metis assms(1) tree_ok_parent)
    moreover have "c \<le> N" using assms(3) c(1) by blast
    ultimately have "N - c < N - q" by arith
    then show False using less.hyps [OF _ c(1)] c(3) by blast
  qed
qed

subsection \<open>Marking the ancestors\<close>

text \<open>\<open>u\<close> agrees with \<open>t\<close> on the nodes that the walk from \<open>p\<close> to the root looks at.\<close>

definition agree :: "ptr \<Rightarrow> 'f tree \<Rightarrow> 'f tree \<Rightarrow> bool" where
  "agree p t u \<longleftrightarrow> (\<forall>x nd. t x = Some nd \<longrightarrow> x \<noteq> p \<longrightarrow> (x < p \<or> (\<exists>r<p. parent nd = Some r)) \<longrightarrow> u x = Some nd)"

text \<open>The chain of the marked ancestors of \<open>p\<close>: each has two children, the one below and a childless sibling.\<close>

fun climb :: "'f tree \<Rightarrow> ptr \<Rightarrow> ptr list \<Rightarrow> bool" where
  "climb t p [] = True"
| "climb t p (q # qs) = (\<exists>pn nd s sn. t p = Some pn \<and> parent pn = Some q \<and> q < p \<and> t q = Some nd \<and>
     (child0 nd = Some p \<and> child1 nd = Some s \<or> child0 nd = Some s \<and> child1 nd = Some p) \<and> s \<noteq> p \<and>
     t s = Some sn \<and> parent sn = Some q \<and> q < s \<and> childless sn \<and> climb t q qs)"

lemma climb_less: "climb t p c \<Longrightarrow> x \<in> set c \<Longrightarrow> x < p"
proof (induction c arbitrary: p)
  case (Cons q qs)
  then show ?case using less_trans by fastforce
qed simp

definition marked :: "'f mip_node \<Rightarrow> ('f :: linordered_idom) ext \<Rightarrow> 'f mip_node \<Rightarrow> bool" where
  "marked nd ub nd' \<longleftrightarrow> (\<exists>b. nd' = nd\<lparr>status := FATHOMED, lower_bound := b\<rparr> \<and> ub \<le> b)"

definition stop :: "'f tree \<Rightarrow> ptr \<Rightarrow> bool" where
  "stop t p \<longleftrightarrow> (\<forall>pn q nd. t p = Some pn \<longrightarrow> parent pn = Some q \<longrightarrow> t q = Some nd \<longrightarrow>
     (\<exists>s sn. s \<noteq> p \<and> (child0 nd = Some s \<or> child1 nd = Some s) \<and> t s = Some sn \<and> \<not> inactive sn))"

lemma ext_min_ge: "ub \<le> a \<Longrightarrow> ub \<le> b \<Longrightarrow> ub \<le> ext_min a b" for a :: "'f :: linordered_idom ext"
  by (simp add: ext_min_def)

lemma propagate_marks:
  fixes t u :: "('f :: linordered_idom) tree"
  assumes ok: "tree_ok t opn" and ub: "\<forall>q nd. t q = Some nd \<longrightarrow> inactive nd \<longrightarrow> ub \<le> lower_bound nd"
  shows "\<lbrakk> t p = Some pn; agree p t u; u p = Some pn'; inactive pn'; ub \<le> lower_bound pn' \<rbrakk> \<Longrightarrow>
    \<exists>c u'. propagate u (parent pn) stack = Some (u', stack @ c) \<and> climb t p c \<and> stop t (last (p # c)) \<and>
      (\<forall>x. x \<notin> set c \<longrightarrow> u' x = u x) \<and> (\<forall>x\<in>set c. \<exists>nd nd'. t x = Some nd \<and> u' x = Some nd' \<and> marked nd ub nd') \<and>
      (\<forall>x xn. t x = Some xn \<longrightarrow> parent xn \<in> Some ` set c \<longrightarrow> x \<in> set (p # c) \<or> inactive xn)"
proof (induction p arbitrary: pn pn' u stack rule: less_induct)
  case (less p)
  show ?case
  proof (cases "parent pn")
    case None
    then show ?thesis
      using less.prems(1) by (intro exI [of _ "[]"] exI [of _ u]) (simp add: propagate.simps stop_def)
  next
    case (Some q)
    then obtain qn where q: "q < p" "t q = Some qn" "child0 qn = Some p \<or> child1 qn = Some p"
      using tree_ok_parent [OF ok less.prems(1)] by blast
    note int = tree_ok_internal [OF ok q(2,3)]
    from int(2) q(3) obtain s sn where s: "child0 qn = Some p \<and> child1 qn = Some s \<or> child0 qn = Some s \<and> child1 qn = Some p"
      "s \<noteq> p" "t s = Some sn" "parent sn = Some q"
      by (auto simp: two_children_def)
    have qs: "q < s" using tree_ok_parent [OF ok s(3,4)] by blast
    have uq: "u q = Some qn" and us: "u s = Some sn"
      using less.prems(2) q(1,2) s(2-4) by (auto simp: agree_def)
    show ?thesis
    proof (cases "inactive sn")
      case False
      have "is_inactive u qn = Some False"
        using s(1) int(1) False us less.prems(3,4)
        by (auto simp: is_inactive_def child_inactive_def)
      moreover have "stop t p" unfolding stop_def
        using less.prems(1) Some q(2) s False by fastforce
      ultimately show ?thesis
        by (intro exI [of _ "[]"] exI [of _ u]) (simp add: Some propagate.simps [of u "Some q"] uq)
    next
      case True
      define b where "b = (if child0 qn = Some p then ext_min (lower_bound pn') (lower_bound sn) else ext_min (lower_bound sn) (lower_bound pn'))"
      define qn' where "qn' = qn\<lparr>status := FATHOMED, lower_bound := b\<rparr>"
      have "ub \<le> b" using less.prems(5) ub s(3) True by (auto simp: b_def intro: ext_min_ge)
      have ina: "is_inactive u qn = Some True"
        using s(1) int(1) True us less.prems(3,4) by (auto simp: is_inactive_def child_inactive_def)
      have upd: "update_bound u (qn\<lparr>status := FATHOMED\<rparr>) = Some qn'"
        using s(1,2) True us less.prems(3,4) by (auto simp: update_bound_def qn'_def b_def)
      have agr: "agree q t (u(q \<mapsto> qn'))"
        using less.prems(1,2) q(1) Some by (auto simp: agree_def) (metis less_irrefl less_trans option.inject)+
      have "inactive qn'" "ub \<le> lower_bound qn'" using \<open>ub \<le> b\<close> by (simp_all add: qn'_def)
      from less.IH [OF q(1) q(2) agr fun_upd_same this, of "stack @ [q]"] obtain c u' where c:
        "propagate (u(q \<mapsto> qn')) (parent qn) (stack @ [q]) = Some (u', (stack @ [q]) @ c)" "climb t q c" "stop t (last (q # c))"
        "\<forall>x. x \<notin> set c \<longrightarrow> u' x = (u(q \<mapsto> qn')) x" "\<forall>x\<in>set c. \<exists>nd nd'. t x = Some nd \<and> u' x = Some nd' \<and> marked nd ub nd'"
        "\<forall>x xn. t x = Some xn \<longrightarrow> parent xn \<in> Some ` set c \<longrightarrow> x \<in> set (q # c) \<or> inactive xn"
        by blast
      have "\<forall>x xn. t x = Some xn \<longrightarrow> parent xn \<in> Some ` set (q # c) \<longrightarrow> x \<in> set (p # q # c) \<or> inactive xn"
      proof (intro allI impI)
        fix x xn assume x: "t x = Some xn" "parent xn \<in> Some ` set (q # c)"
        show "x \<in> set (p # q # c) \<or> inactive xn"
        proof (cases "parent xn = Some q")
          case pq: True
          then have "x = p \<or> x = s" using tree_ok_parent [OF ok x(1) pq] q(2) s(1) by fastforce
          then show ?thesis using x(1) s(3) True by auto
        next
          case False
          then show ?thesis using c(6) x by auto
        qed
      qed
      note kids = this
      have "q \<notin> set c" using climb_less [OF c(2)] by blast
      then have "u' q = Some qn'" using c(4) by simp
      then have "\<exists>nd nd'. t q = Some nd \<and> u' q = Some nd' \<and> marked nd ub nd'"
        using q(2) \<open>ub \<le> b\<close> by (auto simp: marked_def qn'_def)
      moreover have "childless sn" using tree_okD [OF ok s(3)] True by (auto simp: node_ok_def)
      then have "climb t p (q # c)"
        unfolding climb.simps using c(2) q(1,2) s qs Some less.prems(1) by blast
      ultimately show ?thesis
        using c(1,3-5) Some kids
        by (intro exI [of _ "q # c"] exI [of _ u']) (simp add: propagate.simps [of u "Some q"] uq ina upd)
    qed
  qed
qed

subsection \<open>Freeing the children of the marked nodes\<close>

lemma destroy_childless: "t p = Some nd \<Longrightarrow> childless nd \<Longrightarrow> destroy t (Some p) = Some (t(p := None))"
  by (simp add: destroy.simps [of t "Some p"] destroy.simps [of _ None])

lemma reset_childless: "t p = Some nd \<Longrightarrow> childless nd \<Longrightarrow> remove_fathomed_nodes (p # c) t = remove_fathomed_nodes c t"
  by (simp add: reset_child0_def reset_child1_def)

lemma reset_pair:
  assumes "w q = Some nd" "child0 nd = Some c" "child1 nd = Some d" "c \<noteq> d" "c \<noteq> q" "d \<noteq> q"
    "w c = Some cn" "childless cn" "w d = Some dn" "childless dn"
  shows "remove_fathomed_nodes (q # qs) w =
    remove_fathomed_nodes qs (w(q \<mapsto> nd\<lparr>child0 := None, child1 := None\<rparr>, c := None, d := None))"
proof -
  have 1: "reset_child0 q w = Some (w(q \<mapsto> nd\<lparr>child0 := None\<rparr>, c := None))"
    using assms destroy_childless [of "w(q \<mapsto> nd\<lparr>child0 := None\<rparr>)" c cn] by (simp add: reset_child0_def)
  have "destroy (w(q \<mapsto> nd\<lparr>child0 := None, child1 := None\<rparr>, c := None)) (Some d)
      = Some (w(q \<mapsto> nd\<lparr>child0 := None, child1 := None\<rparr>, c := None, d := None))"
    using assms by (intro destroy_childless [of _ d dn]) auto
  moreover have "w(q \<mapsto> nd\<lparr>child0 := None\<rparr>, c := None, q \<mapsto> nd\<lparr>child0 := None, child1 := None\<rparr>)
      = w(q \<mapsto> nd\<lparr>child0 := None, child1 := None\<rparr>, c := None)"
    using assms(5) by (auto simp: fun_eq_iff)
  ultimately have 2: "reset_child1 q (w(q \<mapsto> nd\<lparr>child0 := None\<rparr>, c := None))
      = Some (w(q \<mapsto> nd\<lparr>child0 := None, child1 := None\<rparr>, c := None, d := None))"
    using assms(3,5) by (simp add: reset_child1_def)
  show ?thesis by (simp add: 1 2)
qed

lemma climb_agree: "climb t q qs \<Longrightarrow> agree q t u \<Longrightarrow> t q = Some qn \<Longrightarrow> u q = Some qn' \<Longrightarrow> parent qn' = parent qn \<Longrightarrow> climb u q qs"
proof (induction qs arbitrary: q qn qn')
  case (Cons r rs)
  then obtain rn s sn where r: "parent qn = Some r" "r < q" "t r = Some rn"
    "child0 rn = Some q \<and> child1 rn = Some s \<or> child0 rn = Some s \<and> child1 rn = Some q" "s \<noteq> q"
    "t s = Some sn" "parent sn = Some r" "r < s" "childless sn" "climb t r rs" by auto
  have u: "u r = Some rn" "u s = Some sn" using Cons.prems(2) r by (auto simp: agree_def)
  have "agree r t u" using Cons.prems(2,3) r(1,2) by (fastforce simp: agree_def)
  then have "climb u r rs" using Cons.IH r(3,10) u(1) by blast
  then show ?case unfolding climb.simps using Cons.prems(4,5) r u by metis
qed simp

definition up_links :: "'f tree \<Rightarrow> bool" where
  "up_links t \<longleftrightarrow> (\<forall>x nd q. t x = Some nd \<longrightarrow> parent nd = Some q \<longrightarrow> (\<exists>qn. t q = Some qn \<and> (child0 qn = Some x \<or> child1 qn = Some x)))"

lemma remove_climb:
  "climb w p c \<Longrightarrow> w p = Some pn \<Longrightarrow> childless pn \<Longrightarrow> up_links w \<Longrightarrow>
   \<exists>w'. remove_fathomed_nodes (p # c) w = Some w' \<and> (\<forall>x. w x = None \<longrightarrow> w' x = None) \<and>
     (\<forall>x nd. w x = Some nd \<longrightarrow> w' x = (if parent nd \<in> Some ` set c then None
        else if x = last (p # c) then Some (nd\<lparr>child0 := None, child1 := None\<rparr>) else Some nd))"
proof (induction c arbitrary: p pn w)
  case Nil
  then show ?case by (auto simp: reset_child0_def reset_child1_def)
next
  case (Cons q qs)
  then obtain nd s sn where q: "parent pn = Some q" "q < p" "w q = Some nd"
    "child0 nd = Some p \<and> child1 nd = Some s \<or> child0 nd = Some s \<and> child1 nd = Some p" "s \<noteq> p"
    "w s = Some sn" "parent sn = Some q" "q < s" "childless sn" "climb w q qs" by auto
  define nd' where "nd' = nd\<lparr>child0 := None, child1 := None\<rparr>"
  define w2 where "w2 = w(q \<mapsto> nd', p := None, s := None)"
  have w2q: "w2 q = Some nd'" "childless nd'" "parent nd' = parent nd" using q(2,8) by (simp_all add: w2_def nd'_def)
  have kids: "w x = Some xn \<Longrightarrow> parent xn = Some q \<Longrightarrow> x = p \<or> x = s" for x xn
    using Cons.prems(4) q(3,4) by (fastforce simp: up_links_def)
  have nokids: "w x = Some xn \<Longrightarrow> parent xn \<noteq> Some p \<and> parent xn \<noteq> Some s" for x xn
    using Cons.prems(2-4) q(6,9) by (fastforce simp: up_links_def)
  have "remove_fathomed_nodes (p # q # qs) w = remove_fathomed_nodes qs w2"
    using q(4)
  proof
    assume "child0 nd = Some p \<and> child1 nd = Some s"
    then show ?thesis using reset_pair [of w q nd p s pn sn qs] reset_childless [of w p pn] Cons.prems(2,3) q
      by (simp add: w2_def nd'_def)
  next
    assume "child0 nd = Some s \<and> child1 nd = Some p"
    then show ?thesis using reset_pair [of w q nd s p sn pn qs] reset_childless [of w p pn] Cons.prems(2,3) q
      by (simp add: w2_def nd'_def fun_upd_twist [OF q(5)])
  qed
  also have "\<dots> = remove_fathomed_nodes (q # qs) w2" using reset_childless [of w2 q nd' qs] w2q by simp
  finally have eq: "remove_fathomed_nodes (p # q # qs) w = remove_fathomed_nodes (q # qs) w2" .
  have "agree q w w2" using q(1,2,6,7,8) Cons.prems(2) by (auto simp: agree_def w2_def)
  then have cl: "climb w2 q qs" using climb_agree [of w q qs w2 nd nd'] q(3,10) w2q(1,3) by blast
  have up: "up_links w2" unfolding up_links_def
  proof (intro allI impI)
    fix x xn r assume x: "w2 x = Some xn" "parent xn = Some r"
    then have xw: "\<exists>xm. w x = Some xm \<and> parent xm = Some r" "x \<noteq> p" "x \<noteq> s"
      using q(3) by (auto simp: w2_def nd'_def split: if_splits)
    then obtain xm where xm: "w x = Some xm" "parent xm = Some r" by blast
    then have "r \<noteq> q" "r \<noteq> p" "r \<noteq> s" using kids nokids xw(2,3) by blast+
    then show "\<exists>qn. w2 r = Some qn \<and> (child0 qn = Some x \<or> child1 qn = Some x)"
      using Cons.prems(4) xm by (auto simp: up_links_def w2_def)
  qed
  from Cons.IH [OF cl w2q(1,2) up] obtain w' where w': "remove_fathomed_nodes (q # qs) w2 = Some w'"
    "\<forall>x. w2 x = None \<longrightarrow> w' x = None"
    "\<forall>x nd. w2 x = Some nd \<longrightarrow> w' x = (if parent nd \<in> Some ` set qs then None
        else if x = last (q # qs) then Some (nd\<lparr>child0 := None, child1 := None\<rparr>) else Some nd)" by blast
  have some: "w' x = (if parent xn \<in> Some ` set (q # qs) then None
        else if x = last (p # q # qs) then Some (xn\<lparr>child0 := None, child1 := None\<rparr>) else Some xn)"
    if x: "w x = Some xn" for x xn
  proof (cases "x = p \<or> x = s")
    case True
    then show ?thesis using w'(2) x q Cons.prems(2) by (auto simp: w2_def)
  next
    case False
    then have nq: "parent xn \<noteq> Some q" using kids x by blast
    show ?thesis
    proof (cases "x = q")
      case True
      have xn: "xn = nd" using x q(3) True by simp
      then have "nd'\<lparr>child0 := None, child1 := None\<rparr> = xn\<lparr>child0 := None, child1 := None\<rparr>" "nd' = xn\<lparr>child0 := None, child1 := None\<rparr>"
        by (simp_all add: nd'_def)
      moreover have "q \<noteq> last (q # qs) \<Longrightarrow> parent nd \<in> Some ` set qs"
        using q(3,10) by (cases qs) auto
      ultimately show ?thesis using w'(3) [rule_format, OF w2q(1)] True nq w2q(3) xn by auto
    next
      case xq: False
      then have "w2 x = Some xn" using x False by (simp add: w2_def)
      then show ?thesis using w'(3) [rule_format, of x xn] nq by auto
    qed
  qed
  have none: "w' x = None" if "w x = None" for x
  proof -
    from that have "w2 x = None" using q(3) by (cases "x = q") (auto simp: w2_def)
    then show "w' x = None" using w'(2) by blast
  qed
  show ?case
  proof (intro exI [of _ w'] conjI allI impI)
    show "remove_fathomed_nodes (p # q # qs) w = Some w'" using eq w'(1) by simp
  qed (use none some in blast)+
qed

subsection \<open>Closing a leaf\<close>

lemma climb_shape:
  assumes "\<And>x. map_option (\<lambda>nd. (parent nd, child0 nd, child1 nd)) (t x) = map_option (\<lambda>nd. (parent nd, child0 nd, child1 nd)) (u x)"
  shows "climb t p c \<Longrightarrow> climb u p c"
proof (induction c arbitrary: p)
  case (Cons q qs)
  have shape: "\<exists>m. u x = Some m \<and> parent m = parent nd \<and> child0 m = child0 nd \<and> child1 m = child1 nd" if "t x = Some nd" for x nd
    using assms [of x] that by (cases "u x") auto
  from Cons.prems obtain pn nd s sn where q: "t p = Some pn" "parent pn = Some q" "q < p" "t q = Some nd"
    "child0 nd = Some p \<and> child1 nd = Some s \<or> child0 nd = Some s \<and> child1 nd = Some p" "s \<noteq> p"
    "t s = Some sn" "parent sn = Some q" "q < s" "childless sn" "climb t q qs" by auto
  show ?case
    using shape [OF q(1)] shape [OF q(4)] shape [OF q(7)] q Cons.IH unfolding climb.simps by metis
qed simp

definition same_node :: "'f mip_node \<Rightarrow> 'f mip_node \<Rightarrow> bool" where
  "same_node nd nd' \<longleftrightarrow> node_id nd' = node_id nd \<and> parent nd' = parent nd \<and> branch_var nd' = branch_var nd \<and> branch_dir nd' = branch_dir nd \<and>
     branch_var_lower nd' = branch_var_lower nd \<and> branch_var_upper nd' = branch_var_upper nd \<and> fractional_val nd' = fractional_val nd"

lemma climb_top:
  "climb t p c \<Longrightarrow> x \<in> set (p # c) \<Longrightarrow> t x = Some xn \<Longrightarrow> parent xn \<notin> Some ` set c \<Longrightarrow> x = last (p # c)"
proof (induction c arbitrary: p)
  case (Cons q qs)
  show ?case
  proof (cases "x = p")
    case True
    then show ?thesis using Cons.prems by auto
  next
    case False
    then show ?thesis using Cons by auto
  qed
qed simp

lemma climb_internal: "climb t p c \<Longrightarrow> x \<in> set c \<Longrightarrow> \<exists>nd. t x = Some nd \<and> child0 nd \<noteq> None"
  by (induction c arbitrary: p) auto

text \<open>The tree after the removal: the pointers of the nodes that remain are good again.\<close>

lemma close_tree_ok:
  fixes t w :: "('f :: linordered_idom) tree"
  assumes ok: "tree_ok t opn" and p: "p \<in> opn" "t p = Some pn" "childless pn"
    and c: "climb t p c" "stop t (last (p # c))"
      "\<forall>x xn. t x = Some xn \<longrightarrow> parent xn \<in> Some ` set c \<longrightarrow> x \<in> set (p # c) \<or> inactive xn"
    and alive: "\<And>x nd'. w x = Some nd' \<Longrightarrow> \<exists>nd. t x = Some nd \<and> parent nd \<notin> Some ` set c \<and> same_node nd nd' \<and>
      (if x = last (p # c) then inactive nd' \<and> childless nd' \<and> ub \<le> lower_bound nd' else nd' = nd \<and> x \<notin> set (p # c))"
    and kept: "\<And>x nd. t x = Some nd \<Longrightarrow> parent nd \<notin> Some ` set c \<Longrightarrow> x \<notin> set (p # c) \<Longrightarrow> w x = Some nd"
    and kept_top: "\<And>x nd. t x = Some nd \<Longrightarrow> parent nd \<notin> Some ` set c \<Longrightarrow> \<exists>nd'. w x = Some nd' \<and> parent nd' = parent nd"
  shows "tree_ok w (opn - {p})"
proof -
  have not_open: "x \<notin> opn" if "x \<in> set c" for x
    using climb_internal [OF c(1) that] tree_okD [OF ok] by (fastforce simp: node_ok_def)
  have top_in: "last (p # c) \<in> set (p # c)" by (metis last_in_set list.distinct(1))
  have removed: "inactive xn \<and> childless xn \<or> x \<in> set (p # c)" if "t x = Some xn" "parent xn \<in> Some ` set c" for x xn
    using c(3) [rule_format, OF that] tree_okD [OF ok that(1)] by (auto simp: node_ok_def)
  have "node_ok w (opn - {p}) x wn" if w: "w x = Some wn" for x wn
  proof -
    from alive [OF w] obtain nd where nd: "t x = Some nd" "parent nd \<notin> Some ` set c" "same_node nd wn"
      "if x = last (p # c) then inactive wn \<and> childless wn \<and> ub \<le> lower_bound wn else wn = nd \<and> x \<notin> set (p # c)" by blast
    note nok = tree_okD [OF ok nd(1)]
    have par: "parent_ok w x wn"
    proof (cases "parent nd")
      case None
      then show ?thesis using nok nd(3) by (simp add: node_ok_def parent_ok_def same_node_def)
    next
      case (Some r)
      then obtain rn where r: "r < x" "t r = Some rn" "child0 rn = Some x \<or> child1 rn = Some x"
        by (metis nd(1) ok tree_ok_parent)
      have "r \<notin> set (p # c)" using nd(2) Some p(2,3) r(2,3) by auto
      moreover from this have "parent rn \<notin> Some ` set c" using removed [OF r(2)] r(3) by auto
      ultimately have "w r = Some rn" using kept r(2) by blast
      then show ?thesis using r Some nd(3) by (auto simp: parent_ok_def same_node_def)
    qed
    show ?thesis
    proof (cases "x = last (p # c)")
      case True
      then have "x \<notin> opn - {p}" using top_in not_open by auto
      then show ?thesis using True nd(3,4) par nok by (auto simp: node_ok_def same_node_def)
    next
      case False
      then have eq: "wn = nd" "x \<notin> set (p # c)" using nd(4) by auto
      have "two_children w x nd" if two: "two_children t x nd"
      proof -
        from two obtain a b an bn where k: "child0 nd = Some a" "child1 nd = Some b" "a \<noteq> b" "t a = Some an" "t b = Some bn"
          "parent an = Some x" "parent bn = Some x" "\<not> (inactive an \<and> inactive bn)" by (auto simp: two_children_def)
        have np: "Some x \<notin> Some ` set c" using eq(2) by auto
        obtain an' bn' where k': "w a = Some an'" "parent an' = Some x" "w b = Some bn'" "parent bn' = Some x"
          using kept_top [OF k(4)] kept_top [OF k(5)] k(6,7) np by auto
        have same: "y \<noteq> last (p # c) \<Longrightarrow> t y = Some yn \<Longrightarrow> w y = Some yn' \<Longrightarrow> yn' = yn" for y yn yn'
          using alive [of y yn'] by auto
        have "\<not> (inactive an' \<and> inactive bn')"
        proof (cases "last (p # c) \<in> {a, b}")
          case True
          then obtain z zn where z: "z \<noteq> last (p # c)" "child0 nd = Some z \<or> child1 nd = Some z" "t z = Some zn" "\<not> inactive zn"
            using c(2) k nd(1) unfolding stop_def by blast
          then have "z = a \<or> z = b" using k by auto
          then show ?thesis using same [OF z(1,3)] z(4) k' by auto
        next
          case False
          then show ?thesis using same [of a an an'] same [of b bn bn'] k k' by auto
        qed
        then show ?thesis using k k' by (auto simp: two_children_def)
      qed
      then show ?thesis using eq nok par by (auto simp: node_ok_def)
    qed
  qed
  moreover have "w q \<noteq> None" if "q \<in> opn - {p}" for q
  proof -
    have "t q \<noteq> None" using ok that unfolding tree_ok_def by blast
    then obtain qn where q: "t q = Some qn" by blast
    have "\<not> inactive qn" "q \<notin> set (p # c)" using tree_okD [OF ok q] that not_open by (auto simp: node_ok_def)
    then have "parent qn \<notin> Some ` set c" using removed [OF q] by auto
    then show ?thesis using kept q \<open>q \<notin> set (p # c)\<close> by simp
  qed
  moreover have "w 0 \<noteq> None"
  proof -
    obtain rn where "t 0 = Some rn" using ok by (auto simp: tree_ok_def)
    moreover from this have "parent rn = None" using tree_okD [OF ok] by (fastforce simp: node_ok_def parent_ok_def split: option.splits)
    ultimately show ?thesis using kept_top by fastforce
  qed
  ultimately show ?thesis by (simp add: tree_ok_def)
qed

text \<open>What closing \<open>p\<close> does: the open leaves are as before, the other remaining nodes are as before or closed.\<close>

lemma close_node_ok:
  fixes t :: "('f :: linordered_idom) tree"
  assumes ok: "tree_ok t opn" and p: "p \<in> opn" "t p = Some pn" and s: "inactive_status s"
    and ub: "ub \<le> lower_bound pn" "\<forall>q nd. t q = Some nd \<longrightarrow> inactive nd \<longrightarrow> ub \<le> lower_bound nd"
  shows "\<exists>t'. close_node s p t = Some t' \<and> tree_ok t' (opn - {p}) \<and>
    (\<forall>q nd'. t' q = Some nd' \<longrightarrow> (\<exists>nd. t q = Some nd \<and> same_node nd nd' \<and> (nd' = nd \<or> inactive nd' \<and> ub \<le> lower_bound nd')))"
proof -
  have pn: "childless pn" "status pn = ACTIVE" using tree_okD [OF ok p(2)] p(1) by (auto simp: node_ok_def)
  define pn' where "pn' = pn\<lparr>status := s\<rparr>"
  have "agree p t (t(p \<mapsto> pn'))" by (simp add: agree_def)
  from propagate_marks [OF ok ub(2) p(2) this, of pn' "[p]"] s ub(1) obtain c u where c:
    "propagate (t(p \<mapsto> pn')) (parent pn) [p] = Some (u, [p] @ c)" "climb t p c" "stop t (last (p # c))"
    "\<forall>x. x \<notin> set c \<longrightarrow> u x = (t(p \<mapsto> pn')) x"
    "\<forall>x\<in>set c. \<exists>nd nd'. t x = Some nd \<and> u x = Some nd' \<and> marked nd ub nd'"
    "\<forall>x xn. t x = Some xn \<longrightarrow> parent xn \<in> Some ` set c \<longrightarrow> x \<in> set (p # c) \<or> inactive xn"
    by (auto simp: pn'_def)
  have pc: "p \<notin> set c" using climb_less [OF c(2)] by blast
  have cl: "childless pn'" using pn by (simp add: pn'_def)
  have st: "set_status s p t [] = Some (u, p # c)"
    using c(1) cl s p(2) by (simp add: set_status_def update_bound_def flip: pn'_def)
  have u: "\<exists>nd. t x = Some nd \<and> same_node nd nd' \<and> child0 nd' = child0 nd \<and> child1 nd' = child1 nd \<and>
      (if x = p \<or> x \<in> set c then inactive nd' \<and> ub \<le> lower_bound nd' else nd' = nd)" if "u x = Some nd'" for x nd'
  proof (cases "x \<in> set c")
    case True
    then obtain nd n2 where "t x = Some nd" "u x = Some n2" "marked nd ub n2" using c(5) by blast
    then show ?thesis using True that by (auto simp: marked_def same_node_def)
  next
    case False
    then show ?thesis using that c(4) p(2) s ub(1) by (auto simp: same_node_def pn'_def split: if_splits)
  qed
  have un: "u x = None \<longleftrightarrow> t x = None" for x using c(4,5) p(2) by (cases "x \<in> set c") auto
  have shape: "map_option (\<lambda>nd. (parent nd, child0 nd, child1 nd)) (t x) = map_option (\<lambda>nd. (parent nd, child0 nd, child1 nd)) (u x)" for x
    using u [of x] un [of x] by (cases "u x") (auto simp: same_node_def)
  have up: "up_links u" unfolding up_links_def
  proof (intro allI impI)
    fix x nd q assume x: "u x = Some nd" "parent nd = Some q"
    then obtain tn where "t x = Some tn" "parent tn = Some q" using u [OF x(1)] by (auto simp: same_node_def)
    then obtain qn where qn: "t q = Some qn" "child0 qn = Some x \<or> child1 qn = Some x"
      by (metis ok tree_ok_parent)
    then show "\<exists>qn. u q = Some qn \<and> (child0 qn = Some x \<or> child1 qn = Some x)" using shape [of q] by (cases "u q") auto
  qed
  have up': "u p = Some pn'" using c(4) pc by simp
  from remove_climb [OF climb_shape [OF shape c(2)] up' cl up] obtain w where w:
    "remove_fathomed_nodes (p # c) u = Some w" "\<And>x. u x = None \<Longrightarrow> w x = None"
    "\<And>x nd. u x = Some nd \<Longrightarrow> w x = (if parent nd \<in> Some ` set c then None
        else if x = last (p # c) then Some (nd\<lparr>child0 := None, child1 := None\<rparr>) else Some nd)" by blast
  have top: "x = last (p # c)" if "x \<in> set (p # c)" "t x = Some xn" "parent xn \<notin> Some ` set c" for x xn
    using climb_top [OF c(2) that] .
  have alive: "\<exists>nd. t x = Some nd \<and> parent nd \<notin> Some ` set c \<and> same_node nd nd' \<and>
      (if x = last (p # c) then inactive nd' \<and> childless nd' \<and> ub \<le> lower_bound nd' else nd' = nd \<and> x \<notin> set (p # c))"
    if "w x = Some nd'" for x nd'
  proof -
    from that w(2) obtain un where un: "u x = Some un" by (cases "u x") auto
    from u [OF un] obtain nd where nd: "t x = Some nd" "same_node nd un"
      "if x = p \<or> x \<in> set c then inactive un \<and> ub \<le> lower_bound un else un = nd" by blast
    have par: "parent nd \<notin> Some ` set c" "parent nd = parent un"
      using w(3) [OF un] that nd(2) by (auto simp: same_node_def split: if_splits)
    have wx: "nd' = (if x = last (p # c) then un\<lparr>child0 := None, child1 := None\<rparr> else un)"
      using w(3) [OF un] that par by (cases "x = last (p # c)") (simp_all del: last.simps)
    show ?thesis
    proof (cases "x = last (p # c)")
      case True
      then have "x = p \<or> x \<in> set c" by (metis last_in_set list.distinct(1) set_ConsD)
      then have "inactive un \<and> ub \<le> lower_bound un" using nd(3) by simp
      moreover have n: "nd' = un\<lparr>child0 := None, child1 := None\<rparr>" using wx True by (simp del: last.simps)
      moreover have "same_node nd nd'" using nd(2) by (simp add: n same_node_def)
      ultimately have "inactive nd' \<and> childless nd' \<and> ub \<le> lower_bound nd'" by simp
      then show ?thesis using nd(1) par(1) \<open>same_node nd nd'\<close> True by (simp del: last.simps)
    next
      case False
      then have notin: "x \<notin> set (p # c)" using top nd(1) par(1) by blast
      moreover have "nd' = nd" using wx nd(3) False notin by (simp del: last.simps)
      ultimately show ?thesis using nd(1,2) par(1) False wx by (auto simp: same_node_def simp del: last.simps)
    qed
  qed
  have kept: "w x = Some nd" if "t x = Some nd" "parent nd \<notin> Some ` set c" "x \<notin> set (p # c)" for x nd
  proof -
    have "u x = Some nd" using c(4) that by auto
    moreover have "x \<noteq> last (p # c)" using that(3) by (metis last_in_set list.distinct(1))
    ultimately show ?thesis using w(3) that(2) by simp
  qed
  have kept_top: "\<exists>nd'. w x = Some nd' \<and> parent nd' = parent nd" if "t x = Some nd" "parent nd \<notin> Some ` set c" for x nd
    using un [of x] u [of x] w(3) [of x] that by (cases "u x") (auto simp: same_node_def)
  have "tree_ok w (opn - {p})"
    by (rule close_tree_ok [OF ok p pn(1) c(2,3,6)]) (fact alive kept kept_top)+
  moreover have "\<exists>nd. t q = Some nd \<and> same_node nd nd' \<and> (nd' = nd \<or> inactive nd' \<and> ub \<le> lower_bound nd')"
    if "w q = Some nd'" for q nd' using alive [OF that] by (auto split: if_splits)
  ultimately show ?thesis using st w(1) by (auto simp: close_node_def)
qed

end
