(* ===== verification/Bb_Path.thy ===== *)
theory Bb_Path
  imports Bb_Tree
begin

text \<open>
  The path from a node to the root and the bounds it stands for. \<open>get_variable_bounds\<close> follows the path
  and writes the bounds of every node on it; since it goes upwards, the bounds of the outermost node
  that branches on a variable are the ones that remain.
\<close>

type_synonym 'f branch = "int \<times> 'f ext \<times> 'f ext"
type_synonym 'f bounds = "'f ext vec \<times> 'f ext vec"

fun path :: "'f tree \<Rightarrow> ptr \<Rightarrow> 'f branch list \<Rightarrow> bool" where
  "path t q [] = (q = 0 \<and> t q \<noteq> None)"
| "path t q (b # bs) = (\<exists>nd p. t q = Some nd \<and> b = (branch_var nd, branch_var_lower nd, branch_var_upper nd) \<and>
     parent nd = Some p \<and> path t p bs)"

definition put :: "'f branch \<Rightarrow> 'f bounds \<Rightarrow> 'f bounds" where
  "put br b = (case br of (v, l, u) \<Rightarrow> ((fst b)[nat v := l], (snd b)[nat v := u]))"

definition box :: "'f branch list \<Rightarrow> 'f bounds \<Rightarrow> 'f bounds" where
  "box bs b = fold put bs b"

definition sized :: "nat \<Rightarrow> 'f bounds \<Rightarrow> bool" where
  "sized n b \<longleftrightarrow> length (fst b) = n \<and> length (snd b) = n"

text \<open>\<open>x\<close> satisfies the bounds; one box contains another.\<close>

definition within_box :: "nat \<Rightarrow> ('f :: linordered_idom) bounds \<Rightarrow> 'f vec \<Rightarrow> bool" where
  "within_box n b x \<longleftrightarrow> (\<forall>v<n. in_bounds (fst b ! v) (x ! v) (snd b ! v))"

definition subbox :: "nat \<Rightarrow> ('f :: linordered_idom) bounds \<Rightarrow> 'f bounds \<Rightarrow> bool" where
  "subbox n b b' \<longleftrightarrow> (\<forall>v<n. \<forall>y. in_bounds (fst b ! v) y (snd b ! v) \<longrightarrow> in_bounds (fst b' ! v) y (snd b' ! v))"

fun on_branch :: "('f :: linordered_idom) vec \<Rightarrow> 'f branch \<Rightarrow> bool" where
  "on_branch x (v, l, u) = in_bounds l (x ! nat v) u"

fun branch_in :: "nat \<Rightarrow> ('f :: linordered_idom) bounds \<Rightarrow> 'f branch \<Rightarrow> bool" where
  "branch_in n b (v, l, u) = (0 \<le> v \<and> nat v < n \<and> (\<forall>y. in_bounds l y u \<longrightarrow> in_bounds (fst b ! nat v) y (snd b ! nat v)))"

subsection \<open>Paths\<close>

lemma path_exists:
  assumes ok: "tree_ok t opn"
  shows "t q = Some nd \<Longrightarrow> \<exists>bs. path t q bs"
proof (induction q arbitrary: nd rule: less_induct)
  case (less q)
  show ?case
  proof (cases "parent nd")
    case None
    then have "q = 0" using tree_okD [OF ok less.prems] by (simp add: node_ok_def parent_ok_def)
    then show ?thesis using less.prems by (intro exI [of _ "[]"]) simp
  next
    case (Some p)
    then obtain pn where "p < q" "t p = Some pn" using tree_ok_parent [OF ok less.prems] by blast
    then obtain bs where "path t p bs" using less.IH by blast
    then show ?thesis using less.prems Some
      by (intro exI [of _ "(branch_var nd, branch_var_lower nd, branch_var_upper nd) # bs"]) simp
  qed
qed

lemma path_root: "tree_ok t opn \<Longrightarrow> path t q bs \<Longrightarrow> q = 0 \<longleftrightarrow> bs = []"
  by (cases bs) (auto dest!: tree_okD simp: node_ok_def parent_ok_def split: option.splits)

lemma path_unique: "tree_ok t opn \<Longrightarrow> path t q bs \<Longrightarrow> path t q bs' \<Longrightarrow> bs = bs'"
proof (induction bs arbitrary: q bs')
  case Nil
  then show ?case using path_root by blast
next
  case (Cons b bs)
  then obtain b' cs where "bs' = b' # cs" using path_root [OF Cons.prems(1)] by (metis list.exhaust)
  then show ?case using Cons by fastforce
qed

text \<open>Paths survive changes of the tree that keep the branching data of the nodes that remain.\<close>

lemma path_same:
  assumes ok: "tree_ok t' opn" and same: "\<And>q nd'. t' q = Some nd' \<Longrightarrow> \<exists>nd. t q = Some nd \<and> same_node nd nd'"
  shows "path t q bs \<Longrightarrow> t' q = Some nd' \<Longrightarrow> path t' q bs"
proof (induction bs arbitrary: q nd')
  case (Cons b bs)
  then obtain nd p where nd: "t q = Some nd" "b = (branch_var nd, branch_var_lower nd, branch_var_upper nd)"
    "parent nd = Some p" "path t p bs" by auto
  have s: "same_node nd nd'" using same [OF Cons.prems(2)] nd(1) by auto
  then have "parent nd' = Some p" using nd(3) by (simp add: same_node_def)
  then obtain pn where "t' p = Some pn" using tree_ok_parent [OF ok Cons.prems(2)] by blast
  then have "path t' p bs" using Cons.IH nd(4) by blast
  then show ?case using Cons.prems(2) nd s by (auto simp: same_node_def)
qed simp

lemma path_live: "path t q bs \<Longrightarrow> t q \<noteq> None"
  by (cases bs) auto

subsection \<open>Boxes\<close>

lemma sized_put [simp]: "sized n b \<Longrightarrow> sized n (put br b)"
  by (cases br) (simp add: sized_def put_def)

lemma sized_box [simp]: "sized n b \<Longrightarrow> sized n (box bs b)"
  unfolding box_def by (induction bs arbitrary: b) auto

lemma box_simps [simp]: "box [] b = b" "box (br # bs) b = box bs (put br b)"
  by (simp_all add: box_def)

lemma nth_put:
  assumes "sized n b" "w < n"
  shows "fst (put (v, l, u) b) ! w = (if nat v = w then l else fst b ! w)"
    "snd (put (v, l, u) b) ! w = (if nat v = w then u else snd b ! w)"
  using assms by (auto simp: put_def sized_def)

lemma subbox_refl [simp]: "subbox n b b" by (simp add: subbox_def)

lemma subbox_within: "subbox n b b' \<Longrightarrow> within_box n b x \<Longrightarrow> within_box n b' x"
  by (simp add: subbox_def within_box_def)

lemma put_subbox: "sized n b \<Longrightarrow> subbox n b b' \<Longrightarrow> branch_in n b' br \<Longrightarrow> subbox n (put br b) b'"
  by (cases br) (auto simp: subbox_def nth_put)

lemma box_subbox: "sized n b \<Longrightarrow> subbox n b b' \<Longrightarrow> \<forall>br\<in>set bs. branch_in n b' br \<Longrightarrow> subbox n (box bs b) b'"
proof (induction bs arbitrary: b)
  case (Cons br bs)
  then show ?case using put_subbox [of n b b' br] by simp
qed simp

lemma put_mono: "sized n b \<Longrightarrow> sized n b' \<Longrightarrow> subbox n b b' \<Longrightarrow> subbox n (put br b) (put br b')"
  by (cases br) (auto simp: subbox_def nth_put)

lemma box_mono: "sized n b \<Longrightarrow> sized n b' \<Longrightarrow> subbox n b b' \<Longrightarrow> subbox n (box bs b) (box bs b')"
proof (induction bs arbitrary: b b')
  case (Cons br bs)
  then show ?case using put_mono [of n b b' br] by simp
qed simp

lemma box_within:
  "sized n b \<Longrightarrow> within_box n b x \<Longrightarrow> \<forall>br\<in>set bs. on_branch x br \<Longrightarrow> within_box n (box bs b) x"
proof (induction bs arbitrary: b)
  case (Cons br bs)
  obtain v l u where br: "br = (v, l, u)" by (cases br)
  have "within_box n (put br b) x"
    using Cons.prems by (auto simp: br within_box_def nth_put)
  then show ?case using Cons by simp
qed simp

text \<open>The bounds that remain for a variable: those of the outermost branch on it.\<close>

lemma box_nth:
  assumes "sized n b" "v < n" "\<forall>br\<in>set bs. 0 \<le> fst br"
  shows "(fst (box bs b) ! v, snd (box bs b) ! v) =
    (case filter (\<lambda>br. fst br = int v) bs of [] \<Rightarrow> (fst b ! v, snd b ! v) | c # cs \<Rightarrow> snd (last (c # cs)))"
  using assms
proof (induction bs arbitrary: b)
  case (Cons br bs)
  obtain w l u where br: "br = (w, l, u)" by (cases br)
  have IH: "(fst (box bs (put br b)) ! v, snd (box bs (put br b)) ! v) =
    (case filter (\<lambda>br. fst br = int v) bs of [] \<Rightarrow> (fst (put br b) ! v, snd (put br b) ! v) | c # cs \<Rightarrow> snd (last (c # cs)))"
    using Cons.prems by (intro Cons.IH) auto
  have "(fst (put br b) ! v, snd (put br b) ! v) = (if w = int v then (l, u) else (fst b ! v, snd b ! v))"
    using Cons.prems by (auto simp: br nth_put)
  then show ?case using IH by (auto simp: br split: list.splits)
qed simp

subsection \<open>The bounds of a node\<close>

lemma write_bounds_put:
  "sized n b \<Longrightarrow> 0 \<le> branch_var nd \<Longrightarrow> nat (branch_var nd) < n \<Longrightarrow>
   write_bounds nd b = Some (put (branch_var nd, branch_var_lower nd, branch_var_upper nd) b)"
  by (simp add: write_bounds_def put_def sized_def Let_def)

lemma apply_ancestors_path:
  assumes ok: "tree_ok t opn"
  shows "path t p bs \<Longrightarrow> sized n b \<Longrightarrow> \<forall>br\<in>set bs. 0 \<le> fst br \<and> nat (fst br) < n \<Longrightarrow>
    apply_ancestors t (Some p) b = Some (box bs b)"
proof (induction bs arbitrary: p b)
  case Nil
  then obtain nd where "t p = Some nd" "p = 0" by auto
  moreover from this have "node_id nd = 0" using tree_okD [OF ok] by (auto simp: node_ok_def)
  ultimately show ?case by (simp add: apply_ancestors.simps)
next
  case (Cons br bs)
  then obtain nd q where nd: "t p = Some nd" "br = (branch_var nd, branch_var_lower nd, branch_var_upper nd)"
    "parent nd = Some q" "path t q bs" by auto
  have "node_id nd \<noteq> 0" using tree_okD [OF ok nd(1)] nd(3) by (auto simp: node_ok_def parent_ok_def)
  moreover have "write_bounds nd b = Some (put br b)" using Cons.prems nd(2) by (auto intro: write_bounds_put)
  ultimately show ?case using Cons.IH [OF nd(4), of "put br b"] Cons.prems nd
    by (simp add: apply_ancestors.simps [of t "Some p"])
qed

lemma get_variable_bounds_path:
  assumes ok: "tree_ok t opn" and p: "path t p bs" "p \<noteq> 0" and b: "sized n b" "\<forall>br\<in>set bs. 0 \<le> fst br \<and> nat (fst br) < n"
  shows "get_variable_bounds t p b = Some (box bs b)"
proof -
  obtain br cs where bs: "bs = br # cs" using p path_root [OF ok p(1)] by (cases bs) auto
  obtain nd q where nd: "t p = Some nd" "br = (branch_var nd, branch_var_lower nd, branch_var_upper nd)"
    "parent nd = Some q" "path t q cs" using p(1) bs by auto
  have "write_bounds nd b = Some (put br b)" using b nd(2) bs by (auto intro: write_bounds_put)
  then show ?thesis
    using apply_ancestors_path [OF ok nd(4), of n "put br b"] b nd bs by (simp add: get_variable_bounds_def)
qed

end
