(* ===== verification/Pc_Facts.thy ===== *)
theory Pc_Facts
  imports Pseudo_Costs
begin

text \<open>
  Facts about pseudo costs: the sums stay finite or infinite upwards, so that the scores are
  numbers above the initial maximum and the selection finds a variable with the best score; and the
  threads of strong branching divide the fractional variables among them.
\<close>

subsection \<open>Values that are finite or plus infinity\<close>

definition upward :: "'f ext \<Rightarrow> bool" where "upward x \<longleftrightarrow> x \<noteq> NaN \<and> x \<noteq> MInf"

lemma upward_simps [simp]: "upward (Fin v)" "upward PInf" "\<not> upward NaN" "\<not> upward MInf"
  by (simp_all add: upward_def)

lemma upward_0_1 [simp]: "upward 0" "upward 1" for u :: "'f :: linordered_idom"
  by (simp_all add: zero_ext_def one_ext_def)

lemma upward_plus [intro]: "upward a \<Longrightarrow> upward b \<Longrightarrow> upward (a + b)" for a :: "'f :: linordered_idom ext"
  by (cases a; cases b) simp_all

lemma upward_divide [intro]: "upward a \<Longrightarrow> 0 < f \<Longrightarrow> upward (a / Fin f)" for a :: "'f :: linordered_field ext"
  by (cases a) simp_all

text \<open>A factor of a score: at least \<open>eps\<close>, hence positive.\<close>

lemma score_factor:
  fixes a :: "'f :: floor_ceiling ext"
  assumes "upward a" "0 < f"
  shows "(\<exists>v>0. ext_max (Fin f * a) (Fin score_eps) = Fin v) \<or> ext_max (Fin f * a) (Fin score_eps) = PInf"
proof -
  have e: "(0 :: 'f) < score_eps" by (simp add: score_eps_def)
  show ?thesis using assms
  proof (cases a)
    case (Fin v)
    then show ?thesis using e by (auto simp: ext_max_def intro: less_le_trans)
  qed (auto simp: ext_max_def Let_def)
qed

lemma branch_fraction_pos:
  fixes v :: "'f :: floor_ceiling"
  assumes "v \<notin> \<int>"
  shows "0 < branch_fraction d v"
proof -
  have "of_int \<lfloor>v\<rfloor> \<noteq> v" "of_int \<lceil>v\<rceil> \<noteq> v" using assms by (metis Ints_of_int)+
  then have "of_int \<lfloor>v\<rfloor> < v" "v < of_int \<lceil>v\<rceil>"
    by (metis of_int_floor_le order_le_less, metis le_of_int_ceiling order_le_less)
  then show ?thesis by (simp add: branch_fraction_def)
qed

subsection \<open>The invariant of the costs\<close>

definition pc_ok :: "nat \<Rightarrow> 'f pseudo_costs \<Rightarrow> bool" where
  "pc_ok n pc \<longleftrightarrow> length (pseudo_cost_sum_up pc) = n \<and> length (pseudo_cost_sum_down pc) = n \<and>
     length (pseudo_cost_num_up pc) = n \<and> length (pseudo_cost_num_down pc) = n \<and>
     (\<forall>x\<in>set (pseudo_cost_sum_up pc). upward x) \<and> (\<forall>x\<in>set (pseudo_cost_sum_down pc). upward x)"

lemma pc_ok_new [simp]: "pc_ok n (pseudo_costs_new n)"
  by (simp add: pc_ok_def pseudo_costs_new_def)

lemma set_update_upward: "Ball (set xs) upward \<Longrightarrow> upward y \<Longrightarrow> Ball (set (xs[j := y])) upward"
  by (metis insert_iff set_update_subset_insert subsetD)

lemma record_change_ok:
  assumes "pc_ok n pc" "j < n" "upward c" "0 < f"
  shows "\<exists>pc'. record_change d j c f pc = Some pc' \<and> pc_ok n pc'"
proof -
  have l: "length (pseudo_cost_sum_up pc) = n" "length (pseudo_cost_sum_down pc) = n"
    "length (pseudo_cost_num_up pc) = n" "length (pseudo_cost_num_down pc) = n"
    and up: "Ball (set (pseudo_cost_sum_up pc)) upward" "Ball (set (pseudo_cost_sum_down pc)) upward"
    using assms(1) by (simp_all add: pc_ok_def)
  define x where "x = (if d then pseudo_cost_sum_down pc else pseudo_cost_sum_up pc) ! j + c / Fin f"
  have "upward (pseudo_cost_sum_down pc ! j)" "upward (pseudo_cost_sum_up pc ! j)"
    using l(1,2) up assms(2) by (metis nth_mem)+
  then have "upward ((if d then pseudo_cost_sum_down pc else pseudo_cost_sum_up pc) ! j)" by (cases d) (simp_all only: if_True if_False)
  from upward_plus [OF this upward_divide [OF assms(3,4)]] have x: "upward x" unfolding x_def .
  note S = set_update_upward [OF up(2) x, of j] set_update_upward [OF up(1) x, of j]
  have "record_change d j c f pc = Some (if d
      then pc\<lparr>pseudo_cost_sum_down := (pseudo_cost_sum_down pc)[j := x], pseudo_cost_num_down := (pseudo_cost_num_down pc)[j := pseudo_cost_num_down pc ! j + 1]\<rparr>
      else pc\<lparr>pseudo_cost_sum_up := (pseudo_cost_sum_up pc)[j := x], pseudo_cost_num_up := (pseudo_cost_num_up pc)[j := pseudo_cost_num_up pc ! j + 1]\<rparr>)"
    using l assms(2) by (simp add: record_change_def x_def)
  moreover have "pc_ok n (if d
      then pc\<lparr>pseudo_cost_sum_down := (pseudo_cost_sum_down pc)[j := x], pseudo_cost_num_down := (pseudo_cost_num_down pc)[j := pseudo_cost_num_down pc ! j + 1]\<rparr>
      else pc\<lparr>pseudo_cost_sum_up := (pseudo_cost_sum_up pc)[j := x], pseudo_cost_num_up := (pseudo_cost_num_up pc)[j := pseudo_cost_num_up pc ! j + 1]\<rparr>)"
    using l up S by (simp add: pc_ok_def)
  ultimately show ?thesis by blast
qed

lemma record_change_down:
  assumes "pc_ok n pc" "j < n" "upward c" "0 < f"
  obtains pc' where "record_change d j c f pc = Some pc'" "pc_ok n pc'"
  using record_change_ok [OF assms] by blast

lemma update_pseudo_costs_ok:
  assumes "pc_ok n pc" "0 \<le> branch_var nd" "nat (branch_var nd) < n" "fractional_val nd \<notin> \<int>" "lower_bound nd = Fin c"
  shows "\<exists>pc'. update_pseudo_costs nd (Fin v) pc = Some pc' \<and> pc_ok n pc'"
  using record_change_ok [OF assms(1,3), of "Fin (v - c)" "branch_fraction (branch_dir nd = 0) (fractional_val nd)"]
    branch_fraction_pos [OF assms(4)] assms(2,5)
  by (simp add: update_pseudo_costs_def Let_def minus_ext_def)

lemma average_upward:
  assumes "\<forall>x\<in>set xs. upward x" "length nums = length xs"
  shows "upward (snd (average xs nums :: nat \<times> ('f :: floor_ceiling) ext))"
proof -
  define loop where "loop = for_range 0 (length xs) (\<lambda>j (cnt, tot).
            if nums ! j > 0 then (cnt + 1, tot + xs ! j / Fin (of_nat (nums ! j))) else (cnt, tot)) (0 :: nat, 0)"
  have "upward (snd loop)" unfolding loop_def
  proof (rule for_range_inv_const)
    fix j and t :: "nat \<times> 'f ext"
    assume "j < length xs" "upward (snd t)"
    moreover from this have "0 < nums ! j \<Longrightarrow> upward (xs ! j / Fin (of_nat (nums ! j)))" using assms(1) by (auto simp: upward_divide)
    ultimately show "upward (snd (case t of (cnt, tot) \<Rightarrow> if nums ! j > 0 then (cnt + 1, tot + xs ! j / Fin (of_nat (nums ! j))) else (cnt, tot)))"
      by (auto split: prod.splits)
  qed simp
  then show ?thesis
    by (auto simp: average_def Let_def split: prod.splits simp flip: loop_def)
qed

lemma branch_score_pos:
  fixes pc :: "('f :: floor_ceiling) pseudo_costs"
  assumes pc: "pc_ok n pc" and j: "j < n" "x ! j \<notin> \<int>"
  shows "(\<exists>v>0. branch_score pc x j = Fin v) \<or> branch_score pc x j = PInf"
proof -
  define d where "d = (if pseudo_cost_num_down pc ! j \<noteq> 0 then pseudo_cost_sum_down pc ! j / Fin (of_nat (pseudo_cost_num_down pc ! j))
    else snd (average (pseudo_cost_sum_down pc) (pseudo_cost_num_down pc)))"
  define u where "u = (if pseudo_cost_num_up pc ! j \<noteq> 0 then pseudo_cost_sum_up pc ! j / Fin (of_nat (pseudo_cost_num_up pc ! j))
    else snd (average (pseudo_cost_sum_up pc) (pseudo_cost_num_up pc)))"
  have "upward d" "upward u" using pc j(1)
    by (auto simp: d_def u_def pc_ok_def intro!: upward_divide average_upward)
  note f = score_factor [OF this(1) branch_fraction_pos [OF j(2), of True]] score_factor [OF this(2) branch_fraction_pos [OF j(2), of False]]
  have "branch_score pc x j = ext_max (Fin (branch_fraction True (x ! j)) * d) (Fin score_eps) *
      ext_max (Fin (branch_fraction False (x ! j)) * u) (Fin score_eps)"
    by (simp add: branch_score_def initialized_def d_def u_def Let_def split: prod.splits)
  then show ?thesis using f by (auto simp: Let_def)
qed

subsection \<open>Selection\<close>

lemma not_less_ext: "upward a \<Longrightarrow> upward b \<Longrightarrow> \<not> a < b \<Longrightarrow> b \<le> a" for a :: "'f :: linorder ext"
  by (cases a; cases b) (auto simp: less_eq_ext_def)

lemma le_less_ext: "a \<le> b \<Longrightarrow> b < c \<Longrightarrow> a \<le> c" for a :: "'f :: linorder ext"
  by (cases a; cases b; cases c) (auto simp: less_eq_ext_def)

lemma variable_selection_ok:
  fixes pc :: "('f :: floor_ceiling) pseudo_costs"
  assumes pc: "pc_ok n pc" and ne: "fractional \<noteq> []" and fr: "\<forall>j\<in>set fractional. j < n \<and> x ! j \<notin> \<int>"
  shows "\<exists>j\<in>set fractional. variable_selection pc fractional x = Some j \<and>
    (\<forall>k\<in>set fractional. branch_score pc x k \<le> branch_score pc x j)"
proof -
  let ?score = "map (branch_score pc x) fractional"
  define body where "body = (\<lambda>k (bv, max_score, select :: nat option).
    if ?score ! k > max_score then (fractional ! k, ?score ! k, Some k) else (bv, max_score, select))"
  have up: "upward (?score ! k)" "Fin (-1) < ?score ! k" if "k < length fractional" for k
    using branch_score_pos [OF pc, of "fractional ! k" x] fr that by (auto simp: nth_mem intro: less_trans [of _ 0])
  let ?P = "\<lambda>i (bv, m, sel :: nat option). if i = 0 then m = Fin (-1) else sel \<noteq> None \<and> upward m \<and> (\<exists>k<i. bv = fractional ! k \<and> m = ?score ! k) \<and> (\<forall>k<i. ?score ! k \<le> m)"
  have "?P (length fractional) (for_range 0 (length fractional) body (fractional ! 0, Fin (-1), None))"
  proof (rule for_range_inv)
    fix i t assume i: "i < length fractional" and P: "?P i t"
    obtain bv m sel where t: "t = (bv, m, sel)" by (metis prod_cases3)
    show "?P (Suc i) (body i t)"
    proof (cases "?score ! i > m")
      case True
      have "?score ! k \<le> ?score ! i" if "k < Suc i" for k
      proof (cases "k = i")
        case True
        then show ?thesis using up(1) [OF i] by (auto simp: less_eq_ext_def upward_def)
      next
        case False
        then show ?thesis using that P True t by (auto simp: less_Suc_eq intro: le_less_ext)
      qed
      then show ?thesis using True up(1) [OF i] by (auto simp: body_def t)
    next
      case False
      then have "i \<noteq> 0" using P up(2) [OF i] by (cases "i = 0") (simp_all add: t)
      moreover from this have "?score ! i \<le> m" using False P up(1) [OF i] t by (auto intro: not_less_ext)
      ultimately show ?thesis using False P t by (auto simp: body_def less_Suc_eq)
    qed
  qed auto
  then obtain bv m sel where R: "for_range 0 (length fractional) body (fractional ! 0, Fin (-1), None) = (bv, m, sel)"
    "sel \<noteq> None" "\<exists>k<length fractional. bv = fractional ! k \<and> m = ?score ! k" "\<forall>k<length fractional. ?score ! k \<le> m"
    using ne by (cases "for_range 0 (length fractional) body (fractional ! 0, Fin (-1), None)") auto
  have "variable_selection pc fractional x = Some bv"
    using ne R(1,2) by (simp add: variable_selection_def Let_def body_def)
  moreover have "bv \<in> set fractional" using R(3) by auto
  moreover have "branch_score pc x k \<le> branch_score pc x bv" if "k \<in> set fractional" for k
    using R(3,4) that by (auto simp: in_set_conv_nth)
  ultimately show ?thesis by blast
qed

subsection \<open>Strong branching\<close>

lemma branch_change_upward [simp]: "upward (branch_change P v r)"
  by (simp add: branch_change_def minus_ext_def)

definition changes_ok :: "nat \<Rightarrow> 'f ext vec \<times> 'f ext vec \<Rightarrow> bool" where
  "changes_ok k out \<longleftrightarrow> length (fst out) = k \<and> length (snd out) = k \<and>
     Ball (set (fst out)) upward \<and> Ball (set (snd out)) upward"

lemma changes_ok_write: "changes_ok k out \<Longrightarrow> upward v \<Longrightarrow> changes_ok k ((fst out)[i := v], snd out) \<and> changes_ok k (fst out, (snd out)[i := v])"
  using set_update_upward unfolding changes_ok_def by (metis fst_conv length_list_update snd_conv)

lemma strong_branch_loop_ok:
  "changes_ok k out \<Longrightarrow> changes_ok k (strong_branch_loop late solve P fractional root_obj root_soln ks clock child out)"
proof (induction ks arbitrary: clock child out)
  case (Cons i ks)
  let ?a = "branch_change (branch_problem P root_soln (fractional ! i) True child) root_obj (solve (branch_problem P root_soln (fractional ! i) True child))"
  note 1 = changes_ok_write [OF Cons.prems branch_change_upward, THEN conjunct1]
  note 2 = changes_ok_write [OF 1 branch_change_upward, THEN conjunct2]
  show ?case using Cons.IH [OF 2] 1 2 Cons.prems by (simp add: Let_def)
qed simp

lemma strong_update_ok:
  fixes pc :: "('f :: floor_ceiling) pseudo_costs"
  assumes "pc_ok n pc" "changes_ok (length fractional) (down, up)" "\<forall>j\<in>set fractional. j < n \<and> x ! j \<notin> \<int>"
  shows "\<exists>pc'. update_pseudo_costs_from_strong_branching fractional x down up pc = Some pc' \<and> pc_ok n pc'"
  unfolding update_pseudo_costs_from_strong_branching_def
proof (rule for_range_inv_const)
  fix k and r :: "'f pseudo_costs option"
  assume k: "k < length fractional" and r: "\<exists>pc'. r = Some pc' \<and> pc_ok n pc'"
  then obtain pc1 where pc1: "r = Some pc1" "pc_ok n pc1" by blast
  have j: "fractional ! k < n" "x ! (fractional ! k) \<notin> \<int>" using assms(3) k by auto
  have c: "upward (down ! k)" "upward (up ! k)"
    using assms(2) k by (metis changes_ok_def fst_conv nth_mem, metis changes_ok_def snd_conv nth_mem)
  obtain pc2 where pc2: "record_change True (fractional ! k) (down ! k) (branch_fraction True (x ! (fractional ! k))) pc1 = Some pc2" "pc_ok n pc2"
    using record_change_down [OF pc1(2) j(1) c(1) branch_fraction_pos [OF j(2)]] by blast
  obtain pc3 where "record_change False (fractional ! k) (up ! k) (branch_fraction False (x ! (fractional ! k))) pc2 = Some pc3" "pc_ok n pc3"
    using record_change_down [OF pc2(2) j(1) c(2) branch_fraction_pos [OF j(2)]] by blast
  then show "\<exists>pc'. (let j = fractional ! k in Option.bind (Option.bind r (record_change True j (down ! k) (branch_fraction True (x ! j))))
      (record_change False j (up ! k) (branch_fraction False (x ! j)))) = Some pc' \<and> pc_ok n pc'"
    using pc1(1) pc2(1) by (simp add: Let_def)
qed (use assms(1) in simp)

lemma strong_branching_ok:
  fixes pc :: "('f :: floor_ceiling) pseudo_costs"
  assumes "pc_ok n pc" "\<forall>j\<in>set fractional. j < n \<and> x ! j \<notin> \<int>"
  shows "\<exists>pc'. strong_branching late solve num_threads P fractional root_obj x ([], []) pc = Some pc' \<and> pc_ok n pc'"
proof -
  let ?k = "length fractional"
  define out where "out = (if ?k > num_threads
     then for_range 0 num_threads (\<lambda>tid out. let (start, end_pos) = get_partitioning ?k num_threads tid
            in strong_branch_helper (late tid) solve start end_pos P fractional root_obj x out) (replicate ?k 0, replicate ?k 0)
     else strong_branch_helper (late 0) solve 0 ?k P fractional root_obj x (replicate ?k 0, replicate ?k 0))"
  have init: "changes_ok ?k (replicate ?k (0 :: 'f ext), replicate ?k 0)" by (simp add: changes_ok_def)
  have helper: "changes_ok ?k out' \<Longrightarrow> changes_ok ?k (strong_branch_helper l solve a b P fractional root_obj x out')" for l a b out'
    by (simp add: strong_branch_helper_def strong_branch_loop_ok)
  have "changes_ok ?k out"
  proof (cases "?k > num_threads")
    case True
    have "changes_ok ?k (for_range 0 num_threads (\<lambda>tid out. let (start, end_pos) = get_partitioning ?k num_threads tid
            in strong_branch_helper (late tid) solve start end_pos P fractional root_obj x out) (replicate ?k 0, replicate ?k 0))"
      by (rule for_range_inv_const [where P = "changes_ok ?k", OF init])
        (simp only: helper Let_def split: prod.split, blast intro: helper)
    then show ?thesis using True by (simp only: out_def if_True)
  next
    case False
    then show ?thesis using helper [OF init] by (simp only: out_def if_False)
  qed
  then have "changes_ok ?k (fst out, snd out)" by simp
  from strong_update_ok [OF assms(1) this assms(2)] show ?thesis
    by (simp add: strong_branching_def resize_def Let_def out_def)
qed

subsection \<open>The division of the work\<close>

lemma get_partitioning_eq:
  "get_partitioning N T tid = (tid * (N div T) + min tid (N mod T), Suc tid * (N div T) + min (Suc tid) (N mod T))"
  by (auto simp: get_partitioning_def Let_def algebra_simps)

lemma concat_upt: "(\<And>i. i < k \<Longrightarrow> s i \<le> s (Suc i)) \<Longrightarrow> concat (map (\<lambda>i. [s i..<s (Suc i)]) [0..<k]) = [s 0..<s k]"
proof (induction k)
  case (Suc k)
  have le: "s 0 \<le> s i" if "i \<le> k" for i using that
  proof (induction i)
    case (Suc i)
    then show ?case using Suc.prems \<open>\<And>i. i < Suc k \<Longrightarrow> s i \<le> s (Suc i)\<close> [of i] by simp
  qed simp
  have "concat (map (\<lambda>i. [s i..<s (Suc i)]) [0..<Suc k]) = [s 0..<s k] @ [s k..<s (Suc k)]"
    using Suc.IH Suc.prems by simp
  also have "\<dots> = [s 0..<s (Suc k)]"
    using upt_add_eq_append [OF le [of k], of "s (Suc k) - s k"] Suc.prems [of k] by simp
  finally show ?case .
qed simp

lemma partition_concat:
  assumes "0 < T"
  shows "concat (map (\<lambda>tid. [fst (get_partitioning N T tid)..<snd (get_partitioning N T tid)]) [0..<T]) = [0..<N]"
proof -
  define s where "s = (\<lambda>tid. tid * (N div T) + min tid (N mod T))"
  have "concat (map (\<lambda>i. [s i..<s (Suc i)]) [0..<T]) = [s 0..<s T]" by (rule concat_upt) (simp add: s_def)
  moreover have "s T = N" using assms mod_less_divisor [of T N] by (simp add: s_def min_absorb2)
  moreover have "get_partitioning N T tid = (s tid, s (Suc tid))" for tid by (simp add: get_partitioning_eq s_def)
  ultimately show ?thesis by (simp add: s_def)
qed

end
