(* ===== verification/Bb_Search.thy ===== *)
theory Bb_Search
  imports Branch_Bound Bb_Path Pc_Facts
begin

text \<open>
  The runs of branch and bound. \<open>bb_step\<close> interleaves the steps of \<open>solve\<close> with the solutions that
  other threads inject; the results of the simplex solver are constrained only by the relations of
  \<open>lp_solver\<close>, and \<open>solver_sound\<close> states what the search relies on. \<open>search_ok\<close> is the invariant of the
  search: the tree is well linked, every integer feasible point is no better than the upper bound or
  lies in the box of an open node, and the bound of an open node is a lower bound of its box.
\<close>

subsection \<open>Steps\<close>

record 'f lp_solver =
  phase2 :: "'f lp_problem \<Rightarrow> 'f ext \<Rightarrow> dual_status \<times> 'f vec \<times> variable_status list \<Rightarrow> bool"
  relaxation :: "'f lp_problem \<Rightarrow> lp_status \<times> 'f vec \<times> variable_status list \<Rightarrow> bool"

definition lp_solved :: "('f :: floor_ceiling) lp_problem \<Rightarrow> 'f vec \<Rightarrow> bool" where
  "lp_solved P x \<longleftrightarrow> lp_feasible P x \<and> (\<forall>y. lp_feasible P y \<longrightarrow> compute_objective P x \<le> compute_objective P y)"

text \<open>
  What the results mean that a search may rely on: an optimal point is feasible and optimal, an infeasible problem
  has no point, a cut-off problem none below the cut-off. Any other status (time or iteration limit,
  numerical issues) promises nothing of the solution but, at the root, the size it was constructed with.
\<close>

definition node_result_sound :: "('f :: floor_ceiling) lp_problem \<Rightarrow> 'f ext \<Rightarrow> dual_status \<Rightarrow> 'f vec \<Rightarrow> bool" where
  "node_result_sound P cut_off s x \<longleftrightarrow> (s = OPTIMAL \<longrightarrow> lp_solved P x) \<and> (s = DUAL_UNBOUNDED \<longrightarrow> (\<forall>y. \<not> lp_feasible P y)) \<and>
     (s = CUTOFF \<longrightarrow> (\<forall>y. lp_feasible P y \<longrightarrow> cut_off \<le> Fin (compute_objective P y)))"

definition root_result_sound :: "('f :: floor_ceiling) lp_problem \<Rightarrow> lp_status \<Rightarrow> 'f vec \<Rightarrow> bool" where
  "root_result_sound P s x \<longleftrightarrow> (s = LP_INFEASIBLE \<longrightarrow> (\<forall>y. \<not> lp_feasible P y)) \<and> (s = LP_OPTIMAL \<longrightarrow> lp_solved P x) \<and>
     (s \<notin> {LP_INFEASIBLE, LP_UNBOUNDED, LP_TIME_LIMIT} \<longrightarrow> length x = num_cols P)"

definition solver_sound :: "('f :: floor_ceiling) lp_solver \<Rightarrow> bool" where
  "solver_sound E \<longleftrightarrow> (\<forall>P cut_off s x v. phase2 E P cut_off (s, x, v) \<longrightarrow> node_result_sound P cut_off s x) \<and>
     (\<forall>P s x v. relaxation E P (s, x, v) \<longrightarrow> root_result_sound P s x)"

lemma solver_sound_node: "solver_sound E \<Longrightarrow> phase2 E P cut_off (s, x, v) \<Longrightarrow> node_result_sound P cut_off s x"
  unfolding solver_sound_def by blast

lemma solver_sound_root: "solver_sound E \<Longrightarrow> relaxation E P (s, x, v) \<Longrightarrow> root_result_sound P s x"
  unfolding solver_sound_def by blast

text \<open>
  \<open>solve\<close> goes on with the solution of the root relaxation after every status but three, also after one that
  says nothing about it (numerical issues, iteration limit). The root is decided when that does not happen.
\<close>

definition root_decided :: "('f :: floor_ceiling) lp_solver \<Rightarrow> 'f branch_and_bound \<Rightarrow> bool" where
  "root_decided E B \<longleftrightarrow> (\<forall>s x v. relaxation E (original_lp B) (s, x, v) \<longrightarrow>
     s \<in> {LP_OPTIMAL, LP_INFEASIBLE, LP_UNBOUNDED, LP_TIME_LIMIT})"

inductive bb_step :: "('f :: floor_ceiling) lp_solver \<Rightarrow> 'f branch_and_bound \<Rightarrow> 'f bb_state \<Rightarrow> 'f bb_state \<Rightarrow> bool" for E B where
  inject: "set_new_solution B x st = Some st' \<Longrightarrow> bb_step E B st st'"
| guess: "\<lbrakk> phase st = Guess; try_guess B g st = Some st' \<rbrakk> \<Longrightarrow> bb_step E B st st'"
| start: "\<lbrakk> phase st = Root; relaxation E (original_lp B) relax;
    start_search uninit B relax (\<lambda>fr obj x. strong_branching late solve num_threads (original_lp B) fr obj x ([], [])) st = Some st' \<rbrakk>
    \<Longrightarrow> bb_step E B st st'"
| test: "phase st = Test \<Longrightarrow> bb_step E B st (loop_test B st)"
| take_queue: "phase st = Take \<Longrightarrow> bb_step E B st (take_repairs st)"
| repair: "\<lbrakk> phase st = Repair (x # rest); phase2 E (repair_lp B x) PInf (s, y, v) \<rbrakk> \<Longrightarrow> bb_step E B st (repair_one B (s, y) rest st)"
| repaired: "phase st = Repair [] \<Longrightarrow> bb_step E B st (st\<lparr>phase := Select\<rparr>)"
| select: "\<lbrakk> phase st = Select; heap_top (tree st) (heap st) p; select_node B p late st = Some st' \<rbrakk> \<Longrightarrow> bb_step E B st st'"
| leaf: "\<lbrakk> phase st = Leaf p u; leaf_problem B p st = Some P; phase2 E P (u + Fin (dual_tol (settings B))) r; process_leaf B p u r st = Some st' \<rbrakk>
    \<Longrightarrow> bb_step E B st st'"
| finish: "\<lbrakk> phase st = Finish; finish_search st = Some st' \<rbrakk> \<Longrightarrow> bb_step E B st st'"
| decide: "phase st = Decide \<Longrightarrow> bb_step E B st (decide_status B st)"
| conclude: "phase st = Conclude \<Longrightarrow> bb_step E B st (conclude B st)"

inductive bb_reachable :: "('f :: floor_ceiling) lp_solver \<Rightarrow> 'f branch_and_bound \<Rightarrow> 'f bb_state \<Rightarrow> bool" for E B where
  init: "bb_reachable E B (bb_init B)"
| step: "bb_reachable E B st \<Longrightarrow> bb_step E B st st' \<Longrightarrow> bb_reachable E B st'"

text \<open>What holds initially and is kept by every step holds in every reachable state.\<close>

locale search_invariant =
  fixes E :: "('f :: floor_ceiling) lp_solver" and B :: "'f branch_and_bound" and J :: "'f bb_state \<Rightarrow> bool"
  assumes init: "J (bb_init B)"
    and step: "J st \<Longrightarrow> bb_step E B st st' \<Longrightarrow> J st'"
begin

lemma reachable: "bb_reachable E B st \<Longrightarrow> J st"
  by (induction rule: bb_reachable.induct) (auto intro: init step)

end

subsection \<open>The meaning of the search\<close>

definition bb_ok :: "('f :: floor_ceiling) branch_and_bound \<Rightarrow> bool" where
  "bb_ok B \<longleftrightarrow> (let n = num_cols (original_lp B) in length (lower (original_lp B)) = n \<and> length (upper (original_lp B)) = n \<and>
     length (bb_var_types B) = n \<and> 0 \<le> integer_tol (settings B) \<and> 0 \<le> dual_tol (settings B) \<and> 0 \<le> absolute_mip_gap_tol (settings B))"

definition mip_point :: "('f :: floor_ceiling) branch_and_bound \<Rightarrow> 'f vec \<Rightarrow> bool" where
  "mip_point B x \<longleftrightarrow> lp_feasible (original_lp B) x \<and> (\<forall>j<num_cols (original_lp B). bb_var_types B ! j \<noteq> CONTINUOUS \<longrightarrow> x ! j \<in> \<int>)"

abbreviation bb_n :: "'f branch_and_bound \<Rightarrow> nat" where "bb_n B \<equiv> num_cols (original_lp B)"

abbreviation obj :: "('f :: floor_ceiling) branch_and_bound \<Rightarrow> 'f vec \<Rightarrow> 'f" where "obj B \<equiv> compute_objective (original_lp B)"

definition box0 :: "'f branch_and_bound \<Rightarrow> 'f bounds" where "box0 B = (lower (original_lp B), upper (original_lp B))"

definition leaf_lp :: "'f branch_and_bound \<Rightarrow> 'f branch list \<Rightarrow> 'f lp_problem" where
  "leaf_lp B bs = (original_lp B)\<lparr>lower := fst (box bs (box0 B)), upper := snd (box bs (box0 B))\<rparr>"

definition lower_bounds :: "('f :: floor_ceiling) branch_and_bound \<Rightarrow> 'f branch list \<Rightarrow> 'f \<Rightarrow> bool" where
  "lower_bounds B bs c \<longleftrightarrow> (\<forall>y. lp_feasible (leaf_lp B bs) y \<longrightarrow> c \<le> obj B y)"

text \<open>
  What follows holds in full only when the root was decided (\<open>rs\<close>). Without that, the value of the root and of its
  children bounds nothing, and the branches on it may leave the original box; the structure of the tree
  remains, and so does the cover of the integer points as long as there is no upper bound.
\<close>

definition node_data_ok :: "bool \<Rightarrow> ('f :: floor_ceiling) branch_and_bound \<Rightarrow> 'f mip_node \<Rightarrow> bool" where
  "node_data_ok rs B nd \<longleftrightarrow> 0 \<le> branch_var nd \<and> nat (branch_var nd) < bb_n B \<and> fractional_val nd \<notin> \<int> \<and>
     (rs \<longrightarrow> branch_in (bb_n B) (box0 B) (branch_var nd, branch_var_lower nd, branch_var_upper nd))"

definition leaf_ok :: "bool \<Rightarrow> ('f :: floor_ceiling) branch_and_bound \<Rightarrow> 'f tree \<Rightarrow> ptr \<Rightarrow> bool" where
  "leaf_ok rs B t q \<longleftrightarrow> (\<exists>bs nd c. path t q bs \<and> t q = Some nd \<and> lower_bound nd = Fin c \<and> (rs \<longrightarrow> lower_bounds B bs c))"

definition covered :: "('f :: floor_ceiling) tree \<Rightarrow> ptr set \<Rightarrow> 'f vec \<Rightarrow> bool" where
  "covered t opn x \<longleftrightarrow> (\<exists>q\<in>opn. \<exists>bs. path t q bs \<and> (\<forall>br\<in>set bs. on_branch x br))"

definition search_ok ::
  "bool \<Rightarrow> ('f :: floor_ceiling) branch_and_bound \<Rightarrow> 'f tree \<Rightarrow> nat \<Rightarrow> 'f pseudo_costs \<Rightarrow> 'f ext \<Rightarrow> ptr set \<Rightarrow> bool" where
  "search_ok rs B t N pc ub opn \<longleftrightarrow>
     tree_ok t opn \<and> (\<forall>q nd. t q = Some nd \<longrightarrow> q \<le> N) \<and> pc_ok (bb_n B) pc \<and> upward ub \<and>
     (\<forall>q nd. t q = Some nd \<longrightarrow> q \<noteq> 0 \<longrightarrow> node_data_ok rs B nd) \<and>
     (\<forall>q nd. t q = Some nd \<longrightarrow> inactive nd \<longrightarrow> ub \<le> lower_bound nd) \<and>
     (\<forall>q\<in>opn. leaf_ok rs B t q) \<and>
     (rs \<or> ub = PInf \<longrightarrow> (\<forall>x. mip_point B x \<longrightarrow> ub \<le> Fin (obj B x) \<or> covered t opn x)) \<and>
     (\<exists>rn. t 0 = Some rn \<and> (inactive rn \<or> (\<exists>c. lower_bound rn = Fin c \<and> (rs \<longrightarrow> lower_bounds B [] c))))"

text \<open>The local variables \<open>lower_bound\<close> and \<open>gap\<close> of the loop.\<close>

definition gap_ok :: "bool \<Rightarrow> ('f :: floor_ceiling) tree \<Rightarrow> ptr set \<Rightarrow> 'f ext \<Rightarrow> 'f ext \<Rightarrow> 'f ext \<Rightarrow> bool" where
  "gap_ok rs t opn ub lb gp \<longleftrightarrow>
     (\<exists>l u. lb = Fin l \<and> (rs \<longrightarrow> (\<forall>q\<in>opn. \<forall>nd. t q = Some nd \<longrightarrow> Fin l \<le> lower_bound nd)) \<and> upward u \<and> ub \<le> u \<and> gp = u - Fin l)"

subsection \<open>Order of extended numbers\<close>

lemma ext_less_le: "a < b \<Longrightarrow> a \<le> b" for a :: "'f :: linorder ext"
  by (simp add: less_eq_ext_def)

lemma upward_le_refl: "upward a \<Longrightarrow> a \<le> a"
  by (simp add: less_eq_ext_def upward_def)

subsection \<open>Points and boxes\<close>

lemma leaf_lp_feasible:
  "lp_feasible (leaf_lp B bs) x \<longleftrightarrow> length x = bb_n B \<and> within_box (bb_n B) (box bs (box0 B)) x \<and>
     (\<forall>r<num_rows (original_lp B). activity (lp_A (original_lp B)) x r = rhs (original_lp B) ! r)"
  by (simp add: lp_feasible_def leaf_lp_def within_box_def)

lemma leaf_lp_Nil [simp]: "leaf_lp B [] = original_lp B"
  by (simp add: leaf_lp_def box0_def)

lemma leaf_lp_obj [simp]: "compute_objective (leaf_lp B bs) = obj B"
  by (simp add: leaf_lp_def compute_objective_def fun_eq_iff)

lemma box0_sized: "bb_ok B \<Longrightarrow> sized (bb_n B) (box0 B)"
  by (simp add: bb_ok_def box0_def sized_def Let_def)

lemma leaf_lp_sub: "subbox (bb_n B) (box bs (box0 B)) (box bs' (box0 B)) \<Longrightarrow> lp_feasible (leaf_lp B bs) x \<Longrightarrow> lp_feasible (leaf_lp B bs') x"
  by (auto simp: leaf_lp_feasible dest: subbox_within)

lemma leaf_lp_point:
  assumes "bb_ok B" "mip_point B x" "\<forall>br\<in>set bs. on_branch x br"
  shows "lp_feasible (leaf_lp B bs) x"
proof -
  have "lp_feasible (leaf_lp B []) x" using assms(2) by (simp add: mip_point_def)
  then show ?thesis using box_within [OF box0_sized [OF assms(1)] _ assms(3)] by (auto simp only: leaf_lp_feasible box_simps)
qed

text \<open>The box of a child lies in the box of its parent.\<close>

lemma leaf_lp_child:
  assumes "bb_ok B" "branch_in (bb_n B) (box0 B) br" "lp_feasible (leaf_lp B (br # bs)) x"
  shows "lp_feasible (leaf_lp B bs) x"
proof (rule leaf_lp_sub [OF _ assms(3)])
  note s = box0_sized [OF assms(1)]
  have "subbox (bb_n B) (put br (box0 B)) (box0 B)" using put_subbox [OF s _ assms(2)] by simp
  then show "subbox (bb_n B) (box (br # bs) (box0 B)) (box bs (box0 B))"
    using box_mono [OF sized_put [OF s] s] by simp
qed

lemma lower_bounds_child: "bb_ok B \<Longrightarrow> branch_in (bb_n B) (box0 B) br \<Longrightarrow> lower_bounds B bs c \<Longrightarrow> lower_bounds B (br # bs) c"
  unfolding lower_bounds_def using leaf_lp_child by blast

lemma path_branches:
  assumes "tree_ok t opn" "\<forall>q nd. t q = Some nd \<longrightarrow> q \<noteq> 0 \<longrightarrow> node_data_ok rs B nd"
  shows "path t q bs \<Longrightarrow> \<forall>br\<in>set bs. 0 \<le> fst br \<and> nat (fst br) < bb_n B \<and> (rs \<longrightarrow> branch_in (bb_n B) (box0 B) br)"
proof (induction bs arbitrary: q)
  case (Cons b bs)
  then obtain nd p where nd: "t q = Some nd" "b = (branch_var nd, branch_var_lower nd, branch_var_upper nd)" "path t p bs" by auto
  have "q \<noteq> 0" using path_root [OF assms(1) Cons.prems] by simp
  then have "0 \<le> fst b \<and> nat (fst b) < bb_n B \<and> (rs \<longrightarrow> branch_in (bb_n B) (box0 B) b)"
    using assms(2) nd(1,2) by (auto simp: node_data_ok_def)
  then show ?case using Cons.IH nd(3) by simp
qed simp

lemma leaf_problem_path:
  assumes "bb_ok B" "tree_ok (tree st) opn" "\<forall>q nd. tree st q = Some nd \<longrightarrow> q \<noteq> 0 \<longrightarrow> node_data_ok rs B nd" "path (tree st) p bs" "p \<noteq> 0"
  shows "leaf_problem B p st = Some (leaf_lp B bs)"
proof -
  have "\<forall>br\<in>set bs. 0 \<le> fst br \<and> nat (fst br) < bb_n B"
    using path_branches [OF assms(2,3,4)] by blast
  from get_variable_bounds_path [OF assms(2,4,5) box0_sized [OF assms(1)] this] show ?thesis
    by (simp add: leaf_problem_def leaf_lp_def box0_def split_beta)
qed

text \<open>The leaf solution lies in the original box.\<close>

lemma leaf_lp_original:
  assumes "bb_ok B" "\<forall>br\<in>set bs. branch_in (bb_n B) (box0 B) br" "lp_feasible (leaf_lp B bs) x"
  shows "lp_feasible (original_lp B) x"
proof -
  have "lp_feasible (leaf_lp B []) x"
    using box_subbox [OF box0_sized [OF assms(1)] _ assms(2)] by (intro leaf_lp_sub [OF _ assms(3)]) simp
  then show ?thesis by simp
qed

end
