(* ===== verification/Bb_Invariant.thy ===== *)
theory Bb_Invariant
  imports Bb_Search
begin

text \<open>
  Preservation of \<open>search_ok\<close> by the three things that happen to the tree: the upper bound drops, a
  leaf is closed, a leaf is branched on.
\<close>

subsection \<open>Projections\<close>

lemma search_okD:
  assumes "search_ok rs B t N pc ub opn"
  shows "tree_ok t opn" "t q = Some nd \<Longrightarrow> q \<le> N" "pc_ok (bb_n B) pc" "upward ub"
    "\<forall>q nd. t q = Some nd \<longrightarrow> q \<noteq> 0 \<longrightarrow> node_data_ok rs B nd"
    "\<forall>q nd. t q = Some nd \<longrightarrow> inactive nd \<longrightarrow> ub \<le> lower_bound nd"
    "q \<in> opn \<Longrightarrow> leaf_ok rs B t q"
    "rs \<or> ub = PInf \<Longrightarrow> mip_point B x \<Longrightarrow> ub \<le> Fin (obj B x) \<or> covered t opn x"
    "\<exists>rn. t 0 = Some rn \<and> (inactive rn \<or> (\<exists>c. lower_bound rn = Fin c \<and> (rs \<longrightarrow> lower_bounds B [] c)))"
  using assms by (simp_all add: search_ok_def)

lemma search_ok_leaf:
  assumes "search_ok rs B t N pc ub opn" "p \<in> opn"
  obtains bs nd c where "path t p bs" "t p = Some nd" "lower_bound nd = Fin c" "rs \<longrightarrow> lower_bounds B bs c"
    "status nd = ACTIVE" "childless nd" "rs \<longrightarrow> (\<forall>br\<in>set bs. branch_in (bb_n B) (box0 B) br)"
proof -
  obtain bs nd c where l: "path t p bs" "t p = Some nd" "lower_bound nd = Fin c" "rs \<longrightarrow> lower_bounds B bs c"
    using search_okD(7) [OF assms] by (auto simp: leaf_ok_def)
  moreover have "status nd = ACTIVE" "childless nd"
    using tree_okD [OF search_okD(1) [OF assms(1)] l(2)] assms(2) by (auto simp: node_ok_def)
  ultimately show ?thesis using that path_branches [OF search_okD(1,5) [OF assms(1)] l(1)] by blast
qed

subsection \<open>A better upper bound\<close>

lemma PInf_le: "PInf \<le> u \<Longrightarrow> upward u \<Longrightarrow> u = PInf" for u :: "'f :: linorder ext"
  by (cases u) (simp_all add: less_eq_ext_def)

lemma search_ok_better:
  assumes "search_ok rs B t N pc ub opn" "ub' \<le> ub" "upward ub'"
  shows "search_ok rs B t N pc ub' opn"
proof -
  have 1: "ub' \<le> v" if "ub \<le> v" for v using ext_le_trans [OF assms(2) that] .
  have 2: "ub = PInf" if "ub' = PInf" using PInf_le search_okD(4) [OF assms(1)] assms(2) that by blast
  have "rs \<or> ub' = PInf \<longrightarrow> (\<forall>x. mip_point B x \<longrightarrow> ub' \<le> Fin (obj B x) \<or> covered t opn x)"
    using search_okD(8) [OF assms(1)] 1 2 by blast
  moreover have "\<forall>q nd. t q = Some nd \<longrightarrow> inactive nd \<longrightarrow> ub' \<le> lower_bound nd" using search_okD(6) [OF assms(1)] 1 by blast
  ultimately show ?thesis using assms(1,3) by (simp add: search_ok_def)
qed

lemma gap_ok_better: "gap_ok rs t opn ub lb gp \<Longrightarrow> ub' \<le> ub \<Longrightarrow> gap_ok rs t opn ub' lb gp"
  unfolding gap_ok_def using ext_le_trans by blast

lemma gap_ok_mono:
  assumes "gap_ok rs t opn ub lb gp" "opn' \<subseteq> opn" "\<forall>q\<in>opn'. t' q = t q"
  shows "gap_ok rs t' opn' ub lb gp"
  using assms unfolding gap_ok_def by (metis subsetD)

subsection \<open>New data in a leaf\<close>

lemma tree_ok_relabel:
  assumes ok: "tree_ok t opn" and p: "t p = Some pn" and same: "same_node pn nd'"
    "child0 nd' = child0 pn" "child1 nd' = child1 pn" "status nd' = status pn"
  shows "tree_ok (t(p \<mapsto> nd')) opn"
proof -
  have par: "parent_ok (t(p \<mapsto> nd')) q nd" if "parent_ok t q nd" for q and nd :: "'a mip_node"
    using that p same by (auto simp: parent_ok_def split: option.splits)
  have two: "two_children (t(p \<mapsto> nd')) q nd" if "two_children t q nd" for q and nd :: "'a mip_node"
  proof -
    from that obtain c d cn dn where k: "child0 nd = Some c" "child1 nd = Some d" "c \<noteq> d" "t c = Some cn" "t d = Some dn"
      "parent cn = Some q" "parent dn = Some q" "\<not> (inactive cn \<and> inactive dn)" by (auto simp: two_children_def)
    define cn' where "cn' = (if c = p then nd' else cn)"
    define dn' where "dn' = (if d = p then nd' else dn)"
    have "(t(p \<mapsto> nd')) c = Some cn'" "(t(p \<mapsto> nd')) d = Some dn'" "parent cn' = Some q" "parent dn' = Some q"
      "status cn' = status cn" "status dn' = status dn"
      using k p same by (auto simp: cn'_def dn'_def same_node_def)
    then show ?thesis using k by (auto simp: two_children_def)
  qed
  have "node_ok (t(p \<mapsto> nd')) opn q nd" if "(t(p \<mapsto> nd')) q = Some nd" for q nd
  proof (cases "q = p")
    case True
    then have "nd = nd'" using that by simp
    moreover have "parent_ok t p nd'" "two_children t p nd' = two_children t p pn"
      using tree_okD [OF ok p] same by (simp_all add: node_ok_def parent_ok_def same_node_def two_children_def)
    ultimately show ?thesis using tree_okD [OF ok p] True same par two
      by (auto simp: node_ok_def same_node_def)
  next
    case False
    then have "t q = Some nd" using that by simp
    then show ?thesis using tree_okD [OF ok] par two by (fastforce simp: node_ok_def)
  qed
  then show ?thesis using ok p by (auto simp: tree_ok_def)
qed

lemma path_extend:
  assumes "\<And>q nd. t q = Some nd \<Longrightarrow> \<exists>nd'. t' q = Some nd' \<and> same_node nd nd'"
  shows "path t q bs \<Longrightarrow> path t' q bs"
proof (induction bs arbitrary: q)
  case Nil
  then show ?case using assms by fastforce
next
  case (Cons b bs)
  then obtain nd p where nd: "t q = Some nd" "b = (branch_var nd, branch_var_lower nd, branch_var_upper nd)" "parent nd = Some p" "path t p bs" by auto
  obtain nd' where "t' q = Some nd'" "same_node nd nd'" using assms nd(1) by blast
  then show ?case using Cons.IH [OF nd(4)] nd by (auto simp: same_node_def)
qed

lemma same_node_refl [simp]: "same_node nd nd" by (simp add: same_node_def)

lemma search_ok_relabel:
  assumes ok: "search_ok rs B t N pc ub opn" and p: "p \<in> opn" "t p = Some pn" "path t p bs"
    and nd': "nd' = pn\<lparr>vstatus := v, lower_bound := Fin c\<rparr>" "rs \<longrightarrow> lower_bounds B bs c"
  shows "search_ok rs B (t(p \<mapsto> nd')) N pc ub opn"
proof -
  let ?t = "t(p \<mapsto> nd')"
  have s: "same_node pn nd'" "child0 nd' = child0 pn" "child1 nd' = child1 pn" "status nd' = status pn"
    by (simp_all add: nd'(1) same_node_def)
  have tok: "tree_ok ?t opn" using tree_ok_relabel [OF search_okD(1) [OF ok] p(2) s] .
  have ext: "\<exists>nd'. ?t q = Some nd' \<and> same_node nd nd'" if "t q = Some nd" for q nd
    using that p(2) s(1) by (cases "q = p") auto
  have act: "status pn = ACTIVE" using tree_okD [OF search_okD(1) [OF ok] p(2)] p(1) by (auto simp: node_ok_def)
  have leaf: "leaf_ok rs B ?t q" if "q \<in> opn" for q
  proof (cases "q = p")
    case True
    then show ?thesis using path_extend [of t ?t, OF ext p(3)] nd' by (auto simp: leaf_ok_def)
  next
    case False
    then show ?thesis using search_okD(7) [OF ok that] path_extend [of t ?t, OF ext] by (fastforce simp: leaf_ok_def)
  qed
  have cov: "covered ?t opn x" if "covered t opn x" for x
    using that path_extend [of t ?t, OF ext] by (auto simp: covered_def)
  have data: "node_data_ok rs B nd" if "?t q = Some nd" "q \<noteq> 0" for q nd
    using that search_okD(5) [OF ok] p(2) by (cases "q = p") (auto simp: nd'(1) node_data_ok_def)
  have rt: "\<exists>rn. ?t 0 = Some rn \<and> (inactive rn \<or> (\<exists>c. lower_bound rn = Fin c \<and> (rs \<longrightarrow> lower_bounds B [] c)))"
  proof (cases "p = 0")
    case True
    then have "bs = []" using path_root [OF search_okD(1) [OF ok] p(3)] by simp
    then show ?thesis using True nd' by auto
  next
    case False
    then show ?thesis using search_okD(9) [OF ok] by simp
  qed
  show ?thesis
    unfolding search_ok_def
  proof (intro conjI allI impI ballI)
    fix q nd assume "?t q = Some nd" "inactive nd"
    then show "ub \<le> lower_bound nd" using search_okD(6) [OF ok] s(4) act by (cases "q = p") auto
  next
    fix q nd assume "?t q = Some nd"
    then show "q \<le> N" using search_okD(2) [OF ok] p(2) by (cases "q = p") auto
  next
    fix x assume "rs \<or> ub = PInf" "mip_point B x"
    then show "ub \<le> Fin (obj B x) \<or> covered ?t opn x" using search_okD(8) [OF ok] cov by blast
  qed (use tok leaf data rt search_okD(3,4) [OF ok] in auto)
qed

subsection \<open>Closing a leaf\<close>

lemma search_ok_close:
  assumes ok: "search_ok rs B t N pc ub opn" and p: "p \<in> opn" "t p = Some pn" and s: "inactive_status s"
    and nd': "nd' = pn\<lparr>vstatus := v, lower_bound := b\<rparr>" "ub \<le> b"
    and cov: "\<And>bs x. rs \<or> ub = PInf \<Longrightarrow> path t p bs \<Longrightarrow> mip_point B x \<Longrightarrow> \<forall>br\<in>set bs. on_branch x br \<Longrightarrow> ub \<le> Fin (obj B x)"
  shows "\<exists>t'. close_node s p (t(p \<mapsto> nd')) = Some t' \<and> search_ok rs B t' N pc ub (opn - {p}) \<and> (\<forall>q\<in>opn - {p}. t' q = t q)"
proof -
  let ?t = "t(p \<mapsto> nd')"
  have sn: "same_node pn nd'" "child0 nd' = child0 pn" "child1 nd' = child1 pn" "status nd' = status pn"
    by (simp_all add: nd'(1) same_node_def)
  note tok = tree_ok_relabel [OF search_okD(1) [OF ok] p(2) sn]
  have act: "status pn = ACTIVE" using tree_okD [OF search_okD(1) [OF ok] p(2)] p(1) by (auto simp: node_ok_def)
  have ub1: "\<forall>q nd. ?t q = Some nd \<longrightarrow> inactive nd \<longrightarrow> ub \<le> lower_bound nd"
    using search_okD(6) [OF ok] act sn(4) by simp
  have ub2: "ub \<le> lower_bound nd'" using nd' by simp
  from close_node_ok [OF tok p(1) fun_upd_same s ub2 ub1] obtain t' where t': "close_node s p ?t = Some t'"
    "tree_ok t' (opn - {p})"
    "\<And>q nd'. t' q = Some nd' \<Longrightarrow> \<exists>nd. ?t q = Some nd \<and> same_node nd nd' \<and> (nd' = nd \<or> inactive nd' \<and> ub \<le> lower_bound nd')"
    by blast
  have old: "\<exists>nd. t q = Some nd \<and> same_node nd nd'" if "t' q = Some nd'" for q nd'
    using t'(3) [OF that] p(2) sn(1) by (cases "q = p") (auto simp: same_node_def)
  have keep: "t' q = t q" if q: "q \<in> opn - {p}" for q
  proof -
    obtain n1 where n1: "t' q = Some n1" "status n1 = ACTIVE" using tree_ok_open [OF t'(2) q] by blast
    then have "\<not> inactive n1" by simp
    then show ?thesis using t'(3) [OF n1(1)] n1(1) q by auto
  qed
  have paths: "path t' q bs" if P: "path t q bs" "q \<in> opn - {p}" for q bs
  proof -
    obtain nd where "t' q = Some nd" using tree_ok_open [OF t'(2) P(2)] by blast
    then show ?thesis using path_same [OF t'(2) old P(1)] by blast
  qed
  have "search_ok rs B t' N pc ub (opn - {p})"
    unfolding search_ok_def
  proof (intro conjI allI impI ballI)
    fix q assume q: "q \<in> opn - {p}"
    then have "leaf_ok rs B t q" using search_okD(7) [OF ok] by blast
    then show "leaf_ok rs B t' q" using paths q keep unfolding leaf_ok_def by metis
  next
    fix q nd assume q: "t' q = Some nd"
    then obtain n0 where n0: "t q = Some n0" "same_node n0 nd" using old by blast
    then show "q \<le> N" using search_okD(2) [OF ok] by blast
    show "node_data_ok rs B nd" if "q \<noteq> 0" using search_okD(5) [OF ok] n0 that by (auto simp: node_data_ok_def same_node_def)
    show "ub \<le> lower_bound nd" if "inactive nd" using t'(3) [OF q] ub1 that by auto
  next
    fix x assume known: "rs \<or> ub = PInf" and x: "mip_point B x"
    show "ub \<le> Fin (obj B x) \<or> covered t' (opn - {p}) x"
    proof (rule disjCI)
      assume "\<not> covered t' (opn - {p}) x"
      show "ub \<le> Fin (obj B x)"
      proof (rule ccontr)
        assume "\<not> ub \<le> Fin (obj B x)"
        then obtain q bs where q: "q \<in> opn" "path t q bs" "\<forall>br\<in>set bs. on_branch x br"
          using search_okD(8) [OF ok known x] by (auto simp: covered_def)
        then have "q \<noteq> p" using cov [OF known] x \<open>\<not> ub \<le> Fin (obj B x)\<close> by blast
        then have "path t' q bs" "q \<in> opn - {p}" using q(1,2) paths by blast+
        then show False using q(3) \<open>\<not> covered t' (opn - {p}) x\<close> unfolding covered_def by blast
      qed
    qed
  next
    show "\<exists>rn. t' 0 = Some rn \<and> (inactive rn \<or> (\<exists>c. lower_bound rn = Fin c \<and> (rs \<longrightarrow> lower_bounds B [] c)))"
    proof -
      obtain rn where rn: "t' 0 = Some rn" using tree_ok_root [OF t'(2)] by blast
      show ?thesis
      proof (cases "inactive rn")
        case False
        then have "?t 0 = Some rn" using t'(3) [OF rn] by auto
        moreover have "p \<noteq> 0"
        proof
          assume "p = 0"
          then have "childless rn" "rn = nd'" using tree_okD [OF search_okD(1) [OF ok] p(2)] p(1) sn \<open>?t 0 = Some rn\<close>
            by (auto simp: node_ok_def)
          then show False using tree_okD [OF t'(2) rn] False \<open>p = 0\<close> by (auto simp: node_ok_def two_children_def)
        qed
        ultimately show ?thesis using search_okD(9) [OF ok] rn False by auto
      qed (use rn in auto)
    qed
  qed (use t'(2) search_okD(3,4) [OF ok] in auto)
  then show ?thesis using t'(1) keep by blast
qed

subsection \<open>Branching\<close>

definition new_child :: "'f mip_node \<Rightarrow> ptr \<Rightarrow> ptr \<Rightarrow> bool" where
  "new_child nd q p \<longleftrightarrow> status nd = ACTIVE \<and> node_id nd = q \<and> parent nd = Some p \<and> childless nd"

lemma tree_ok_branch:
  assumes ok: "tree_ok t opn" and p: "p \<in> opn" "t p = Some pn"
    and new: "t d = None" "t u = None" "d \<noteq> u" "p < d" "p < u" "new_child dn d p" "new_child un u p"
  shows "tree_ok (t(d \<mapsto> dn, u \<mapsto> un, p \<mapsto> pn\<lparr>child0 := Some d, child1 := Some u, vstatus := []\<rparr>)) (insert d (insert u (opn - {p})))"
proof -
  define pn' where "pn' = pn\<lparr>child0 := Some d, child1 := Some u, vstatus := []\<rparr>"
  define t' where "t' = t(d \<mapsto> dn, u \<mapsto> un, p \<mapsto> pn')"
  have pd: "p \<noteq> d" "p \<noteq> u" using new by auto
  have pn: "childless pn" "status pn = ACTIVE" "parent_ok t p pn" "node_id pn = p"
    using tree_okD [OF ok p(2)] p(1) by (auto simp: node_ok_def)
  have t': "t' d = Some dn" "t' u = Some un" "t' p = Some pn'" using pd new(3) by (simp_all add: t'_def)
  have other: "t' q = t q" if "q \<noteq> p" "q \<noteq> d" "q \<noteq> u" for q using that by (simp add: t'_def)
  have par: "parent_ok t' q nd" if ok: "parent_ok t q nd" for q nd
  proof (cases "parent nd")
    case (Some r)
    then obtain rn where r: "r < q" "t r = Some rn" "child0 rn = Some q \<or> child1 rn = Some q"
      using ok by (auto simp: parent_ok_def)
    then have "r \<noteq> p" "r \<noteq> d" "r \<noteq> u" using p(2) pn(1) new(1,2) by auto
    then show ?thesis using r Some other by (simp add: parent_ok_def)
  qed (use ok in \<open>simp add: parent_ok_def\<close>)
  have two: "two_children t' q nd" if two: "two_children t q nd" for q nd
  proof -
    from two obtain a b an bn where k: "child0 nd = Some a" "child1 nd = Some b" "a \<noteq> b" "t a = Some an" "t b = Some bn"
      "parent an = Some q" "parent bn = Some q" "\<not> (inactive an \<and> inactive bn)" by (auto simp: two_children_def)
    have n: "\<exists>m. t' x = Some m \<and> parent m = parent xn \<and> status m = status xn" if x: "t x = Some xn" for x xn
    proof (cases "x = p")
      case True
      then show ?thesis using x p(2) t'(3) by (simp add: pn'_def)
    next
      case False
      then have "t' x = t x" using x new(1,2) by (intro other) auto
      then show ?thesis using x by simp
    qed
    show ?thesis using n [OF k(4)] n [OF k(5)] k unfolding two_children_def by metis
  qed
  have "node_ok t' (insert d (insert u (opn - {p}))) q nd" if q: "t' q = Some nd" for q nd
  proof -
    consider "q = p" | "q = d" | "q = u" | "q \<noteq> p" "q \<noteq> d" "q \<noteq> u" by blast
    then show ?thesis
    proof cases
      case 1
      then have "nd = pn'" using q t' by simp
      moreover have "two_children t' p pn'" using t' new(3,6,7) by (simp add: two_children_def pn'_def new_child_def)
      moreover have "parent_ok t' p pn'" using par [OF pn(3)] by (simp add: parent_ok_def pn'_def)
      ultimately show ?thesis using 1 pn pd by (simp add: node_ok_def pn'_def)
    next
      case 2
      then show ?thesis using q t' new by (auto simp: node_ok_def new_child_def parent_ok_def pn'_def)
    next
      case 3
      then show ?thesis using q t' new by (auto simp: node_ok_def new_child_def parent_ok_def pn'_def)
    next
      case 4
      then have "t q = Some nd" using q other by simp
      then show ?thesis using tree_okD [OF ok] par two 4 by (fastforce simp: node_ok_def)
    qed
  qed
  moreover have "\<forall>q\<in>insert d (insert u (opn - {p})). t' q \<noteq> None"
  proof
    fix q assume "q \<in> insert d (insert u (opn - {p}))"
    then show "t' q \<noteq> None" using t' other [of q] tree_ok_open [OF ok, of q]
      by (cases "q = d \<or> q = u") auto
  qed
  moreover have "t' 0 \<noteq> None" using tree_ok_root [OF ok] t' other [of 0] by (cases "0 = p \<or> 0 = d \<or> 0 = u") auto
  ultimately show ?thesis by (simp add: tree_ok_def t'_def pn'_def)
qed

text \<open>The two sides of a fractional value cover the integers and lie in the original bounds.\<close>

lemma branch_sides:
  fixes v :: "'f :: floor_ceiling"
  shows "in_bounds l v u \<Longrightarrow> in_bounds l y (Fin (of_int \<lfloor>v\<rfloor>)) \<Longrightarrow> in_bounds l y u"
    "in_bounds l v u \<Longrightarrow> in_bounds (Fin (of_int \<lceil>v\<rceil>)) y u \<Longrightarrow> in_bounds l y u"
    "y \<in> \<int> \<Longrightarrow> in_bounds l y u \<Longrightarrow> in_bounds l y (Fin (of_int \<lfloor>v\<rfloor>)) \<or> in_bounds (Fin (of_int \<lceil>v\<rceil>)) y u"
proof -
  show "in_bounds l v u \<Longrightarrow> in_bounds l y (Fin (of_int \<lfloor>v\<rfloor>)) \<Longrightarrow> in_bounds l y u"
    by (cases u) (auto simp: in_bounds_def intro: order_trans [OF _ order_trans [OF of_int_floor_le]])
  show "in_bounds l v u \<Longrightarrow> in_bounds (Fin (of_int \<lceil>v\<rceil>)) y u \<Longrightarrow> in_bounds l y u"
    by (cases l) (auto simp: in_bounds_def intro: order_trans [OF order_trans [OF _ le_of_int_ceiling]])
  assume "y \<in> \<int>" "in_bounds l y u"
  then obtain i where i: "y = of_int i" by (auto elim: Ints_cases)
  have "y \<le> of_int \<lfloor>v\<rfloor> \<or> of_int \<lceil>v\<rceil> \<le> y"
    by (cases "y \<le> v") (simp_all add: i le_floor_iff ceiling_le_iff)
  then show "in_bounds l y (Fin (of_int \<lfloor>v\<rfloor>)) \<or> in_bounds (Fin (of_int \<lceil>v\<rceil>)) y u"
    using \<open>in_bounds l y u\<close> by (auto simp: in_bounds_def)
qed

lemma path_fresh:
  assumes keep: "\<And>q nd. t q = Some nd \<Longrightarrow> \<exists>nd'. t' q = Some nd' \<and> same_node nd nd'"
    and p: "path t p bs" and q: "t' q = Some qn" "parent qn = Some p"
  shows "path t' q ((branch_var qn, branch_var_lower qn, branch_var_upper qn) # bs)"
  using path_extend [of t t', OF keep p] q by auto

lemma search_ok_branch:
  fixes B :: "('f :: floor_ceiling) branch_and_bound"
  assumes B: "bb_ok B" and ok: "search_ok rs B (tree st) (num_nodes st) pc ub opn"
    and p: "p \<in> opn" "tree st p = Some pn" "path (tree st) p bs" "lower_bound pn = Fin c" "rs \<longrightarrow> lower_bounds B bs c"
    and v: "v < bb_n B" "bb_var_types B ! v \<noteq> CONTINUOUS" "val \<notin> \<int>"
      "rs \<longrightarrow> in_bounds (lower (original_lp B) ! v) val (upper (original_lp B) ! v)"
  shows "\<exists>t' dn un. branch_on B p v val basis st = Some (st\<lparr>tree := t', heap := heap st @ [num_nodes st + 1, num_nodes st + 2],
      num_nodes := num_nodes st + 2\<rparr>) \<and>
    search_ok rs B t' (num_nodes st + 2) pc ub (insert (num_nodes st + 1) (insert (num_nodes st + 2) (opn - {p}))) \<and>
    (\<forall>q\<in>opn - {p}. t' q = tree st q) \<and>
    t' (num_nodes st + 1) = Some dn \<and> lower_bound dn = Fin c \<and> t' (num_nodes st + 2) = Some un \<and> lower_bound un = Fin c"
proof -
  define t where "t = tree st"
  define N where "N = num_nodes st"
  define d where "d = N + 1"
  define u where "u = N + 2"
  define l where "l = lower (original_lp B) ! v"
  define h where "h = upper (original_lp B) ! v"
  note ok = ok [folded t_def N_def] and p = p [folded t_def] and val = v(4) [folded l_def h_def]
  have act: "status pn = ACTIVE" "childless pn" using tree_okD [OF search_okD(1) [OF ok] p(2)] p(1) by (auto simp: node_ok_def)
  have fresh: "t d = None" "t u = None" "p < d" "p < u" "d \<noteq> u"
  proof -
    have "p \<le> N" using search_okD(2) [OF ok p(2)] .
    then show "p < d" "p < u" "d \<noteq> u" by (simp_all add: d_def u_def)
    have "t q = None" if "N < q" for q
      using search_okD(2) [OF ok, of q] that by (cases "t q") auto
    then show "t d = None" "t u = None" by (simp_all add: d_def u_def)
  qed
  have len: "v < length (lower (original_lp B))" "v < length (upper (original_lp B))" using B v(1) by (auto simp: bb_ok_def Let_def)
  obtain dn where dn: "mip_node_child (original_lp B) t p d (int v) 0 val basis = Some dn"
    "new_child dn d p" "lower_bound dn = Fin c" "branch_var dn = int v" "branch_var_lower dn = l"
    "branch_var_upper dn = Fin (of_int \<lfloor>val\<rfloor>)" "fractional_val dn = val"
    using p(2,4) len by (auto simp: mip_node_child_def new_child_def l_def)
  obtain un where un: "mip_node_child (original_lp B) t p u (int v) 1 val basis = Some un"
    "new_child un u p" "lower_bound un = Fin c" "branch_var un = int v" "branch_var_lower un = Fin (of_int \<lceil>val\<rceil>)"
    "branch_var_upper un = h" "fractional_val un = val"
    using p(2,4) len by (auto simp: mip_node_child_def new_child_def h_def)
  define pn' where "pn' = pn\<lparr>child0 := Some d, child1 := Some u, vstatus := []\<rparr>"
  define t' where "t' = t(d \<mapsto> dn, u \<mapsto> un, p \<mapsto> pn')"
  have sub: "t' d = Some dn" "t' u = Some un" "t' p = Some pn'" using fresh by (simp_all add: t'_def)
  have other: "t' q = t q" if "q \<noteq> p" "q \<noteq> d" "q \<noteq> u" for q using that by (simp add: t'_def)
  have run: "branch_on B p v val basis st = Some (st\<lparr>tree := t', heap := heap st @ [d, u], num_nodes := u\<rparr>)"
    using dn(1) un(1) p(2) fresh by (simp add: branch_on_def Let_def add_children_def t'_def pn'_def t_def N_def d_def u_def)
  have tok: "tree_ok t' (insert d (insert u (opn - {p})))"
    unfolding t'_def pn'_def using tree_ok_branch [OF search_okD(1) [OF ok] p(1,2) fresh(1,2,5,3,4) dn(2) un(2)] .
  have same: "same_node pn pn'" by (simp add: pn'_def same_node_def)
  have keep: "\<exists>nd'. t' q = Some nd' \<and> same_node nd nd'" if "t q = Some nd" for q nd
  proof (cases "q = p")
    case False
    then have "t' q = t q" using that fresh by (intro other) auto
    then show ?thesis using that by simp
  qed (use that p(2) sub same in auto)
  have cases_t': "q = d \<and> nd = dn \<or> q = u \<and> nd = un \<or> q = p \<and> nd = pn' \<or> q \<noteq> p \<and> t q = Some nd"
    if "t' q = Some nd" for q nd
    using that sub other [of q] by (cases "q = d \<or> q = u \<or> q = p") auto
  define bd where "bd = (int v, l, Fin (of_int \<lfloor>val\<rfloor>) :: 'f ext)"
  define bu where "bu = (int v, Fin (of_int \<lceil>val\<rceil>) :: 'f ext, h)"
  have pd: "path t' d (bd # bs)" "path t' u (bu # bs)"
    using path_fresh [of t t', OF keep p(3) sub(1)] path_fresh [of t t', OF keep p(3) sub(2)] dn un
    by (simp_all add: new_child_def bd_def bu_def)
  have br: "branch_in (bb_n B) (box0 B) bd" "branch_in (bb_n B) (box0 B) bu" if rs
    using branch_sides(1,2) [OF val [THEN mp, OF that]] v(1) by (simp_all add: bd_def bu_def box0_def l_def h_def)
  have data: "node_data_ok rs B nd" if "t' q = Some nd" "q \<noteq> 0" for q nd
    using cases_t' [OF that(1)]
  proof (elim disjE conjE)
    assume "q = p" "nd = pn'"
    moreover have "node_data_ok rs B pn" using search_okD(5) [OF ok] p(2) that(2) calculation(1) by blast
    ultimately show ?thesis by (simp add: node_data_ok_def pn'_def)
  next
    assume "q \<noteq> p" "t q = Some nd"
    then show ?thesis using search_okD(5) [OF ok] that(2) by blast
  qed (use br dn un v(1,3) in \<open>simp_all add: node_data_ok_def bd_def bu_def\<close>)
  have inact: "ub \<le> lower_bound nd" if "t' q = Some nd" "inactive nd" for q nd
    using cases_t' [OF that(1)]
  proof (elim disjE conjE)
    assume "q \<noteq> p" "t q = Some nd"
    then show ?thesis using search_okD(6) [OF ok] that(2) by blast
  qed (use that(2) dn(2) un(2) act in \<open>simp_all add: new_child_def pn'_def\<close>)
  have lb: "rs \<longrightarrow> lower_bounds B (bd # bs) c" "rs \<longrightarrow> lower_bounds B (bu # bs) c"
    using lower_bounds_child [OF B] br p(5) by blast+
  have leaf: "leaf_ok rs B t' q" if q: "q \<in> insert d (insert u (opn - {p}))" for q
  proof (cases "q = d \<or> q = u")
    case True
    then show ?thesis
    proof
      assume "q = d" then show ?thesis unfolding leaf_ok_def using pd(1) sub(1) dn(3) lb(1) by blast
    next
      assume "q = u" then show ?thesis unfolding leaf_ok_def using pd(2) sub(2) un(3) lb(2) by blast
    qed
  next
    case False
    then have "q \<in> opn" "q \<noteq> p" "t' q = t q" using q other by auto
    then show ?thesis using search_okD(7) [OF ok] path_extend [of t t', OF keep] unfolding leaf_ok_def by metis
  qed
  have cov: "covered t' (insert d (insert u (opn - {p}))) y" if y: "mip_point B y" and c: "covered t opn y" for y
  proof -
    from c obtain q cs where q: "q \<in> opn" "path t q cs" "\<forall>br\<in>set cs. on_branch y br" by (auto simp: covered_def)
    show ?thesis
    proof (cases "q = p")
      case False
      then show ?thesis unfolding covered_def using q path_extend [of t t', OF keep q(2)] by blast
    next
      case True
      then have cs: "cs = bs" using path_unique [OF search_okD(1) [OF ok]] q(2) p(3) by blast
      have "y ! v \<in> \<int>" "in_bounds l (y ! v) h"
        using y v(1,2) by (auto simp: mip_point_def lp_feasible_def l_def h_def)
      then have "on_branch y bd \<or> on_branch y bu" using branch_sides(3) [of "y ! v" l h val] by (simp add: bd_def bu_def)
      then show ?thesis
      proof
        assume "on_branch y bd"
        then have "\<forall>br\<in>set (bd # bs). on_branch y br" using q(3) cs by simp
        then show ?thesis unfolding covered_def using pd(1) by blast
      next
        assume "on_branch y bu"
        then have "\<forall>br\<in>set (bu # bs). on_branch y br" using q(3) cs by simp
        then show ?thesis unfolding covered_def using pd(2) by blast
      qed
    qed
  qed
  have rt: "\<exists>rn. t' 0 = Some rn \<and> (inactive rn \<or> (\<exists>c. lower_bound rn = Fin c \<and> (rs \<longrightarrow> lower_bounds B [] c)))"
  proof (cases "p = 0")
    case True
    then have "bs = []" using path_root [OF search_okD(1) [OF ok] p(3)] by simp
    then show ?thesis using True sub(3) p(4,5) by (auto simp: pn'_def)
  next
    case False
    have "t' 0 = t 0" using False by (intro other) (simp_all add: d_def u_def)
    then show ?thesis using search_okD(9) [OF ok] by simp
  qed
  have "search_ok rs B t' u pc ub (insert d (insert u (opn - {p})))"
    unfolding search_ok_def
  proof (intro conjI allI impI)
    fix q nd assume "t' q = Some nd"
    from cases_t' [OF this] show "q \<le> u" using search_okD(2) [OF ok] p(2) by (fastforce simp: d_def u_def)
  next
    fix y assume "rs \<or> ub = PInf" "mip_point B y"
    then show "ub \<le> Fin (obj B y) \<or> covered t' (insert d (insert u (opn - {p}))) y" using search_okD(8) [OF ok] cov by blast
  qed (use tok leaf data inact rt search_okD(3,4) [OF ok] in auto)
  moreover have "\<forall>q\<in>opn - {p}. t' q = t q"
  proof
    fix q assume "q \<in> opn - {p}"
    then have "q \<noteq> p" "q \<noteq> d" "q \<noteq> u" using tree_ok_open [OF search_okD(1) [OF ok], of q] fresh by force+
    then show "t' q = t q" by (rule other)
  qed
  ultimately show ?thesis using run sub dn(3) un(3) unfolding t_def N_def d_def u_def by blast
qed

end
