(* ===== verification/Bb_Phases.thy ===== *)
theory Bb_Phases
  imports Bb_Invariant
begin

text \<open>
  The invariant of every phase of the search, and its preservation by every step: of the search thread
  and of the threads that inject solutions.
\<close>

subsection \<open>Fractional variables\<close>

lemma fractional_variables_eq:
  "fractional_variables S x ts = filter (\<lambda>j. is_fractional (x ! j) (ts ! j) (integer_tol S)) [0..<length x]"
proof -
  have "for_range 0 k (\<lambda>j fractional. if is_fractional (x ! j) (ts ! j) (integer_tol S) then fractional @ [j] else fractional) []
     = filter (\<lambda>j. is_fractional (x ! j) (ts ! j) (integer_tol S)) [0..<k]" for k
    by (induction k) simp_all
  then show ?thesis by (simp add: fractional_variables_def)
qed

lemma std_round_int [simp]: "std_round (of_int i :: 'f :: floor_ceiling) = i"
proof -
  have "\<lfloor>of_int i + 1 / 2 :: 'f\<rfloor> = i" "\<lfloor>- of_int i + 1 / 2 :: 'f\<rfloor> = - i"
    by (rule floor_unique; simp)+
  then show ?thesis by (simp add: std_round_def)
qed

lemma is_fractional_not_Ints: "is_fractional v ty tol \<Longrightarrow> 0 \<le> tol \<Longrightarrow> ty \<noteq> CONTINUOUS \<and> v \<notin> \<int>"
  by (auto simp: is_fractional_def elim!: Ints_cases split: if_splits)

lemma fractional_in:
  assumes "bb_ok B" "length x = bb_n B" "j \<in> set (fractional_variables (settings B) x (bb_var_types B))"
  shows "j < bb_n B" "bb_var_types B ! j \<noteq> CONTINUOUS" "x ! j \<notin> \<int>"
proof -
  have "0 \<le> integer_tol (settings B)" using assms(1) by (simp add: bb_ok_def Let_def)
  then show "j < bb_n B" "bb_var_types B ! j \<noteq> CONTINUOUS" "x ! j \<notin> \<int>"
    using assms(2,3) is_fractional_not_Ints by (auto simp: fractional_variables_eq)
qed

subsection \<open>The invariant\<close>

definition searching :: "bool \<Rightarrow> ('f :: floor_ceiling) branch_and_bound \<Rightarrow> 'f bb_state \<Rightarrow> ptr set \<Rightarrow> bool" where
  "searching rs B st opn \<longleftrightarrow> search_ok rs B (tree st) (num_nodes st) (costs st) (g_upper_bound st) opn \<and>
     gap_ok rs (tree st) opn (g_upper_bound st) (g_lower_bound st) (gap st) \<and> distinct (heap st) \<and> 0 \<notin> set (heap st)"

text \<open>What the end of the search promises when the root was decided, or when there is no upper bound at all.\<close>

abbreviation knows :: "bool \<Rightarrow> 'f bb_state \<Rightarrow> bool" where "knows rs st \<equiv> rs \<or> g_upper_bound st = PInf"

text \<open>No point is better than \<open>ub\<close>; \<open>lb\<close> bounds the points that are.\<close>

definition none_better :: "('f :: floor_ceiling) branch_and_bound \<Rightarrow> 'f ext \<Rightarrow> bool" where
  "none_better B ub \<longleftrightarrow> (\<forall>x. mip_point B x \<longrightarrow> ub \<le> Fin (obj B x))"

definition decided :: "bool \<Rightarrow> ('f :: floor_ceiling) branch_and_bound \<Rightarrow> 'f bb_state \<Rightarrow> bool" where
  "decided rs B st \<longleftrightarrow> upward (g_lower_bound st) \<and>
     (rs \<longrightarrow> (\<forall>x. mip_point B x \<longrightarrow> g_lower_bound st \<le> Fin (obj B x) \<or> g_upper_bound st \<le> Fin (obj B x))) \<and>
     (\<exists>u. upward u \<and> g_upper_bound st \<le> u \<and> gap st = u - g_lower_bound st)"

text \<open>The upper bound is optimal within the absolute or the relative tolerance.\<close>

definition near_optimal :: "('f :: floor_ceiling) branch_and_bound \<Rightarrow> 'f ext \<Rightarrow> bool" where
  "near_optimal B ub \<longleftrightarrow> (\<exists>u. ub \<le> Fin u \<and>
     (\<forall>x. mip_point B x \<longrightarrow> u \<le> obj B x + absolute_mip_gap_tol (settings B) \<or>
        u \<le> obj B x + relative_mip_gap_tol (settings B) * \<bar>u\<bar>))"

definition phase_ok :: "bool \<Rightarrow> ('f :: floor_ceiling) branch_and_bound \<Rightarrow> 'f bb_state \<Rightarrow> 'f phase \<Rightarrow> bool" where
  "phase_ok rs B st ph = (case ph of
     Guess \<Rightarrow> result st = MIP_UNSET
   | Root \<Rightarrow> result st = MIP_UNSET
   | Test \<Rightarrow> result st = MIP_UNSET \<and> searching rs B st (set (heap st))
   | Take \<Rightarrow> result st = MIP_UNSET \<and> searching rs B st (set (heap st)) \<and> heap st \<noteq> []
   | Repair _ \<Rightarrow> result st = MIP_UNSET \<and> searching rs B st (set (heap st)) \<and> heap st \<noteq> []
   | Select \<Rightarrow> result st = MIP_UNSET \<and> searching rs B st (set (heap st)) \<and> heap st \<noteq> []
   | Leaf p u \<Rightarrow> result st = MIP_UNSET \<and> searching rs B st (insert p (set (heap st))) \<and> p \<notin> set (heap st) \<and> p \<noteq> 0 \<and>
       g_upper_bound st \<le> u \<and> upward u
   | Finish \<Rightarrow> result st \<in> {MIP_UNSET, MIP_TIME_LIMIT, MIP_NUMERICAL} \<and>
       (\<exists>opn. searching rs B st opn \<and> (result st = MIP_UNSET \<longrightarrow> opn = set (heap st)))
   | Decide \<Rightarrow> result st \<in> {MIP_UNSET, MIP_TIME_LIMIT, MIP_NUMERICAL} \<and> decided rs B st \<and>
       (result st = MIP_UNSET \<and> heap st = [] \<and> knows rs st \<longrightarrow> none_better B (g_upper_bound st))
   | Conclude \<Rightarrow> result st \<in> {MIP_UNSET, MIP_TIME_LIMIT, MIP_NUMERICAL, MIP_OPTIMAL} \<and>
       (result st = MIP_OPTIMAL \<and> rs \<longrightarrow> near_optimal B (g_upper_bound st)) \<and>
       (result st = MIP_UNSET \<and> heap st = [] \<and> knows rs st \<longrightarrow> none_better B (g_upper_bound st))
   | Finished \<Rightarrow> result st = MIP_OPTIMAL \<and> rs \<longrightarrow> near_optimal B (g_upper_bound st))"

definition bb_inv :: "bool \<Rightarrow> ('f :: floor_ceiling) branch_and_bound \<Rightarrow> 'f bb_state \<Rightarrow> bool" where
  "bb_inv rs B st \<longleftrightarrow> upward (g_upper_bound st) \<and> phase_ok rs B st (phase st)"

lemma bb_invD: "bb_inv rs B st \<Longrightarrow> phase st = ph \<Longrightarrow> upward (g_upper_bound st) \<and> phase_ok rs B st ph"
  by (simp add: bb_inv_def)

lemma bb_inv_init: "bb_inv rs B (bb_init B)"
  by (simp add: bb_inv_def bb_init_def phase_ok_def)

text \<open>Two states that agree on what the invariant reads.\<close>

lemma searching_cong:
  assumes "tree st' = tree st" "num_nodes st' = num_nodes st" "costs st' = costs st" "g_upper_bound st' = g_upper_bound st"
    "g_lower_bound st' = g_lower_bound st" "gap st' = gap st" "heap st' = heap st"
  shows "searching rs B st' opn = searching rs B st opn"
  using assms by (simp add: searching_def)

lemma searchingI:
  assumes "search_ok rs B (tree st) (num_nodes st) (costs st) (g_upper_bound st) opn"
    "gap_ok rs (tree st) opn (g_upper_bound st) (g_lower_bound st) (gap st)" "distinct (heap st)" "0 \<notin> set (heap st)"
  shows "searching rs B st opn"
  using assms by (simp add: searching_def)

subsection \<open>A better upper bound\<close>

lemma searching_better:
  assumes "searching rs B st opn" "ub \<le> g_upper_bound st" "upward ub"
  shows "searching rs B (st\<lparr>g_upper_bound := ub\<rparr>) opn"
  using assms search_ok_better gap_ok_better unfolding searching_def by fastforce

lemma none_better_mono: "none_better B ub \<Longrightarrow> ub' \<le> ub \<Longrightarrow> none_better B ub'"
  unfolding none_better_def using ext_le_trans by blast

lemma near_optimal_mono: "near_optimal B ub \<Longrightarrow> ub' \<le> ub \<Longrightarrow> near_optimal B ub'"
  unfolding near_optimal_def using ext_le_trans by blast

lemma decided_better:
  assumes "decided rs B st" "ub \<le> g_upper_bound st"
  shows "decided rs B (st\<lparr>g_upper_bound := ub\<rparr>)"
  using assms ext_le_trans [OF assms(2)] unfolding decided_def by fastforce

lemma bb_inv_better:
  assumes inv: "bb_inv rs B st" and ub: "ub \<le> g_upper_bound st" "upward ub"
  shows "bb_inv rs B (st\<lparr>g_upper_bound := ub\<rparr>)"
proof -
  note s = searching_better [OF _ ub] decided_better [OF _ ub(1)] none_better_mono [OF _ ub(1)] near_optimal_mono [OF _ ub(1)]
  have "phase_ok rs B (st\<lparr>g_upper_bound := ub\<rparr>) (phase st)"
    using bb_invD [OF inv refl] s ext_le_trans [OF ub(1)] PInf_le [of "g_upper_bound st"] ub(1)
    by (cases "phase st") (auto simp: phase_ok_def)
  then show ?thesis using ub(2) by (simp add: bb_inv_def)
qed

lemma bb_inv_queue: "bb_inv rs B (st\<lparr>repair_queue := q\<rparr>) = bb_inv rs B st"
  by (simp add: bb_inv_def phase_ok_def searching_def decided_def cong: phase.case_cong)

lemma bb_inv_incumbent: "bb_inv rs B (set_incumbent_solution v x st) = bb_inv rs B st"
  by (simp add: bb_inv_def phase_ok_def searching_def decided_def set_incumbent_solution_def cong: phase.case_cong)

lemma bb_inv_inject:
  assumes "bb_inv rs B st" "set_new_solution B x st = Some st'"
  shows "bb_inv rs B st'"
  using bb_inv_better [OF assms(1)] assms
  by (auto simp: set_new_solution_def Let_def bb_inv_queue ext_less_le split: if_splits)

text \<open>The invariant in a phase, from its parts.\<close>

lemma bb_inv_Leaf:
  assumes "phase st = Leaf p u" "result st = MIP_UNSET" "searching rs B st (insert p (set (heap st)))" "p \<notin> set (heap st)" "p \<noteq> 0"
    "g_upper_bound st \<le> u" "upward u" "upward (g_upper_bound st)"
  shows "bb_inv rs B st"
  using assms by (simp add: bb_inv_def phase_ok_def)

lemma bb_inv_Test:
  "phase st = Test \<Longrightarrow> result st = MIP_UNSET \<Longrightarrow> searching rs B st (set (heap st)) \<Longrightarrow> bb_inv rs B st"
  by (simp add: bb_inv_def phase_ok_def searching_def search_ok_def)

lemma bb_inv_Finish:
  "phase st = Finish \<Longrightarrow> result st \<in> {MIP_TIME_LIMIT, MIP_NUMERICAL} \<Longrightarrow> searching rs B st opn \<Longrightarrow> bb_inv rs B st"
  by (auto simp: bb_inv_def phase_ok_def searching_def search_ok_def)

subsection \<open>Selecting a node\<close>

lemma leaf_bound:
  assumes "bb_ok B" "path t p bs" "lower_bounds B bs c" "mip_point B x" "\<forall>br\<in>set bs. on_branch x br"
  shows "c \<le> obj B x"
  using assms leaf_lp_point unfolding lower_bounds_def by blast

lemma searching_leaf:
  assumes "searching rs B st opn" "p \<in> opn"
  obtains bs nd c where "path (tree st) p bs" "tree st p = Some nd" "lower_bound nd = Fin c" "rs \<longrightarrow> lower_bounds B bs c"
    "status nd = ACTIVE" "childless nd" "rs \<longrightarrow> (\<forall>br\<in>set bs. branch_in (bb_n B) (box0 B) br)"
  using search_ok_leaf assms unfolding searching_def by metis

lemma searching_close:
  assumes s: "searching rs B st opn" and p: "p \<in> opn" "tree st p = Some pn" and st: "inactive_status s"
    and b: "g_upper_bound st \<le> b"
    and cov: "knows rs st \<Longrightarrow> \<forall>bs x. path (tree st) p bs \<longrightarrow> mip_point B x \<longrightarrow> (\<forall>br\<in>set bs. on_branch x br) \<longrightarrow> g_upper_bound st \<le> Fin (obj B x)"
    and hp: "set (heap st) = opn - {p}"
  shows "\<exists>t'. close_node s p ((tree st)(p \<mapsto> pn\<lparr>vstatus := v, lower_bound := b\<rparr>)) = Some t' \<and>
    searching rs B (st\<lparr>tree := t'\<rparr>) (set (heap st))"
proof -
  have ok: "search_ok rs B (tree st) (num_nodes st) (costs st) (g_upper_bound st) opn"
    and g: "gap_ok rs (tree st) opn (g_upper_bound st) (g_lower_bound st) (gap st)"
    using s by (simp_all add: searching_def)
  have "\<exists>t'. close_node s p ((tree st)(p \<mapsto> pn\<lparr>vstatus := v, lower_bound := b\<rparr>)) = Some t' \<and>
    search_ok rs B t' (num_nodes st) (costs st) (g_upper_bound st) (opn - {p}) \<and> (\<forall>q\<in>opn - {p}. t' q = tree st q)"
    using cov by (intro search_ok_close [OF ok p st refl b]) blast
  then obtain t' where t': "close_node s p ((tree st)(p \<mapsto> pn\<lparr>vstatus := v, lower_bound := b\<rparr>)) = Some t'"
    "search_ok rs B t' (num_nodes st) (costs st) (g_upper_bound st) (opn - {p})" "\<forall>q\<in>opn - {p}. t' q = tree st q" by blast
  then show ?thesis using gap_ok_mono [OF g _ t'(3)] s hp by (auto simp: searching_def)
qed

lemma select_lowest:
  assumes "searching rs B st opn" "set (heap st) = opn" "heap_top (tree st) (heap st) p" "tree st p = Some pn" "lower_bound pn = Fin c"
  shows "\<forall>q\<in>opn. \<forall>nd. tree st q = Some nd \<longrightarrow> Fin c \<le> lower_bound nd"
proof (intro ballI allI impI)
  fix q nd assume q: "q \<in> opn" "tree st q = Some nd"
  obtain d where d: "lower_bound nd = Fin d" using searching_leaf [OF assms(1) q(1)] q(2) by (metis option.inject)
  have "\<not> lower_bound nd < lower_bound pn" using assms(2,3,4) q by (auto simp: heap_top_def)
  then show "Fin c \<le> lower_bound nd" using assms(5) d by simp
qed

lemma select_ok:
  assumes B: "bb_ok B" and inv: "bb_inv rs B st" and ph: "phase st = Select" and top: "heap_top (tree st) (heap st) p"
  shows "\<exists>st'. select_node B p late st = Some st' \<and> bb_inv rs B st'"
proof -
  have up: "upward (g_upper_bound st)" and un: "result st = MIP_UNSET" and s: "searching rs B st (set (heap st))"
    using bb_invD [OF inv ph] by (simp_all add: phase_ok_def)
  have p: "p \<in> set (heap st)" using top by (simp add: heap_top_def)
  from searching_leaf [OF s p] obtain bs nd c where nd: "path (tree st) p bs" "tree st p = Some nd" "lower_bound nd = Fin c" "rs \<longrightarrow> lower_bounds B bs c"
    by metis
  let ?st = "st\<lparr>heap := remove1 p (heap st)\<rparr>"
  have dist: "distinct (heap st)" "0 \<notin> set (heap st)" using s by (simp_all add: searching_def)
  then have hp: "set (heap ?st) = set (heap st) - {p}" "distinct (heap ?st)" "0 \<notin> set (heap ?st)"
    by (auto simp: set_remove1_eq)
  have s': "searching rs B ?st (set (heap st))" using s hp by (simp add: searching_def)
  have ok: "search_ok rs B (tree st) (num_nodes st) (costs st) (g_upper_bound st) (set (heap st))" using s by (simp add: searching_def)
  show ?thesis
  proof (cases "g_upper_bound st < lower_bound nd")
    case True
    have same: "(tree st)(p \<mapsto> nd\<lparr>vstatus := vstatus nd, lower_bound := lower_bound nd\<rparr>) = tree st" using nd(2) by auto
    have cov: "g_upper_bound ?st \<le> Fin (obj B x)"
      if k: "knows rs ?st" and that: "path (tree ?st) p cs" "mip_point B x" "\<forall>br\<in>set cs. on_branch x br" for cs x
    proof -
      have rs: rs using k True nd(3) by auto
      have "cs = bs" using path_unique [OF search_okD(1) [OF ok]] that(1) nd(1) by simp
      then have "c \<le> obj B x" using leaf_bound [OF B nd(1) _ that(2)] nd(4) rs that(3) by simp
      then show ?thesis using ext_less_le [OF True] nd(3) ext_le_trans [of "g_upper_bound st" "Fin c"] by simp
    qed
    have "\<exists>t'. close_node FATHOMED p ((tree ?st)(p \<mapsto> nd\<lparr>vstatus := vstatus nd, lower_bound := lower_bound nd\<rparr>)) = Some t' \<and>
      searching rs B (?st\<lparr>tree := t'\<rparr>) (set (heap ?st))"
      using nd(2) ext_less_le [OF True] by (intro searching_close [OF s' p _ _ _ _ hp(1)]) (use cov in auto)
    then obtain t' where t': "close_node FATHOMED p (tree st) = Some t'" "searching rs B (?st\<lparr>tree := t'\<rparr>) (set (heap ?st))" using same by auto
    have "searching rs B (?st\<lparr>tree := t', phase := Test\<rparr>) (set (heap ?st))" using t'(2) by (simp add: searching_def)
    then show ?thesis using True nd(2) t'(1) up un by (simp add: select_node_def Let_def bb_inv_def phase_ok_def)
  next
    case False
    have opn: "insert p (set (heap ?st)) = set (heap st)" using hp(1) p by auto
    have g: "gap_ok rs (tree st) (set (heap st)) (g_upper_bound st) (Fin c) (g_upper_bound st - Fin c)"
      using select_lowest [OF s refl top nd(2,3)] up upward_le_refl [OF up] by (auto simp: gap_ok_def)
    have "searching rs B (?st\<lparr>g_lower_bound := Fin c, gap := g_upper_bound st - Fin c\<rparr>) (set (heap st))"
      using ok g hp by (simp add: searching_def)
    then have r: "searching rs B (?st\<lparr>g_lower_bound := Fin c, gap := g_upper_bound st - Fin c, result := r, phase := ph\<rparr>) (set (heap st))" for r ph
      by (simp add: searching_def)
    have "bb_inv rs B (?st\<lparr>g_lower_bound := Fin c, gap := g_upper_bound st - Fin c, result := MIP_TIME_LIMIT, phase := Finish\<rparr>)"
      using r up by (auto simp: bb_inv_def phase_ok_def)
    moreover have "bb_inv rs B (?st\<lparr>g_lower_bound := Fin c, gap := g_upper_bound st - Fin c, phase := Leaf p (g_upper_bound st)\<rparr>)"
    proof -
      define L where "L = ?st\<lparr>g_lower_bound := Fin c, gap := g_upper_bound st - Fin c, phase := Leaf p (g_upper_bound st)\<rparr>"
      have L: "phase L = Leaf p (g_upper_bound st)" "result L = MIP_UNSET" "g_upper_bound L = g_upper_bound st" "set (heap L) = set (heap st) - {p}"
        using un hp(1) by (simp_all add: L_def)
      have "searching rs B L (set (heap st))"
        using searching_cong [OF _ _ _ _ _ _ _, of L "?st\<lparr>g_lower_bound := Fin c, gap := g_upper_bound st - Fin c, result := MIP_UNSET, phase := Test\<rparr>" rs B]
          r [of Test MIP_UNSET] by (simp add: L_def)
      moreover have "insert p (set (heap L)) = set (heap st)" using L(4) p by auto
      ultimately have sL: "searching rs B L (insert p (set (heap L)))" by (simp only:)
      have pL: "p \<notin> set (heap L)" by (simp only: L(4) Diff_iff singletonI not_True_eq_False simp_thms)
      have p0: "p \<noteq> 0" using p dist(2) by metis
      have uL: "g_upper_bound L \<le> g_upper_bound st" "upward (g_upper_bound L)" unfolding L(3) by (rule upward_le_refl [OF up], rule up)
      have "bb_inv rs B L" by (rule bb_inv_Leaf [OF L(1,2) sL pL p0 uL(1) up uL(2)])
      then show ?thesis by (simp only: L_def)
    qed
    ultimately show ?thesis using False nd(2,3) by (simp add: select_node_def Let_def)
  qed
qed

subsection \<open>Solving a leaf\<close>

lemma searching_costs: "searching rs B st opn \<Longrightarrow> pc_ok (bb_n B) pc \<Longrightarrow> searching rs B (st\<lparr>costs := pc\<rparr>) opn"
  by (simp add: searching_def search_ok_def)

lemma searching_relabel:
  assumes s: "searching rs B st opn" and p: "p \<in> opn" "tree st p = Some pn" "path (tree st) p bs" "lower_bound pn = Fin c"
    and c': "rs \<longrightarrow> lower_bounds B bs c' \<and> c \<le> c'"
  shows "searching rs B (st\<lparr>tree := (tree st)(p \<mapsto> pn\<lparr>vstatus := v, lower_bound := Fin c'\<rparr>)\<rparr>) opn"
proof -
  have ok: "search_ok rs B (tree st) (num_nodes st) (costs st) (g_upper_bound st) opn"
    and g: "gap_ok rs (tree st) opn (g_upper_bound st) (g_lower_bound st) (gap st)"
    using s by (simp_all add: searching_def)
  obtain l where l: "g_lower_bound st = Fin l" "rs \<longrightarrow> (\<forall>q\<in>opn. \<forall>nd. tree st q = Some nd \<longrightarrow> Fin l \<le> lower_bound nd)"
    and u: "\<exists>u. upward u \<and> g_upper_bound st \<le> u \<and> gap st = u - g_lower_bound st"
    using g by (auto simp: gap_ok_def)
  have "rs \<longrightarrow> l \<le> c" using l(2) p by fastforce
  then have "gap_ok rs ((tree st)(p \<mapsto> pn\<lparr>vstatus := v, lower_bound := Fin c'\<rparr>)) opn (g_upper_bound st) (g_lower_bound st) (gap st)"
    using l u c' by (fastforce simp: gap_ok_def)
  then show ?thesis using search_ok_relabel [OF ok p(1-3) refl] c' s by (simp add: searching_def)
qed

lemma searching_branch:
  assumes B: "bb_ok B" and s: "searching rs B st opn"
    and p: "p \<in> opn" "tree st p = Some pn" "path (tree st) p bs" "lower_bound pn = Fin c" "rs \<longrightarrow> lower_bounds B bs c" "set (heap st) = opn - {p}"
    and v: "v < bb_n B" "bb_var_types B ! v \<noteq> CONTINUOUS" "val \<notin> \<int>"
      "rs \<longrightarrow> in_bounds (lower (original_lp B) ! v) val (upper (original_lp B) ! v)"
  shows "\<exists>t' h' n'. branch_on B p v val basis st = Some (st\<lparr>tree := t', heap := h', num_nodes := n'\<rparr>) \<and> h' \<noteq> [] \<and>
    searching rs B (st\<lparr>tree := t', heap := h', num_nodes := n'\<rparr>) (set h')"
proof -
  let ?N = "num_nodes st"
  have ok: "search_ok rs B (tree st) ?N (costs st) (g_upper_bound st) opn"
    and g: "gap_ok rs (tree st) opn (g_upper_bound st) (g_lower_bound st) (gap st)"
    using s by (simp_all add: searching_def)
  from search_ok_branch [OF B ok p(1-5) v, of basis] obtain t' dn un where t':
    "branch_on B p v val basis st = Some (st\<lparr>tree := t', heap := heap st @ [?N + 1, ?N + 2], num_nodes := ?N + 2\<rparr>)"
    "search_ok rs B t' (?N + 2) (costs st) (g_upper_bound st) (insert (?N + 1) (insert (?N + 2) (opn - {p})))"
    "\<forall>q\<in>opn - {p}. t' q = tree st q" "t' (?N + 1) = Some dn" "lower_bound dn = Fin c" "t' (?N + 2) = Some un" "lower_bound un = Fin c"
    by blast
  obtain l where l: "g_lower_bound st = Fin l" "rs \<longrightarrow> (\<forall>q\<in>opn. \<forall>nd. tree st q = Some nd \<longrightarrow> Fin l \<le> lower_bound nd)"
    and u: "\<exists>u. upward u \<and> g_upper_bound st \<le> u \<and> gap st = u - g_lower_bound st"
    using g by (auto simp: gap_ok_def)
  have lc: "rs \<longrightarrow> l \<le> c" using l(2) p(1,2,4) by fastforce
  have hp: "set (heap st @ [?N + 1, ?N + 2]) = insert (?N + 1) (insert (?N + 2) (opn - {p}))" using p(6) by auto
  have "rs \<longrightarrow> (\<forall>q\<in>insert (?N + 1) (insert (?N + 2) (opn - {p})). \<forall>nd. t' q = Some nd \<longrightarrow> Fin l \<le> lower_bound nd)"
    using l(2) t'(3-7) lc by auto
  then have g': "gap_ok rs t' (insert (?N + 1) (insert (?N + 2) (opn - {p}))) (g_upper_bound st) (g_lower_bound st) (gap st)"
    using l(1) u by (auto simp: gap_ok_def)
  have small: "q \<le> ?N" if "q \<in> set (heap st)" for q
  proof -
    have "q \<in> opn" using that p(6) by blast
    then obtain nd where "tree st q = Some nd" using tree_ok_open [OF search_okD(1) [OF ok]] by blast
    then show ?thesis using search_okD(2) [OF ok] by blast
  qed
  have "distinct (heap st)" "0 \<notin> set (heap st)" using s by (simp_all add: searching_def)
  then have dist: "distinct (heap st @ [?N + 1, ?N + 2])" "0 \<notin> set (heap st @ [?N + 1, ?N + 2])" using small by force+
  have "searching rs B (st\<lparr>tree := t', heap := heap st @ [?N + 1, ?N + 2], num_nodes := ?N + 2\<rparr>) (set (heap st @ [?N + 1, ?N + 2]))"
    unfolding hp by (rule searchingI) (use t'(2) g' dist in simp_all)
  then show ?thesis using t'(1) by blast
qed

text \<open>Closing a leaf in the state of \<open>process_leaf\<close>, with the upper bound that the leaf may have improved.\<close>

lemma close_leaf_ok:
  assumes st: "phase st = Test" "result st = MIP_UNSET" "searching rs B st (insert p (set (heap st)))" "p \<notin> set (heap st)"
    and p: "tree st p = Some pn" and s: "inactive_status s" and b: "g_upper_bound st \<le> b"
    and cov: "knows rs st \<Longrightarrow> \<forall>bs x. path (tree st) p bs \<longrightarrow> mip_point B x \<longrightarrow> (\<forall>br\<in>set bs. on_branch x br) \<longrightarrow> g_upper_bound st \<le> Fin (obj B x)"
  shows "\<exists>st'. close_leaf s p (pn\<lparr>vstatus := v, lower_bound := b\<rparr>) st = Some st' \<and> bb_inv rs B st'"
proof -
  have hp: "set (heap st) = insert p (set (heap st)) - {p}" using st(4) by blast
  from searching_close [OF st(3) insertI1 p s b cov hp] obtain t' where t':
    "close_node s p ((tree st)(p \<mapsto> pn\<lparr>vstatus := v, lower_bound := b\<rparr>)) = Some t'" "searching rs B (st\<lparr>tree := t'\<rparr>) (set (heap st))"
    by blast
  have "bb_inv rs B (st\<lparr>tree := t'\<rparr>)" by (rule bb_inv_Test) (use st t'(2) in simp_all)
  then show ?thesis using t'(1) by (simp add: close_leaf_def)
qed

lemma searching_improve:
  assumes "searching rs B st opn" and that: "Fin v \<le> g_upper_bound st"
  shows "searching rs B (set_incumbent_solution (Fin v) x st \<lparr>g_upper_bound := Fin v, gap := Fin v - g_lower_bound st\<rparr>) opn"
proof -
  have ok: "search_ok rs B (tree st) (num_nodes st) (costs st) (Fin v) opn"
    using search_ok_better [OF _ that] assms(1) by (simp add: searching_def)
  have "gap_ok rs (tree st) opn (Fin v) (g_lower_bound st) (Fin v - g_lower_bound st)"
    using assms(1) unfolding searching_def gap_ok_def by (metis ext_le_simps(1) order_refl upward_simps(1))
  then show ?thesis using ok assms by (simp add: searching_def set_incumbent_solution_def)
qed

lemma process_leaf_ok:
  assumes B: "bb_ok B" and E: "solver_sound E" and inv: "bb_inv rs B st" and ph: "phase st = Leaf p u"
    and P: "leaf_problem B p st = Some P" and r: "phase2 E P (u + Fin (dual_tol (settings B))) r"
  shows "\<exists>st'. process_leaf B p u r st = Some st' \<and> bb_inv rs B st'"
proof -
  obtain s x v where r_eq: "r = (s, x, v)" by (cases r) auto
  have up: "upward (g_upper_bound st)" and un: "result st = MIP_UNSET" and se: "searching rs B st (insert p (set (heap st)))"
    and ph: "p \<notin> set (heap st)" "p \<noteq> 0" and u: "g_upper_bound st \<le> u" "upward u"
    using bb_invD [OF inv ph] by (simp_all add: phase_ok_def)
  have ok: "search_ok rs B (tree st) (num_nodes st) (costs st) (g_upper_bound st) (insert p (set (heap st)))" using se by (simp add: searching_def)
  from searching_leaf [OF se insertI1] obtain bs nd c where nd: "path (tree st) p bs" "tree st p = Some nd" "lower_bound nd = Fin c" "rs \<longrightarrow> lower_bounds B bs c"
    "rs \<longrightarrow> (\<forall>br\<in>set bs. branch_in (bb_n B) (box0 B) br)" by metis
  have P_eq: "P = leaf_lp B bs" using leaf_problem_path [OF B search_okD(1,5) [OF ok] nd(1) ph(2)] P by simp
  note sound = solver_sound_node [OF E r [unfolded r_eq P_eq], unfolded node_result_sound_def lp_solved_def leaf_lp_obj]
  define st1 where "st1 = st\<lparr>nodes_explored := nodes_explored st + 1, phase := Test\<rparr>"
  have st1: "phase st1 = Test" "result st1 = MIP_UNSET" "searching rs B st1 (insert p (set (heap st1)))" "p \<notin> set (heap st1)"
    "tree st1 p = Some nd" "g_upper_bound st1 = g_upper_bound st" "tree st1 = tree st" "costs st1 = costs st" "num_nodes st1 = num_nodes st"
    using un se ph(1) nd(2) searching_cong [of st1 st] by (simp_all add: st1_def)
  have point: "lp_feasible (leaf_lp B bs) y" if "path (tree st) p cs" "mip_point B y" "\<forall>br\<in>set cs. on_branch y br" for cs y
    using leaf_lp_point [OF B that(2)] path_unique [OF search_okD(1) [OF ok] that(1) nd(1)] that(3) by simp
  consider "s = DUAL_UNBOUNDED" | "s = CUTOFF" | "s = OPTIMAL" | "s \<notin> {DUAL_UNBOUNDED, CUTOFF, OPTIMAL}" by blast
  then show ?thesis
  proof cases
    case 1
    have "\<exists>st'. close_leaf INFEASIBLE p (nd\<lparr>vstatus := v, lower_bound := PInf\<rparr>) st1 = Some st' \<and> bb_inv rs B st'"
      using up sound(1) 1 point st1(6,7) by (intro close_leaf_ok [OF st1(1-5)]) (auto simp: upward_def)
    then show ?thesis using 1 nd(2) by (simp add: process_leaf_def r_eq st1_def Let_def)
  next
    case 2
    have "g_upper_bound st \<le> Fin (obj B y)" if "lp_feasible (leaf_lp B bs) y" for y
    proof -
      have "u + Fin (dual_tol (settings B)) \<le> Fin (obj B y)" using sound 2 that by blast
      moreover have "0 \<le> dual_tol (settings B)" using B by (simp add: bb_ok_def Let_def)
      ultimately have "u \<le> Fin (obj B y)" using u(2) by (cases u) auto
      then show ?thesis using ext_le_trans [OF u(1)] by blast
    qed
    then have "\<exists>st'. close_leaf FATHOMED p (nd\<lparr>vstatus := v, lower_bound := u\<rparr>) st1 = Some st' \<and> bb_inv rs B st'"
      using u(1) point st1(6,7) by (intro close_leaf_ok [OF st1(1-5)]) auto
    then show ?thesis using 2 nd(2) by (simp add: process_leaf_def r_eq st1_def Let_def)
  next
    case 3
    have x: "lp_feasible (leaf_lp B bs) x" "lower_bounds B bs (obj B x)" using sound 3 by (simp_all add: lower_bounds_def)
    have len: "length x = bb_n B" using x(1) by (simp add: leaf_lp_feasible)
    have cx: "rs \<longrightarrow> lower_bounds B bs (obj B x) \<and> c \<le> obj B x" using nd(4) x by (simp add: lower_bounds_def)
    have data: "node_data_ok rs B nd" using search_okD(5) [OF ok] nd(2) ph(2) by blast
    obtain pc where pc: "update_pseudo_costs (nd\<lparr>vstatus := v\<rparr>) (Fin (obj B x)) (costs st) = Some pc" "pc_ok (bb_n B) pc"
      using update_pseudo_costs_ok [OF search_okD(3) [OF ok], of "nd\<lparr>vstatus := v\<rparr>" c "obj B x"] data nd(3)
      by (auto simp: node_data_ok_def)
    define fr where "fr = fractional_variables (settings B) x (bb_var_types B)"
    define st2 where "st2 = st1\<lparr>costs := pc\<rparr>"
    have st2: "phase st2 = Test" "result st2 = MIP_UNSET" "searching rs B st2 (insert p (set (heap st2)))" "p \<notin> set (heap st2)"
      "tree st2 p = Some nd" "g_upper_bound st2 = g_upper_bound st" "tree st2 = tree st" "heap st2 = heap st"
      using st1 searching_costs [OF st1(3) pc(2)] by (simp_all add: st2_def st1_def)
    show ?thesis
    proof (cases "fr = []")
      case True
      define st3 where "st3 = (if Fin (obj B x) < g_upper_bound st2
        then set_incumbent_solution (Fin (obj B x)) x st2 \<lparr>g_upper_bound := Fin (obj B x), gap := Fin (obj B x) - g_lower_bound st2\<rparr> else st2)"
      have ub3: "g_upper_bound st3 \<le> Fin (obj B x)"
        using up st2(6) not_less_ext [of "Fin (obj B x)" "g_upper_bound st"] by (auto simp: st3_def)
      have st3: "phase st3 = Test" "result st3 = MIP_UNSET" "searching rs B st3 (insert p (set (heap st3)))" "p \<notin> set (heap st3)"
        "tree st3 p = Some nd" "tree st3 = tree st"
        using st2 searching_improve [OF st2(3), of "obj B x" x] ext_less_le [of "Fin (obj B x)"]
        by (auto simp: st3_def set_incumbent_solution_def)
      have "g_upper_bound st3 \<le> Fin (obj B y)" if "lp_feasible (leaf_lp B bs) y" for y
        using x(2) that ext_le_trans [OF ub3, of "Fin (obj B y)"] by (simp add: lower_bounds_def)
      then have "\<exists>st'. close_leaf INTEGER_FEASIBLE p (nd\<lparr>vstatus := v, lower_bound := Fin (obj B x)\<rparr>) st3 = Some st' \<and> bb_inv rs B st'"
        using ub3 point st3(6) by (intro close_leaf_ok [OF st3(1-5)]) auto
      then show ?thesis using 3 True nd(2) pc(1)
        by (cases "Fin (obj B x) < g_upper_bound st") (simp_all add: process_leaf_def r_eq st1_def st2_def st3_def fr_def Let_def)
    next
      case False
      show ?thesis
      proof (cases "Fin (obj B x) \<le> u + Fin fathom_tol")
        case True
        have frac: "\<forall>j\<in>set fr. j < bb_n B \<and> x ! j \<notin> \<int>" using fractional_in [OF B len] by (simp add: fr_def)
        from variable_selection_ok [OF pc(2) False frac] obtain bv where bv: "bv \<in> set fr" "variable_selection pc fr x = Some bv" by blast
        note bvf = fractional_in [OF B len bv(1) [unfolded fr_def]]
        define st3 where "st3 = st2\<lparr>tree := (tree st2)(p \<mapsto> nd\<lparr>vstatus := v, lower_bound := Fin (obj B x)\<rparr>)\<rparr>"
        have se3: "searching rs B st3 (insert p (set (heap st2)))"
          unfolding st3_def using searching_relabel [OF st2(3) insertI1 st2(5) _ nd(3) cx] nd(1) st2(7) by simp
        have path3: "path (tree st3) p bs"
          by (rule path_extend [of "tree st", OF _ nd(1)]) (auto simp: st3_def st2(7) nd(2) same_node_def)
        have in3: "rs \<longrightarrow> in_bounds (lower (original_lp B) ! bv) (x ! bv) (upper (original_lp B) ! bv)"
          using leaf_lp_original [OF B _ x(1)] nd(5) bvf(1) by (simp add: lp_feasible_def)
        have hp3: "set (heap st3) = insert p (set (heap st2)) - {p}" using st2(4) by (simp add: st3_def)
        have p3: "tree st3 p = Some (nd\<lparr>vstatus := v, lower_bound := Fin (obj B x)\<rparr>)" by (simp add: st3_def)
        have l3: "lower_bound (nd\<lparr>vstatus := v, lower_bound := Fin (obj B x)\<rparr>) = Fin (obj B x)" by simp
        from searching_branch [OF B se3 insertI1 p3 path3 l3 _ hp3 bvf in3, of v] x(2) obtain t' h' n' where b:
          "branch_on B p bv (x ! bv) v st3 = Some (st3\<lparr>tree := t', heap := h', num_nodes := n'\<rparr>)"
          "searching rs B (st3\<lparr>tree := t', heap := h', num_nodes := n'\<rparr>) (set h')" by blast
        have "bb_inv rs B (st3\<lparr>tree := t', heap := h', num_nodes := n'\<rparr>)"
          by (rule bb_inv_Test) (use b(2) st2 in \<open>simp_all add: st3_def\<close>)
        then show ?thesis using 3 False True nd(2) pc(1) bv(2) b(1)
          by (simp add: process_leaf_def r_eq st1_def st2_def st3_def fr_def Let_def)
      next
        case far: False
        have "(0 :: 'a) \<le> fathom_tol" by (simp add: fathom_tol_def)
        then have "u \<le> Fin (obj B x)" using far u(2) by (cases u) auto
        then have ub: "g_upper_bound st2 \<le> Fin (obj B x)" using ext_le_trans [OF u(1)] st2(6) by simp
        have "g_upper_bound st2 \<le> Fin (obj B y)" if "lp_feasible (leaf_lp B bs) y" for y
          using x(2) that ext_le_trans [OF ub, of "Fin (obj B y)"] by (simp add: lower_bounds_def)
        then have "\<exists>st'. close_leaf FATHOMED p (nd\<lparr>vstatus := v, lower_bound := Fin (obj B x)\<rparr>) st2 = Some st' \<and> bb_inv rs B st'"
          using ub point st2(7) by (intro close_leaf_ok [OF st2(1-5)]) auto
        then show ?thesis using 3 False far nd(2) pc(1) by (simp add: process_leaf_def r_eq st1_def st2_def fr_def Let_def)
      qed
    qed
  next
    case 4
    define st2 where "st2 = st1\<lparr>tree := (tree st1)(p \<mapsto> nd\<lparr>vstatus := v\<rparr>), result := MIP_NUMERICAL, phase := Finish\<rparr>"
    have "nd\<lparr>vstatus := v\<rparr> = nd\<lparr>vstatus := v, lower_bound := Fin c\<rparr>" using nd(3) by simp
    then have "searching rs B (st1\<lparr>tree := (tree st1)(p \<mapsto> nd\<lparr>vstatus := v\<rparr>)\<rparr>) (insert p (set (heap st1)))"
      using searching_relabel [OF st1(3) insertI1 st1(5) _ nd(3), of bs c v] nd(1,4) st1(7) by simp
    then have "searching rs B st2 (insert p (set (heap st1)))" by (subst searching_cong [of _ "st1\<lparr>tree := (tree st1)(p \<mapsto> nd\<lparr>vstatus := v\<rparr>)\<rparr>"]) (simp_all add: st2_def)
    then have "bb_inv rs B st2" by (rule bb_inv_Finish [rotated 2]) (simp_all add: st2_def)
    then show ?thesis using 4 nd(2) by (simp add: process_leaf_def r_eq st1_def st2_def Let_def)
  qed
qed

subsection \<open>Starting the search\<close>

lemma root_searching:
  assumes B: "bb_ok B" and up: "upward (g_upper_bound st)" and lb: "rs \<longrightarrow> lower_bounds B [] c" and pc: "pc_ok (bb_n B) pc"
  shows "searching rs B (st\<lparr>g_lower_bound := Fin c, costs := pc, num_nodes := 0, heap := [],
    tree := [0 \<mapsto> mip_node_root uninit (Fin c) v], gap := g_upper_bound st - Fin c\<rparr>) {0}"
proof -
  let ?t = "[0 \<mapsto> mip_node_root uninit (Fin c) v] :: 'a tree"
  have t: "tree_ok ?t {0}" by (simp add: tree_ok_def node_ok_def parent_ok_def mip_node_root_def)
  have p: "path ?t 0 []" by simp
  have "leaf_ok rs B ?t 0" unfolding leaf_ok_def using p lb by (fastforce simp: mip_node_root_def)
  moreover have "covered ?t {0} x" for x unfolding covered_def using p by fastforce
  ultimately have "search_ok rs B ?t 0 pc (g_upper_bound st) {0}"
    using t up lb pc unfolding search_ok_def by (auto simp: mip_node_root_def)
  moreover have "gap_ok rs ?t {0} (g_upper_bound st) (Fin c) (g_upper_bound st - Fin c)"
    using up upward_le_refl [OF up] by (auto simp: gap_ok_def mip_node_root_def)
  ultimately show ?thesis by (simp add: searching_def)
qed

lemma branch_on_gap:
  assumes "branch_on B p bv v basis (st\<lparr>gap := g\<rparr>) = Some (st\<lparr>gap := g, tree := t', heap := h', num_nodes := n'\<rparr>)"
  shows "branch_on B p bv v basis st = Some (st\<lparr>tree := t', heap := h', num_nodes := n'\<rparr>)"
  using assms by (cases st) (auto simp: branch_on_def Let_def split: bind_splits)

lemma start_ok:
  assumes B: "bb_ok B" and E: "solver_sound E" and rs: "rs \<longrightarrow> root_decided E B" and inv: "bb_inv rs B st" and ph: "phase st = Root" and r: "relaxation E (original_lp B) relax"
  shows "\<exists>st'. start_search uninit B relax (\<lambda>fr obj x. strong_branching late solve num_threads (original_lp B) fr obj x ([], [])) st = Some st' \<and>
    bb_inv rs B st' \<and> (result st' = MIP_INFEASIBLE \<longrightarrow> (\<forall>x. \<not> mip_point B x))"
proof -
  obtain s x v where r_eq: "relax = (s, x, v)" by (cases relax) auto
  have up: "upward (g_upper_bound st)" and un: "result st = MIP_UNSET" using bb_invD [OF inv ph] by (simp_all add: phase_ok_def)
  note sound = solver_sound_root [OF E r [unfolded r_eq], unfolded root_result_sound_def lp_solved_def]
  have fin: "bb_inv rs B (st\<lparr>result := q, phase := Finished\<rparr>)" if "q \<noteq> MIP_OPTIMAL" for q
    using up that by (simp add: bb_inv_def phase_ok_def)
  show ?thesis
  proof (cases "s \<in> {LP_INFEASIBLE, LP_UNBOUNDED, LP_TIME_LIMIT}")
    case True
    then show ?thesis using fin sound by (auto simp: start_search_def r_eq mip_point_def)
  next
    case False
    then have len: "length x = bb_n B" using sound by blast
    have "rs \<longrightarrow> s = LP_OPTIMAL" using rs False r unfolding root_decided_def r_eq by blast
    then have x: "rs \<longrightarrow> lp_feasible (original_lp B) x" "rs \<longrightarrow> lower_bounds B [] (obj B x)" using sound by (auto simp: lower_bounds_def)
    define fr where "fr = fractional_variables (settings B) x (bb_var_types B)"
    show ?thesis
    proof (cases "fr = []")
      case True
      have "near_optimal B (Fin (obj B x))" if rs unfolding near_optimal_def
      proof (intro exI [of _ "obj B x"] conjI allI impI disjI1)
        fix y assume "mip_point B y"
        then have "obj B x \<le> obj B y" using x(2) that by (simp add: lower_bounds_def mip_point_def)
        moreover have "0 \<le> absolute_mip_gap_tol (settings B)" using B by (simp add: bb_ok_def Let_def)
        ultimately show "obj B x \<le> obj B y + absolute_mip_gap_tol (settings B)" by simp
      qed simp
      then show ?thesis using False True
        by (simp add: start_search_def r_eq fr_def [symmetric] answer_def set_incumbent_solution_def bb_inv_def phase_ok_def Let_def)
    next
      case frne: False
      have frac: "\<forall>j\<in>set fr. j < bb_n B \<and> x ! j \<notin> \<int>" using fractional_in [OF B len] by (simp add: fr_def)
      obtain pc where pc: "strong_branching late solve num_threads (original_lp B) fr (obj B x) x ([], []) (pseudo_costs_new (bb_n B)) = Some pc"
        "pc_ok (bb_n B) pc" using strong_branching_ok [OF pc_ok_new frac] by metis
      from variable_selection_ok [OF pc(2) frne frac] obtain bv where bv: "bv \<in> set fr" "variable_selection pc fr x = Some bv" by blast
      note bvf = fractional_in [OF B len bv(1) [unfolded fr_def]]
      define st1 where "st1 = st\<lparr>g_lower_bound := Fin (obj B x), costs := pc, num_nodes := 0, heap := [],
        tree := [0 \<mapsto> mip_node_root uninit (Fin (obj B x)) v]\<rparr>"
      define st2 where "st2 = st1\<lparr>gap := g_upper_bound st - Fin (obj B x)\<rparr>"
      have se: "searching rs B st2 {0}" unfolding st1_def st2_def by (rule root_searching [OF B up x(2) pc(2)])
      have root: "tree st2 0 = Some (mip_node_root uninit (Fin (obj B x)) v)" "path (tree st2) 0 []"
        "lower_bound (mip_node_root uninit (Fin (obj B x)) v) = Fin (obj B x)" "set (heap st2) = {0} - {0}"
        by (simp_all add: st1_def st2_def mip_node_root_def)
      have box: "rs \<longrightarrow> in_bounds (lower (original_lp B) ! bv) (x ! bv) (upper (original_lp B) ! bv)"
        using x(1) bvf(1) by (simp add: lp_feasible_def)
      from searching_branch [OF B se insertI1 root(1-3) x(2) root(4) bvf box, of v] obtain t' h' n' where b:
        "branch_on B 0 bv (x ! bv) v st2 = Some (st2\<lparr>tree := t', heap := h', num_nodes := n'\<rparr>)"
        "searching rs B (st2\<lparr>tree := t', heap := h', num_nodes := n'\<rparr>) (set h')" by blast
      have b1: "branch_on B 0 bv (x ! bv) v st1 = Some (st1\<lparr>tree := t', heap := h', num_nodes := n'\<rparr>)"
        by (rule branch_on_gap [OF b(1) [unfolded st2_def]])
      define st3 where "st3 = st1\<lparr>tree := t', heap := h', num_nodes := n', gap := g_upper_bound st - Fin (obj B x),
        nodes_explored := 0, currently_branching := True, phase := Test\<rparr>"
      have "searching rs B st3 (set h')" using b(2) by (subst searching_cong [of _ "st2\<lparr>tree := t', heap := h', num_nodes := n'\<rparr>"]) (simp_all add: st3_def st2_def)
      then have "bb_inv rs B st3" by (intro bb_inv_Test) (simp_all add: st3_def st1_def un)
      moreover have "start_search uninit B relax (\<lambda>fr obj x. strong_branching late solve num_threads (original_lp B) fr obj x ([], [])) st = Some st3"
        using False frne pc(1) bv(2) b1 by (simp add: start_search_def r_eq fr_def [symmetric] Let_def st1_def st3_def)
      moreover have "result st3 = MIP_UNSET" by (simp add: st3_def st1_def un)
      ultimately show ?thesis by simp
    qed
  qed
qed

subsection \<open>The other steps\<close>

lemma loop_test_ok: "bb_inv rs B st \<Longrightarrow> phase st = Test \<Longrightarrow> bb_inv rs B (loop_test B st)"
  by (auto simp: bb_inv_def phase_ok_def loop_test_def searching_def)

lemma take_repairs_ok: "bb_inv rs B st \<Longrightarrow> phase st = Take \<Longrightarrow> bb_inv rs B (take_repairs st)"
  by (simp add: bb_inv_def phase_ok_def take_repairs_def searching_def)

lemma repaired_ok: "bb_inv rs B st \<Longrightarrow> phase st = Repair [] \<Longrightarrow> bb_inv rs B (st\<lparr>phase := Select\<rparr>)"
  by (simp add: bb_inv_def phase_ok_def searching_def)

lemma repair_one_ok:
  assumes inv: "bb_inv rs B st" and ph: "phase st = Repair (x # rest)"
  shows "bb_inv rs B (repair_one B r rest st)"
proof -
  have 1: "bb_inv rs B (st\<lparr>phase := Repair rest\<rparr>)" using inv ph by (simp add: bb_inv_def phase_ok_def searching_def)
  show ?thesis
  proof (cases "fst r = OPTIMAL")
    case True
    have "bb_inv rs B (st\<lparr>phase := Repair rest, g_upper_bound := Fin (obj B (snd r))\<rparr>)" if "Fin (obj B (snd r)) < g_upper_bound st"
      by (rule bb_inv_better [OF 1]) (use ext_less_le [OF that] in simp_all)
    then show ?thesis using 1 True by (auto simp: repair_one_def repair_solution_def Let_def bb_inv_incumbent)
  qed (use 1 in \<open>simp add: repair_one_def repair_solution_def Let_def\<close>)
qed

lemma try_guess_ok: "bb_inv rs B st \<Longrightarrow> phase st = Guess \<Longrightarrow> try_guess B g st = Some st' \<Longrightarrow> bb_inv rs B st'"
  by (auto simp: bb_inv_def phase_ok_def try_guess_def set_incumbent_solution_def Let_def split: if_splits)

lemma try_guess_Nil [simp]: "try_guess B [] st = Some (st\<lparr>phase := Root\<rparr>)"
  by (simp add: try_guess_def)

lemma open_root_active:
  assumes "tree_ok t opn" "t 0 = Some rn" "inactive rn"
  shows "t q = Some nd \<Longrightarrow> q = 0"
proof (induction q arbitrary: nd rule: less_induct)
  case (less q)
  show ?case
  proof (rule ccontr)
    assume "q \<noteq> 0"
    then obtain p where "parent nd = Some p"
      using tree_okD [OF assms(1) less.prems] by (auto simp: node_ok_def parent_ok_def split: option.splits)
    then obtain pn where p: "p < q" "t p = Some pn" "child0 pn = Some q \<or> child1 pn = Some q"
      using tree_ok_parent [OF assms(1) less.prems] by blast
    then have "p = 0" using less.IH by blast
    then show False using tree_ok_internal(1) [OF assms(1) p(2,3)] p(2) assms(2,3) by simp
  qed
qed

lemma gap_upper: "gap_ok rs t opn ub lb gp \<Longrightarrow> \<exists>u l. upward u \<and> ub \<le> u \<and> lb = Fin l \<and> gp = u - lb"
  by (auto simp: gap_ok_def)

text \<open>When the heap is empty and the search was not interrupted, the root is closed.\<close>

lemma searching_exhausted:
  assumes "searching rs B st {}" "tree st 0 = Some rn"
  shows "g_upper_bound st \<le> lower_bound rn" "knows rs st \<Longrightarrow> none_better B (g_upper_bound st)"
proof -
  have ok: "search_ok rs B (tree st) (num_nodes st) (costs st) (g_upper_bound st) {}" using assms(1) by (simp add: searching_def)
  have "\<forall>q nd. tree st q = Some nd \<longrightarrow> q \<le> num_nodes st" using search_okD(2) [OF ok] by blast
  then have "inactive rn" using tree_ok_closed [OF search_okD(1) [OF ok] assms(2)] by blast
  then show "g_upper_bound st \<le> lower_bound rn" using search_okD(6) [OF ok] assms(2) by blast
  show "none_better B (g_upper_bound st)" if "knows rs st" using search_okD(8) [OF ok that] by (simp add: none_better_def covered_def)
qed

lemma searching_root_bound:
  assumes s: "searching rs B st opn" and rn: "tree st 0 = Some rn"
  shows "upward (lower_bound rn)"
    "rs \<Longrightarrow> mip_point B x \<Longrightarrow> lower_bound rn \<le> Fin (obj B x) \<or> g_upper_bound st \<le> Fin (obj B x)"
proof -
  have ok: "search_ok rs B (tree st) (num_nodes st) (costs st) (g_upper_bound st) opn" using s by (simp add: searching_def)
  have "inactive rn \<longrightarrow> g_upper_bound st \<le> lower_bound rn" using search_okD(6) [OF ok] rn by blast
  moreover have root: "inactive rn \<or> (\<exists>c. lower_bound rn = Fin c \<and> (rs \<longrightarrow> lower_bounds B [] c))" using search_okD(9) [OF ok] rn by auto
  ultimately show "upward (lower_bound rn)"
    using search_okD(4) [OF ok] by (cases "lower_bound rn"; cases "g_upper_bound st") (auto simp: less_eq_ext_def)
  assume rs: rs and x: "mip_point B x"
  show "lower_bound rn \<le> Fin (obj B x) \<or> g_upper_bound st \<le> Fin (obj B x)"
  proof (cases "inactive rn")
    case False
    then show ?thesis using root rs x by (auto simp: lower_bounds_def mip_point_def)
  next
    case True
    then have only: "q = 0" if "q \<in> opn" for q
      using open_root_active [OF search_okD(1) [OF ok] rn True] tree_ok_open [OF search_okD(1) [OF ok] that] by blast
    have "0 \<notin> opn" using tree_okD [OF search_okD(1) [OF ok] rn] True by (auto simp: node_ok_def)
    then have "opn = {}" using only by blast
    then show ?thesis using search_okD(8) [OF ok _ x] rs by (simp add: covered_def)
  qed
qed

lemma searching_open_bound:
  assumes B: "bb_ok B" and s: "searching rs B st opn" and rs: rs and x: "mip_point B x"
  shows "g_lower_bound st \<le> Fin (obj B x) \<or> g_upper_bound st \<le> Fin (obj B x)"
proof -
  have ok: "search_ok rs B (tree st) (num_nodes st) (costs st) (g_upper_bound st) opn"
    and g: "gap_ok rs (tree st) opn (g_upper_bound st) (g_lower_bound st) (gap st)" using s by (simp_all add: searching_def)
  show ?thesis
  proof (cases "covered (tree st) opn x")
    case True
    then obtain q bs where q: "q \<in> opn" "path (tree st) q bs" "\<forall>br\<in>set bs. on_branch x br" by (auto simp: covered_def)
    from searching_leaf [OF s q(1)] obtain cs nd c where nd: "path (tree st) q cs" "tree st q = Some nd" "lower_bound nd = Fin c" "lower_bounds B cs c"
      using rs by metis
    have "cs = bs" using path_unique [OF search_okD(1) [OF ok] nd(1) q(2)] .
    then have "c \<le> obj B x" using leaf_bound [OF B nd(1,4) x] q(3) by simp
    moreover have "g_lower_bound st \<le> Fin c" using g rs q(1) nd(2,3) by (auto simp: gap_ok_def)
    ultimately show ?thesis using ext_le_trans [of "g_lower_bound st" "Fin c"] by simp
  qed (use search_okD(8) [OF ok _ x] rs in blast)
qed

lemma finish_ok:
  assumes B: "bb_ok B" and inv: "bb_inv rs B st" and ph: "phase st = Finish"
  shows "\<exists>st'. finish_search st = Some st' \<and> bb_inv rs B st' \<and> result st' = result st \<and> heap st' = heap st \<and>
    g_upper_bound st' = g_upper_bound st \<and> phase st' = Decide \<and>
    (result st = MIP_UNSET \<and> heap st = [] \<longrightarrow> g_upper_bound st' \<le> g_lower_bound st' \<and> gap st' = g_upper_bound st' - g_lower_bound st')"
proof -
  have up: "upward (g_upper_bound st)" and un: "result st \<in> {MIP_UNSET, MIP_TIME_LIMIT, MIP_NUMERICAL}"
    using bb_invD [OF inv ph] by (simp_all add: phase_ok_def)
  from bb_invD [OF inv ph] obtain opn where s: "searching rs B st opn" "result st = MIP_UNSET \<longrightarrow> opn = set (heap st)" by (auto simp: phase_ok_def)
  have ok: "search_ok rs B (tree st) (num_nodes st) (costs st) (g_upper_bound st) opn"
    and g: "gap_ok rs (tree st) opn (g_upper_bound st) (g_lower_bound st) (gap st)" using s(1) by (simp_all add: searching_def)
  obtain rn where rn: "tree st 0 = Some rn" using tree_ok_root [OF search_okD(1) [OF ok]] by blast
  show ?thesis
  proof (cases "heap st = []")
    case True
    define st' where "st' = st\<lparr>currently_branching := False, phase := Decide, g_lower_bound := lower_bound rn, gap := g_upper_bound st - lower_bound rn\<rparr>"
    have fin: "finish_search st = Some st'" using True rn by (simp add: finish_search_def st'_def)
    have "decided rs B st'" unfolding decided_def
      using searching_root_bound [OF s(1) rn] up upward_le_refl [OF up] by (auto simp: st'_def)
    moreover have ex: "result st = MIP_UNSET \<longrightarrow> g_upper_bound st \<le> lower_bound rn \<and> (knows rs st \<longrightarrow> none_better B (g_upper_bound st))"
      using searching_exhausted [OF _ rn] s True by auto
    ultimately have "bb_inv rs B st'" using up un by (auto simp: bb_inv_def phase_ok_def st'_def)
    then show ?thesis using fin ex by (simp add: st'_def)
  next
    case False
    define st' where "st' = st\<lparr>currently_branching := False, phase := Decide\<rparr>"
    have fin: "finish_search st = Some st'" using False by (simp add: finish_search_def st'_def)
    have "decided rs B st'" unfolding decided_def
      using searching_open_bound [OF B s(1)] gap_upper [OF g] by (auto simp: st'_def)
    then have "bb_inv rs B st'" using up un False by (auto simp: bb_inv_def phase_ok_def st'_def)
    then show ?thesis using fin False by (simp add: st'_def)
  qed
qed

text \<open>The two tests of the gap.\<close>

lemma gap_near_optimal:
  assumes B: "bb_ok B" and d: "decided True B st" and up: "upward (g_upper_bound st)" and gap: "gap st \<le> Fin (absolute_mip_gap_tol (settings B))"
  shows "near_optimal B (g_upper_bound st)"
proof -
  obtain u where u: "upward u" "g_upper_bound st \<le> u" "gap st = u - g_lower_bound st" and lb: "upward (g_lower_bound st)"
    and pts: "\<And>x. mip_point B x \<Longrightarrow> g_lower_bound st \<le> Fin (obj B x) \<or> g_upper_bound st \<le> Fin (obj B x)"
    using d by (auto simp: decided_def)
  have a: "0 \<le> absolute_mip_gap_tol (settings B)" using B by (simp add: bb_ok_def Let_def)
  have "\<exists>v. u = Fin v" using gap u(1,3) lb by (cases u; cases "g_lower_bound st") (auto simp: minus_ext_def)
  then obtain v where v: "u = Fin v" by blast
  have ub: "\<exists>w. w \<le> v \<and> g_upper_bound st \<le> Fin w \<and> (\<forall>x. g_upper_bound st \<le> Fin (obj B x) \<longrightarrow> w \<le> obj B x)"
    using u(2) v up by (cases "g_upper_bound st") auto
  then obtain w where w: "w \<le> v" "g_upper_bound st \<le> Fin w" "\<And>x. g_upper_bound st \<le> Fin (obj B x) \<Longrightarrow> w \<le> obj B x" by blast
  have "w \<le> obj B x + absolute_mip_gap_tol (settings B)" if x: "mip_point B x" for x
    using pts [OF x]
  proof
    assume l: "g_lower_bound st \<le> Fin (obj B x)"
    then obtain l where "g_lower_bound st = Fin l" using lb by (cases "g_lower_bound st") auto
    then have "v - l \<le> absolute_mip_gap_tol (settings B)" "l \<le> obj B x" using gap u(3) v l by (simp_all add: minus_ext_def)
    then show ?thesis using w(1) by simp
  next
    assume "g_upper_bound st \<le> Fin (obj B x)"
    then show ?thesis using w(3) a by (simp add: add_increasing2)
  qed
  then show ?thesis unfolding near_optimal_def using w(2) by blast
qed

lemma relative_near_optimal:
  assumes B: "bb_ok B" and d: "decided True B st" and up: "upward (g_upper_bound st)"
    and gap: "relative_gap (g_upper_bound st) (g_lower_bound st) \<le> Fin (relative_mip_gap_tol (settings B))"
  shows "near_optimal B (g_upper_bound st)"
proof -
  have lb: "upward (g_lower_bound st)"
    and pts: "\<And>x. mip_point B x \<Longrightarrow> g_lower_bound st \<le> Fin (obj B x) \<or> g_upper_bound st \<le> Fin (obj B x)"
    using d by (auto simp: decided_def)
  obtain u l where ul: "g_upper_bound st = Fin u" "g_lower_bound st = Fin l"
    using gap up lb by (cases "g_upper_bound st"; cases "g_lower_bound st")
      (auto simp: relative_gap_def minus_ext_def zero_ext_def Let_def split: if_splits)
  have le: "u - l \<le> relative_mip_gap_tol (settings B) * \<bar>u\<bar>"
  proof (cases "u = 0")
    case True
    then show ?thesis using gap ul by (auto simp: relative_gap_def zero_ext_def Let_def split: if_splits)
  next
    case False
    then have "\<bar>u - l\<bar> / \<bar>u\<bar> \<le> relative_mip_gap_tol (settings B)"
      using gap ul by (simp add: relative_gap_def zero_ext_def minus_ext_def Let_def)
    then show ?thesis using False by (simp add: pos_divide_le_eq)
  qed
  have "u \<le> obj B x + absolute_mip_gap_tol (settings B) \<or> u \<le> obj B x + relative_mip_gap_tol (settings B) * \<bar>u\<bar>" if x: "mip_point B x" for x
  proof -
    have "0 \<le> absolute_mip_gap_tol (settings B)" using B by (simp add: bb_ok_def Let_def)
    then show ?thesis using pts [OF x] le ul by auto
  qed
  then show ?thesis unfolding near_optimal_def using ul(1) by auto
qed

lemma decide_ok:
  assumes B: "bb_ok B" and inv: "bb_inv rs B st" and ph: "phase st = Decide"
  shows "bb_inv rs B (decide_status B st)"
proof -
  have up: "upward (g_upper_bound st)" and d: "decided rs B st" and un: "result st \<in> {MIP_UNSET, MIP_TIME_LIMIT, MIP_NUMERICAL}"
    and ex: "result st = MIP_UNSET \<and> heap st = [] \<and> knows rs st \<longrightarrow> none_better B (g_upper_bound st)"
    using bb_invD [OF inv ph] by (simp_all add: phase_ok_def)
  have d': "decided True B st" if rs using d that by simp
  show ?thesis
    using gap_near_optimal [OF B d' up] relative_near_optimal [OF B d' up] up un ex
    by (auto simp: decide_status_def bb_inv_def phase_ok_def)
qed

lemma conclude_ok: "bb_inv rs B st \<Longrightarrow> phase st = Conclude \<Longrightarrow> bb_inv rs B (conclude B st)"
  by (auto simp: bb_inv_def phase_ok_def conclude_def answer_def)

subsection \<open>Every reachable state\<close>

lemma bb_step_inv:
  assumes B: "bb_ok B" and E: "solver_sound E" and rs: "rs \<longrightarrow> root_decided E B"
  shows "bb_step E B st st' \<Longrightarrow> bb_inv rs B st \<Longrightarrow> bb_inv rs B st'"
proof (induction rule: bb_step.induct)
  case (start st relax uninit late solve num_threads st')
  then show ?case using start_ok [OF B E rs start.prems start.hyps(1,2), of uninit late solve num_threads] by auto
next
  case (select st p late st')
  then show ?case using select_ok [OF B select.prems select.hyps(1,2), of late] by auto
next
  case (leaf st p u P r st')
  then show ?case using process_leaf_ok [OF B E leaf.prems leaf.hyps(1-3)] by auto
next
  case (finish st st')
  then show ?case using finish_ok [OF B finish.prems finish.hyps(1)] by auto
qed (auto intro: bb_inv_inject loop_test_ok take_repairs_ok repaired_ok repair_one_ok try_guess_ok decide_ok [OF B] conclude_ok)

interpretation phases: search_invariant E B "\<lambda>st. bb_ok B \<longrightarrow> solver_sound E \<longrightarrow> bb_inv (root_decided E B) B st" for E B
  by unfold_locales (auto simp: bb_inv_init intro: bb_step_inv)

lemma bb_reachable_inv: "bb_ok B \<Longrightarrow> solver_sound E \<Longrightarrow> bb_reachable E B st \<Longrightarrow> bb_inv (root_decided E B) B st"
  using phases.reachable by blast

end
