(* ===== verification/Bb_Example.thy ===== *)
theory Bb_Example
  imports Bb_Phases
begin

text \<open>
  Runs of the search on one integer variable between 1/2 and 2 that is to be minimised: the relaxation is
  fractional, the lower branch is infeasible, the upper branch gives the optimum 1. The solver is the
  most liberal sound one (\<open>any_solver\<close>), restricted to roots that are decided.
\<close>

subsection \<open>The problem\<close>

definition any_solver :: "('f :: floor_ceiling) lp_solver" where
  "any_solver = \<lparr>phase2 = (\<lambda>P cut_off (s, x, v). node_result_sound P cut_off s x), relaxation = (\<lambda>P (s, x, v). root_result_sound P s x)\<rparr>"

definition deciding :: "'f lp_solver \<Rightarrow> 'f lp_solver" where
  "deciding E = E\<lparr>relaxation := (\<lambda>P (s, x, v). relaxation E P (s, x, v) \<and> s \<in> {LP_OPTIMAL, LP_INFEASIBLE, LP_UNBOUNDED, LP_TIME_LIMIT})\<rparr>"

lemma any_solver_sound [simp]: "solver_sound any_solver"
  by (auto simp: solver_sound_def any_solver_def)

lemma deciding_sound [simp]: "solver_sound E \<Longrightarrow> solver_sound (deciding E)"
  by (auto simp: solver_sound_def deciding_def)

lemma deciding_decided [simp]: "root_decided (deciding E) B"
  by (simp add: root_decided_def deciding_def)

definition toy_solver :: "rat lp_solver" where "toy_solver = deciding any_solver"

lemmas solver_defs = toy_solver_def deciding_def any_solver_def node_result_sound_def root_result_sound_def lp_solved_def

lemma toy_solver_sound [simp]: "solver_sound toy_solver"
  by (simp add: toy_solver_def)

lemma toy_solver_decided [simp]: "root_decided toy_solver B"
  by (simp add: toy_solver_def)

definition toy_problem :: "rat user_problem" where
  "toy_problem = \<lparr>u_num_rows = 0, u_num_cols = 1, u_objective = [1], u_A = csc_new 0 1 0, u_rhs = [], u_row_sense = [],
     u_lower = [Fin (1 / 2)], u_upper = [Fin 2], u_range_rows = [], u_range_value = [], u_num_range_rows = 0,
     u_obj_constant = Fin 0, u_obj_scale = 1, u_var_types = [INTEGER]\<rparr>"

definition toy :: "rat branch_and_bound" where
  "toy = branch_and_bound_new (0, 0) toy_problem
     \<lparr>integer_tol = 1 / 100000, primal_tol = 1 / 1000000, dual_tol = 1 / 1000000, absolute_mip_gap_tol = 0, relative_mip_gap_tol = 1 / 1000, scale_columns = True\<rparr> 1"

lemma toy_lp: "original_lp toy = \<lparr>num_rows = 0, num_cols = 1, objective = [1], lp_A = csc_new 0 1 0, rhs = [],
    lower = [Fin (1 / 2)], upper = [Fin 2], obj_constant = Fin 0, obj_scale = 1\<rparr>"
  by code_simp

lemma toy_fields: "bb_var_types toy = [INTEGER]" "new_slacks toy = []" 
  by code_simp+

definition toy_root :: "rat mip_node" where
  "toy_root = (mip_node_root (NaN, NaN, 0) (Fin (1 / 2)) [BASIC])\<lparr>child0 := Some 1, child1 := Some 2, vstatus := []\<rparr>"

definition toy_child :: "ptr \<Rightarrow> rat mip_node" where
  "toy_child p = \<lparr>status = ACTIVE, lower_bound = Fin (1 / 2), depth = 1, node_id = p, branch_var = 0, branch_dir = (if p = 1 then 0 else 1),
     branch_var_lower = (if p = 1 then Fin (1 / 2) else Fin 1), branch_var_upper = (if p = 1 then Fin 0 else Fin 2),
     fractional_val = 1 / 2, parent = Some 0, child0 = None, child1 = None, vstatus = [BASIC]\<rparr>"

definition toy_costs :: "rat pseudo_costs" where
  "toy_costs = \<lparr>pseudo_cost_sum_up = [Fin 0], pseudo_cost_sum_down = [Fin 0], pseudo_cost_num_up = [1], pseudo_cost_num_down = [1]\<rparr>"

lemma toy_strong: "strong_branching (\<lambda>_ _. True) (\<lambda>_. (UNSET, [])) 1 (original_lp toy) [0] (1/2) [1/2] ([], []) (pseudo_costs_new 1) = Some toy_costs"
  by code_simp
lemma toy_frac: "fractional_variables (settings toy) [1 / 2] (bb_var_types toy) = [0]" by code_simp
lemma toy_frac1: "fractional_variables (settings toy) [1] (bb_var_types toy) = []" by code_simp
lemma toy_select: "variable_selection toy_costs [0] [1 / 2] = Some 0"
proof -
  have "pc_ok 1 toy_costs" by (simp add: pc_ok_def toy_costs_def)
  moreover have "(1 / 2 :: rat) \<notin> \<int>" using toy_frac by (auto simp: fractional_variables_eq is_fractional_def elim!: Ints_cases split: if_splits)
  ultimately show ?thesis using variable_selection_ok [of 1 toy_costs "[0]" "[1 / 2]"] by simp
qed
lemma toy_settings: "integer_tol (settings toy) = 1 / 100000" "dual_tol (settings toy) = 1 / 1000000"
  "absolute_mip_gap_tol (settings toy) = 0" "relative_mip_gap_tol (settings toy) = 1 / 1000"
  by (simp_all add: toy_def branch_and_bound_new_def split_beta)

lemma toy_ok [simp]: "bb_ok toy"
  by (simp add: bb_ok_def toy_lp toy_fields toy_settings)

lemma toy_obj [simp]: "obj toy x = x ! 0"
  by (simp add: compute_objective_def toy_lp)

definition toy_tree :: "rat mip_node \<Rightarrow> rat tree" where
  "toy_tree nd = [0 \<mapsto> toy_root, 1 \<mapsto> nd, 2 \<mapsto> toy_child 2]"

lemmas toy_node_defs = toy_root_def toy_child_def mip_node_root_def

lemma toy_start:
  "start_search (NaN, NaN, 0) toy (LP_OPTIMAL, [1 / 2], [BASIC])
     (\<lambda>fr obj x. strong_branching (\<lambda>_ _. True) (\<lambda>_. (UNSET, [])) 1 (original_lp toy) fr obj x ([], [])) st =
   Some (st\<lparr>g_lower_bound := Fin (1 / 2), costs := toy_costs, num_nodes := 2, heap := [1, 2], tree := toy_tree (toy_child 1),
     gap := g_upper_bound st - Fin (1 / 2), nodes_explored := 0, currently_branching := True, phase := Test\<rparr>)"
proof -
  have n: "bb_n toy = 1" by (simp add: toy_lp)
  have fl: "\<lfloor>1 / 2 :: rat\<rfloor> = 0" "\<lceil>1 / 2 :: rat\<rceil> = 1" by code_simp+
  have b: "branch_on toy 0 0 (1 / 2) [BASIC] (st\<lparr>g_lower_bound := Fin (1 / 2), costs := toy_costs, num_nodes := 0, heap := [],
      tree := [0 \<mapsto> mip_node_root (NaN, NaN, 0) (Fin (1 / 2)) [BASIC]]\<rparr>) =
    Some (st\<lparr>g_lower_bound := Fin (1 / 2), costs := toy_costs, num_nodes := 2, heap := [1, 2], tree := toy_tree (toy_child 1)\<rparr>)"
    by (cases st) (simp add: branch_on_def mip_node_child_def add_children_def toy_lp toy_node_defs toy_tree_def fl fun_upd_twist numeral_2_eq_2)
  show ?thesis by (simp add: start_search_def toy_frac toy_strong toy_select n b Let_def del: One_nat_def) 
qed

subsection \<open>The first leaf\<close>

text \<open>What the first half of the search leaves as it was.\<close>

definition same_data :: "rat bb_state \<Rightarrow> rat bb_state \<Rightarrow> bool" where
  "same_data st st' \<longleftrightarrow> g_upper_bound st' = g_upper_bound st \<and> repair_queue st' = [] \<and> incumbent_x st' = incumbent_x st \<and>
     incumbent_objective st' = incumbent_objective st \<and> result st' = result st"

lemma toy_select_reach:
  assumes r: "bb_reachable toy_solver toy st" and st: "phase st = Test" "repair_queue st = []" "heap st = p # h"
    "g_lower_bound st = Fin (1 / 2)" "gap st = g_upper_bound st - Fin (1 / 2)" "g_upper_bound st \<in> {PInf, Fin 1}"
  shows "bb_reachable toy_solver toy (st\<lparr>phase := Select\<rparr>)"
proof -
  have 1: "loop_test toy st = st\<lparr>phase := Take\<rparr>"
    using st(3-6) by (auto simp: loop_test_def toy_settings relative_gap_def minus_ext_def zero_ext_def Let_def)
  have r1: "bb_reachable toy_solver toy (st\<lparr>phase := Take\<rparr>)" using bb_reachable.step [OF r bb_step.test [OF st(1)]] 1 by simp
  have 2: "take_repairs (st\<lparr>phase := Take\<rparr>) = st\<lparr>phase := Repair []\<rparr>" using st(2) by (cases st) (simp add: take_repairs_def)
  have r2: "bb_reachable toy_solver toy (st\<lparr>phase := Repair []\<rparr>)" using bb_reachable.step [OF r1 bb_step.take_queue] 2 by simp
  show ?thesis using bb_reachable.step [OF r2 bb_step.repaired] by simp
qed

lemma toy_select_leaf:
  assumes r: "bb_reachable toy_solver toy st" and st: "phase st = Test" "repair_queue st = []" "heap st = p # h" "tree st p = Some nd"
    "lower_bound nd = Fin (1 / 2)" "\<forall>q\<in>set h. \<forall>qn. tree st q = Some qn \<longrightarrow> lower_bound qn = Fin (1 / 2)"
    "g_lower_bound st = Fin (1 / 2)" "gap st = g_upper_bound st - Fin (1 / 2)" "g_upper_bound st \<in> {PInf, Fin 1}"
  shows "bb_reachable toy_solver toy (st\<lparr>heap := h, gap := g_upper_bound st - Fin (1 / 2), phase := Leaf p (g_upper_bound st)\<rparr>)"
proof -
  define s3 where "s3 = st\<lparr>phase := Select\<rparr>"
  have r3: "bb_reachable toy_solver toy s3" unfolding s3_def by (rule toy_select_reach [OF r st(1-3,7-9)])
  have top: "heap_top (tree s3) (heap s3) p" using st(3-6) by (auto simp: heap_top_def s3_def)
  have ph: "phase s3 = Select" by (simp add: s3_def)
  have le: "\<not> g_upper_bound st < Fin (1 / 2)" using st(9) by auto
  have "select_node toy p False s3 = Some (st\<lparr>heap := h, gap := g_upper_bound st - Fin (1 / 2), phase := Leaf p (g_upper_bound st)\<rparr>)"
    using st le by (cases st) (simp add: select_node_def s3_def Let_def)
  then show "bb_reachable toy_solver toy (st\<lparr>heap := h, gap := g_upper_bound st - Fin (1 / 2), phase := Leaf p (g_upper_bound st)\<rparr>)"
    using bb_reachable.step [OF r3 bb_step.select [OF ph top]] by blast
qed

lemma toy_first_leaf:
  assumes r: "bb_reachable toy_solver toy st" and st: "phase st = Root" "repair_queue st = []" "g_upper_bound st \<in> {PInf, Fin 1}"
  shows "\<exists>st'. bb_reachable toy_solver toy st' \<and> phase st' = Test \<and> heap st' = [2] \<and> num_nodes st' = 2 \<and>
    tree st' = toy_tree ((toy_child 1)\<lparr>status := INFEASIBLE, lower_bound := PInf, vstatus := []\<rparr>) \<and> costs st' = toy_costs \<and>
    g_lower_bound st' = Fin (1 / 2) \<and> gap st' = g_upper_bound st - Fin (1 / 2) \<and> same_data st st'"
proof -
  define s1 where "s1 = st\<lparr>g_lower_bound := Fin (1 / 2), costs := toy_costs, num_nodes := 2, heap := [1, 2], tree := toy_tree (toy_child 1),
     gap := g_upper_bound st - Fin (1 / 2), nodes_explored := 0, currently_branching := True, phase := Test\<rparr>"
  have "relaxation toy_solver (original_lp toy) (LP_OPTIMAL, [1 / 2], [BASIC])"
    by (auto simp: solver_defs lp_feasible_def in_bounds_def toy_lp compute_objective_def)
  from bb_reachable.step [OF r bb_step.start [OF st(1) this toy_start]] have r1: "bb_reachable toy_solver toy s1" by (simp only: s1_def)
  define s2 where "s2 = s1\<lparr>heap := [2], gap := g_upper_bound s1 - Fin (1 / 2), phase := Leaf 1 (g_upper_bound s1)\<rparr>"
  have r2: "bb_reachable toy_solver toy s2" unfolding s2_def
    by (rule toy_select_leaf [OF r1, of 1 "[2]" "toy_child 1"]) (use st in \<open>auto simp: s1_def toy_tree_def toy_child_def\<close>)
  have lp: "leaf_problem toy 1 s2 = Some ((original_lp toy)\<lparr>lower := [Fin (1 / 2)], upper := [Fin 0]\<rparr>)"
    by (simp add: leaf_problem_def get_variable_bounds_def s2_def s1_def toy_tree_def toy_node_defs toy_lp write_bounds_def apply_ancestors.simps)
  have ph: "phase s2 = Leaf 1 (g_upper_bound s1)" by (simp add: s2_def)
  have solve: "phase2 toy_solver ((original_lp toy)\<lparr>lower := [Fin (1 / 2)], upper := [Fin 0]\<rparr>) c (DUAL_UNBOUNDED, [], [])" for c
    by (auto simp: solver_defs lp_feasible_def in_bounds_def toy_lp)
  have cl: "close_node INFEASIBLE 1 ((toy_tree (toy_child 1))(1 \<mapsto> (toy_child 1)\<lparr>vstatus := [], lower_bound := PInf\<rparr>)) =
    Some (toy_tree ((toy_child 1)\<lparr>status := INFEASIBLE, lower_bound := PInf, vstatus := []\<rparr>))"
    by (simp add: close_node_def set_status_def update_bound_def propagate.simps toy_node_defs is_inactive_def child_inactive_def toy_tree_def
      reset_child0_def reset_child1_def fun_upd_twist)
  have t2: "toy_tree (toy_child 1) 1 = Some (toy_child 1)" "tree s2 = toy_tree (toy_child 1)" by (simp_all add: s2_def s1_def toy_tree_def)
  have "process_leaf toy 1 (g_upper_bound s1) (DUAL_UNBOUNDED, [], []) s2 =
    Some (s2\<lparr>nodes_explored := nodes_explored s2 + 1, phase := Test,
      tree := toy_tree ((toy_child 1)\<lparr>status := INFEASIBLE, lower_bound := PInf, vstatus := []\<rparr>)\<rparr>)"
    using cl by (simp add: process_leaf_def t2 close_leaf_def del: One_nat_def)
  note r3 = bb_reachable.step [OF r2 bb_step.leaf [OF ph lp solve this]]
  show ?thesis by (rule exI, rule conjI [OF r3]) (use st in \<open>simp add: s2_def s1_def same_data_def\<close>)
qed

subsection \<open>The second leaf\<close>

lemma toy_second_leaf:
  assumes r: "bb_reachable toy_solver toy st" and st: "phase st = Root" "repair_queue st = []" "g_upper_bound st \<in> {PInf, Fin 1}"
    "result st = MIP_UNSET"
  shows "\<exists>st' pc. bb_reachable toy_solver toy st' \<and> phase st' = Test \<and> heap st' = [] \<and> result st' = MIP_UNSET \<and> g_upper_bound st' = Fin 1 \<and>
    (\<exists>rn. tree st' 0 = Some rn \<and> lower_bound rn = Fin 1) \<and>
    (if g_upper_bound st = PInf then incumbent_x st' = [1] \<and> incumbent_objective st' = Fin 1
     else incumbent_x st' = incumbent_x st \<and> incumbent_objective st' = incumbent_objective st)"
proof -
  let ?n1 = "(toy_child 1)\<lparr>status := INFEASIBLE, lower_bound := PInf, vstatus := []\<rparr>"
  from toy_first_leaf [OF r st(1-3)] obtain s1 where s1: "bb_reachable toy_solver toy s1" "phase s1 = Test" "heap s1 = [2]" "num_nodes s1 = 2"
    "tree s1 = toy_tree ?n1" "costs s1 = toy_costs" "g_lower_bound s1 = Fin (1 / 2)" "gap s1 = g_upper_bound st - Fin (1 / 2)" "same_data st s1"
    by blast
  have sd: "g_upper_bound s1 = g_upper_bound st" "repair_queue s1 = []" "incumbent_x s1 = incumbent_x st"
    "incumbent_objective s1 = incumbent_objective st" "result s1 = MIP_UNSET" using s1(9) st(4) by (simp_all add: same_data_def)
  define s2 where "s2 = s1\<lparr>heap := [], gap := g_upper_bound s1 - Fin (1 / 2), phase := Leaf 2 (g_upper_bound s1)\<rparr>"
  have r2: "bb_reachable toy_solver toy s2" unfolding s2_def
    by (rule toy_select_leaf [OF s1(1,2), of 2 "[]" "toy_child 2"]) (use s1 st sd in \<open>auto simp: toy_tree_def toy_child_def\<close>)
  let ?P = "(original_lp toy)\<lparr>lower := [Fin 1], upper := [Fin 2]\<rparr>"
  have lp: "leaf_problem toy 2 s2 = Some ?P"
    by (simp add: leaf_problem_def get_variable_bounds_def s2_def s1(5) toy_tree_def toy_node_defs toy_lp write_bounds_def apply_ancestors.simps)
  have ph: "phase s2 = Leaf 2 (g_upper_bound s1)" by (simp add: s2_def)
  have solve: "phase2 toy_solver ?P c (OPTIMAL, [1], [])" for c
    by (auto simp: solver_defs lp_feasible_def in_bounds_def toy_lp compute_objective_def)
  have t2: "toy_tree ?n1 2 = Some (toy_child 2)" "tree s2 = toy_tree ?n1" "costs s2 = toy_costs" by (simp_all add: s2_def s1 toy_tree_def)
  obtain pc where pc: "update_pseudo_costs ((toy_child 2)\<lparr>vstatus := []\<rparr>) (Fin 1) toy_costs = Some pc"
    by (simp add: update_pseudo_costs_def record_change_def toy_child_def toy_costs_def Let_def)
  define t where "t = (toy_tree ?n1)(0 \<mapsto> toy_root\<lparr>status := FATHOMED, lower_bound := Fin 1, child0 := None, child1 := None\<rparr>, 1 := None, 2 := None)"
  have cl: "close_node INTEGER_FEASIBLE 2 ((toy_tree ?n1)(2 \<mapsto> (toy_child 2)\<lparr>vstatus := [], lower_bound := Fin 1\<rparr>)) = Some t"
    by (simp add: t_def close_node_def set_status_def update_bound_def propagate.simps toy_node_defs is_inactive_def child_inactive_def toy_tree_def
      reset_child0_def reset_child1_def destroy.simps ext_min_def fun_upd_twist)
  define s3 where "s3 = s2\<lparr>nodes_explored := nodes_explored s2 + 1, phase := Test, costs := pc\<rparr>"
  define s4 where "s4 = (if Fin 1 < g_upper_bound st
    then (set_incumbent_solution (Fin 1) [1] s3)\<lparr>g_upper_bound := Fin 1, gap := Fin 1 - g_lower_bound s3\<rparr> else s3)\<lparr>tree := t\<rparr>"
  have "process_leaf toy 2 (g_upper_bound s1) (OPTIMAL, [1], []) s2 = Some s4"
    using cl pc by (simp add: process_leaf_def t2(1) s1(5,6) close_leaf_def toy_frac1 s4_def s3_def s2_def sd set_incumbent_solution_def Let_def
      del: One_nat_def)
  from bb_reachable.step [OF r2 bb_step.leaf [OF ph lp solve this]] have "bb_reachable toy_solver toy s4" .
  moreover have "phase s4 = Test \<and> heap s4 = [] \<and> result s4 = MIP_UNSET \<and> g_upper_bound s4 = Fin 1 \<and>
    (\<exists>rn. tree s4 0 = Some rn \<and> lower_bound rn = Fin 1) \<and>
    (if g_upper_bound st = PInf then incumbent_x s4 = [1] \<and> incumbent_objective s4 = Fin 1
     else incumbent_x s4 = incumbent_x st \<and> incumbent_objective s4 = incumbent_objective st)"
    using st(3) by (auto simp: s4_def s3_def s2_def sd set_incumbent_solution_def t_def)
  ultimately show ?thesis by blast
qed

subsection \<open>Complete runs\<close>

definition at_root :: "'f branch_and_bound \<Rightarrow> ('f :: floor_ceiling) bb_state" where
  "at_root B = (bb_init B)\<lparr>phase := Root\<rparr>"

lemma at_root_reachable: "bb_reachable E B (at_root B)"
proof -
  have "phase (bb_init B) = Guess" by (simp add: bb_init_def)
  then show ?thesis using bb_reachable.step [OF bb_reachable.init bb_step.guess [OF _ try_guess_Nil]] by (simp add: at_root_def)
qed

lemma at_root_sel [simp]: "phase (at_root B) = Root" "repair_queue (at_root B) = []" "g_upper_bound (at_root B) = PInf"
  "result (at_root B) = MIP_UNSET"
  by (simp_all add: at_root_def bb_init_def)

lemma toy_crush: "crush_primal_solution (original_problem toy) (original_lp toy) [1] (new_slacks toy) [] = [1]"
  by code_simp

lemma toy_check: "fst (check_guess (original_lp toy) (settings toy) (bb_var_types toy) [1])"
  by code_simp

lemma toy_injected_state:
  defines "st \<equiv> (at_root toy)\<lparr>g_upper_bound := Fin 1\<rparr>"
  shows "bb_reachable toy_solver toy st" "phase st = Root" "repair_queue st = []" "g_upper_bound st = Fin 1"
    "result st = MIP_UNSET" "incumbent_x st = [0]" "incumbent_objective st = NaN"
proof -
  have u: "u_num_cols (original_problem toy) = 1" by code_simp
  have i: "set_new_solution toy [1] (at_root toy) = Some st"
    using toy_check by (simp add: set_new_solution_def toy_crush st_def u Let_def)
  show "bb_reachable toy_solver toy st" by (rule bb_reachable.step [OF at_root_reachable bb_step.inject [OF i]])
  show "phase st = Root" "repair_queue st = []" "g_upper_bound st = Fin 1"
    "result st = MIP_UNSET" "incumbent_x st = [0]" "incumbent_objective st = NaN"
    by (simp_all add: st_def) (simp_all add: at_root_def bb_init_def toy_lp)
qed

lemma toy_ending:
  assumes r: "bb_reachable toy_solver toy st" and st: "phase st = Test" "heap st = []" "result st = MIP_UNSET" "g_upper_bound st = Fin 1"
    "tree st 0 = Some rn" "lower_bound rn = Fin 1"
  shows "\<exists>st'. bb_reachable toy_solver toy st' \<and> phase st' = Finished \<and> result st' = MIP_OPTIMAL \<and> g_upper_bound st' = Fin 1 \<and>
    solution_objective st' = incumbent_objective st \<and> incumbent_objective st' = incumbent_objective st \<and> incumbent_x st' = incumbent_x st \<and>
    solution_x st' = [incumbent_x st ! 0]"
proof -
  define s1 where "s1 = st\<lparr>phase := Finish\<rparr>"
  have 1: "loop_test toy st = s1" using st by (simp add: loop_test_def s1_def)
  have r1: "bb_reachable toy_solver toy s1" using bb_reachable.step [OF r bb_step.test [OF st(1)]] 1 by simp
  define s2 where "s2 = st\<lparr>currently_branching := False, g_lower_bound := Fin 1, gap := Fin 0, phase := Decide\<rparr>"
  have "finish_search s1 = Some s2" using st by (cases st) (simp add: finish_search_def s1_def s2_def minus_ext_def Let_def)
  then have r2: "bb_reachable toy_solver toy s2" using bb_reachable.step [OF r1 bb_step.finish] by (simp add: s1_def)
  define s3 where "s3 = s2\<lparr>result := MIP_OPTIMAL, phase := Conclude\<rparr>"
  have "decide_status toy s2 = s3" using st by (simp add: decide_status_def s2_def s3_def toy_settings)
  then have r3: "bb_reachable toy_solver toy s3" using bb_reachable.step [OF r2 bb_step.decide] by (simp add: s2_def)
  have r4: "bb_reachable toy_solver toy (conclude toy s3)" by (rule bb_reachable.step [OF r3 bb_step.conclude]) (simp add: s3_def)
  have u: "u_num_cols (original_problem toy) = 1" by code_simp
  show ?thesis
    by (rule exI, rule conjI [OF r4], cases "solution_x st")
      (use st in \<open>simp_all add: conclude_def answer_def s3_def s2_def uncrush_primal_solution_def u resize_def\<close>)
qed

lemma toy_finish_run: "\<exists>st. bb_reachable toy_solver toy st \<and> phase st = Finish \<and> heap st = [] \<and> result st = MIP_UNSET"
proof -
  from toy_second_leaf [OF at_root_reachable]
  obtain s where s: "bb_reachable toy_solver toy s" "phase s = Test" "heap s = []" "result s = MIP_UNSET" by auto
  show ?thesis by (rule exI, rule conjI [OF bb_reachable.step [OF s(1) bb_step.test [OF s(2)]]]) (use s in \<open>simp add: loop_test_def\<close>)
qed

text \<open>The search finds the optimum; with an injected optimum it reports the incumbent it never set.\<close>

lemma toy_optimal_run:
  "\<exists>st. bb_reachable toy_solver toy st \<and> phase st = Finished \<and> result st = MIP_OPTIMAL \<and> g_upper_bound st = Fin 1 \<and>
     solution_objective st = Fin 1 \<and> incumbent_objective st = Fin 1 \<and> incumbent_x st = [1] \<and> solution_x st = [1]"
proof -
  from toy_second_leaf [OF at_root_reachable]
  obtain s rn where s: "bb_reachable toy_solver toy s" "phase s = Test" "heap s = []" "result s = MIP_UNSET" "g_upper_bound s = Fin 1"
    "tree s 0 = Some rn" "lower_bound rn = Fin 1" "incumbent_x s = [1]" "incumbent_objective s = Fin 1" by auto
  from toy_ending [OF s(1-7)] s(8,9) show ?thesis by auto
qed

lemma toy_injected_run:
  "\<exists>st. bb_reachable toy_solver toy st \<and> phase st = Finished \<and> result st = MIP_OPTIMAL \<and> g_upper_bound st = Fin 1 \<and>
     solution_objective st = NaN \<and> solution_x st = [0]"
proof -
  note i = toy_injected_state
  have ub: "g_upper_bound ((at_root toy)\<lparr>g_upper_bound := Fin 1\<rparr>) \<in> {PInf, Fin 1}" by simp
  from toy_second_leaf [OF i(1,2,3) ub i(5)] i(4,6,7)
  obtain s rn where s: "bb_reachable toy_solver toy s" "phase s = Test" "heap s = []" "result s = MIP_UNSET" "g_upper_bound s = Fin 1"
    "tree s 0 = Some rn" "lower_bound rn = Fin 1" "incumbent_x s = [0]" "incumbent_objective s = NaN" by auto
  from toy_ending [OF s(1-7)] s(8,9) show ?thesis by auto
qed

text \<open>A leaf in progress, and the last open node about to be popped.\<close>

lemma toy_leaf_run: "\<exists>st. bb_reachable toy_solver toy st \<and> phase st = Leaf 2 PInf"
proof -
  let ?n1 = "(toy_child 1)\<lparr>status := INFEASIBLE, lower_bound := PInf, vstatus := []\<rparr>"
  from toy_first_leaf [OF at_root_reachable] obtain s where s: "bb_reachable toy_solver toy s" "phase s = Test" "heap s = [2]"
    "tree s = toy_tree ?n1" "g_lower_bound s = Fin (1 / 2)" "gap s = PInf - Fin (1 / 2)" "g_upper_bound s = PInf" "repair_queue s = []"
    by (auto simp: same_data_def)
  have "bb_reachable toy_solver toy (s\<lparr>heap := [], gap := g_upper_bound s - Fin (1 / 2), phase := Leaf 2 (g_upper_bound s)\<rparr>)"
    by (rule toy_select_leaf [OF s(1,2,8,3), of "toy_child 2"]) (use s in \<open>auto simp: toy_tree_def toy_child_def\<close>)
  then show ?thesis using s(7) by fastforce
qed

lemma toy_last_node_run:
  "\<exists>st. bb_reachable toy_solver toy st \<and> phase st = Select \<and> heap st = [2] \<and> g_upper_bound st = PInf"
proof -
  let ?n1 = "(toy_child 1)\<lparr>status := INFEASIBLE, lower_bound := PInf, vstatus := []\<rparr>"
  from toy_first_leaf [OF at_root_reachable] obtain s where s: "bb_reachable toy_solver toy s" "phase s = Test" "heap s = [2]"
    "tree s = toy_tree ?n1" "g_lower_bound s = Fin (1 / 2)" "gap s = PInf - Fin (1 / 2)" "g_upper_bound s = PInf" "repair_queue s = []"
    by (auto simp: same_data_def)
  have "bb_reachable toy_solver toy (s\<lparr>phase := Select\<rparr>)" by (rule toy_select_reach [OF s(1,2,8,3)]) (use s in simp_all)
  then show ?thesis using s(3,7) by fastforce
qed

lemma toy_point: "mip_point toy [1]"
  by (auto simp: mip_point_def lp_feasible_def in_bounds_def toy_lp)

end
