(* ===== verification/Bb_Access.thy ===== *)
theory Bb_Access
  imports Bb_Example
begin

text \<open>
  The accesses of branch and bound: which vector entries and matrix entries its steps read, as predicates
  that follow the loops of the code, and the sizes of the points it stores. The operations on nodes carry
  their accesses in the model itself (\<open>None\<close>).
\<close>

subsection \<open>Reads\<close>

text \<open>\<open>matrix_vector_multiply\<close> with an input of size \<open>nx\<close> and an output of size \<open>ny\<close>.\<close>

definition product_reads :: "'f csc_matrix \<Rightarrow> nat \<Rightarrow> nat \<Rightarrow> bool" where
  "product_reads A nx ny \<longleftrightarrow> csc_m A \<le> ny \<and> (\<forall>j<csc_n A. j < nx \<and> Suc j < length (col_start A) \<and>
     (\<forall>p<col_start A ! Suc j. col_start A ! j \<le> p \<longrightarrow> p < length (csc_i A) \<and> p < length (csc_x A) \<and> csc_i A ! p < ny))"

definition objective_reads :: "'f lp_problem \<Rightarrow> 'f vec \<Rightarrow> bool" where
  "objective_reads P x \<longleftrightarrow> num_cols P \<le> length (objective P) \<and> num_cols P \<le> length x"

text \<open>\<open>check_guess\<close>, and \<open>fractional_variables\<close> in it.\<close>

definition guess_reads :: "'f lp_problem \<Rightarrow> variable_type list \<Rightarrow> 'f vec \<Rightarrow> bool" where
  "guess_reads P var_types x \<longleftrightarrow> product_reads (lp_A P) (length x) (length (rhs P)) \<and>
     num_cols P \<le> length (lower P) \<and> num_cols P \<le> length (upper P) \<and> num_cols P \<le> length x \<and> length x \<le> length var_types"

text \<open>The lookups for the slack column \<open>j\<close> in \<open>crush_primal_solution\<close>, and the whole of it.\<close>

definition slack_reads :: "'f lp_problem \<Rightarrow> idx \<Rightarrow> bool" where
  "slack_reads P j \<longleftrightarrow> j < num_cols P \<and> j < length (lower P) \<and> j < length (upper P) \<and> Suc j < length (col_start (lp_A P)) \<and>
     (let cs = col_start (lp_A P) ! j in cs < length (csc_i (lp_A P)) \<and> cs < length (csc_x (lp_A P)) \<and>
        csc_i (lp_A P) ! cs < length (rhs P) \<and> csc_i (lp_A P) ! cs < num_rows P)"

definition crush_reads :: "'f user_problem \<Rightarrow> 'f lp_problem \<Rightarrow> 'f vec \<Rightarrow> idx list \<Rightarrow> bool" where
  "crush_reads U P user_solution slacks \<longleftrightarrow> u_num_cols U \<le> length user_solution \<and> u_num_cols U \<le> num_cols P \<and>
     product_reads (lp_A P) (num_cols P) (num_rows P) \<and> (\<forall>j\<in>set slacks. slack_reads P j) \<and>
     product_reads (lp_A P) (num_cols P) (length (rhs P))"

text \<open>A solution in the user's variables is crushed, its objective is computed and it is checked.\<close>

definition injection_reads :: "('f :: floor_ceiling) branch_and_bound \<Rightarrow> 'f vec \<Rightarrow> bool" where
  "injection_reads B x \<longleftrightarrow> crush_reads (original_problem B) (original_lp B) x (new_slacks B) \<and>
     (let c = crush_primal_solution (original_problem B) (original_lp B) x (new_slacks B) []
      in objective_reads (original_lp B) c \<and> guess_reads (original_lp B) (bb_var_types B) c)"

text \<open>\<open>repair_solution\<close> fixes the integer variables at the values of the point from the queue.\<close>

definition repair_reads :: "'f branch_and_bound \<Rightarrow> 'f vec \<Rightarrow> bool" where
  "repair_reads B x \<longleftrightarrow> bb_n B \<le> length x \<and> bb_n B \<le> length (bb_var_types B) \<and>
     bb_n B \<le> length (lower (original_lp B)) \<and> bb_n B \<le> length (upper (original_lp B))"

text \<open>A solution of the simplex solver is searched for fractional variables and its objective is computed.\<close>

definition result_reads :: "'f branch_and_bound \<Rightarrow> 'f vec \<Rightarrow> bool" where
  "result_reads B x \<longleftrightarrow> length x \<le> length (bb_var_types B) \<and> objective_reads (original_lp B) x"

subsection \<open>The problem the search is built for\<close>

definition bb_data_ok :: "('f :: floor_ceiling) branch_and_bound \<Rightarrow> bool" where
  "bb_data_ok B \<longleftrightarrow> lp_wf (original_lp B) \<and> u_num_cols (original_problem B) \<le> bb_n B \<and> length (bb_var_types B) = bb_n B \<and>
     (\<forall>j\<in>set (new_slacks B). slack_reads (original_lp B) j)"

lemma full_variable_types_length:
  "length (u_var_types U) = u_num_cols U \<Longrightarrow> u_num_cols U \<le> num_cols P \<Longrightarrow> length (full_variable_types U P) = num_cols P"
  using for_range_inv_const [where P = "\<lambda>ts. length ts = num_cols P"] by (auto simp: full_variable_types_def)

lemma singleton_column: "csc_col A j = [e] \<Longrightarrow> col_start A ! j < col_start A ! Suc j"
  by (auto simp: lane_def dest: arg_cong [where f = length])

lemma shape_slack_reads:
  assumes S: "conv_shape U D b es P" and t: "t < length es"
  shows "slack_reads P (u_num_cols U + t)"
proof -
  let ?j = "u_num_cols U + t"
  have wf: "lp_wf P" and n: "num_cols P = u_num_cols U + length es" using S by (simp_all add: conv_shape_def)
  have "csc_col (lp_A P) ?j = [(fst (es ! t), fst (snd (es ! t)))]" using S t by (simp add: conv_shape_def)
  note less = singleton_column [OF this]
  have j: "?j < num_cols P" using n t by simp
  note r = lanes_wf_less [OF lp_wf_lanes [OF wf] j less]
  have "length (col_start (lp_A P)) = Suc (num_cols P)" using lp_wf_lanes [OF wf] by (simp add: lanes_wf_def)
  then show ?thesis using r j wf by (simp add: slack_reads_def lp_wf_def Let_def)
qed

lemma constructed_data_ok:
  assumes U: "user_wf U" and ts: "length (u_var_types U) = u_num_cols U"
  shows "bb_data_ok (branch_and_bound_new uninit U S scale)"
proof -
  let ?C = "convert_user_problem uninit U (lp_problem_new 1 1 1 scale) []"
  note shape = convert_user_problem_shape(1) [OF U, of uninit "lp_problem_new 1 1 1 scale" "[]"]
  have n: "num_cols (fst ?C) = u_num_cols U + length (slack_list uninit U)" and wf: "lp_wf (fst ?C)" using shape by (simp_all add: conv_shape_def)
  have "slack_reads (fst ?C) j" if j: "j \<in> set (snd ?C)" for j
  proof -
    have "u_num_cols U \<le> j" "j - u_num_cols U < length (slack_list uninit U)"
      using j convert_user_problem_shape(2) [OF U, of uninit "lp_problem_new 1 1 1 scale" "[]"] by auto
    then show ?thesis using shape_slack_reads [OF shape, of "j - u_num_cols U"] by simp
  qed
  then show ?thesis using n wf full_variable_types_length [OF ts, of "fst ?C"]
    by (simp add: bb_data_ok_def branch_and_bound_new_def split_beta)
qed

lemma constructed_ok:
  assumes "user_wf U" "length (u_var_types U) = u_num_cols U" "0 \<le> integer_tol S" "0 \<le> dual_tol S" "0 \<le> absolute_mip_gap_tol S"
  shows "bb_ok (branch_and_bound_new uninit U S scale)"
  using constructed_data_ok [OF assms(1,2), of uninit S scale] assms(3-5)
  by (simp add: bb_ok_def bb_data_ok_def lp_wf_def branch_and_bound_new_def split_beta Let_def)

subsection \<open>The reads are in range\<close>

lemma wf_product_reads:
  assumes wf: "lp_wf P" and n: "num_cols P \<le> nx" "num_rows P \<le> ny"
  shows "product_reads (lp_A P) nx ny"
proof -
  note L = lp_wf_lanes [OF wf]
  have "length (col_start (lp_A P)) = Suc (num_cols P)" using L by (simp add: lanes_wf_def)
  then show ?thesis using lanes_wf_less [OF L] wf n by (fastforce simp: product_reads_def lp_wf_def)
qed

lemma length_crush [simp]: "length (crush_primal_solution U P x slacks s) = num_cols P"
proof -
  have "length (fold (\<lambda>j s. s[j := f j]) js s0) = length s0" for js and f :: "nat \<Rightarrow> 'a" and s0
    by (induction js arbitrary: s0) simp_all
  moreover have "length (for_range 0 k (\<lambda>j s. s[j := x ! j]) s0) = length s0" for k and s0 :: "'a list"
    by (induction k) simp_all
  ultimately show ?thesis by (simp add: crush_primal_solution_def Let_def)
qed

lemma data_guess_reads: "bb_data_ok B \<Longrightarrow> length x = bb_n B \<Longrightarrow> guess_reads (original_lp B) (bb_var_types B) x"
  using wf_product_reads [of "original_lp B"] by (auto simp: guess_reads_def bb_data_ok_def lp_wf_def)

lemma data_result_reads: "bb_data_ok B \<Longrightarrow> length x = bb_n B \<Longrightarrow> result_reads B x"
  by (simp add: result_reads_def objective_reads_def bb_data_ok_def lp_wf_def)

lemma data_injection_reads:
  assumes "bb_data_ok B" "u_num_cols (original_problem B) \<le> length x"
  shows "injection_reads B x"
proof -
  have wf: "lp_wf (original_lp B)" using assms(1) by (simp add: bb_data_ok_def)
  have "crush_reads (original_problem B) (original_lp B) x (new_slacks B)"
    using assms wf_product_reads [OF wf] wf by (auto simp: crush_reads_def bb_data_ok_def lp_wf_def)
  then show ?thesis using data_guess_reads [OF assms(1)] data_result_reads [OF assms(1)]
    by (simp add: injection_reads_def result_reads_def Let_def)
qed

lemma data_repair_reads: "bb_data_ok B \<Longrightarrow> length x = bb_n B \<Longrightarrow> repair_reads B x"
  by (simp add: repair_reads_def bb_data_ok_def lp_wf_def)

subsection \<open>Stored points\<close>

definition sizes_ok :: "('f :: floor_ceiling) branch_and_bound \<Rightarrow> 'f bb_state \<Rightarrow> bool" where
  "sizes_ok B st \<longleftrightarrow> length (incumbent_x st) = bb_n B \<and> (\<forall>x\<in>set (repair_queue st). length x = bb_n B) \<and>
     (\<forall>xs. phase st = Repair xs \<longrightarrow> (\<forall>x\<in>set xs. length x = bb_n B))"

lemma sizes_same: "sizes_ok B st \<Longrightarrow> incumbent_x st' = incumbent_x st \<Longrightarrow> repair_queue st' = repair_queue st \<Longrightarrow>
    \<forall>xs. phase st' \<noteq> Repair xs \<Longrightarrow> sizes_ok B st'"
  by (simp add: sizes_ok_def)

lemma sizes_new: "sizes_ok B st \<Longrightarrow> length (incumbent_x st') = bb_n B \<Longrightarrow> repair_queue st' = repair_queue st \<Longrightarrow>
    \<forall>xs. phase st' \<noteq> Repair xs \<Longrightarrow> sizes_ok B st'"
  by (simp add: sizes_ok_def)

lemma lp_solved_length: "lp_solved P x \<Longrightarrow> length x = num_cols P"
  by (simp add: lp_solved_def lp_feasible_def)

lemma leaf_result_length:
  assumes "solver_sound E" "leaf_problem B p st = Some P" "phase2 E P c (OPTIMAL, x, v)"
  shows "length x = bb_n B"
proof -
  have "num_cols P = bb_n B" using assms(2) by (auto simp: leaf_problem_def)
  then show ?thesis using solver_sound_node [OF assms(1,3)] by (simp add: node_result_sound_def lp_solved_length)
qed

lemma repair_result_length:
  assumes "solver_sound E" "phase2 E (repair_lp B x) c (OPTIMAL, y, v)"
  shows "length y = bb_n B"
  using solver_sound_node [OF assms] by (simp add: node_result_sound_def lp_solved_length repair_lp_def split_beta)

lemma root_result_length:
  assumes "solver_sound E" "relaxation E (original_lp B) (s, x, v)" "s \<notin> {LP_INFEASIBLE, LP_UNBOUNDED, LP_TIME_LIMIT}"
  shows "length x = bb_n B"
  using solver_sound_root [OF assms(1,2)] assms(3) by (simp add: root_result_sound_def)

lemma branch_on_sizes: "branch_on B p bv v basis st = Some st' \<Longrightarrow>
    incumbent_x st' = incumbent_x st \<and> repair_queue st' = repair_queue st \<and> phase st' = phase st"
  by (auto simp: branch_on_def Let_def split: bind_splits)

lemma close_leaf_sizes: "close_leaf s p nd st = Some st' \<Longrightarrow>
    incumbent_x st' = incumbent_x st \<and> repair_queue st' = repair_queue st \<and> phase st' = phase st"
  by (auto simp: close_leaf_def)

lemma process_leaf_sizes:
  assumes "process_leaf B p u (s, x, v) st = Some st'" "sizes_ok B st" "s = OPTIMAL \<longrightarrow> length x = bb_n B"
  shows "sizes_ok B st'"
proof -
  obtain nd where nd: "tree st p = Some nd" using assms by (cases "tree st p") (auto simp: process_leaf_def)
  have "(incumbent_x st' = incumbent_x st \<or> s = OPTIMAL \<and> incumbent_x st' = x) \<and> repair_queue st' = repair_queue st \<and>
      (phase st' = Test \<or> phase st' = Finish)"
    using assms(1) by (simp add: process_leaf_def nd set_incumbent_solution_def Let_def split: if_split_asm bind_split_asm)
      (auto dest!: close_leaf_sizes branch_on_sizes)
  then show ?thesis using assms(2,3) by (auto simp: sizes_ok_def)
qed

lemma start_search_sizes:
  assumes "start_search uninit B (s, x, v) strong st = Some st'" "sizes_ok B st"
    "s \<notin> {LP_INFEASIBLE, LP_UNBOUNDED, LP_TIME_LIMIT} \<longrightarrow> length x = bb_n B"
  shows "sizes_ok B st'"
proof -
  have "(incumbent_x st' = incumbent_x st \<or> s \<notin> {LP_INFEASIBLE, LP_UNBOUNDED, LP_TIME_LIMIT} \<and> incumbent_x st' = x) \<and>
      repair_queue st' = repair_queue st \<and> (phase st' = Test \<or> phase st' = Finished)"
    using assms(1) by (simp add: start_search_def answer_def set_incumbent_solution_def Let_def split: if_split_asm bind_split_asm)
      (auto dest!: branch_on_sizes)
  then show ?thesis using assms(2,3) by (auto simp: sizes_ok_def)
qed

lemma bb_step_sizes:
  assumes E: "solver_sound E" and IH: "sizes_ok B st" and step: "bb_step E B st st'"
  shows "sizes_ok B st'"
  using step
proof (cases rule: bb_step.cases)
  case (inject x)
  then show ?thesis using IH by (auto simp: set_new_solution_def sizes_ok_def Let_def split: if_splits)
next
  case (guess g)
  then show ?thesis using IH by (auto simp: try_guess_def set_incumbent_solution_def sizes_ok_def Let_def split: if_splits)
next
  case (start relax uninit late solve T)
  obtain s x v where r: "relax = (s, x, v)" by (cases relax) auto
  show ?thesis using start_search_sizes [OF start(3) [unfolded r] IH] root_result_length [OF E start(2) [unfolded r]] by blast
next
  case (repair x rest s y v)
  then have "s = OPTIMAL \<longrightarrow> length y = bb_n B" using repair_result_length [OF E] by blast
  then show ?thesis using IH repair
    by (auto simp: repair_one_def repair_solution_def set_incumbent_solution_def sizes_ok_def Let_def)
next
  case (select p late)
  then show ?thesis using IH by (intro sizes_same [OF IH]) (auto simp: select_node_def Let_def split: option.splits if_splits)
next
  case (leaf p u P r)
  obtain s x v where r: "r = (s, x, v)" by (cases r) auto
  have "s = OPTIMAL \<longrightarrow> length x = bb_n B" using leaf_result_length [OF E leaf(2)] leaf(3) unfolding r by blast
  then show ?thesis using process_leaf_sizes leaf(4) IH unfolding r by blast
next
  case finish
  then show ?thesis using IH by (auto simp: finish_search_def sizes_ok_def Let_def split: if_splits)
qed (use IH in \<open>auto simp: loop_test_def take_repairs_def decide_status_def conclude_def answer_def sizes_ok_def\<close>)

interpretation sizes: search_invariant E B "\<lambda>st. solver_sound E \<longrightarrow> sizes_ok B st" for E B
proof
  show "solver_sound E \<longrightarrow> sizes_ok B (bb_init B)" by (simp add: sizes_ok_def bb_init_def)
qed (use bb_step_sizes in blast)

lemma bb_reachable_sizes: "solver_sound E \<Longrightarrow> bb_reachable E B st \<Longrightarrow> sizes_ok B st"
  using sizes.reachable by blast

end
