(* ===== verification/Bb_Properties.thy ===== *)
theory Bb_Properties
  imports Bb_Access
begin

text \<open>
  The properties of branch and bound: what its answers mean, that it makes no bad access and never gets
  stuck, and the cases in which it reports a wrong answer.
\<close>

subsection \<open>Accesses\<close>


lemma leaf_problem_ok:
  assumes B: "bb_ok B" and inv: "bb_inv rs B st" and ph: "phase st = Leaf p u"
  shows "\<exists>P. leaf_problem B p st = Some P"
proof -
  have se: "searching rs B st (insert p (set (heap st)))" and p: "p \<noteq> 0" using bb_invD [OF inv ph] by (simp_all add: phase_ok_def)
  from searching_leaf [OF se insertI1] obtain bs where bs: "path (tree st) p bs" by metis
  have ok: "search_ok rs B (tree st) (num_nodes st) (costs st) (g_upper_bound st) (insert p (set (heap st)))" using se by (simp add: searching_def)
  show ?thesis using leaf_problem_path [OF B search_okD(1,5) [OF ok] bs p] by blast
qed




text \<open>A solution without an entry for the only column is read out of range.\<close>

lemma short_injection_fails: "set_new_solution toy [] st = None"
  by (simp add: set_new_solution_def toy_def branch_and_bound_new_def toy_problem_def split_beta)

subsection \<open>Answers\<close>

text \<open>C3. When the search reports optimality, its upper bound is optimal: no integer feasible point of the
  converted problem has an objective that is better by more than the absolute or the relative gap
  tolerance. This holds for every order of the nodes, every number of injected solutions between any two
  steps, and every sound behaviour of the simplex solver that decides the root relaxation: optimal,
  infeasible, unbounded or stopped by the time limit. After any other status of the root the code goes
  on as if it were optimal, and then the claim is false (see \<open>numerical_root_reported_optimal\<close>).\<close>

theorem bb_optimal_is_optimal:
  fixes B :: "('f :: floor_ceiling) branch_and_bound"
  assumes "bb_ok B" "solver_sound E" "root_decided E B" "bb_reachable E B st" "phase st = Finished" "result st = MIP_OPTIMAL"
  shows "\<exists>u. g_upper_bound st \<le> Fin u \<and>
    (\<forall>x. mip_point B x \<longrightarrow> u \<le> obj B x + absolute_mip_gap_tol (settings B) \<or>
       u \<le> obj B x + relative_mip_gap_tol (settings B) * \<bar>u\<bar>)"
proof -
  have "bb_inv (root_decided E B) B st" using bb_reachable_inv assms(1,2,4) by blast
  from bb_invD [OF this assms(5)] assms(3,6) show ?thesis by (simp add: phase_ok_def near_optimal_def)
qed

theorem bb_optimal_is_optimal_witness: "\<exists>u. Fin (1 :: rat) \<le> Fin u \<and> u \<le> 1 + (1 / 1000) * \<bar>u\<bar>"
proof -
  from toy_optimal_run obtain st where st: "bb_reachable toy_solver toy st" "phase st = Finished" "result st = MIP_OPTIMAL"
    "g_upper_bound st = Fin 1" by blast
  from bb_optimal_is_optimal [OF toy_ok toy_solver_sound toy_solver_decided st(1-3)] obtain u where
    "Fin 1 \<le> Fin u" "u \<le> obj toy [1] + absolute_mip_gap_tol (settings toy) \<or> u \<le> obj toy [1] + relative_mip_gap_tol (settings toy) * \<bar>u\<bar>"
    using toy_point st(4) by auto
  then have "Fin (1 :: rat) \<le> Fin u \<and> u \<le> 1 + (1 / 1000) * \<bar>u\<bar>" by (auto simp: toy_settings)
  then show ?thesis by blast
qed

text \<open>C4. When the search passes from an undecided state to the answer infeasible, the converted problem has no
  integer feasible point: at the root, where the relaxation was infeasible, or at the end, where every
  leaf has been closed without an upper bound.\<close>

theorem bb_infeasible_is_infeasible:
  fixes B :: "('f :: floor_ceiling) branch_and_bound"
  assumes "bb_ok B" "solver_sound E" "bb_reachable E B st" "result st = MIP_UNSET" "bb_step E B st st'" "result st' = MIP_INFEASIBLE"
  shows "\<not> mip_point B x"
proof -
  have inv: "bb_inv (root_decided E B) B st" using bb_reachable_inv assms(1-3) by blast
  from assms(5,4,6) inv show ?thesis
  proof (cases rule: bb_step.cases)
    case (start relax uninit late solve T)
    then show ?thesis using start_ok [OF assms(1,2) _ inv start(1,2), of uninit late solve T] assms(6) by auto
  next
    case (leaf p u P r)
    then show ?thesis using process_leaf_ok [OF assms(1,2) inv leaf(1-3)] bb_invD [of _ B st'] assms(4,6)
      by (auto simp: process_leaf_def close_leaf_def branch_on_def set_incumbent_solution_def Let_def split: option.splits if_splits prod.splits bind_splits)
  next
    case conclude
    then have "heap st = []" "g_upper_bound st = PInf" "none_better B (g_upper_bound st)"
      using assms(4,6) bb_invD [OF inv conclude(2)] by (auto simp: conclude_def answer_def phase_ok_def split: if_splits)
    then show ?thesis by (auto simp: none_better_def)
  qed (use assms(4,6) in \<open>auto simp: set_new_solution_def try_guess_def set_incumbent_solution_def loop_test_def take_repairs_def
      repair_one_def select_node_def finish_search_def decide_status_def Let_def split: option.splits if_splits prod.splits\<close>)
qed

definition toy_empty :: "rat branch_and_bound" where
  "toy_empty = toy\<lparr>original_lp := (original_lp toy)\<lparr>lower := [Fin 1], upper := [Fin 0]\<rparr>\<rparr>"

theorem bb_infeasible_is_infeasible_witness: "\<not> mip_point toy_empty [1]"
proof -
  let ?st = "at_root toy_empty"
  have B: "bb_ok toy_empty" by (simp add: bb_ok_def toy_empty_def toy_lp toy_fields toy_settings)
  have r: "relaxation any_solver (original_lp toy_empty) (LP_INFEASIBLE, [], [])"
    by (auto simp: solver_defs toy_empty_def lp_feasible_def in_bounds_def toy_lp)
  have s: "start_search (NaN, NaN, 0) toy_empty (LP_INFEASIBLE, [], []) (\<lambda>fr obj x. strong_branching (\<lambda>_ _. True) (\<lambda>_. (UNSET, [])) 1
      (original_lp toy_empty) fr obj x ([], [])) ?st = Some (?st\<lparr>result := MIP_INFEASIBLE, phase := Finished\<rparr>)"
    by (simp add: start_search_def)
  from bb_infeasible_is_infeasible [OF B any_solver_sound at_root_reachable at_root_sel(4) bb_step.start [OF at_root_sel(1) r s]]
  show ?thesis by simp
qed



subsection \<open>Progress\<close>

definition solver_total :: "('f :: floor_ceiling) lp_solver \<Rightarrow> bool" where
  "solver_total E \<longleftrightarrow> (\<forall>P cut. \<exists>r. phase2 E P cut r) \<and> (\<forall>P. \<exists>r. relaxation E P r)"

lemma toy_solver_total: "solver_total toy_solver"
  unfolding solver_total_def
proof (intro conjI allI)
  fix P :: "rat lp_problem" and cut
  have "phase2 toy_solver P cut (NUMERICAL, [], [])" by (simp add: solver_defs)
  then show "\<exists>r. phase2 toy_solver P cut r" by blast
  have "relaxation toy_solver P (LP_TIME_LIMIT, [], [])" by (simp add: solver_defs)
  then show "\<exists>r. relaxation toy_solver P r" by blast
qed

lemma heap_top_exists:
  assumes se: "searching rs B st (set (heap st))" and ne: "heap st \<noteq> []"
  shows "\<exists>p. heap_top (tree st) (heap st) p"
proof -
  define key where "key = (\<lambda>q. fin_part (lower_bound (the (tree st q))))"
  have "Min (key ` set (heap st)) \<in> key ` set (heap st)" using ne by (intro Min_in) auto
  then obtain p where p: "p \<in> set (heap st)" "key p = Min (key ` set (heap st))" by auto
  have le: "key p \<le> key q" if "q \<in> set (heap st)" for q using that p(2) by simp
  have fin: "lower_bound qn = Fin (key q)" if "q \<in> set (heap st)" "tree st q = Some qn" for q qn
  proof -
    from searching_leaf [OF se that(1)] obtain nd c where "tree st q = Some nd" "lower_bound nd = Fin c" by metis
    then show ?thesis using that(2) by (simp add: key_def)
  qed
  have "heap_top (tree st) (heap st) p" unfolding heap_top_def
    using p(1) fin le by (auto simp: not_less)
  then show ?thesis by blast
qed

lemma branch_on_phase: "branch_on B p bv v basis st = Some st' \<Longrightarrow> phase st' = phase st"
  by (auto simp: branch_on_def Let_def split: bind_splits)

lemma close_leaf_phase: "close_leaf s p nd st = Some st' \<Longrightarrow> phase st' = phase st"
  by (auto simp: close_leaf_def)

lemma start_search_phase: "start_search uninit B relax strong st = Some st' \<Longrightarrow> phase st' \<noteq> Root"
  by (auto simp: start_search_def answer_def set_incumbent_solution_def Let_def split: prod.splits if_splits bind_splits)

lemma select_node_phase: "select_node B p late st = Some st' \<Longrightarrow> phase st' \<noteq> Select"
  by (auto simp: select_node_def Let_def split: if_splits option.splits)

lemma process_leaf_phase:
  assumes "process_leaf B p u r st = Some st'"
  shows "phase st' \<in> {Test, Finish}"
proof -
  obtain nd where nd: "tree st p = Some nd" using assms by (cases "tree st p") (auto simp: process_leaf_def)
  obtain s x v where r: "r = (s, x, v)" by (cases r) auto
  have "phase st' = Test \<or> phase st' = Finish"
    using assms by (simp add: process_leaf_def nd r set_incumbent_solution_def Let_def split: if_split_asm bind_split_asm)
      (auto dest: close_leaf_phase branch_on_phase)
  then show ?thesis by simp
qed

text \<open>C8. The search thread is never stuck: in every reachable state other than the final one it can take a step to
  another phase, whichever other threads inject solutions, as long as the simplex solver returns. In
  particular a node is on top of the heap whenever one is to be popped.\<close>

theorem bb_progress:
  fixes B :: "('f :: floor_ceiling) branch_and_bound"
  assumes "bb_ok B" "solver_sound E" "solver_total E" "bb_reachable E B st" "phase st \<noteq> Finished"
  shows "\<exists>st'. bb_step E B st st' \<and> phase st' \<noteq> phase st"
proof -
  have inv: "bb_inv (root_decided E B) B st" using bb_reachable_inv assms by blast
  show ?thesis
  proof (cases "phase st")
    case Guess
    show ?thesis by (rule exI, rule conjI [OF bb_step.guess [OF Guess try_guess_Nil]]) (simp add: Guess)
  next
    case Root
    obtain relax where r: "relaxation E (original_lp B) relax" using assms(3) unfolding solver_total_def by blast
    obtain st' where st': "start_search (NaN, NaN, 0) B relax (\<lambda>fr obj x. strong_branching (\<lambda>_ _. True) (\<lambda>_. (UNSET, [])) 1 (original_lp B) fr obj x ([], [])) st = Some st'"
      using start_ok [OF assms(1,2) _ inv Root r] by blast
    show ?thesis using bb_step.start [OF Root r st'] start_search_phase [OF st'] Root by auto
  next
    case Test
    show ?thesis by (rule exI, rule conjI [OF bb_step.test [OF Test]]) (simp add: Test loop_test_def)
  next
    case Take
    show ?thesis by (rule exI, rule conjI [OF bb_step.take_queue [OF Take]]) (simp add: Take take_repairs_def)
  next
    case (Repair xs)
    show ?thesis
    proof (cases xs)
      case Nil
      then have "phase st = Repair []" using Repair by simp
      then show ?thesis by (intro exI conjI, rule bb_step.repaired) simp_all
    next
      case (Cons x rest)
      obtain s y v where "phase2 E (repair_lp B x) PInf (s, y, v)" using assms(3) by (metis solver_total_def prod_cases3)
      from bb_step.repair [OF _ this, of st rest] Repair Cons have "bb_step E B st (repair_one B (s, y) rest st)" by simp
      moreover have "phase (repair_one B (s, y) rest st) = Repair rest"
        by (simp add: repair_one_def repair_solution_def set_incumbent_solution_def Let_def)
      ultimately show ?thesis using Repair Cons by (intro exI conjI) auto
    qed
  next
    case Select
    have "searching (root_decided E B) B st (set (heap st))" "heap st \<noteq> []" using bb_invD [OF inv Select] by (simp_all add: phase_ok_def)
    then obtain p where p: "heap_top (tree st) (heap st) p" using heap_top_exists by blast
    obtain st' where st': "select_node B p False st = Some st'" using select_ok [OF assms(1) inv Select p] by blast
    show ?thesis using bb_step.select [OF Select p st'] select_node_phase [OF st'] Select by auto
  next
    case (Leaf p u)
    obtain P where P: "leaf_problem B p st = Some P" using leaf_problem_ok [OF assms(1) inv Leaf] by blast
    obtain r where r: "phase2 E P (u + Fin (dual_tol (settings B))) r" using assms(3) unfolding solver_total_def by blast
    obtain st' where st': "process_leaf B p u r st = Some st'" using process_leaf_ok [OF assms(1,2) inv Leaf P r] by blast
    show ?thesis using bb_step.leaf [OF Leaf P r st'] process_leaf_phase [OF st'] Leaf by auto
  next
    case Finish
    obtain st' where "finish_search st = Some st'" "phase st' = Decide" using finish_ok [OF assms(1) inv Finish] by blast
    then show ?thesis using bb_step.finish [OF Finish] Finish by force
  next
    case Decide
    show ?thesis by (rule exI, rule conjI [OF bb_step.decide [OF Decide]]) (simp add: Decide decide_status_def)
  next
    case Conclude
    show ?thesis by (rule exI, rule conjI [OF bb_step.conclude [OF Conclude]]) (simp add: Conclude conclude_def answer_def)
  qed (use assms(5) in simp)
qed

theorem bb_progress_witness: "\<exists>st st'. phase st = Leaf 2 PInf \<and> bb_step toy_solver toy st st' \<and> phase st' \<noteq> Leaf 2 PInf"
proof -
  from toy_leaf_run obtain st where st: "bb_reachable toy_solver toy st" "phase st = Leaf 2 PInf" by blast
  from bb_progress [OF toy_ok toy_solver_sound toy_solver_total st(1)] st(2) show ?thesis by fastforce
qed

subsection \<open>The incumbent\<close>

definition incumbent_ok :: "('f :: floor_ceiling) branch_and_bound \<Rightarrow> 'f bb_state \<Rightarrow> bool" where
  "incumbent_ok B st \<longleftrightarrow> incumbent_objective st = NaN \<and> incumbent_x st = replicate (bb_n B) 0 \<or>
     incumbent_objective st = Fin (obj B (incumbent_x st)) \<and> g_upper_bound st \<le> incumbent_objective st \<and>
     fractional_variables (settings B) (incumbent_x st) (bb_var_types B) = []"

lemma incumbent_set: "fractional_variables (settings B) x (bb_var_types B) = [] \<Longrightarrow> incumbent_x st = x \<Longrightarrow>
    incumbent_objective st = Fin (obj B x) \<Longrightarrow> g_upper_bound st = Fin (obj B x) \<Longrightarrow> incumbent_ok B st"
  by (simp add: incumbent_ok_def)

lemma incumbent_same: "incumbent_ok B st \<Longrightarrow> incumbent_x st' = incumbent_x st \<Longrightarrow>
    incumbent_objective st' = incumbent_objective st \<Longrightarrow> g_upper_bound st' = g_upper_bound st \<Longrightarrow> incumbent_ok B st'"
  by (simp add: incumbent_ok_def)

lemma check_guess_integral: "fst (check_guess P S ts x) \<Longrightarrow> fractional_variables S x ts = []"
  by (simp add: check_guess_def Let_def)

lemma branch_on_data: "branch_on B p bv v basis st = Some st' \<Longrightarrow>
    incumbent_x st' = incumbent_x st \<and> incumbent_objective st' = incumbent_objective st \<and> g_upper_bound st' = g_upper_bound st"
  by (auto simp: branch_on_def Let_def split: bind_splits)

lemma close_leaf_data: "close_leaf s p nd st = Some st' \<Longrightarrow>
    incumbent_x st' = incumbent_x st \<and> incumbent_objective st' = incumbent_objective st \<and> g_upper_bound st' = g_upper_bound st"
  by (auto simp: close_leaf_def)

lemma process_leaf_incumbent:
  assumes "process_leaf B p u r st = Some st'" "incumbent_ok B st"
  shows "incumbent_ok B st'"
proof -
  obtain nd where nd: "tree st p = Some nd" using assms by (cases "tree st p") (auto simp: process_leaf_def)
  obtain s x v where r: "r = (s, x, v)" by (cases r) auto
  let ?fr = "fractional_variables (settings B) x (bb_var_types B)"
  have "incumbent_x st' = incumbent_x st \<and> incumbent_objective st' = incumbent_objective st \<and> g_upper_bound st' = g_upper_bound st \<or>
    ?fr = [] \<and> incumbent_x st' = x \<and> incumbent_objective st' = Fin (obj B x) \<and> g_upper_bound st' = Fin (obj B x)"
    using assms(1) by (simp add: process_leaf_def nd r set_incumbent_solution_def Let_def split: if_split_asm bind_split_asm)
      (auto dest!: close_leaf_data branch_on_data)
  then show ?thesis
  proof
    assume "incumbent_x st' = incumbent_x st \<and> incumbent_objective st' = incumbent_objective st \<and> g_upper_bound st' = g_upper_bound st"
    then show ?thesis using incumbent_same [OF assms(2)] by blast
  next
    assume "?fr = [] \<and> incumbent_x st' = x \<and> incumbent_objective st' = Fin (obj B x) \<and> g_upper_bound st' = Fin (obj B x)"
    then show ?thesis using incumbent_set by blast
  qed
qed

lemma start_search_incumbent:
  assumes "start_search uninit B relax strong st = Some st'" "incumbent_ok B st"
  shows "incumbent_ok B st'"
proof -
  obtain s x v where r: "relax = (s, x, v)" by (cases relax) auto
  let ?fr = "fractional_variables (settings B) x (bb_var_types B)"
  have "incumbent_x st' = incumbent_x st \<and> incumbent_objective st' = incumbent_objective st \<and> g_upper_bound st' = g_upper_bound st \<or>
    ?fr = [] \<and> incumbent_x st' = x \<and> incumbent_objective st' = Fin (obj B x) \<and> g_upper_bound st' = Fin (obj B x)"
    using assms(1) by (simp add: start_search_def answer_def r set_incumbent_solution_def Let_def split: if_split_asm bind_split_asm)
      (auto dest!: branch_on_data)
  then show ?thesis using incumbent_same [OF assms(2)] incumbent_set by blast
qed

lemma bb_step_incumbent:
  assumes IH: "incumbent_ok B st" and step: "bb_step E B st st'"
  shows "incumbent_ok B st'"
  using step
proof (cases rule: bb_step.cases)
  case (inject x)
  define c where "c = crush_primal_solution (original_problem B) (original_lp B) x (new_slacks B) []"
  have "st' = st \<or> st' = st\<lparr>repair_queue := repair_queue st @ [c]\<rparr> \<or> st' = st\<lparr>g_upper_bound := Fin (obj B c)\<rparr> \<and> Fin (obj B c) < g_upper_bound st"
    using inject by (auto simp: set_new_solution_def c_def Let_def split: if_splits)
  then consider "st' = st" | "st' = st\<lparr>repair_queue := repair_queue st @ [c]\<rparr>"
    | "st' = st\<lparr>g_upper_bound := Fin (obj B c)\<rparr>" "Fin (obj B c) < g_upper_bound st" by blast
  then show ?thesis
  proof cases
    case 3
    then show ?thesis using IH ext_le_trans [OF ext_less_le [OF 3(2)]] by (auto simp: incumbent_ok_def)
  qed (use IH in \<open>auto elim: incumbent_same\<close>)
next
  case (guess g)
  define c where "c = crush_primal_solution (original_problem B) (original_lp B) g (new_slacks B) []"
  have "st' = st\<lparr>phase := Root\<rparr> \<or> fst (check_guess (original_lp B) (settings B) (bb_var_types B) c) \<and>
      st' = (set_incumbent_solution (Fin (obj B c)) c (st\<lparr>phase := Root\<rparr>))\<lparr>g_upper_bound := Fin (obj B c)\<rparr>"
    using guess by (auto simp: try_guess_def c_def Let_def split: if_splits)
  then show ?thesis
  proof (elim disjE conjE)
    assume "fst (check_guess (original_lp B) (settings B) (bb_var_types B) c)"
      "st' = (set_incumbent_solution (Fin (obj B c)) c (st\<lparr>phase := Root\<rparr>))\<lparr>g_upper_bound := Fin (obj B c)\<rparr>"
    then show ?thesis by (intro incumbent_set [of B c]) (simp_all add: check_guess_integral set_incumbent_solution_def)
  qed (use IH in \<open>auto elim: incumbent_same\<close>)
next
  case (start relax uninit late solve T)
  then show ?thesis using start_search_incumbent IH by blast
next
  case (repair x rest s y v)
  then show ?thesis using IH
    by (auto simp: repair_one_def repair_solution_def set_incumbent_solution_def check_guess_integral Let_def
        intro: incumbent_set [of B y] elim: incumbent_same)
next
  case (select p late)
  have "incumbent_x st' = incumbent_x st" "incumbent_objective st' = incumbent_objective st" "g_upper_bound st' = g_upper_bound st"
    using select(3) by (auto simp: select_node_def Let_def split: option.splits if_splits)
  then show ?thesis by (rule incumbent_same [OF IH])
next
  case (leaf p u P r)
  then show ?thesis using process_leaf_incumbent IH by blast
next
  case finish
  then show ?thesis using IH by (auto simp: finish_search_def Let_def split: if_splits elim: incumbent_same)
qed (use IH in \<open>auto simp: loop_test_def take_repairs_def decide_status_def conclude_def answer_def elim: incumbent_same\<close>)

interpretation incumbents: search_invariant E B "incumbent_ok B" for E B
  by unfold_locales (simp add: incumbent_ok_def bb_init_def, rule bb_step_incumbent)

text \<open>C13. In every reachable state, either no incumbent has been stored, or its stored objective is its objective in
  the converted problem, it has no fractional integer variable, and the upper bound is no larger than it.\<close>

theorem bb_incumbent_consistent:
  fixes B :: "('f :: floor_ceiling) branch_and_bound"
  assumes "bb_reachable E B st"
  shows "incumbent_ok B st"
  using incumbents.reachable assms .

theorem bb_incumbent_consistent_witness: "\<exists>st. phase st = Finished \<and> incumbent_x st = [1] \<and> incumbent_ok toy st"
  using toy_optimal_run bb_incumbent_consistent [of toy_solver toy] by blast

subsection \<open>Wrong answers\<close>

text \<open>C15. A solution injected through \<open>set_new_solution\<close> lowers the upper bound but is not stored as the incumbent:
  there is a run that ends with the status optimal and the right upper bound, after a feasible optimal
  solution was injected, whose returned solution is the initial zero vector, outside the bounds of its
  variable, with the objective NaN.\<close>

theorem injected_solution_lost:
  "\<exists>(E :: rat lp_solver) B st. bb_ok B \<and> solver_sound E \<and> bb_reachable E B st \<and> phase st = Finished \<and> result st = MIP_OPTIMAL \<and>
     mip_point B [1] \<and> g_upper_bound st = Fin (obj B [1]) \<and> solution_objective st = NaN \<and> solution_x st = [0] \<and>
     \<not> in_bounds (lower (original_lp B) ! 0) (solution_x st ! 0) (upper (original_lp B) ! 0)"
proof -
  from toy_injected_run obtain st where st: "bb_reachable toy_solver toy st" "phase st = Finished" "result st = MIP_OPTIMAL"
    "g_upper_bound st = Fin 1" "solution_objective st = NaN" "solution_x st = [0]" by blast
  have "g_upper_bound st = Fin (obj toy [1])" "\<not> in_bounds (lower (original_lp toy) ! 0) (solution_x st ! 0) (upper (original_lp toy) ! 0)"
    using st(4) by simp (simp add: st(6) in_bounds_def toy_lp)
  then show ?thesis using st toy_ok toy_solver_sound toy_point by blast
qed

text \<open>C16. Whenever the time limit strikes just after the last open node was popped from the heap and no solution is
  known, the search reports the problem infeasible: \<open>select_node\<close> sets the status to the time limit, but
  the final test looks only at the empty heap and the infinite upper bound. In every such state, of
  every problem, all the following steps are determined and end with infeasible; in the run of the
  witness the problem has the integer feasible point 1.\<close>

theorem time_limit_reports_infeasible:
  fixes B :: "('f :: floor_ceiling) branch_and_bound"
  assumes "bb_ok B" "solver_sound E" "bb_reachable E B st" "phase st = Select" "heap st = [p]" "g_upper_bound st = PInf"
  shows "\<exists>s1 s2. select_node B p True st = Some s1 \<and> result s1 = MIP_TIME_LIMIT \<and> phase s1 = Finish \<and>
    finish_search s1 = Some s2 \<and> result (conclude B (decide_status B s2)) = MIP_INFEASIBLE"
proof -
  have "bb_inv (root_decided E B) B st" using bb_reachable_inv assms(1-3) by blast
  then have se: "searching (root_decided E B) B st {p}" using bb_invD [OF _ assms(4)] assms(5) by (simp add: phase_ok_def)
  from searching_leaf [OF se singletonI] obtain nd c where nd: "tree st p = Some nd" "lower_bound nd = Fin c" by metis
  have "search_ok (root_decided E B) B (tree st) (num_nodes st) (costs st) (g_upper_bound st) {p}" using se by (simp add: searching_def)
  then obtain rn where rn: "tree st 0 = Some rn" using tree_ok_root search_okD(1) by blast
  have up: "upward (lower_bound rn)" by (rule searching_root_bound(1) [OF se rn])
  define s1 where "s1 = st\<lparr>heap := [], g_lower_bound := Fin c, gap := PInf - Fin c, result := MIP_TIME_LIMIT, phase := Finish\<rparr>"
  define s2 where "s2 = s1\<lparr>currently_branching := False, phase := Decide, g_lower_bound := lower_bound rn, gap := PInf - lower_bound rn\<rparr>"
  have "select_node B p True st = Some s1" using nd assms(5,6) by (cases st) (simp add: select_node_def s1_def Let_def)
  moreover have "finish_search s1 = Some s2" using rn assms(6) by (simp add: finish_search_def s1_def s2_def Let_def)
  moreover have "decide_status B s2 = s2\<lparr>phase := Conclude\<rparr>"
    using up assms(6) by (cases "lower_bound rn") (simp_all add: decide_status_def relative_gap_def minus_ext_def zero_ext_def s2_def s1_def Let_def)
  ultimately show ?thesis using assms(6) by (simp add: conclude_def answer_def s2_def s1_def)
qed

theorem time_limit_reports_infeasible_witness:
  "\<exists>st s1 s2. bb_reachable toy_solver toy st \<and> select_node toy 2 True st = Some s1 \<and> finish_search s1 = Some s2 \<and>
     result (conclude toy (decide_status toy s2)) = MIP_INFEASIBLE \<and> mip_point toy [1]"
proof -
  obtain st where st: "bb_reachable toy_solver toy st" "phase st = Select" "heap st = [2]" "g_upper_bound st = PInf"
    using toy_last_node_run by blast
  from time_limit_reports_infeasible [OF toy_ok toy_solver_sound st] show ?thesis using st(1) toy_point by blast
qed

subsection \<open>Nodes\<close>

text \<open>C14. Reading the bounds of a node ends, on every tree that satisfies the invariant, and gives for each variable
  the bounds of the branch on it that is nearest to the root, or the original bounds when no branch is on
  it: the walk from the node to the root overwrites, so a deeper branch on the same variable has no effect.\<close>

theorem node_bounds_outermost:
  fixes b :: "('f :: linordered_idom) bounds"
  assumes "tree_ok t opn" "path t p bs" "p \<noteq> 0" "sized n b" "\<forall>br\<in>set bs. 0 \<le> fst br \<and> nat (fst br) < n" "w < n"
  shows "\<exists>l u. get_variable_bounds t p b = Some (l, u) \<and> length l = n \<and> length u = n \<and>
    (l ! w, u ! w) = (case filter (\<lambda>br. fst br = int w) bs of [] \<Rightarrow> (fst b ! w, snd b ! w) | br # brs \<Rightarrow> snd (last (br # brs)))"
proof -
  obtain l u where lu: "box bs b = (l, u)" by (cases "box bs b")
  have "get_variable_bounds t p b = Some (l, u)" using get_variable_bounds_path [OF assms(1-5)] lu by simp
  moreover have "sized n (l, u)" using sized_box [OF assms(4), of bs] lu by simp
  moreover have "\<forall>br\<in>set bs. 0 \<le> fst br" using assms(5) by blast
  note box_nth [OF assms(4,6) this]
  ultimately show ?thesis using lu by (simp add: sized_def)
qed

definition deep_tree :: "rat tree" where
  "deep_tree = (toy_tree (toy_child 1))(1 \<mapsto> (toy_child 1)\<lparr>child0 := Some 3, child1 := Some 4\<rparr>,
     3 \<mapsto> (toy_child 2)\<lparr>node_id := 3, parent := Some 1, branch_var_upper := Fin 1\<rparr>, 4 \<mapsto> (toy_child 2)\<lparr>node_id := 4, parent := Some 1\<rparr>)"

theorem node_bounds_outermost_witness:
  "\<exists>l u. get_variable_bounds deep_tree 3 ([Fin 0], [Fin 5]) = Some (l, u) \<and> (l ! 0, u ! 0) = (Fin (1 / 2), Fin (0 :: rat))"
proof -
  have p: "path deep_tree 3 [(0, Fin 1, Fin 1), (0, Fin (1 / 2), Fin 0)]" by (simp add: deep_tree_def toy_tree_def toy_node_defs)
  have t: "tree_ok deep_tree {2, 3, 4}"
    by (auto simp: tree_ok_def node_ok_def parent_ok_def two_children_def deep_tree_def toy_tree_def toy_node_defs)
  from node_bounds_outermost [OF t p, of 1 "([Fin 0], [Fin 5])" 0] show ?thesis by (auto simp: sized_def)
qed

text \<open>C12. Closing an open leaf, however many of its ancestors become fathomed with it, is defined and gives a
  well-linked tree again: no open leaf is freed or changed, the leaf is no longer open, and every other
  node that survives is unchanged or has been marked, with a bound no better than the upper bound.\<close>

theorem close_node_keeps_tree:
  fixes t :: "('f :: linordered_idom) tree"
  assumes "tree_ok t opn" "p \<in> opn" "t p = Some pn" "inactive_status s"
    "ub \<le> lower_bound pn" "\<forall>q nd. t q = Some nd \<longrightarrow> inactive nd \<longrightarrow> ub \<le> lower_bound nd"
  shows "\<exists>t'. close_node s p t = Some t' \<and> tree_ok t' (opn - {p}) \<and> (\<forall>q\<in>opn - {p}. t' q = t q) \<and>
    (\<forall>q nd'. t' q = Some nd' \<longrightarrow> t q = Some nd' \<or> inactive nd' \<and> ub \<le> lower_bound nd')"
proof -
  from close_node_ok [OF assms] obtain t' where t': "close_node s p t = Some t'" "tree_ok t' (opn - {p})"
    "\<And>q nd'. t' q = Some nd' \<Longrightarrow> \<exists>nd. t q = Some nd \<and> same_node nd nd' \<and> (nd' = nd \<or> inactive nd' \<and> ub \<le> lower_bound nd')" by blast
  have "t' q = t q" if "q \<in> opn - {p}" for q
  proof -
    obtain nd where "t' q = Some nd" "status nd = ACTIVE" using tree_ok_open [OF t'(2) \<open>q \<in> opn - {p}\<close>] by blast
    then show ?thesis using t'(3) by fastforce
  qed
  then show ?thesis using t' by blast
qed

theorem close_node_keeps_tree_witness:
  "\<exists>t'. close_node FATHOMED 3 deep_tree = Some t' \<and> tree_ok t' {2, 4} \<and> t' 4 = deep_tree 4"
proof -
  have t: "tree_ok deep_tree {2, 3, 4}"
    by (auto simp: tree_ok_def node_ok_def parent_ok_def two_children_def deep_tree_def toy_tree_def toy_node_defs)
  have i: "\<forall>q nd. deep_tree q = Some nd \<longrightarrow> inactive nd \<longrightarrow> Fin (1 / 2) \<le> lower_bound nd"
    by (auto simp: deep_tree_def toy_tree_def toy_node_defs split: if_splits)
  have "deep_tree 3 = Some ((toy_child 2)\<lparr>node_id := 3, parent := Some 1, branch_var_upper := Fin 1\<rparr>)"
    by (simp add: deep_tree_def)
  from close_node_keeps_tree [OF t _ this, of FATHOMED "Fin (1 / 2)"] i have
    "\<exists>t'. close_node FATHOMED 3 deep_tree = Some t' \<and> tree_ok t' ({2, 3, 4} - {3}) \<and> (\<forall>q\<in>{2, 3, 4} - {3}. t' q = deep_tree q)"
    by (auto simp: toy_child_def)
  then show ?thesis by (auto simp: insert_Diff_if)
qed

text \<open>C17. With well-formed pseudo costs and a nonempty list of fractional variables, \<open>variable_selection\<close> returns one of
  them whose score is maximal; the final read of \<open>score[select]\<close> is in range.\<close>

theorem variable_selection_maximal:
  fixes pc :: "('f :: floor_ceiling) pseudo_costs"
  assumes "pc_ok n pc" "fractional \<noteq> []" "\<forall>j\<in>set fractional. j < n \<and> x ! j \<notin> \<int>"
  shows "\<exists>j\<in>set fractional. variable_selection pc fractional x = Some j \<and>
    (\<forall>k\<in>set fractional. branch_score pc x k \<le> branch_score pc x j)"
  using variable_selection_ok assms .

theorem variable_selection_maximal_witness: "variable_selection toy_costs [0] [1 / 2] = Some 0"
proof -
  have "pc_ok 1 toy_costs" by (simp add: pc_ok_def toy_costs_def)
  moreover have "(1 / 2 :: rat) \<notin> \<int>" using toy_frac by (auto simp: fractional_variables_eq is_fractional_def elim!: Ints_cases split: if_splits)
  ultimately show ?thesis using variable_selection_maximal [of 1 toy_costs "[0]" "[1 / 2]"] by simp
qed

text \<open>C18. The ranges that strong branching gives to its threads lie in bounds, do not overlap and cover the fractional
  variables: put one after the other they are exactly 0, 1, ..., N - 1.\<close>

theorem thread_ranges_partition:
  assumes "0 < T"
  shows "concat (map (\<lambda>tid. [fst (get_partitioning N T tid)..<snd (get_partitioning N T tid)]) [0..<T]) = [0..<N]"
  using partition_concat assms .

theorem thread_ranges_partition_witness: "map (get_partitioning 7 3) [0..<3] = [(0, 3), (3, 5), (5, 7)] \<and>
    concat (map (\<lambda>tid. [fst (get_partitioning 7 3 tid)..<snd (get_partitioning 7 3 tid)]) [0..<3]) = [0..<7]"
proof
  show "map (get_partitioning 7 3) [0..<3] = [(0, 3), (3, 5), (5, 7)]" by code_simp
qed (rule thread_ranges_partition, simp)

end
