(* ===== verification/Lp_Scaling.thy ===== *)
theory Lp_Scaling
  imports Presolve
begin

text \<open>
  Column scaling of the dual simplex solver (\<open>scaling.cpp\<close>): \<open>column_scaling\<close> divides every column by its
  norm and stretches the bounds, \<open>unscale_solution\<close> carries a solution back. \<open>std::sqrt\<close> is the parameter
  \<open>sqrt_of\<close>; the laws need only that it is positive on positive numbers. The facts are stated over
  \<open>scaled_by\<close>, the relation between the two problems, and feed the locale of problem reductions.
\<close>

subsection \<open>Definitions\<close>

definition column_norm :: "('f \<Rightarrow> 'f) \<Rightarrow> ('f :: linordered_field) csc_matrix \<Rightarrow> idx \<Rightarrow> 'f" where
  "column_norm sqrt_of A j =
     (let sum = for_range (col_start A ! j) (col_start A ! Suc j) (\<lambda>p sum. let x = csc_x A ! p in sum + x * x) 0
      in if sum > 0 then sqrt_of sum else 1)"

definition column_scaling ::
  "('f \<Rightarrow> 'f) \<Rightarrow> bool \<Rightarrow> ('f :: linordered_field) lp_problem \<Rightarrow> 'f vec \<Rightarrow> 'f lp_problem \<times> 'f vec" where
  "column_scaling sqrt_of scale_columns unscaled scales =
     (let P = unscaled; n = num_cols P; A = lp_A P in
      if \<not> scale_columns then (P, resize n 1 scales)
      else let scales = for_range 0 n (\<lambda>j s. s[j := column_norm sqrt_of A j]) (resize n 0 scales);
               xs = for_range 0 n (\<lambda>j. for_range (col_start A ! j) (col_start A ! Suc j)
                      (\<lambda>p xs. xs[p := xs ! p / scales ! j])) (csc_x A);
               obj = for_range 0 n (\<lambda>j obj. obj[j := obj ! j / scales ! j]) (objective P);
               (lo, up) = for_range 0 n (\<lambda>j (lo, up).
                  (lo[j := lo ! j * Fin (scales ! j)], up[j := up ! j * Fin (scales ! j)])) (lower P, upper P)
           in (P\<lparr>lp_A := A\<lparr>csc_x := xs\<rparr>, objective := obj, lower := lo, upper := up\<rparr>, scales))"

definition unscale_solution ::
  "('f :: linordered_field) vec \<Rightarrow> 'f ext vec \<Rightarrow> 'f ext vec \<Rightarrow> 'f ext vec \<Rightarrow> 'f ext vec \<Rightarrow> 'f ext vec \<times> 'f ext vec" where
  "unscale_solution scales scaled_x scaled_z x z =
     (let n = length scaled_x
      in for_range 0 n (\<lambda>j (x, z). (x[j := scaled_x ! j / Fin (scales ! j)], z[j := scaled_z ! j / Fin (scales ! j)]))
           (resize n 0 x, resize n 0 z))"

subsection \<open>The loops\<close>

lemma for_range_pair_update:
  "for_range a b (\<lambda>j (x, y). (x[j := f j (x ! j)], y[j := g j (y ! j)])) (x, y) =
    (for_range a b (\<lambda>j x. x[j := f j (x ! j)]) x, for_range a b (\<lambda>j y. y[j := g j (y ! j)]) y)"
proof (cases "a \<le> b")
  case True
  then show ?thesis
  proof (induction b)
    case (Suc b)
    then show ?case by (cases "a = Suc b") simp_all
  qed simp
qed simp

lemma divide_range_loop:
  fixes c :: "'f :: field"
  shows "for_range a b (\<lambda>p xs. xs[p := xs ! p / c]) xs ! p = (if a \<le> p \<and> p < b \<and> p < length xs then xs ! p / c else xs ! p)"
    "length (for_range a b (\<lambda>p xs. xs[p := xs ! p / c]) xs) = length xs"
  using scale_range_loop [of a b "inverse c" xs p] length_for_range_update [of a b "\<lambda>p. p" "\<lambda>p xs. xs ! p / c" xs]
  by (simp_all add: divide_inverse)

text \<open>The values of the first \<open>k\<close> columns are divided, the others are untouched.\<close>

lemma scale_values_loop:
  fixes xs :: "('f :: linordered_field) vec"
  assumes w: "lanes_wf n m st js xs" and k: "k \<le> n"
  shows "length (for_range 0 k (\<lambda>j. for_range (st ! j) (st ! Suc j) (\<lambda>p xs. xs[p := xs ! p / s ! j])) xs) = length xs \<and>
    (\<forall>j<k. \<forall>p. st ! j \<le> p \<and> p < st ! Suc j \<longrightarrow>
       for_range 0 k (\<lambda>j. for_range (st ! j) (st ! Suc j) (\<lambda>p xs. xs[p := xs ! p / s ! j])) xs ! p = xs ! p / s ! j) \<and>
    (\<forall>p\<ge>st ! k. for_range 0 k (\<lambda>j. for_range (st ! j) (st ! Suc j) (\<lambda>p xs. xs[p := xs ! p / s ! j])) xs ! p = xs ! p)"
  using k
proof (induction k)
  case (Suc k)
  let ?f = "\<lambda>k. for_range 0 k (\<lambda>j. for_range (st ! j) (st ! Suc j) (\<lambda>p xs. xs[p := xs ! p / s ! j])) xs"
  have IH: "length (?f k) = length xs" "\<And>j p. j < k \<Longrightarrow> st ! j \<le> p \<Longrightarrow> p < st ! Suc j \<Longrightarrow> ?f k ! p = xs ! p / s ! j"
    "\<And>p. st ! k \<le> p \<Longrightarrow> ?f k ! p = xs ! p"
    using Suc by auto
  have le: "st ! Suc j \<le> st ! k" if "j < k" for j
    using w that Suc.prems by (auto simp: lanes_wf_def intro: sorted_nth_mono)
  have "st ! Suc k \<le> st ! n" using lanes_wf_start [OF w, of "Suc k"] Suc.prems by simp
  then have kk: "st ! k \<le> st ! Suc k" "st ! Suc k \<le> length xs"
    using w Suc.prems by (auto simp: lanes_wf_def intro: sorted_nth_mono)
  have step: "?f (Suc k) ! p = (if st ! k \<le> p \<and> p < st ! Suc k then ?f k ! p / s ! k else ?f k ! p)" for p
    using divide_range_loop(1) [of "st ! k" "st ! Suc k" "s ! k" "?f k" p] IH(1) kk by auto
  show ?case
  proof (intro conjI allI impI)
    show "length (?f (Suc k)) = length xs" using IH(1) by (simp add: divide_range_loop)
    show "?f (Suc k) ! p = xs ! p / s ! j" if "j < Suc k" "st ! j \<le> p \<and> p < st ! Suc j" for j p
    proof (cases "j = k")
      case True
      then show ?thesis using that IH(3) by (simp add: step del: for_range_Suc)
    next
      case False
      then have "j < k" "p < st ! k" using that le [of j] by auto
      then show ?thesis using that IH(2) by (simp add: step del: for_range_Suc)
    qed
    show "?f (Suc k) ! p = xs ! p" if "st ! Suc k \<le> p" for p
      using that kk IH(3) [of p] by (simp add: step del: for_range_Suc)
  qed
qed (use w in \<open>auto simp: lanes_wf_def\<close>)

subsection \<open>The scaled problem\<close>

definition scaled_by :: "'f vec \<Rightarrow> ('f :: linordered_field) lp_problem \<Rightarrow> 'f lp_problem \<Rightarrow> bool" where
  "scaled_by s P Q \<longleftrightarrow> lp_wf P \<and> lp_wf Q \<and> length s = num_cols P \<and> (\<forall>j<num_cols P. 0 < s ! j) \<and>
     num_rows Q = num_rows P \<and> num_cols Q = num_cols P \<and> rhs Q = rhs P \<and>
     obj_constant Q = obj_constant P \<and> obj_scale Q = obj_scale P \<and>
     (\<forall>j<num_cols P. (\<forall>i. csc_dense (lp_A Q) i j = csc_dense (lp_A P) i j / s ! j) \<and>
        objective Q ! j = objective P ! j / s ! j \<and>
        lower Q ! j = lower P ! j * Fin (s ! j) \<and> upper Q ! j = upper P ! j * Fin (s ! j))"

lemma column_norm_pos: "\<forall>v>0. 0 < sqrt_of v \<Longrightarrow> 0 < column_norm sqrt_of A j"
  by (simp add: column_norm_def Let_def)

lemma lane_sum_divide:
  "lane_sum (map (\<lambda>(r, v). (r, v / c)) l) i = lane_sum l i / (c :: 'f :: field)"
  unfolding lane_sum_def by (induction l) (auto simp: add_divide_distrib)

lemma column_scaling_scaled:
  fixes P :: "('f :: linordered_field) lp_problem"
  assumes wf: "lp_wf P" and sq: "\<forall>v>0. 0 < sqrt_of v" and C: "column_scaling sqrt_of b P [] = (Q, s)"
  shows "scaled_by s P Q"
proof (cases b)
  case False
  then have "Q = P" "s = replicate (num_cols P) 1" using C by (auto simp: column_scaling_def resize_def)
  moreover have "x * Fin 1 = x" for x :: "'f ext" by (cases x) auto
  ultimately show ?thesis using wf by (simp add: scaled_by_def)
next
  case True
  let ?n = "num_cols P" and ?A = "lp_A P"
  define sc where "sc = map (column_norm sqrt_of ?A) [0..<?n]"
  define xs where "xs = for_range 0 ?n (\<lambda>j. for_range (col_start ?A ! j) (col_start ?A ! Suc j) (\<lambda>p xs. xs[p := xs ! p / sc ! j])) (csc_x ?A)"
  have len: "length (objective P) = ?n" "length (lower P) = ?n" "length (upper P) = ?n" using wf by (simp_all add: lp_wf_def)
  have sc0: "for_range 0 ?n (\<lambda>j s. s[j := column_norm sqrt_of ?A j]) (resize ?n 0 []) = sc"
    using for_range_map_update [of ?n "resize ?n 0 []" "\<lambda>j _. column_norm sqrt_of ?A j"] by (simp add: sc_def)
  have upd: "for_range 0 ?n (\<lambda>j v. v[j := f (v ! j) (sc ! j)]) v = map (\<lambda>j. f (v ! j) (sc ! j)) [0..<?n]" if "length v = ?n"
    for f :: "'z \<Rightarrow> 'f \<Rightarrow> 'z" and v
    using for_range_map_update [of ?n v "\<lambda>j x. f x (sc ! j)"] that by simp
  have pr: "for_range 0 ?n (\<lambda>j (lo, up). (lo[j := lo ! j * Fin (sc ! j)], up[j := up ! j * Fin (sc ! j)])) (lower P, upper P)
      = (map (\<lambda>j. lower P ! j * Fin (sc ! j)) [0..<?n], map (\<lambda>j. upper P ! j * Fin (sc ! j)) [0..<?n])"
    using for_range_pair_update [of 0 ?n "\<lambda>j x. x * Fin (sc ! j)" "\<lambda>j x. x * Fin (sc ! j)" "lower P" "upper P"]
      upd [of "lower P" "\<lambda>x c. x * Fin c"] upd [of "upper P" "\<lambda>x c. x * Fin c"] len by simp
  have Q: "Q = P\<lparr>lp_A := ?A\<lparr>csc_x := xs\<rparr>, objective := map (\<lambda>j. objective P ! j / sc ! j) [0..<?n],
      lower := map (\<lambda>j. lower P ! j * Fin (sc ! j)) [0..<?n], upper := map (\<lambda>j. upper P ! j * Fin (sc ! j)) [0..<?n]\<rparr>" and s: "s = sc"
    using C True upd [of "objective P" "\<lambda>x c. x / c"] len
    unfolding column_scaling_def Let_def sc0 pr by (auto simp: xs_def [symmetric])
  have w: "lanes_wf ?n (num_rows P) (col_start ?A) (csc_i ?A) (csc_x ?A)" by (rule lp_wf_lanes [OF wf])
  note X = scale_values_loop [OF w order_refl, of sc, folded xs_def]
  have pos: "\<forall>j<?n. 0 < sc ! j" using column_norm_pos [OF sq] by (simp add: sc_def)
  have "csc_col (lp_A Q) j = map (\<lambda>(r, v). (r, v / sc ! j)) (csc_col ?A j)" if "j < ?n" for j
    using X that by (simp add: Q lane_def)
  then have d: "csc_dense (lp_A Q) i j = csc_dense ?A i j / sc ! j" if "j < ?n" for i j
    using that by (simp add: csc_dense_def lane_sum_divide)
  have "lp_wf Q" using wf X by (auto simp: lp_wf_def csc_wf_def lanes_wf_def Q)
  then show ?thesis using wf pos d by (simp add: scaled_by_def s) (simp add: Q sc_def)
qed

lemma scaled_point: "scaled_by s P Q \<Longrightarrow> j < num_cols P \<Longrightarrow> length x = num_cols P \<Longrightarrow> map2 (/) x s ! j = x ! j / s ! j"
  by (simp add: scaled_by_def)

lemma times_Fin_pos_le:
  assumes "0 < (c :: 'f :: linordered_field)"
  shows "l * Fin c \<le> Fin v \<longleftrightarrow> l \<le> Fin (v / c)" "Fin v \<le> u * Fin c \<longleftrightarrow> Fin (v / c) \<le> u"
  using assms by (cases l; cases u; simp add: field_simps)+

lemma scaled_activity:
  assumes "scaled_by s P Q" "length x = num_cols P"
  shows "activity (lp_A Q) x r = activity (lp_A P) (map2 (/) x s) r"
proof -
  have "csc_n (lp_A Q) = num_cols P" "csc_n (lp_A P) = num_cols P" using assms(1) by (simp_all add: scaled_by_def lp_wf_def)
  then show ?thesis unfolding activity_def
    using assms by (intro sum.cong) (simp_all add: scaled_by_def)
qed

lemma scaled_feasible:
  assumes S: "scaled_by s P Q" and len: "length x = num_cols P"
  shows "lp_feasible Q x \<longleftrightarrow> lp_feasible P (map2 (/) x s)"
proof -
  have l: "num_cols Q = num_cols P" "num_rows Q = num_rows P" "rhs Q = rhs P" "length s = num_cols P" using S by (simp_all add: scaled_by_def)
  have "in_bounds (lower Q ! c) (x ! c) (upper Q ! c) \<longleftrightarrow> in_bounds (lower P ! c) (map2 (/) x s ! c) (upper P ! c)" if "c < num_cols P" for c
    using S that len times_Fin_pos_le [of "s ! c"] by (simp add: in_bounds_def scaled_by_def)
  then show ?thesis unfolding lp_feasible_def by (simp add: l len scaled_activity [OF S len])
qed

lemma scaled_value:
  assumes S: "scaled_by s P Q" and len: "length x = num_cols P"
  shows "lp_value Q x = lp_value P (map2 (/) x s)"
proof -
  have "length (objective Q) = num_cols P" "length (objective P) = num_cols P" using S by (simp_all add: scaled_by_def lp_wf_def)
  then have "objective_value (objective Q) x = objective_value (objective P) (map2 (/) x s)"
    unfolding objective_value_def using S len by (intro sum.cong) (simp_all add: scaled_by_def)
  then show ?thesis using S by (simp add: lp_value_def scaled_by_def)
qed

definition scaling_ok :: "('f :: linordered_field) lp_problem \<Rightarrow> 'f lp_problem \<Rightarrow> 'f vec \<Rightarrow> bool" where
  "scaling_ok P Q s \<longleftrightarrow> scaled_by s P Q \<and> is_fin (obj_constant P)"

interpretation scaling: lp_reduction scaling_ok lp_feasible lp_value lp_feasible lp_value "\<lambda>s x. map2 (/) x s"
proof
  fix P Q :: "'a lp_problem" and s x y
  assume "scaling_ok P Q s"
  then have S: "scaled_by s P Q" and k: "is_fin (obj_constant P)" by (auto simp: scaling_ok_def)
  have n: "num_cols Q = num_cols P" "length s = num_cols P" using S by (simp_all add: scaled_by_def)
  show "lp_feasible P (map2 (/) y s)" "lp_value P (map2 (/) y s) = lp_value Q y" if "lp_feasible Q y"
    using that scaled_feasible [OF S, of y] scaled_value [OF S, of y] n by (simp_all add: lp_feasible_def [of Q])
  show "\<exists>y. lp_feasible Q y \<and> lp_value Q y \<le> lp_value P x" if x: "lp_feasible P x"
  proof (intro exI conjI)
    let ?y = "map2 (*) x s"
    have len: "length x = num_cols P" using x by (simp add: lp_feasible_def)
    have y: "length ?y = num_cols P" "map2 (/) ?y s = x"
      using len n S by (auto simp: scaled_by_def intro!: nth_equalityI)
    show "lp_feasible Q ?y" using scaled_feasible [OF S y(1)] x by (simp only: y(2))
    have "lp_value Q ?y = lp_value P x" using scaled_value [OF S y(1)] by (simp only: y(2))
    then show "lp_value Q ?y \<le> lp_value P x" using k by (auto simp: lp_value_def is_fin_iff)
  qed
qed

subsection \<open>Unscaling\<close>

lemma unscale_solution_eq:
  assumes "length x = n" "length z = n" "length s = n" "\<forall>j<n. 0 < s ! j"
  shows "unscale_solution s (map Fin x) (map Fin z) x0 z0 = (map Fin (map2 (/) x s), map Fin (map2 (/) z s))"
proof -
  have "for_range 0 n (\<lambda>j v. v[j := map Fin w ! j / Fin (s ! j)]) (resize n 0 v0) = map Fin (map2 (/) w s)"
    if "length w = n" for w v0
    using for_range_map_update [of n "resize n 0 v0" "\<lambda>j _. map Fin w ! j / Fin (s ! j)"] assms(3,4) that
    by (auto intro!: nth_equalityI)
  then show ?thesis
    using assms(1,2) for_range_pair_update [of 0 n "\<lambda>j _. map Fin x ! j / Fin (s ! j)" "\<lambda>j _. map Fin z ! j / Fin (s ! j)"]
    unfolding unscale_solution_def Let_def by simp
qed

lemma scaled_dual_residual:
  assumes S: "scaled_by s P Q" and z: "length z = num_cols P" and j: "j < num_cols P"
  shows "dual_residual (lp_A Q) (objective Q) y z j = dual_residual (lp_A P) (objective P) y (map2 (*) z s) j / s ! j"
proof -
  have m: "csc_m (lp_A Q) = csc_m (lp_A P)" and s: "s ! j \<noteq> 0" "length s = num_cols P"
    using S j by (force simp: scaled_by_def lp_wf_def)+
  have "(\<Sum>i<csc_m (lp_A P). csc_dense (lp_A Q) i j * y ! i) = (\<Sum>i<csc_m (lp_A P). csc_dense (lp_A P) i j * y ! i) / s ! j"
    using S j by (simp add: scaled_by_def sum_divide_distrib)
  then show ?thesis using S j s z by (simp add: dual_residual_def m scaled_by_def field_simps)
qed

text \<open>C26. Unscaling the reduced costs divides by the column scales where it should multiply: when the scaled
  problem's dual equation holds exactly, the reduced costs that the solver returns for the original
  problem leave the residual \<open>z (1/s - s)\<close> in a column with scale \<open>s\<close>, which is zero only for a basic
  column (\<open>z = 0\<close>) or an unscaled one (\<open>s = 1\<close>); multiplying would satisfy the equation.\<close>

theorem unscaled_reduced_costs:
  fixes P :: "('f :: linordered_field) lp_problem"
  assumes "lp_wf P" "\<forall>v>0. 0 < sqrt_of v" "column_scaling sqrt_of True P [] = (Q, s)" "length x = num_cols P" "length z = num_cols P"
    "j < num_cols P" "dual_residual (lp_A Q) (objective Q) y z j = 0"
  shows "\<exists>x' z'. unscale_solution s (map Fin x) (map Fin z) x0 z0 = (map Fin x', map Fin z') \<and>
    dual_residual (lp_A P) (objective P) y z' j = z ! j * (1 / s ! j - s ! j) \<and>
    (dual_residual (lp_A P) (objective P) y z' j = 0 \<longleftrightarrow> z ! j = 0 \<or> s ! j = 1) \<and>
    dual_residual (lp_A P) (objective P) y (map2 (*) z s) j = 0"
proof -
  have S: "scaled_by s P Q" by (rule column_scaling_scaled [OF assms(1-3)])
  then have s: "length s = num_cols P" "\<forall>j<num_cols P. 0 < s ! j" "0 < s ! j" using assms(6) by (auto simp: scaled_by_def)
  have r: "dual_residual (lp_A P) (objective P) y (map2 (*) z s) j = 0"
    using scaled_dual_residual [OF S assms(5,6), of y] assms(7) s(3) by simp
  then have d: "dual_residual (lp_A P) (objective P) y (map2 (/) z s) j = z ! j * (1 / s ! j - s ! j)"
    using s assms(5,6) by (simp add: dual_residual_def field_simps)
  have "1 / s ! j - s ! j = 0 \<longleftrightarrow> s ! j = 1"
    using s(3) square_eq_1_iff [of "s ! j"] by (auto simp: field_simps)
  then show ?thesis
    using unscale_solution_eq [OF assms(4,5) s(1,2)] r d by (metis mult_eq_0_iff)
qed

text \<open>A problem with one column of norm 2, and a square root that is exact on it.\<close>

definition ex_scale :: "rat lp_problem" where
  "ex_scale = \<lparr>num_rows = 1, num_cols = 1, objective = [6],
     lp_A = \<lparr>csc_nz_max = 1, csc_m = 1, csc_n = 1, col_start = [0, 1], csc_i = [0], csc_x = [2]\<rparr>,
     rhs = [4], lower = [Fin 2], upper = [PInf], obj_constant = Fin 0, obj_scale = 1\<rparr>"

definition ex_sqrt :: "rat \<Rightarrow> rat" where
  "ex_sqrt v = (if v = 4 then 2 else 1)"

theorem unscaled_reduced_costs_witness:
  "snd (unscale_solution (snd (column_scaling ex_sqrt True ex_scale [])) (map Fin [4]) (map Fin [3]) [] []) = [Fin (3 / 2)] \<and>
     dual_residual (lp_A ex_scale) (objective ex_scale) [0] [3 / 2] 0 = - 9 / 2"
proof -
  let ?C = "column_scaling ex_sqrt True ex_scale []"
  have "lp_wf ex_scale" "length [4 :: rat] = num_cols ex_scale" "length [3 :: rat] = num_cols ex_scale" "0 < num_cols ex_scale"
    by code_simp+
  moreover have "\<forall>v>0. 0 < ex_sqrt v" "?C = (fst ?C, snd ?C)" by (simp_all add: ex_sqrt_def)
  moreover have "dual_residual (lp_A (fst ?C)) (objective (fst ?C)) [0] [3] 0 = 0" by code_simp
  ultimately obtain x' z' where r: "unscale_solution (snd ?C) (map Fin [4]) (map Fin [3]) [] [] = (map Fin x', map Fin z')"
    "dual_residual (lp_A ex_scale) (objective ex_scale) [0] z' 0 = [3] ! 0 * (1 / snd ?C ! 0 - snd ?C ! 0)"
    using unscaled_reduced_costs by metis
  have "snd (unscale_solution (snd ?C) (map Fin [4]) (map Fin [3]) [] []) = map Fin [3 / 2]" "snd ?C ! 0 = 2" by code_simp+
  then have "z' = [3 / 2]" using r(1) by (cases z'; cases "tl z'") auto
  then show ?thesis using r by (simp add: \<open>snd ?C ! 0 = 2\<close>)
qed

end
