(* ===== verification/Lp_Phase1.thy ===== *)
theory Lp_Phase1
  imports Lp_Crush
begin

text \<open>
  The phase 1 problem of the dual simplex solver (\<open>phase1.cpp\<close>), which looks for a dual feasible
  start: the columns keep their costs, the rows become homogeneous, and the sign that a reduced
  cost must have becomes a box. Points of this problem are directions of the original one.
\<close>

subsection \<open>Definitions\<close>

definition create_phase1_problem :: "('f :: linordered_idom) lp_problem \<Rightarrow> 'f lp_problem \<Rightarrow> 'f lp_problem" where
  "create_phase1_problem P out =
     (let m = num_rows P; n = num_cols P;
          (lo, up, obj) = for_range 0 n (\<lambda>j (lo, up, obj).
             if lower P ! j = MInf \<and> upper P ! j < PInf
             then (lo[j := - 1], up[j := 0], obj[j := objective P ! j])
             else if lower P ! j > MInf \<and> upper P ! j = PInf
             then (lo[j := 0], up[j := 1], obj[j := objective P ! j])
             else if lower P ! j = MInf \<and> upper P ! j = PInf
             then (lo[j := - Fin 10000], up[j := Fin 10000], obj[j := objective P ! j])
             else (lo[j := 0], up[j := 0], obj[j := objective P ! j]))
            (replicate n 0, replicate n 0, replicate n 0)
      in out\<lparr>lp_A := lp_A P, num_cols := csc_n (lp_A P), num_rows := csc_m (lp_A P), objective := obj,
             obj_constant := 0, obj_scale := 1, lower := lo, upper := up,
             rhs := map (\<lambda>_. 0) (resize m 0 (rhs out))\<rparr>)"

subsection \<open>The boxes\<close>

fun phase1_box :: "('f :: linordered_idom) ext \<Rightarrow> 'f ext \<Rightarrow> 'f ext \<times> 'f ext" where
  "phase1_box l u =
     (if l = MInf \<and> u < PInf then (- 1, 0) else if l > MInf \<and> u = PInf then (0, 1)
      else if l = MInf \<and> u = PInf then (- Fin 10000, Fin 10000) else (0, 0))"

lemma phase1_fields:
  assumes wf: "lp_wf P"
  shows "lp_A (create_phase1_problem P out) = lp_A P" "num_cols (create_phase1_problem P out) = num_cols P"
    "num_rows (create_phase1_problem P out) = num_rows P" "objective (create_phase1_problem P out) = objective P"
    "rhs (create_phase1_problem P out) = replicate (num_rows P) 0"
    "obj_constant (create_phase1_problem P out) = 0"
    "lower (create_phase1_problem P out) = map (\<lambda>j. fst (phase1_box (lower P ! j) (upper P ! j))) [0..<num_cols P]"
    "upper (create_phase1_problem P out) = map (\<lambda>j. snd (phase1_box (lower P ! j) (upper P ! j))) [0..<num_cols P]"
proof -
  let ?n = "num_cols P"
  let ?body = "\<lambda>j (lo, up, obj).
             if lower P ! j = MInf \<and> upper P ! j < PInf
             then (lo[j := - 1], up[j := 0], obj[j := objective P ! j])
             else if lower P ! j > MInf \<and> upper P ! j = PInf
             then (lo[j := 0], up[j := 1], obj[j := objective P ! j])
             else if lower P ! j = MInf \<and> upper P ! j = PInf
             then (lo[j := - Fin 10000], up[j := Fin 10000], obj[j := objective P ! j])
             else (lo[j := 0], up[j := 0], obj[j := objective P ! j])"
  have "k \<le> ?n \<Longrightarrow> for_range 0 k ?body (replicate ?n 0, replicate ?n 0, replicate ?n 0) =
      (map (\<lambda>j. fst (phase1_box (lower P ! j) (upper P ! j))) [0..<k] @ replicate (?n - k) 0,
       map (\<lambda>j. snd (phase1_box (lower P ! j) (upper P ! j))) [0..<k] @ replicate (?n - k) 0,
       map ((!) (objective P)) [0..<k] @ replicate (?n - k) 0)" for k
  proof (induction k)
    case (Suc k)
    have r: "replicate (?n - k) a = a # replicate (?n - Suc k) a" for a :: 'z
      using Suc.prems by (metis Suc_diff_Suc Suc_le_lessD replicate_Suc)
    have IH: "for_range 0 k ?body (replicate ?n 0, replicate ?n 0, replicate ?n 0) =
      (map (\<lambda>j. fst (phase1_box (lower P ! j) (upper P ! j))) [0..<k] @ replicate (?n - k) 0,
       map (\<lambda>j. snd (phase1_box (lower P ! j) (upper P ! j))) [0..<k] @ replicate (?n - k) 0,
       map ((!) (objective P)) [0..<k] @ replicate (?n - k) 0)" using Suc by simp
    show ?case unfolding for_range_Suc [OF le0] IH by (simp add: list_update_append r)
  qed simp
  moreover have "map ((!) (objective P)) [0..<?n] = objective P" using wf map_nth [of "objective P"] by (simp add: lp_wf_def)
  ultimately have "for_range 0 ?n ?body (replicate ?n 0, replicate ?n 0, replicate ?n 0) =
      (map (\<lambda>j. fst (phase1_box (lower P ! j) (upper P ! j))) [0..<?n],
       map (\<lambda>j. snd (phase1_box (lower P ! j) (upper P ! j))) [0..<?n], objective P)" by simp
  then
  show "lp_A (create_phase1_problem P out) = lp_A P" "num_cols (create_phase1_problem P out) = num_cols P"
    "num_rows (create_phase1_problem P out) = num_rows P" "objective (create_phase1_problem P out) = objective P"
    "rhs (create_phase1_problem P out) = replicate (num_rows P) 0"
    "obj_constant (create_phase1_problem P out) = 0"
    "lower (create_phase1_problem P out) = map (\<lambda>j. fst (phase1_box (lower P ! j) (upper P ! j))) [0..<num_cols P]"
    "upper (create_phase1_problem P out) = map (\<lambda>j. snd (phase1_box (lower P ! j) (upper P ! j))) [0..<num_cols P]"
    using wf by (simp_all only: create_phase1_problem_def Let_def prod.case) (simp_all add: lp_wf_def map_replicate_const)
qed

lemma phase1_feasible:
  assumes wf: "lp_wf P"
  shows "lp_feasible (create_phase1_problem P out) d \<longleftrightarrow> length d = num_cols P \<and>
    (\<forall>j<num_cols P. case phase1_box (lower P ! j) (upper P ! j) of (l, u) \<Rightarrow> in_bounds l (d ! j) u) \<and>
    (\<forall>r<num_rows P. activity (lp_A P) d r = 0)"
  unfolding lp_feasible_def phase1_fields [OF wf] by (auto simp: split_def simp del: phase1_box.simps)

lemma phase1_wf: "lp_wf P \<Longrightarrow> lp_wf (create_phase1_problem P out)"
  using phase1_fields [of P out] by (simp add: lp_wf_def)

subsection \<open>Moving along a direction\<close>

abbreviation move :: "('f :: comm_ring_1) vec \<Rightarrow> 'f vec \<Rightarrow> 'f \<Rightarrow> 'f vec" where
  "move x d t \<equiv> map2 (\<lambda>p v. p + t * v) x d"

lemma activity_move:
  "length x = csc_n A \<Longrightarrow> length d = csc_n A \<Longrightarrow> activity A (move x d t) r = activity A x r + t * activity A d r"
  unfolding activity_def sum_distrib_left sum.distrib [symmetric] by (intro sum.cong) (simp_all add: algebra_simps)

lemma objective_move:
  "length x = length c \<Longrightarrow> length d = length c \<Longrightarrow> objective_value c (move x d t) = objective_value c x + t * objective_value c d"
  unfolding objective_value_def sum_distrib_left sum.distrib [symmetric] by (intro sum.cong) (simp_all add: algebra_simps)

lemma box_move:
  fixes t :: "'f :: linordered_idom"
  assumes "0 \<le> t" "in_bounds l x u" "case phase1_box l u of (lo, up) \<Rightarrow> in_bounds lo d up"
  shows "in_bounds l (x + t * d) u"
proof -
  define s where "s = t * d"
  have "d \<le> 0 \<Longrightarrow> s \<le> 0" "0 \<le> d \<Longrightarrow> 0 \<le> s"
    using assms(1) by (simp_all add: s_def mult_nonneg_nonpos)
  moreover have "d = 0 \<Longrightarrow> s = 0" by (simp add: s_def)
  ultimately show ?thesis unfolding s_def [symmetric]
    using assms by (cases l; cases u; force simp: in_bounds_def zero_ext_def one_ext_def split: if_splits)
qed

lemma feasible_move:
  assumes wf: "lp_wf P" and d: "lp_feasible (create_phase1_problem P out) d" and x: "lp_feasible P x" and t: "0 \<le> t"
  shows "lp_feasible P (move x d t)"
proof -
  note D = d [unfolded phase1_feasible [OF wf]]
  have n: "csc_n (lp_A P) = num_cols P" using wf by (simp add: lp_wf_def)
  have len: "length x = num_cols P" "length d = num_cols P" using x D by (simp_all add: lp_feasible_def)
  have "in_bounds (lower P ! c) (move x d t ! c) (upper P ! c)" if "c < num_cols P" for c
    using box_move [OF t, of "lower P ! c" "x ! c" "upper P ! c" "d ! c"] D x that len by (simp add: lp_feasible_def del: phase1_box.simps)
  moreover have "activity (lp_A P) (move x d t) r = rhs P ! r" if "r < num_rows P" for r
    using activity_move [of x "lp_A P" d t r] D x that len n by (simp add: lp_feasible_def)
  ultimately show ?thesis using len by (simp add: lp_feasible_def)
qed

lemma phase1_ray:
  fixes P :: "('f :: linordered_field) lp_problem"
  assumes wf: "lp_wf P" and d: "lp_feasible (create_phase1_problem P out) d" and x: "lp_feasible P x"
    and v: "objective_value (objective P) d < 0" and k: "is_fin (obj_constant P)"
  shows "unbounded_by (lp_feasible P) (lp_value P)"
  unfolding unbounded_by_def
proof
  fix b
  obtain c where c: "obj_constant P = Fin c" using k by (auto simp: is_fin_iff)
  let ?v = "objective_value (objective P)"
  define t where "t = \<bar>c + ?v x - b\<bar> / - ?v d"
  have t: "0 \<le> t" "t * ?v d = - \<bar>c + ?v x - b\<bar>" using v by (simp_all add: t_def divide_nonneg_neg)
  have len: "length x = length (objective P)" "length d = length (objective P)"
    using x d wf by (simp_all add: lp_feasible_def [of P] phase1_feasible lp_wf_def)
  have "lp_value P (move x d t) \<le> Fin b"
    by (simp add: lp_value_def c objective_move [OF len] t(2))
  then show "\<exists>x. lp_feasible P x \<and> lp_value P x \<le> Fin b" using feasible_move [OF wf d x t(1)] by blast
qed

subsection \<open>Reduced costs\<close>

definition reduced_cost :: "('f :: comm_ring_1) lp_problem \<Rightarrow> 'f vec \<Rightarrow> idx \<Rightarrow> 'f" where
  "reduced_cost P y j = objective P ! j - (\<Sum>i<num_rows P. csc_dense (lp_A P) i j * y ! i)"

definition dual_feasible :: "('f :: linordered_idom) lp_problem \<Rightarrow> 'f vec \<Rightarrow> bool" where
  "dual_feasible P y \<longleftrightarrow> (\<forall>j<num_cols P.
     (lower P ! j = MInf \<and> upper P ! j < PInf \<longrightarrow> reduced_cost P y j \<le> 0) \<and>
     (lower P ! j > MInf \<and> upper P ! j = PInf \<longrightarrow> 0 \<le> reduced_cost P y j) \<and>
     (lower P ! j = MInf \<and> upper P ! j = PInf \<longrightarrow> reduced_cost P y j = 0))"

lemma objective_reduced_cost:
  assumes wf: "lp_wf P"
  shows "objective_value (objective P) d = (\<Sum>j<num_cols P. reduced_cost P y j * d ! j) + (\<Sum>i<num_rows P. y ! i * activity (lp_A P) d i)"
proof -
  have "(\<Sum>i<num_rows P. y ! i * activity (lp_A P) d i) = (\<Sum>j<num_cols P. (\<Sum>i<num_rows P. csc_dense (lp_A P) i j * y ! i) * d ! j)"
    using wf unfolding activity_def sum_distrib_left sum_distrib_right lp_wf_def
    by (subst sum.swap) (simp add: mult_ac)
  then show ?thesis using wf unfolding objective_value_def reduced_cost_def
    by (simp add: lp_wf_def left_diff_distrib sum_subtractf)
qed

lemma phase1_bound:
  assumes wf: "lp_wf P" and d: "lp_feasible (create_phase1_problem P out) d" and y: "dual_feasible P y"
  shows "0 \<le> objective_value (objective P) d"
proof -
  note D = d [unfolded phase1_feasible [OF wf]]
  have "0 \<le> reduced_cost P y j * d ! j" if j: "j < num_cols P" for j
  proof -
    have "case phase1_box (lower P ! j) (upper P ! j) of (l, u) \<Rightarrow> in_bounds l (d ! j) u"
      using D j by (simp del: phase1_box.simps)
    then show ?thesis using y j
      by (auto simp: dual_feasible_def in_bounds_def zero_ext_def split: if_splits intro: mult_nonpos_nonpos)
  qed
  moreover have "objective_value (objective P) d = (\<Sum>j<num_cols P. reduced_cost P y j * d ! j)"
    using D by (simp add: objective_reduced_cost [OF wf, of d y])
  ultimately show ?thesis by (auto intro: sum_nonneg)
qed

subsection \<open>Property\<close>

definition ex_ray :: "rat lp_problem" where
  "ex_ray = \<lparr>num_rows = 1, num_cols = 2, objective = [-1, 0],
     lp_A = \<lparr>csc_nz_max = 2, csc_m = 1, csc_n = 2, col_start = [0, 1, 2], csc_i = [0, 0], csc_x = [1, -1]\<rparr>,
     rhs = [3], lower = [Fin 0, Fin 0], upper = [PInf, PInf], obj_constant = Fin 0, obj_scale = 1\<rparr>"

text \<open>C25. The phase 1 problem decides dual feasibility: if the linear program has a dual feasible multiplier vector,
  no point of the phase 1 problem has a negative cost; and a point of negative cost is a direction along
  which every feasible point of the linear program stays feasible while its objective falls below every
  bound, so that a feasible linear program is unbounded.\<close>

theorem phase1_decides:
  fixes P :: "('f :: linordered_field) lp_problem"
  assumes "lp_wf P" "lp_feasible (create_phase1_problem P out) d"
  shows "(dual_feasible P y \<longrightarrow> 0 \<le> objective_value (objective P) d) \<and>
    (objective_value (objective P) d < 0 \<and> lp_feasible P x \<and> is_fin (obj_constant P) \<longrightarrow> unbounded_by (lp_feasible P) (lp_value P))"
  using phase1_bound [OF assms] phase1_ray [OF assms] by blast

theorem phase1_decides_witness:
  "unbounded_by (lp_feasible ex_ray) (lp_value ex_ray) \<and> \<not> dual_feasible ex_ray [0]"
proof -
  have "lp_wf ex_ray" "lp_feasible (create_phase1_problem ex_ray (lp_problem_new 1 1 1 1)) [1, 1]" by code_simp+
  from phase1_decides [OF this, of "[0]" "[3, 0]"]
  have *: "(dual_feasible ex_ray [0] \<longrightarrow> 0 \<le> objective_value (objective ex_ray) [1, 1]) \<and>
    (objective_value (objective ex_ray) [1, 1] < 0 \<and> lp_feasible ex_ray [3, 0] \<and> is_fin (obj_constant ex_ray) \<longrightarrow>
       unbounded_by (lp_feasible ex_ray) (lp_value ex_ray))" .
  have "objective_value (objective ex_ray) [1, 1] = - 1" "lp_feasible ex_ray [3, 0]" "is_fin (obj_constant ex_ray)" by code_simp+
  with * show ?thesis by simp
qed

end
