(* ===== verification/Lp_Solve.thy ===== *)
theory Lp_Solve
  imports Branch_Bound Lp_Scaling Lp_Phase1
begin

text \<open>
  The linear programming driver of the dual simplex solver (\<open>solve.cpp\<close>): conversion, presolve, column
  scaling, phase 1, phase 2 and the way back. The simplex iterations are the parameter \<open>dual_phase2\<close>, a
  function of its arguments and of the position of the call in the run (which stands for the clock);
  \<open>phase2_sound\<close> states what the driver relies on. A solution record over \<open>'f ext\<close> is used throughout, since
  the constructor fills it with NaN and presolve may put an infinite bound into it. The flag that writes
  a Matlab file and \<open>primal_cleanup\<close> are compile-time constants that are false.
\<close>

subsection \<open>Definitions\<close>

definition is_mip :: "'f user_problem \<Rightarrow> bool" where
  "is_mip U \<longleftrightarrow> list_ex (\<lambda>j. u_var_types U ! j \<noteq> CONTINUOUS) [0..<u_num_cols U]"

definition lp_solution_new :: "nat \<Rightarrow> nat \<Rightarrow> ('f :: linordered_idom) ext lp_solution" where
  "lp_solution_new m n = \<lparr>sol_x = replicate n 0, sol_y = replicate m 0, sol_z = replicate n 0, sol_objective = NaN,
     sol_user_objective = NaN, sol_iterations = 0, sol_l2_primal_residual = NaN, sol_l2_dual_residual = NaN\<rparr>"

text \<open>The slack basis: singleton columns with entry 1 or -1, from the right, until there is one per row.\<close>

definition slack_basis :: "('f :: linordered_idom) lp_problem \<Rightarrow> variable_status list" where
  "slack_basis P =
     (let A = lp_A P; n = num_cols P;
          (vs, num_basic, stop) = for_down 0 n (\<lambda>j (vs, num_basic, stop).
            if stop then (vs, num_basic, stop)
            else let cs = col_start A ! j; ce = col_start A ! Suc j; nz = ce - cs;
                     (vs, num_basic) = (if nz = 1 \<and> \<bar>csc_x A ! cs\<bar> = 1 then (vs[j := BASIC], num_basic + 1) else (vs, num_basic))
                 in (vs, num_basic, num_basic = num_rows P))
            (replicate n NONBASIC_LOWER, 0 :: nat, False)
      in vs)"

type_synonym 'f phase2_result = "dual_status \<times> variable_status list \<times> 'f ext lp_solution \<times> nat \<times> 'f vec"

type_synonym 'f dual_simplex =
  "nat \<Rightarrow> nat \<Rightarrow> nat \<Rightarrow> 'f lp_problem \<Rightarrow> variable_status list \<Rightarrow> 'f ext lp_solution \<Rightarrow> nat \<Rightarrow> 'f vec \<Rightarrow> 'f phase2_result"

definition lp_status_of :: "dual_status \<Rightarrow> lp_status" where
  "lp_status_of s = (case s of OPTIMAL \<Rightarrow> LP_OPTIMAL | DUAL_UNBOUNDED \<Rightarrow> LP_INFEASIBLE | TIME_LIMIT \<Rightarrow> LP_TIME_LIMIT
     | ITERATION_LIMIT \<Rightarrow> LP_ITERATION_LIMIT | CONCURRENT_LIMIT \<Rightarrow> LP_CONCURRENT_LIMIT
     | NUMERICAL \<Rightarrow> LP_NUMERICAL_ISSUES | CUTOFF \<Rightarrow> LP_CUTOFF | UNSET \<Rightarrow> LP_UNSET)"

text \<open>Phase 2, repeated after another phase 1 when the basis has become dual infeasible.\<close>

definition run_phase2 ::
  "('f :: linordered_field) dual_simplex \<Rightarrow> 'f lp_problem \<Rightarrow> 'f lp_problem \<Rightarrow> variable_status list \<Rightarrow> 'f ext lp_solution \<Rightarrow> nat
   \<Rightarrow> 'f phase2_result" where
  "run_phase2 dual_phase2 P phase1_problem phase1_vstatus phase1_solution iter =
     (let sol = lp_solution_new (num_rows P) (num_cols P); vs = phase1_vstatus;
          (status, vs, sol, iter, edge_norms) = dual_phase2 1 2 (if iter = 0 then 1 else 0) P vs sol iter []
      in if status = NUMERICAL
         then let phase1_vstatus = vs;
                  (_, phase1_vstatus, phase1_solution, iter, edge_norms) =
                    dual_phase2 2 1 0 phase1_problem phase1_vstatus phase1_solution iter edge_norms
              in dual_phase2 3 2 0 P phase1_vstatus sol iter []
         else (status, vs, sol, iter, edge_norms))"

definition solve_linear_program_advanced ::
  "('f :: linordered_field) dual_simplex \<Rightarrow> ('f \<Rightarrow> 'f) \<Rightarrow> 'f simplex_solver_settings \<Rightarrow> 'f lp_problem \<Rightarrow> 'f ext lp_solution
   \<Rightarrow> variable_status list \<Rightarrow> 'f vec \<Rightarrow> lp_status \<times> 'f ext lp_solution \<times> variable_status list \<times> 'f vec" where
  "solve_linear_program_advanced dual_phase2 sqrt_of st P0 original_solution vs edge_norms =
     (let (ret, presolved_lp, info) = presolve P0 presolve_info_new
      in if ret = -1 then (LP_INFEASIBLE, original_solution, vs, edge_norms)
         else
           let (P, column_scales) = column_scaling sqrt_of (scale_columns st) presolved_lp [];
               phase1_problem = create_phase1_problem P (lp_problem_new 1 1 1 0);
               phase1_vstatus = slack_basis phase1_problem;
               (phase1_status, phase1_vstatus, phase1_solution, iter, junk) =
                 dual_phase2 0 1 1 phase1_problem phase1_vstatus
                   (lp_solution_new (num_rows phase1_problem) (num_cols phase1_problem)) 0 []
           in if phase1_status = NUMERICAL \<or> phase1_status = DUAL_UNBOUNDED
              then (LP_NUMERICAL_ISSUES, original_solution, vs, edge_norms)
              else if phase1_status = TIME_LIMIT then (LP_TIME_LIMIT, original_solution, vs, edge_norms)
              else if phase1_status = ITERATION_LIMIT then (LP_ITERATION_LIMIT, original_solution, vs, edge_norms)
              else if phase1_status = CONCURRENT_LIMIT then (LP_CONCURRENT_LIMIT, original_solution, vs, edge_norms)
              else if sol_objective phase1_solution > - Fin (primal_tol st)
              then let (status, vs, sol, iter, edge_norms) =
                         run_phase2 dual_phase2 P phase1_problem phase1_vstatus phase1_solution iter;
                       original_solution =
                         (if status = OPTIMAL
                          then let n = num_cols P;
                                   (unscaled_x, unscaled_z) = unscale_solution column_scales (sol_x sol) (sol_z sol)
                                     (replicate n 0) (replicate n 0);
                                   (x, z) = uncrush_solution info unscaled_x unscaled_z (sol_x original_solution) (sol_z original_solution)
                               in original_solution\<lparr>sol_x := x, sol_z := z, sol_y := sol_y sol,
                                    sol_objective := sol_objective sol, sol_user_objective := sol_user_objective sol,
                                    sol_l2_primal_residual := sol_l2_primal_residual sol,
                                    sol_l2_dual_residual := sol_l2_dual_residual sol\<rparr>
                          else original_solution)
                   in (lp_status_of status, original_solution\<lparr>sol_iterations := iter\<rparr>, vs, edge_norms)
              else (LP_UNBOUNDED, original_solution\<lparr>sol_objective := MInf,
                      sol_user_objective := (if obj_scale P = 1 then MInf else PInf), sol_iterations := iter\<rparr>,
                    vs, edge_norms))"

definition resize_solution :: "nat \<Rightarrow> nat \<Rightarrow> ('f :: zero) lp_solution \<Rightarrow> 'f lp_solution" where
  "resize_solution m n sol = sol\<lparr>sol_x := resize n 0 (sol_x sol), sol_y := resize m 0 (sol_y sol), sol_z := resize n 0 (sol_z sol)\<rparr>"

definition solve_linear_program ::
  "('f :: linordered_field) dual_simplex \<Rightarrow> ('f \<Rightarrow> 'f) \<Rightarrow> 'f \<times> 'f \<Rightarrow> 'f \<Rightarrow> 'f simplex_solver_settings \<Rightarrow> 'f user_problem \<Rightarrow> 'f ext lp_solution
   \<Rightarrow> lp_status \<times> 'f ext lp_solution" where
  "solve_linear_program dual_phase2 sqrt_of uninit scale st U solution =
     (let (P0, slacks) = convert_user_problem uninit U (lp_problem_new 1 1 1 scale) [];
          solution = resize_solution (u_num_rows U) (u_num_cols U) solution;
          (status, lp_sol, vs, edge_norms) = solve_linear_program_advanced dual_phase2 sqrt_of st P0
            (lp_solution_new (num_rows P0) (num_cols P0)) [] []
      in (status, solution\<lparr>sol_x := uncrush_primal_solution U (sol_x lp_sol) (sol_x solution),
            sol_z := uncrush_primal_solution U (sol_z lp_sol) (sol_z solution), sol_y := sol_y lp_sol,
            sol_objective := sol_objective lp_sol, sol_user_objective := sol_user_objective lp_sol,
            sol_iterations := sol_iterations lp_sol, sol_l2_primal_residual := sol_l2_primal_residual lp_sol,
            sol_l2_dual_residual := sol_l2_dual_residual lp_sol\<rparr>))"

subsection \<open>What the driver relies on\<close>

definition phase2_answer :: "('f :: linordered_field) lp_problem \<Rightarrow> 'f phase2_result \<Rightarrow> bool" where
  "phase2_answer P r \<longleftrightarrow> (case r of (s, _, sol, _, _) \<Rightarrow>
     (s = OPTIMAL \<longrightarrow> (\<exists>x z. sol_x sol = map Fin x \<and> sol_z sol = map Fin z \<and> length z = num_cols P \<and> lp_optimal P x \<and>
        sol_objective sol = Fin (objective_value (objective P) x) \<and>
        sol_user_objective sol = compute_user_objective P (sol_objective sol))) \<and>
     (s = DUAL_UNBOUNDED \<longrightarrow> (\<forall>x. \<not> lp_feasible P x)))"

definition phase1_answer :: "('f :: linordered_field) lp_problem \<Rightarrow> 'f phase2_result \<Rightarrow> bool" where
  "phase1_answer P r \<longleftrightarrow> (case r of (s, _, sol, _, _) \<Rightarrow> s \<noteq> CUTOFF \<and> s \<noteq> UNSET \<and>
     (s = OPTIMAL \<longrightarrow> (\<exists>x. sol_x sol = map Fin x \<and> lp_feasible P x \<and> sol_objective sol = Fin (objective_value (objective P) x))))"

definition phase2_sound :: "('f :: linordered_field) dual_simplex \<Rightarrow> bool" where
  "phase2_sound dual_phase2 \<longleftrightarrow> (\<forall>k sb P vs sol it en. lp_wf P \<longrightarrow>
     phase1_answer P (dual_phase2 k 1 sb P vs sol it en) \<and> phase2_answer P (dual_phase2 k 2 sb P vs sol it en))"

lemma run_phase2_answer:
  assumes "phase2_sound dp" "lp_wf P"
  shows "phase2_answer P (run_phase2 dp P p1 vs sol it)"
proof -
  let ?sb = "if it = 0 then 1 else 0" and ?sol = "lp_solution_new (num_rows P) (num_cols P)"
  obtain s vs' sol' it' en where 1: "dp 1 2 ?sb P vs ?sol it [] = (s, vs', sol', it', en)" by (rule prod_cases5)
  obtain s2 vs2 sol2 it2 en2 where 2: "dp 2 1 0 p1 vs' sol it' en = (s2, vs2, sol2, it2, en2)" by (rule prod_cases5)
  have "run_phase2 dp P p1 vs sol it =
      (if s = NUMERICAL then dp 3 2 0 P vs2 sol' it2 [] else dp 1 2 ?sb P vs ?sol it [])"
    unfolding run_phase2_def Let_def 1 2 prod.case by (rule refl)
  then show ?thesis using assms unfolding phase2_sound_def by presburger
qed

subsection \<open>The stages between the original problem and the one that is solved\<close>

interpretation lp_stages: lp_reduction_chain presolved lp_feasible lp_value lp_feasible lp_value uncrush_point
  scaling_ok lp_feasible lp_value "\<lambda>s x. map2 (/) x s"
  by unfold_locales

lemma stages_ok:
  assumes wf: "lp_wf P0" and k: "is_fin (obj_constant P0)" and rem: "\<forall>j<num_cols P0. zero_column P0 j \<longrightarrow> removable P0 j"
    and sq: "\<forall>v>0. 0 < sqrt_of v" and pre: "presolve P0 presolve_info_new = (ret, Q, info)" "ret \<noteq> -1"
    and sc: "column_scaling sqrt_of b Q [] = (P, s)"
  shows "\<exists>Q. presolved P0 Q info \<and> scaling_ok Q P s" "lp_wf P" "is_fin (obj_constant P)"
proof -
  have "ret = 0" using presolve_status [OF wf, of presolve_info_new] pre by auto
  then have Q: "presolved P0 Q info" using assms by (simp add: presolved_def)
  from presolved_wf [OF this] have "lp_wf Q" "is_fin (obj_constant Q)" by blast+
  moreover from column_scaling_scaled [OF this(1) sq sc] have S: "scaled_by s Q P" .
  ultimately show "\<exists>Q. presolved P0 Q info \<and> scaling_ok Q P s" "lp_wf P" "is_fin (obj_constant P)"
    using Q by (auto simp: scaling_ok_def scaled_by_def)
qed

lemma original_optimal:
  assumes "scaling_ok Q P s" "presolved P0 Q info" "lp_optimal P x" "length z = num_cols P"
  shows "\<exists>X. fst (case unscale_solution s (map Fin x) (map Fin z) x1 z1 of (ux, uz) \<Rightarrow> uncrush_solution info ux uz x0 z0) = map Fin X \<and>
    lp_optimal P0 X"
proof -
  have x: "length x = num_cols P" using assms(3) by (simp add: lp_optimal_def lp_feasible_def)
  have S: "length s = num_cols P" "\<forall>j<num_cols P. 0 < s ! j" using assms(1) by (simp_all add: scaling_ok_def scaled_by_def)
  have "lp_optimal Q (map2 (/) x s)"
    using scaling.restore_optimal [OF assms(1)] assms(3) by (simp add: lp_optimal_by)
  moreover have "lp_wf P0" "presolve P0 presolve_info_new = (0, Q, info)" "is_fin (obj_constant P0)"
    "\<forall>j<num_cols P0. zero_column P0 j \<longrightarrow> removable P0 j" using assms(2) by (simp_all add: presolved_def)
  ultimately obtain X Z where "uncrush_solution info (map Fin (map2 (/) x s)) (map Fin (map2 (/) z s)) x0 z0 = (map Fin X, Z)" "lp_optimal P0 X"
    using presolve_optimal by metis
  then show ?thesis unfolding unscale_solution_eq [OF x assms(4) S] prod.case by auto
qed

text \<open>What the status of the driver says about the original problem.\<close>

definition lp_answer :: "('f :: linordered_field) lp_problem \<Rightarrow> lp_status \<Rightarrow> 'f ext lp_solution \<Rightarrow> bool" where
  "lp_answer P s sol \<longleftrightarrow> (s = LP_OPTIMAL \<longrightarrow> (\<exists>x. sol_x sol = map Fin x \<and> lp_optimal P x)) \<and>
     (s = LP_INFEASIBLE \<longrightarrow> (\<forall>x. \<not> lp_feasible P x)) \<and>
     (s = LP_UNBOUNDED \<longrightarrow> (\<exists>x. lp_feasible P x) \<longrightarrow> unbounded_by (lp_feasible P) (lp_value P))"

lemma advanced_answer:
  assumes dp: "phase2_sound dp" and wf: "lp_wf P0" and k: "is_fin (obj_constant P0)"
    and rem: "\<forall>j<num_cols P0. zero_column P0 j \<longrightarrow> removable P0 j" and sq: "\<forall>v>0. 0 < sqrt_of v" and tol: "0 < primal_tol st"
    and R: "solve_linear_program_advanced dp sqrt_of st P0 sol0 vs0 en0 = (s, sol, vs, en)"
  shows "lp_answer P0 s sol"
proof -
  obtain ret Q info where pre: "presolve P0 presolve_info_new = (ret, Q, info)" by (rule prod_cases3)
  show ?thesis
  proof (cases "ret = -1")
    case True
    have "\<not> lp_feasible P0 x" for x using presolve_status [OF wf, of presolve_info_new x] pre True by simp
    moreover have "s = LP_INFEASIBLE" using R by (simp add: solve_linear_program_advanced_def pre True)
    ultimately show ?thesis by (simp add: lp_answer_def)
  next
    case False
    obtain P scales where sc: "column_scaling sqrt_of (scale_columns st) Q [] = (P, scales)" by (rule prod.exhaust)
    obtain Q' where Q': "presolved P0 Q' info" "scaling_ok Q' P scales" and P: "lp_wf P" "is_fin (obj_constant P)"
      using stages_ok [OF wf k rem sq pre False sc] by blast
    have ok: "\<exists>Q. presolved P0 Q (fst (info, scales)) \<and> scaling_ok Q P (snd (info, scales))" using Q' by auto
    let ?p1 = "create_phase1_problem P (lp_problem_new 1 1 1 0)"
    obtain s1 vs1 sol1 it1 en1 where p1: "dp 0 1 1 ?p1 (slack_basis ?p1) (lp_solution_new (num_rows ?p1) (num_cols ?p1)) 0 [] = (s1, vs1, sol1, it1, en1)"
      by (rule prod_cases5)
    obtain s2 vs2 sol2 it2 en2 where p2: "run_phase2 dp P ?p1 vs1 sol1 it1 = (s2, vs2, sol2, it2, en2)" by (rule prod_cases5)
    note R' = R [unfolded solve_linear_program_advanced_def Let_def pre sc p1 p2 prod.case if_not_P [OF False]]
    have a1: "phase1_answer ?p1 (s1, vs1, sol1, it1, en1)"
      using dp phase1_wf [OF P(1)] p1 unfolding phase2_sound_def by metis
    have a2: "phase2_answer P (s2, vs2, sol2, it2, en2)" using run_phase2_answer [OF dp P(1)] p2 by metis
    note feas = lp_stages.chain.feasible_iff [OF ok] and unb = lp_stages.chain.unbounded_iff [OF ok]
    show ?thesis
    proof (cases "s1 = OPTIMAL")
      case s1: True
      then obtain d where d: "lp_feasible ?p1 d" "sol_objective sol1 = Fin (objective_value (objective P) d)"
        using a1 phase1_fields(4) [OF P(1)] by (auto simp: phase1_answer_def)
      show ?thesis
      proof (cases "sol_objective sol1 > - Fin (primal_tol st)")
        case True
        note R2 = R' [unfolded if_P [OF True] s1, simplified]
        consider "s2 = OPTIMAL" | "s2 = DUAL_UNBOUNDED" | "s2 \<noteq> OPTIMAL" "s2 \<noteq> DUAL_UNBOUNDED" by blast
        then show ?thesis
        proof cases
          case 1
          then obtain x z where x: "sol_x sol2 = map Fin x" "sol_z sol2 = map Fin z" "length z = num_cols P" "lp_optimal P x"
            using a2 by (auto simp: phase2_answer_def)
          have "s = LP_OPTIMAL" using R2 1 by (simp add: lp_status_of_def)
          moreover have "sol_x sol = fst (case unscale_solution scales (map Fin x) (map Fin z) (replicate (num_cols P) 0) (replicate (num_cols P) 0) of
              (ux, uz) \<Rightarrow> uncrush_solution info ux uz (sol_x sol0) (sol_z sol0))"
            using R2 1 x by (auto simp: split_def)
          ultimately show ?thesis using original_optimal [OF Q'(2,1) x(4,3)] by (auto simp: lp_answer_def)
        next
          case 2
          then have "\<forall>x. \<not> lp_feasible P x" using a2 by (auto simp: phase2_answer_def)
          moreover have "s = LP_INFEASIBLE" using R2 2 by (simp add: lp_status_of_def)
          ultimately show ?thesis using feas by (auto simp: lp_answer_def)
        next
          case 3
          have "s = lp_status_of s2" using R2 by auto
          then show ?thesis using 3 by (cases s2) (auto simp: lp_answer_def lp_status_of_def)
        qed
      next
        case False
        note R2 = R' [unfolded if_not_P [OF False] s1, simplified]
        have "objective_value (objective P) d < 0" using False d(2) tol by simp
        then have "unbounded_by (lp_feasible P) (lp_value P)" if "lp_feasible P x" for x
          using phase1_ray [OF P(1) d(1) that _ P(2)] by blast
        then show ?thesis using R2 feas unb by (auto simp: lp_answer_def)
      qed
    next
      case False
      then show ?thesis using R' a1 by (cases s1) (auto simp: lp_answer_def phase1_answer_def)
    qed
  qed
qed

subsection \<open>User problems\<close>

text \<open>A variable that occurs in no row can be fixed at the bound that its cost selects.\<close>

definition settles_alone :: "('f :: linordered_idom) user_problem \<Rightarrow> idx \<Rightarrow> bool" where
  "settles_alone U j \<longleftrightarrow> u_lower U ! j \<le> u_upper U ! j \<and>
     is_fin (if u_objective U ! j \<ge> 0 then u_lower U ! j else u_upper U ! j)"

lemma slack_list_coeff: "e \<in> set (slack_list uninit U) \<Longrightarrow> fst (snd e) \<noteq> (0 :: 'f :: linordered_idom)"
  by (auto simp: slack_list_def range_slack_sel)

lemma converted_removable:
  fixes U :: "('f :: linordered_idom) user_problem" and P0 :: "'f lp_problem" and uninit :: "'f \<times> 'f" and sl :: "idx list"
  assumes U: "user_wf U" and alone: "\<forall>j<u_num_cols U. (\<forall>i<u_num_rows U. csc_dense (u_A U) i j = 0) \<longrightarrow> settles_alone U j"
  defines "P \<equiv> fst (convert_user_problem uninit U P0 sl)"
  shows "\<forall>j<num_cols P. zero_column P j \<longrightarrow> removable P j"
proof (intro allI impI)
  fix j assume j: "j < num_cols P" and z: "zero_column P j"
  note S = convert_user_problem_shape(1) [OF U, of uninit P0 sl, folded P_def]
  have m: "num_rows P = u_num_rows U" using S by (simp add: conv_shape_def)
  have len: "length (u_lower U) = u_num_cols U" "length (u_upper U) = u_num_cols U" "length (u_objective U) = u_num_cols U"
    using U by (simp_all add: user_wf_def)
  have jn: "j < u_num_cols U"
  proof (rule ccontr)
    assume "\<not> j < u_num_cols U"
    moreover have "num_cols P = u_num_cols U + length (slack_list uninit U)" using S by (simp add: conv_shape_def)
    moreover define t where "t = j - u_num_cols U"
    ultimately have t: "j = u_num_cols U + t" "t < length (slack_list uninit U)" using j by auto
    let ?e = "slack_list uninit U ! t"
    have "csc_dense (lp_A P) (fst ?e) j = fst (snd ?e)" using S t by (simp add: conv_shape_def csc_dense_def)
    moreover have "fst ?e < u_num_rows U" using slack_list_row t(2) U by blast
    ultimately show False using z m slack_list_coeff [of ?e uninit U] t(2) by (auto simp: zero_column_def)
  qed
  have "csc_dense (u_A U) i j = 0" if "i < u_num_rows U" for i
  proof -
    have "csc_dense (lp_A P) i j = (if flipped U i then - csc_dense (u_A U) i j else csc_dense (u_A U) i j)"
      using S that jn by (simp add: conv_shape_def)
    moreover have "csc_dense (lp_A P) i j = 0" using z that by (simp add: zero_column_def m)
    ultimately show ?thesis by (simp split: if_splits)
  qed
  then have "settles_alone U j" using alone jn by blast
  moreover have "lower P ! j = u_lower U ! j" "upper P ! j = u_upper U ! j" "objective P ! j = u_objective U ! j"
    using S jn len by (simp_all add: conv_shape_def nth_append)
  ultimately show "removable P j" by (auto simp: removable_def settles_alone_def empty_cost_bound_def)
qed

definition user_answer :: "('f :: linordered_field) user_problem \<Rightarrow> lp_status \<Rightarrow> 'f ext lp_solution \<Rightarrow> bool" where
  "user_answer U s sol \<longleftrightarrow> (s = LP_OPTIMAL \<longrightarrow> (\<exists>x. sol_x sol = map Fin x \<and> optimal_by (user_feasible U) (user_value U) x)) \<and>
     (s = LP_INFEASIBLE \<longrightarrow> (\<forall>x. \<not> user_feasible U x)) \<and>
     (s = LP_UNBOUNDED \<longrightarrow> (\<exists>x. user_feasible U x) \<longrightarrow> unbounded_by (user_feasible U) (user_value U))"

lemma solve_linear_program_answer:
  fixes U :: "('f :: linordered_field) user_problem"
  assumes "phase2_sound dual_phase2" "\<forall>v>0. 0 < sqrt_of v" "0 < primal_tol st" "user_wf U" "is_fin (u_obj_constant U)"
    "\<forall>j<u_num_cols U. (\<forall>i<u_num_rows U. csc_dense (u_A U) i j = 0) \<longrightarrow> settles_alone U j"
    "solve_linear_program dual_phase2 sqrt_of uninit scale st U sol0 = (s, sol)"
  shows "user_answer U s sol"
proof -
  obtain P slacks where P: "convert_user_problem uninit U (lp_problem_new 1 1 1 scale) [] = (P, slacks)" by (rule prod.exhaust)
  obtain s' lsol vs en where a: "solve_linear_program_advanced dual_phase2 sqrt_of st P (lp_solution_new (num_rows P) (num_cols P)) [] [] = (s', lsol, vs, en)"
    by (rule prod_cases4)
  note S = convert_user_problem_shape(1) [OF assms(4), of uninit "lp_problem_new 1 1 1 scale" "[]", unfolded P fst_conv]
  have C: "converted U P (u_num_cols U)"
    unfolding converted_def using assms(4,5) P by (metis fst_conv)
  have "lp_wf P" "is_fin (obj_constant P)" using S assms(5) by (simp_all add: conv_shape_def)
  then have A: "lp_answer P s' lsol"
    using advanced_answer [OF assms(1) _ _ _ assms(2,3) a] converted_removable [OF assms(4,6), of uninit "lp_problem_new 1 1 1 scale" "[]", unfolded P fst_conv]
    by blast
  let ?us = "sol_x (resize_solution (u_num_rows U) (u_num_cols U) sol0)"
  have r: "s = s'" "sol_x sol = uncrush_primal_solution U (sol_x lsol) ?us"
    using assms(7) unfolding solve_linear_program_def Let_def P a prod.case by auto
  have "\<exists>x. sol_x sol = map Fin x \<and> optimal_by (user_feasible U) (user_value U) x" if "s = LP_OPTIMAL"
  proof -
    have "s' = LP_OPTIMAL" using r(1) that by simp
    then obtain x where x: "sol_x lsol = map Fin x" "lp_optimal P x" using A unfolding lp_answer_def by metis
    have "u_num_cols U \<le> length (map Fin x)" using x(2) S by (simp add: lp_optimal_def lp_feasible_def conv_shape_def)
    then have "sol_x sol = map Fin (take (u_num_cols U) x)" by (simp add: r(2) x(1) uncrush_primal_eq take_map)
    moreover have "optimal_by (user_feasible U) (user_value U) (take (u_num_cols U) x)"
      using conversion.restore_optimal [OF C] x(2) by (simp add: lp_optimal_by)
    ultimately show ?thesis by blast
  qed
  then show ?thesis
    using A r(1) conversion.feasible_iff [OF C] conversion.unbounded_iff [OF C] by (auto simp: user_answer_def lp_answer_def)
qed

text \<open>C19. The driver is correct for the user's problem, given a correct simplex: whatever the row senses, ranges and bounds,
  through conversion, presolve, scaling, both phases and the way back, an answer OPTIMAL comes with an
  optimal solution of the user problem, INFEASIBLE means that it has no feasible point, and UNBOUNDED
  that it is unbounded or has no feasible point. A variable that occurs in no row needs consistent
  bounds and a finite bound on the side that its cost selects.\<close>

theorem solve_linear_program_correct:
  fixes U :: "('f :: linordered_field) user_problem"
  assumes "phase2_sound dual_phase2" "\<forall>v>0. 0 < sqrt_of v" "0 < primal_tol st" "user_wf U" "is_fin (u_obj_constant U)"
    "\<forall>j<u_num_cols U. (\<forall>i<u_num_rows U. csc_dense (u_A U) i j = 0) \<longrightarrow> settles_alone U j"
    "solve_linear_program dual_phase2 sqrt_of uninit scale st U sol0 = (s, sol)"
  shows "user_answer U s sol"
  by (rule solve_linear_program_answer [OF assms])

text \<open>One variable \<open>x >= 2\<close> with cost 6 and one row \<open>2 x = 4\<close>, and a simplex that knows its answers.\<close>

definition ex_lp :: "rat user_problem" where
  "ex_lp = \<lparr>u_num_rows = 1, u_num_cols = 1, u_objective = [6],
     u_A = \<lparr>csc_nz_max = 1, csc_m = 1, csc_n = 1, col_start = [0, 1], csc_i = [0], csc_x = [2]\<rparr>,
     u_rhs = [4], u_row_sense = ''E'', u_lower = [Fin 2], u_upper = [PInf], u_range_rows = [], u_range_value = [],
     u_num_range_rows = 0, u_obj_constant = Fin 0, u_obj_scale = 1, u_var_types = [CONTINUOUS]\<rparr>"

definition ex_lp2 :: "rat lp_problem" where
  "ex_lp2 = fst (column_scaling ex_sqrt True (fst (snd (presolve (fst (convert_user_problem (0, 0) ex_lp (lp_problem_new 1 1 1 1) []))
     presolve_info_new))) [])"

definition ex_lp1 :: "rat lp_problem" where
  "ex_lp1 = create_phase1_problem ex_lp2 (lp_problem_new 1 1 1 0)"

definition ex_simplex :: "rat dual_simplex" where
  "ex_simplex k ph sb P vs sol it en =
     (if ph = 1 \<and> P = ex_lp1 then (OPTIMAL, vs, sol\<lparr>sol_x := map Fin [0, 0], sol_objective := Fin 0\<rparr>, it, en)
      else if ph = 2 \<and> P = ex_lp2
      then (OPTIMAL, vs, sol\<lparr>sol_x := map Fin [4, 0], sol_z := map Fin [0, 3], sol_objective := Fin 12, sol_user_objective := Fin 12\<rparr>, it + 1, en)
      else (TIME_LIMIT, vs, sol, it, en))"

lemma ex_lp2_fields:
  "num_cols ex_lp2 = 2" "objective ex_lp2 = [3, 0]" "lower ex_lp2 = [Fin 4, Fin 0]" "obj_constant ex_lp2 = Fin 0" "obj_scale ex_lp2 = 1"
  "lp_feasible ex_lp2 [4, 0]" "lp_feasible ex_lp1 [0, 0]" "objective ex_lp1 = [3, 0]"
  by code_simp+

lemma ex_simplex_sound: "phase2_sound ex_simplex"
proof -
  have "lp_value ex_lp2 [4, 0] \<le> lp_value ex_lp2 y" if "lp_feasible ex_lp2 y" for y
  proof -
    have "Fin 4 \<le> Fin (y ! 0)" using that by (auto simp: lp_feasible_def ex_lp2_fields in_bounds_def numeral_2_eq_2 All_less_Suc)
    then show ?thesis by (simp add: lp_value_def ex_lp2_fields objective_value_def numeral_2_eq_2)
  qed
  then have opt: "lp_optimal ex_lp2 [4, 0]" by (simp add: lp_optimal_def ex_lp2_fields)
  have 2: "phase2_answer ex_lp2 (OPTIMAL, vs, sol\<lparr>sol_x := map Fin [4, 0], sol_z := map Fin [0, 3], sol_objective := Fin 12,
      sol_user_objective := Fin 12\<rparr>, it, en)" for vs sol it en
    unfolding phase2_answer_def using opt
    by (simp del: list.map, intro exI [of _ "[4, 0]"] conjI exI [of _ "[0, 3]"])
      (simp_all add: ex_lp2_fields compute_user_objective_def objective_value_def numeral_2_eq_2)
  have 1: "phase1_answer ex_lp1 (OPTIMAL, vs, sol\<lparr>sol_x := map Fin [0, 0], sol_objective := Fin 0\<rparr>, it, en)" for vs sol it en
    unfolding phase1_answer_def
    by (simp del: list.map, intro exI [of _ "[0, 0]"] conjI) (simp_all add: ex_lp2_fields objective_value_def numeral_2_eq_2)
  have "phase1_answer P (ex_simplex k 1 sb P vs sol it en)" for k sb P vs sol it en
    using 1 by (simp add: ex_simplex_def phase1_answer_def [of P "(TIME_LIMIT, _, _)"] del: list.map)
  moreover have "phase2_answer P (ex_simplex k 2 sb P vs sol it en)" for k sb P vs sol it en
    using 2 by (simp add: ex_simplex_def phase2_answer_def [of P "(TIME_LIMIT, _, _)"] del: list.map)
  ultimately show ?thesis by (simp add: phase2_sound_def)
qed

theorem solve_linear_program_correct_witness:
  "optimal_by (user_feasible ex_lp) (user_value ex_lp) [2]"
proof -
  let ?st = "\<lparr>integer_tol = 1 / 100000, primal_tol = 1 / 1000000, dual_tol = 1 / 1000000, absolute_mip_gap_tol = 0,
    relative_mip_gap_tol = 1 / 1000, scale_columns = True\<rparr> :: rat simplex_solver_settings"
  let ?R = "solve_linear_program ex_simplex ex_sqrt (0, 0) 1 ?st ex_lp (lp_solution_new 0 0)"
  have "\<forall>v>0. 0 < ex_sqrt v" "0 < primal_tol ?st" by (simp_all add: ex_sqrt_def)
  moreover have "user_wf ex_lp" "is_fin (u_obj_constant ex_lp)" by code_simp+
  moreover have "u_num_cols ex_lp = 1" "settles_alone ex_lp 0" by code_simp+
  moreover have "?R = (fst ?R, snd ?R)" by simp
  ultimately have a: "user_answer ex_lp (fst ?R) (snd ?R)"
    by (intro solve_linear_program_correct [OF ex_simplex_sound]) auto
  have "fst ?R = LP_OPTIMAL" "sol_x (snd ?R) = [Fin 2]" by code_simp+
  then show ?thesis using a by (auto simp: user_answer_def)
qed

end
