(* ===== verification/Bb_Root.thy ===== *)
theory Bb_Root
  imports Bb_Example Lp_Solve
begin

text \<open>
  Branch and bound on the driver it calls for the root relaxation: what happens when
  \<open>solve_linear_program_advanced\<close> gives up in phase 1 and leaves the root solution as it was constructed.
\<close>

definition gives_up :: "dual_status \<Rightarrow> bool" where
  "gives_up s \<longleftrightarrow> s \<in> {NUMERICAL, DUAL_UNBOUNDED, ITERATION_LIMIT, CONCURRENT_LIMIT}"

lemma phase1_failure:
  assumes "fst (presolve P presolve_info_new) \<noteq> -1" "\<forall>P1 vs sol. gives_up (fst (dual_phase2 0 1 1 P1 vs sol 0 []))"
  shows "\<exists>s. s \<in> {LP_NUMERICAL_ISSUES, LP_ITERATION_LIMIT, LP_CONCURRENT_LIMIT} \<and>
    solve_linear_program_advanced dual_phase2 sqrt_of S P sol vs en = (s, sol, vs, en)"
proof -
  obtain ret Q info where p: "presolve P presolve_info_new = (ret, Q, info)" by (rule prod_cases3)
  obtain P1 cs where c: "column_scaling sqrt_of (scale_columns S) Q [] = (P1, cs)" by (rule prod.exhaust)
  let ?P1 = "create_phase1_problem P1 (lp_problem_new 1 1 1 0)"
  obtain s1 vs1 sol1 it1 en1 where d: "dual_phase2 0 1 1 ?P1 (slack_basis ?P1) (lp_solution_new (num_rows ?P1) (num_cols ?P1)) 0 []
      = (s1, vs1, sol1, it1, en1)" by (rule prod_cases5)
  have "gives_up s1" using assms(2) d by (metis fst_conv)
  then show ?thesis using assms(1) p c d
    by (auto simp: solve_linear_program_advanced_def gives_up_def Let_def)
qed

lemma zero_objective: "compute_objective P (replicate (num_cols P) 0) = 0"
proof -
  have "for_range 0 k (\<lambda>j obj. obj + objective P ! j * replicate (num_cols P) 0 ! j) 0 = (0 :: 'a)" if "k \<le> num_cols P" for k
    using that by (induction k) simp_all
  then show ?thesis by (simp add: compute_objective_def)
qed

lemma zero_integral: "0 \<le> integer_tol (S :: ('f :: floor_ceiling) simplex_solver_settings) \<Longrightarrow> fractional_variables S (replicate n 0) ts = []"
  using std_round_int [of 0, where 'f = 'f] by (auto simp: fractional_variables_eq is_fractional_def filter_empty_conv)

lemma uncrush_zeros:
  assumes "u_num_cols U \<le> n"
  shows "uncrush_primal_solution U (replicate n 0) us = replicate (u_num_cols U) 0"
  using uncrush_primal_eq [of U "replicate n 0" us] assms by simp

text \<open>C24. When phase 1 of the root relaxation ends without a decision (numerical issues, a dual unbounded phase 1
  problem, the iteration limit or a concurrent stop), \<open>solve\<close> takes the untouched zero vector for the
  optimum of the relaxation: it has no fractional variable, so the search answers optimal, with the zero
  vector, the objective 0 and the upper bound 0, for every problem and whatever was known before. In the
  witness every integer feasible point has an objective of at least 1 and the zero vector is outside the
  bounds. (Without assertions; with them the empty basis of the root stops the program.)\<close>

theorem numerical_root_reported_optimal:
  fixes B :: "('f :: floor_ceiling) branch_and_bound" and dual_phase2 :: "'f dual_simplex"
  assumes "0 \<le> integer_tol (settings B)" "u_num_cols (original_problem B) \<le> num_cols (original_lp B)"
    and "fst (presolve (original_lp B) presolve_info_new) \<noteq> -1"
    and "\<forall>P vs sol. gives_up (fst (dual_phase2 0 1 1 P vs sol 0 []))"
  shows "\<exists>st'. (case solve_linear_program_advanced dual_phase2 sqrt_of (settings B) (original_lp B)
        (lp_solution_new (num_rows (original_lp B)) (num_cols (original_lp B))) [] [] of
      (s, sol, vs, en) \<Rightarrow> start_search uninit B (s, map fin_part (sol_x sol), vs) strong st) = Some st' \<and>
    result st' = MIP_OPTIMAL \<and> solution_x st' = replicate (u_num_cols (original_problem B)) 0 \<and>
    solution_objective st' = Fin 0 \<and> g_upper_bound st' = Fin 0"
proof -
  let ?n = "num_cols (original_lp B)"
  from phase1_failure [of "original_lp B" dual_phase2 sqrt_of "settings B", OF assms(3,4)] obtain s where s: "s \<in> {LP_NUMERICAL_ISSUES, LP_ITERATION_LIMIT, LP_CONCURRENT_LIMIT}"
    "solve_linear_program_advanced dual_phase2 sqrt_of (settings B) (original_lp B) (lp_solution_new (num_rows (original_lp B)) ?n) [] []
      = (s, lp_solution_new (num_rows (original_lp B)) ?n, [], [])" by blast
  have x: "map fin_part (sol_x (lp_solution_new (num_rows (original_lp B)) ?n)) = replicate ?n (0 :: 'f)"
    by (simp add: lp_solution_new_def zero_ext_def)
  show ?thesis using s(1) unfolding s(2) prod.case x
    by (auto simp: start_search_def zero_integral [OF assms(1)] zero_objective answer_def set_incumbent_solution_def
        uncrush_zeros [OF assms(2)] Let_def)
qed

theorem numerical_root_reported_optimal_witness:
  "\<exists>st'. (case solve_linear_program_advanced (\<lambda>_ _ _ _ vs sol it en. (NUMERICAL, vs, sol, it, en)) id (settings toy) (original_lp toy)
        (lp_solution_new 0 1) [] [] of
      (s, sol, vs, en) \<Rightarrow> start_search (NaN, NaN, 0) toy (s, map fin_part (sol_x sol), vs) (\<lambda>_ _ _. Some) (at_root toy)) = Some st' \<and>
    result st' = MIP_OPTIMAL \<and> solution_x st' = [0] \<and> solution_objective st' = Fin 0 \<and> g_upper_bound st' = Fin 0 \<and>
    (\<forall>x. mip_point toy x \<longrightarrow> 1 \<le> obj toy x)"
proof -
  have s: "0 \<le> integer_tol (settings toy)" "u_num_cols (original_problem toy) = 1" "fst (presolve (original_lp toy) presolve_info_new) \<noteq> -1"
    by code_simp+
  have n: "num_cols (original_lp toy) = 1" "num_rows (original_lp toy) = 0" by (simp_all add: toy_lp)
  have "1 \<le> obj toy x" if "mip_point toy x" for x
  proof -
    have "x ! 0 \<in> \<int>" "1 / 2 \<le> x ! 0" using that by (simp_all add: mip_point_def lp_feasible_def in_bounds_def toy_lp toy_fields)
    then show ?thesis by (auto elim!: Ints_cases)
  qed
  then show ?thesis
    using numerical_root_reported_optimal [where B = toy and sqrt_of = id and uninit = "(NaN, NaN, 0)" and strong = "\<lambda>_ _ _. Some"
        and st = "at_root toy" and ?dual_phase2.0 = "\<lambda>_ _ _ _ vs sol it en. (NUMERICAL, vs, sol, it, en)"] s(1,3)
    by (auto simp: s n gives_up_def)
qed

end
