(* ===== verification/Opt_Problem.thy ===== *)
theory Opt_Problem
  imports Mps_Model
begin

text \<open>
  The optimization problem that every solver of cuOpt starts from (\<open>optimization_problem.hpp\<close>,
  \<open>optimization_problem.cu\<close>): its fields, the setters with their checks, and the function of \<open>solve.cu\<close> that
  builds it from the data model of a parsed file. A pointer is an optional list as in the data model; device vectors
  are lists and the copies between host and device are exact. \<open>op_error\<close> has one constructor per message of
  \<open>cuopt_expects\<close>; \<open>Op_Undefined\<close> stands for reading more elements than an array has.
\<close>

subsection \<open>Errors\<close>

datatype op_check =
    A_Values_Null | A_Indices_Null | A_Offsets_Null | B_Null | C_Null | Variable_Lower_Null | Variable_Upper_Null
  | Constraint_Lower_Null | Constraint_Upper_Null | Row_Types_Null | Var_Types_Null
  | Sizes_Differ | First_Offset | Offsets_Order | Index_Range
  | Primal_Size | Dual_Size
  | Values_Unset | Indices_Unset | Offsets_Unset | Objective_Unset | Lower_Without_Upper | Upper_Without_Lower
  | Constraints_Unset | Row_Type | Row_Types_Size | Rhs_Rows | Variable_Lower_Size | Variable_Upper_Size
  | Constraint_Sizes | Constraint_Lower_Rows | Constraint_Upper_Rows
  | Crossing_Variable_Bounds | Crossing_Constraint_Bounds

datatype op_error = Validation_Error op_check | Op_Undefined

definition cuopt_expects :: "bool \<Rightarrow> op_check \<Rightarrow> (op_error + 'a) \<Rightarrow> op_error + 'a" where
  "cuopt_expects cond e k = (if cond then k else Inl (Validation_Error e))"

lemma cuopt_expects_Inr [simp]: "cuopt_expects c e k = Inr a \<longleftrightarrow> c \<and> k = Inr a"
  by (simp add: cuopt_expects_def)

lemma cuopt_expects_True [simp]: "cuopt_expects True e k = k"
  by (simp add: cuopt_expects_def)

definition device_copy :: "'a list option \<Rightarrow> nat \<Rightarrow> op_error + 'a list" where
  "device_copy p cnt = (case p of
       None \<Rightarrow> if cnt = 0 then Inr [] else Inl Op_Undefined
     | Some xs \<Rightarrow> if cnt \<le> length xs then Inr (take cnt xs) else Inl Op_Undefined)"

lemma device_copy_all [simp]: "device_copy (Some xs) (length xs) = Inr xs" "device_copy None 0 = Inr []"
  by (simp_all add: device_copy_def)

subsection \<open>State\<close>

datatype var_t = Continuous_Var | Integer_Var

datatype problem_category = LP | MIP | IP

record 'f optimization_problem =
  op_maximize :: bool
  op_n_vars :: nat
  op_n_constraints :: nat
  op_A :: "'f ext list"
  op_A_indices :: "int list"
  op_A_offsets :: "int list"
  op_b :: "'f ext list"
  op_c :: "'f ext list"
  op_objective_scaling_factor :: "'f ext"
  op_objective_offset :: "'f ext"
  op_variable_lower_bounds :: "'f ext list"
  op_variable_upper_bounds :: "'f ext list"
  op_constraint_lower_bounds :: "'f ext list"
  op_constraint_upper_bounds :: "'f ext list"
  op_row_types :: "char list"
  op_variable_types :: "var_t list"
  op_objective_name :: string
  op_problem_name :: string
  op_problem_category :: problem_category
  op_var_names :: "string list"
  op_row_names :: "string list"

definition optimization_problem_new :: "('f :: linordered_idom) optimization_problem" where
  "optimization_problem_new =
     \<lparr>op_maximize = False, op_n_vars = 0, op_n_constraints = 0, op_A = [], op_A_indices = [], op_A_offsets = [],
      op_b = [], op_c = [], op_objective_scaling_factor = 1, op_objective_offset = 0,
      op_variable_lower_bounds = [], op_variable_upper_bounds = [],
      op_constraint_lower_bounds = [], op_constraint_upper_bounds = [], op_row_types = [], op_variable_types = [],
      op_objective_name = [], op_problem_name = [], op_problem_category = LP, op_var_names = [], op_row_names = []\<rparr>"

subsection \<open>Setters\<close>

definition op_set_csr_constraint_matrix ::
  "'f ext list option \<Rightarrow> nat \<Rightarrow> int list option \<Rightarrow> nat \<Rightarrow> int list option \<Rightarrow> nat \<Rightarrow> 'f optimization_problem
   \<Rightarrow> op_error + 'f optimization_problem" where
  "op_set_csr_constraint_matrix vals size_values indices size_indices offsets size_offsets P =
     cuopt_expects (size_values = 0 \<or> vals \<noteq> None) A_Values_Null
     (bind_ok (device_copy vals size_values) (\<lambda>A.
      cuopt_expects (size_indices = 0 \<or> indices \<noteq> None) A_Indices_Null
     (bind_ok (device_copy indices size_indices) (\<lambda>A_ind.
      cuopt_expects (offsets \<noteq> None) A_Offsets_Null
     (bind_ok (device_copy offsets size_offsets) (\<lambda>A_off.
      Inr (P\<lparr>op_A := A, op_A_indices := A_ind, op_A_offsets := A_off\<rparr>)))))))"

definition op_set_constraint_bounds :: "'f ext list option \<Rightarrow> nat \<Rightarrow> 'f optimization_problem \<Rightarrow> op_error + 'f optimization_problem" where
  "op_set_constraint_bounds b cnt P = cuopt_expects (b \<noteq> None) B_Null
     (bind_ok (device_copy b cnt) (\<lambda>xs. Inr (P\<lparr>op_n_constraints := cnt, op_b := xs\<rparr>)))"

definition op_set_objective_coefficients :: "'f ext list option \<Rightarrow> nat \<Rightarrow> 'f optimization_problem \<Rightarrow> op_error + 'f optimization_problem" where
  "op_set_objective_coefficients c cnt P = cuopt_expects (c \<noteq> None) C_Null
     (bind_ok (device_copy c cnt) (\<lambda>xs. Inr (P\<lparr>op_n_vars := cnt, op_c := xs\<rparr>)))"

definition op_set_objective_scaling_factor :: "'f ext \<Rightarrow> 'f optimization_problem \<Rightarrow> 'f optimization_problem" where
  "op_set_objective_scaling_factor s P = P\<lparr>op_objective_scaling_factor := s\<rparr>"

definition op_set_objective_offset :: "'f ext \<Rightarrow> 'f optimization_problem \<Rightarrow> 'f optimization_problem" where
  "op_set_objective_offset k P = P\<lparr>op_objective_offset := k\<rparr>"

definition op_set_variable_lower_bounds :: "'f ext list option \<Rightarrow> nat \<Rightarrow> 'f optimization_problem \<Rightarrow> op_error + 'f optimization_problem" where
  "op_set_variable_lower_bounds l cnt P = cuopt_expects (cnt = 0 \<or> l \<noteq> None) Variable_Lower_Null
     (bind_ok (device_copy l cnt) (\<lambda>xs. Inr (P\<lparr>op_n_vars := cnt, op_variable_lower_bounds := xs\<rparr>)))"

definition op_set_variable_upper_bounds :: "'f ext list option \<Rightarrow> nat \<Rightarrow> 'f optimization_problem \<Rightarrow> op_error + 'f optimization_problem" where
  "op_set_variable_upper_bounds u cnt P = cuopt_expects (cnt = 0 \<or> u \<noteq> None) Variable_Upper_Null
     (bind_ok (device_copy u cnt) (\<lambda>xs. Inr (P\<lparr>op_n_vars := cnt, op_variable_upper_bounds := xs\<rparr>)))"

definition op_set_constraint_lower_bounds :: "'f ext list option \<Rightarrow> nat \<Rightarrow> 'f optimization_problem \<Rightarrow> op_error + 'f optimization_problem" where
  "op_set_constraint_lower_bounds l cnt P = cuopt_expects (cnt = 0 \<or> l \<noteq> None) Constraint_Lower_Null
     (bind_ok (device_copy l cnt) (\<lambda>xs. Inr (P\<lparr>op_n_constraints := cnt, op_constraint_lower_bounds := xs\<rparr>)))"

definition op_set_constraint_upper_bounds :: "'f ext list option \<Rightarrow> nat \<Rightarrow> 'f optimization_problem \<Rightarrow> op_error + 'f optimization_problem" where
  "op_set_constraint_upper_bounds u cnt P = cuopt_expects (cnt = 0 \<or> u \<noteq> None) Constraint_Upper_Null
     (bind_ok (device_copy u cnt) (\<lambda>xs. Inr (P\<lparr>op_n_constraints := cnt, op_constraint_upper_bounds := xs\<rparr>)))"

definition op_set_row_types :: "char list option \<Rightarrow> nat \<Rightarrow> 'f optimization_problem \<Rightarrow> op_error + 'f optimization_problem" where
  "op_set_row_types t cnt P = cuopt_expects (t \<noteq> None) Row_Types_Null
     (bind_ok (device_copy t cnt) (\<lambda>xs. Inr (P\<lparr>op_n_constraints := cnt, op_row_types := xs\<rparr>)))"

definition op_set_variable_types :: "var_t list option \<Rightarrow> nat \<Rightarrow> 'f optimization_problem \<Rightarrow> op_error + 'f optimization_problem" where
  "op_set_variable_types t cnt P = cuopt_expects (t \<noteq> None) Var_Types_Null
     (bind_ok (device_copy t cnt) (\<lambda>xs.
        let P = P\<lparr>op_variable_types := xs\<rparr>; n_integer = count_list xs Integer_Var
        in Inr (if n_integer = cnt then P\<lparr>op_problem_category := IP\<rparr>
                else if n_integer > 0 then P\<lparr>op_problem_category := MIP\<rparr> else P)))"

definition op_set_problem_category :: "problem_category \<Rightarrow> 'f optimization_problem \<Rightarrow> 'f optimization_problem" where
  "op_set_problem_category c P = P\<lparr>op_problem_category := c\<rparr>"

definition op_set_objective_name :: "string \<Rightarrow> 'f optimization_problem \<Rightarrow> 'f optimization_problem" where
  "op_set_objective_name s P = P\<lparr>op_objective_name := s\<rparr>"

definition op_set_problem_name :: "string \<Rightarrow> 'f optimization_problem \<Rightarrow> 'f optimization_problem" where
  "op_set_problem_name s P = P\<lparr>op_problem_name := s\<rparr>"

definition op_set_variable_names :: "string list \<Rightarrow> 'f optimization_problem \<Rightarrow> 'f optimization_problem" where
  "op_set_variable_names ns P = P\<lparr>op_var_names := ns\<rparr>"

definition op_set_row_names :: "string list \<Rightarrow> 'f optimization_problem \<Rightarrow> 'f optimization_problem" where
  "op_set_row_names ns P = P\<lparr>op_row_names := ns\<rparr>"

definition op_set_maximize :: "bool \<Rightarrow> 'f optimization_problem \<Rightarrow> 'f optimization_problem" where
  "op_set_maximize m P = P\<lparr>op_maximize := m\<rparr>"

definition op_get_nnz :: "'f optimization_problem \<Rightarrow> nat" where
  "op_get_nnz P = length (op_A P)"

subsection \<open>From a parsed file\<close>

text \<open>\<open>data()\<close> of a vector; of an empty one it is taken to be null, as in an unallocated vector.\<close>

definition vector_data :: "'a list \<Rightarrow> 'a list option" where
  "vector_data xs = (if xs = [] then None else Some xs)"

definition var_type_of :: "char \<Rightarrow> var_t" where
  "var_type_of c = (if c = CHR ''I'' then Integer_Var else Continuous_Var)"

definition set_unless_empty :: "('a list option \<Rightarrow> nat \<Rightarrow> 'p \<Rightarrow> op_error + 'p) \<Rightarrow> 'a list \<Rightarrow> 'p \<Rightarrow> op_error + 'p" where
  "set_unless_empty setter xs P = (if length xs \<noteq> 0 then setter (vector_data xs) (length xs) P else Inr P)"

definition mps_data_model_to_optimization_problem ::
  "('f :: linordered_idom) mps_data_model \<Rightarrow> op_error + 'f optimization_problem" where
  "mps_data_model_to_optimization_problem M =
     (let P = op_set_maximize (dm_maximize M) optimization_problem_new in
      bind_ok (op_set_csr_constraint_matrix (vector_data (dm_A M)) (length (dm_A M))
                 (vector_data (map int (dm_A_indices M))) (length (dm_A_indices M))
                 (vector_data (map int (dm_A_offsets M))) (length (dm_A_offsets M)) P) (\<lambda>P.
      bind_ok (set_unless_empty op_set_constraint_bounds (dm_b M) P) (\<lambda>P.
      bind_ok (set_unless_empty op_set_objective_coefficients (dm_c M) P) (\<lambda>P.
      let P = op_set_objective_offset (dm_objective_offset M)
                (op_set_objective_scaling_factor (dm_objective_scaling_factor M) P) in
      bind_ok (set_unless_empty op_set_variable_lower_bounds (dm_variable_lower_bounds M) P) (\<lambda>P.
      bind_ok (set_unless_empty op_set_variable_upper_bounds (dm_variable_upper_bounds M) P) (\<lambda>P.
      bind_ok (set_unless_empty op_set_variable_types (map var_type_of (dm_var_types M)) P) (\<lambda>P.
      bind_ok (set_unless_empty op_set_row_types (dm_row_types M) P) (\<lambda>P.
      bind_ok (set_unless_empty op_set_constraint_lower_bounds (dm_constraint_lower_bounds M) P) (\<lambda>P.
      bind_ok (set_unless_empty op_set_constraint_upper_bounds (dm_constraint_upper_bounds M) P) (\<lambda>P.
      let P = (if length (dm_objective_name M) \<noteq> 0 then op_set_objective_name (dm_objective_name M) P else P);
          P = (if length (dm_problem_name M) \<noteq> 0 then op_set_problem_name (dm_problem_name M) P else P);
          P = (if length (dm_var_names M) \<noteq> 0 then op_set_variable_names (dm_var_names M) P else P);
          P = (if length (dm_row_names M) \<noteq> 0 then op_set_row_names (dm_row_names M) P else P)
      in Inr P))))))))))"

lemma set_unless_empty_all:
  "set_unless_empty op_set_constraint_bounds xs P = Inr (if xs = [] then P else P\<lparr>op_n_constraints := length xs, op_b := xs\<rparr>)"
  "set_unless_empty op_set_objective_coefficients xs P = Inr (if xs = [] then P else P\<lparr>op_n_vars := length xs, op_c := xs\<rparr>)"
  "set_unless_empty op_set_variable_lower_bounds xs P =
     Inr (if xs = [] then P else P\<lparr>op_n_vars := length xs, op_variable_lower_bounds := xs\<rparr>)"
  "set_unless_empty op_set_variable_upper_bounds xs P =
     Inr (if xs = [] then P else P\<lparr>op_n_vars := length xs, op_variable_upper_bounds := xs\<rparr>)"
  "set_unless_empty op_set_constraint_lower_bounds xs P =
     Inr (if xs = [] then P else P\<lparr>op_n_constraints := length xs, op_constraint_lower_bounds := xs\<rparr>)"
  "set_unless_empty op_set_constraint_upper_bounds xs P =
     Inr (if xs = [] then P else P\<lparr>op_n_constraints := length xs, op_constraint_upper_bounds := xs\<rparr>)"
  "set_unless_empty op_set_row_types ts P = Inr (if ts = [] then P else P\<lparr>op_n_constraints := length ts, op_row_types := ts\<rparr>)"
  by (simp_all add: set_unless_empty_def vector_data_def op_set_constraint_bounds_def op_set_objective_coefficients_def
      op_set_variable_lower_bounds_def op_set_variable_upper_bounds_def op_set_constraint_lower_bounds_def
      op_set_constraint_upper_bounds_def op_set_row_types_def)

text \<open>The category that the variable types of a parsed file give.\<close>

definition category_of :: "var_t list \<Rightarrow> problem_category" where
  "category_of ts = (if ts \<noteq> [] \<and> count_list ts Integer_Var = length ts then IP else if count_list ts Integer_Var > 0 then MIP else LP)"

lemma category_of_LP: "category_of ts = LP \<longleftrightarrow> Integer_Var \<notin> set ts"
proof (cases "count_list ts Integer_Var = 0")
  case True
  then have "Integer_Var \<notin> set ts" by (simp add: count_list_0_iff)
  then show ?thesis using True by (cases ts) (simp_all add: category_of_def)
next
  case False
  then have "Integer_Var \<in> set ts" by (simp add: count_list_0_iff)
  then show ?thesis using False by (simp add: category_of_def)
qed

lemma set_variable_types_all:
  "set_unless_empty op_set_variable_types ts P =
     Inr (if ts = [] then P else if category_of ts = LP then P\<lparr>op_variable_types := ts\<rparr>
          else P\<lparr>op_variable_types := ts, op_problem_category := category_of ts\<rparr>)"
  by (simp add: set_unless_empty_def vector_data_def op_set_variable_types_def category_of_def Let_def)

end
