(* ===== verification/Problem_Check.thy ===== *)
theory Problem_Check
  imports Opt_Problem
begin

text \<open>
  The validation that \<open>solve_lp\<close> and \<open>solve_mip\<close> run before they build the internal problem
  (\<open>problem_checking.cu\<close>). The checks come in the order of the code, each with its own error. Parallel
  reductions over device vectors (\<open>thrust::all_of\<close>, \<open>thrust::is_sorted\<close>) are the list functions they compute.
  \<open>op_built\<close> are the problems that sequences of setter calls build; it carries the invariant of the counters.
\<close>

subsection \<open>The checks\<close>

text \<open>A list of checks in order: the first one that fails is the error.\<close>

fun in_order :: "(op_error + unit) list \<Rightarrow> op_error + unit" where
  "in_order [] = Inr ()"
| "in_order (c # cs) = bind_ok c (\<lambda>_. in_order cs)"

abbreviation require :: "bool \<Rightarrow> op_check \<Rightarrow> op_error + unit" where
  "require cond e \<equiv> cuopt_expects cond e (Inr ())"

lemma in_order_Inr: "in_order cs = Inr () \<longleftrightarrow> list_all (\<lambda>c. c = Inr ()) cs"
  by (induction cs) (auto simp: bind_ok_Inr)

definition check_csr_representation :: "'f optimization_problem \<Rightarrow> op_error + unit" where
  "check_csr_representation P = in_order
     [require (length (op_A_indices P) = length (op_A P)) Sizes_Differ,
      if op_A_offsets P = [] then Inl Op_Undefined else require (op_A_offsets P ! 0 = 0) First_Offset,
      require (sorted (op_A_offsets P)) Offsets_Order,
      require (list_all (\<lambda>v. v \<ge> 0 \<and> v < int (op_n_vars P)) (op_A_indices P)) Index_Range]"

definition check_initial_primal_representation :: "'f optimization_problem \<Rightarrow> 'f ext list \<Rightarrow> op_error + unit" where
  "check_initial_primal_representation P x =
     (if x \<noteq> [] then require (length x = length (op_c P)) Primal_Size else Inr ())"

definition check_initial_dual_representation :: "'f optimization_problem \<Rightarrow> 'f ext list \<Rightarrow> op_error + unit" where
  "check_initial_dual_representation P y =
     (if y \<noteq> [] then
        let n_constraints = (if op_constraint_lower_bounds P = [] then length (op_b P) else length (op_constraint_lower_bounds P))
        in require (length y = n_constraints) Dual_Size
      else Inr ())"

text \<open>The two overloads; \<open>None\<close> is a null pointer in the settings.\<close>

definition check_initial_solution_representation ::
  "'f optimization_problem \<Rightarrow> 'f ext list option \<Rightarrow> 'f ext list option \<Rightarrow> op_error + unit" where
  "check_initial_solution_representation P initial_primal initial_dual = in_order
     [case initial_primal of None \<Rightarrow> Inr () | Some x \<Rightarrow> check_initial_primal_representation P x,
      case initial_dual of None \<Rightarrow> Inr () | Some y \<Rightarrow> check_initial_dual_representation P y]"

definition check_initial_mip_solution_representation ::
  "'f optimization_problem \<Rightarrow> 'f ext list option \<Rightarrow> op_error + unit" where
  "check_initial_mip_solution_representation P initial =
     (case initial of None \<Rightarrow> Inr () | Some x \<Rightarrow> check_initial_primal_representation P x)"

definition check_row_types :: "'f optimization_problem \<Rightarrow> op_error + unit" where
  "check_row_types P = in_order
     [require (list_all (\<lambda>t. t = CHR ''E'' \<or> t = CHR ''G'' \<or> t = CHR ''L'') (op_row_types P)) Row_Type,
      require (length (op_row_types P) = length (op_b P)) Row_Types_Size,
      require (length (op_A_offsets P) - 1 = length (op_b P)) Rhs_Rows]"

definition check_problem_representation :: "'f optimization_problem \<Rightarrow> op_error + unit" where
  "check_problem_representation P =
     (let empty_problem = (op_A P = []); rows = length (op_A_offsets P) - 1;
          ls = op_constraint_lower_bounds P; us = op_constraint_upper_bounds P
      in in_order
     [require (empty_problem \<or> op_A P \<noteq> []) Values_Unset,
      require (empty_problem \<or> op_A_indices P \<noteq> []) Indices_Unset,
      require (op_A_offsets P \<noteq> []) Offsets_Unset,
      require (empty_problem \<or> op_c P \<noteq> []) Objective_Unset,
      check_csr_representation P,
      require (\<not> (ls = [] \<and> us \<noteq> [])) Upper_Without_Lower,
      require (\<not> (ls \<noteq> [] \<and> us = [])) Lower_Without_Upper,
      require (empty_problem \<or> (ls \<noteq> [] \<and> us \<noteq> []) \<or> (op_row_types P \<noteq> [] \<and> op_b P \<noteq> [])) Constraints_Unset,
      if op_row_types P \<noteq> [] then check_row_types P else Inr (),
      if op_variable_lower_bounds P \<noteq> []
      then require (length (op_variable_lower_bounds P) = length (op_c P)) Variable_Lower_Size else Inr (),
      if op_variable_upper_bounds P \<noteq> []
      then require (length (op_variable_upper_bounds P) = length (op_c P)) Variable_Upper_Size else Inr (),
      require (length ls = length us) Constraint_Sizes,
      if ls \<noteq> [] then require (rows = length ls) Constraint_Lower_Rows else Inr (),
      if us \<noteq> [] then require (rows = length us) Constraint_Upper_Rows else Inr ()])"

text \<open>What an accepted problem satisfies.\<close>

lemma check_csr_representation_iff:
  "check_csr_representation P = Inr () \<longleftrightarrow> length (op_A_indices P) = length (op_A P) \<and> op_A_offsets P \<noteq> [] \<and>
      op_A_offsets P ! 0 = 0 \<and> sorted (op_A_offsets P) \<and> (\<forall>v\<in>set (op_A_indices P). 0 \<le> v \<and> v < int (op_n_vars P))"
  unfolding check_csr_representation_def in_order_Inr by (auto simp: list_all_iff)

lemma check_row_types_iff:
  "check_row_types P = Inr () \<longleftrightarrow> set (op_row_types P) \<subseteq> {CHR ''E'', CHR ''G'', CHR ''L''} \<and>
      length (op_row_types P) = length (op_b P) \<and> length (op_A_offsets P) - 1 = length (op_b P)"
  unfolding check_row_types_def in_order_Inr by (auto simp: list_all_iff)

lemma check_problem_representation_iff:
  "check_problem_representation P = Inr () \<longleftrightarrow>
     (op_A P \<noteq> [] \<longrightarrow> op_c P \<noteq> []) \<and> check_csr_representation P = Inr () \<and>
     length (op_constraint_lower_bounds P) = length (op_constraint_upper_bounds P) \<and>
     (op_A P \<noteq> [] \<longrightarrow> op_constraint_lower_bounds P \<noteq> [] \<or> op_row_types P \<noteq> [] \<and> op_b P \<noteq> []) \<and>
     (op_row_types P \<noteq> [] \<longrightarrow> check_row_types P = Inr ()) \<and>
     (op_variable_lower_bounds P \<noteq> [] \<longrightarrow> length (op_variable_lower_bounds P) = length (op_c P)) \<and>
     (op_variable_upper_bounds P \<noteq> [] \<longrightarrow> length (op_variable_upper_bounds P) = length (op_c P)) \<and>
     (op_constraint_lower_bounds P \<noteq> [] \<longrightarrow> length (op_A_offsets P) - 1 = length (op_constraint_lower_bounds P))"
proof -
  have ie: "op_A_indices P \<noteq> [] \<longleftrightarrow> op_A P \<noteq> []" if "check_csr_representation P = Inr ()"
    using that unfolding check_csr_representation_iff by (metis length_0_conv)
  have oe: "op_A_offsets P \<noteq> []" if "check_csr_representation P = Inr ()"
    using that unfolding check_csr_representation_iff by blast
  have le: "op_constraint_upper_bounds P \<noteq> [] \<longleftrightarrow> op_constraint_lower_bounds P \<noteq> []"
    if "length (op_constraint_lower_bounds P) = length (op_constraint_upper_bounds P)"
    using that by (metis length_0_conv)
  show ?thesis
    unfolding check_problem_representation_def Let_def in_order_Inr using ie oe le by auto
qed

subsection \<open>Problems built by the setters\<close>

text \<open>The problems that sequences of successful setter calls build.\<close>

inductive op_built :: "('f :: linordered_idom) optimization_problem \<Rightarrow> bool" where
  new: "op_built optimization_problem_new"
| csr: "op_built P \<Longrightarrow> op_set_csr_constraint_matrix v sv i si p sp P = Inr Q \<Longrightarrow> op_built Q"
| rhs_set: "op_built P \<Longrightarrow> op_set_constraint_bounds xs k P = Inr Q \<Longrightarrow> op_built Q"
| objective_set: "op_built P \<Longrightarrow> op_set_objective_coefficients xs k P = Inr Q \<Longrightarrow> op_built Q"
| variable_lower: "op_built P \<Longrightarrow> op_set_variable_lower_bounds xs k P = Inr Q \<Longrightarrow> op_built Q"
| variable_upper: "op_built P \<Longrightarrow> op_set_variable_upper_bounds xs k P = Inr Q \<Longrightarrow> op_built Q"
| constraint_lower: "op_built P \<Longrightarrow> op_set_constraint_lower_bounds xs k P = Inr Q \<Longrightarrow> op_built Q"
| constraint_upper: "op_built P \<Longrightarrow> op_set_constraint_upper_bounds xs k P = Inr Q \<Longrightarrow> op_built Q"
| row_types_set: "op_built P \<Longrightarrow> op_set_row_types ts k P = Inr Q \<Longrightarrow> op_built Q"
| variable_types_set: "op_built P \<Longrightarrow> op_set_variable_types vs k P = Inr Q \<Longrightarrow> op_built Q"
| maximize_set: "op_built P \<Longrightarrow> op_built (op_set_maximize b P)"
| scaling_set: "op_built P \<Longrightarrow> op_built (op_set_objective_scaling_factor x P)"
| offset_set: "op_built P \<Longrightarrow> op_built (op_set_objective_offset x P)"
| category_set: "op_built P \<Longrightarrow> op_built (op_set_problem_category c P)"
| objective_name_set: "op_built P \<Longrightarrow> op_built (op_set_objective_name n P)"
| problem_name_set: "op_built P \<Longrightarrow> op_built (op_set_problem_name n P)"
| variable_names_set: "op_built P \<Longrightarrow> op_built (op_set_variable_names ns P)"
| row_names_set: "op_built P \<Longrightarrow> op_built (op_set_row_names ns P)"

text \<open>Each counter is the size of one of the vectors that set it.\<close>

definition counts_ok :: "'f optimization_problem \<Rightarrow> bool" where
  "counts_ok P \<longleftrightarrow>
     op_n_vars P \<in> {length (op_c P), length (op_variable_lower_bounds P), length (op_variable_upper_bounds P)} \<and>
     op_n_constraints P \<in> {length (op_b P), length (op_row_types P), length (op_constraint_lower_bounds P),
       length (op_constraint_upper_bounds P)}"

lemma device_copy_length: "device_copy p k = Inr xs \<Longrightarrow> length xs = k"
  by (auto simp: device_copy_def split: option.splits if_splits)

lemma device_copy_then: "bind_ok (device_copy p k) (\<lambda>xs. Inr (f xs)) = Inr Q \<Longrightarrow> \<exists>ys. length ys = k \<and> Q = f ys"
  by (cases "device_copy p k") (auto dest: device_copy_length)

lemmas op_setter_defs = op_set_csr_constraint_matrix_def op_set_constraint_bounds_def op_set_objective_coefficients_def
  op_set_variable_lower_bounds_def op_set_variable_upper_bounds_def op_set_constraint_lower_bounds_def
  op_set_constraint_upper_bounds_def op_set_row_types_def op_set_variable_types_def op_set_maximize_def
  op_set_objective_scaling_factor_def op_set_objective_offset_def op_set_problem_category_def op_set_objective_name_def
  op_set_problem_name_def op_set_variable_names_def op_set_row_names_def

lemma sized_setters:
  "op_set_constraint_bounds xs k P = Inr Q \<Longrightarrow> \<exists>ys. length ys = k \<and> Q = P\<lparr>op_n_constraints := k, op_b := ys\<rparr>"
  "op_set_objective_coefficients xs k P = Inr Q \<Longrightarrow> \<exists>ys. length ys = k \<and> Q = P\<lparr>op_n_vars := k, op_c := ys\<rparr>"
  "op_set_variable_lower_bounds xs k P = Inr Q \<Longrightarrow> \<exists>ys. length ys = k \<and> Q = P\<lparr>op_n_vars := k, op_variable_lower_bounds := ys\<rparr>"
  "op_set_variable_upper_bounds xs k P = Inr Q \<Longrightarrow> \<exists>ys. length ys = k \<and> Q = P\<lparr>op_n_vars := k, op_variable_upper_bounds := ys\<rparr>"
  "op_set_constraint_lower_bounds xs k P = Inr Q \<Longrightarrow> \<exists>ys. length ys = k \<and> Q = P\<lparr>op_n_constraints := k, op_constraint_lower_bounds := ys\<rparr>"
  "op_set_constraint_upper_bounds xs k P = Inr Q \<Longrightarrow> \<exists>ys. length ys = k \<and> Q = P\<lparr>op_n_constraints := k, op_constraint_upper_bounds := ys\<rparr>"
  "op_set_row_types ts k P = Inr Q \<Longrightarrow> \<exists>ys. length ys = k \<and> Q = P\<lparr>op_n_constraints := k, op_row_types := ys\<rparr>"
  unfolding op_setter_defs cuopt_expects_Inr by (drule conjunct2, erule device_copy_then)+

lemma csr_setter: "op_set_csr_constraint_matrix v sv i si p sp P = Inr Q \<Longrightarrow>
    \<exists>A js ps. Q = P\<lparr>op_A := A, op_A_indices := js, op_A_offsets := ps\<rparr>"
  unfolding op_setter_defs cuopt_expects_Inr bind_ok_Inr sum.inject by (elim exE conjE, intro exI, erule sym)

lemma variable_types_setter: "op_set_variable_types vs k P = Inr Q \<Longrightarrow>
    \<exists>ts c. Q = P\<lparr>op_variable_types := ts\<rparr> \<or> Q = P\<lparr>op_variable_types := ts, op_problem_category := c\<rparr>"
  unfolding op_setter_defs cuopt_expects_Inr bind_ok_Inr Let_def sum.inject by (elim exE conjE) (auto split: if_splits)

lemma op_built_counts: "op_built P \<Longrightarrow> counts_ok P"
proof (induction rule: op_built.induct)
  case new
  then show ?case by (simp add: counts_ok_def optimization_problem_new_def)
next
  case (csr P v sv i si p sp Q)
  from csr_setter [OF csr.hyps(2)] csr.IH show ?case by (auto simp: counts_ok_def)
next
  case (variable_types_set P vs k Q)
  from variable_types_setter [OF variable_types_set.hyps(2)] variable_types_set.IH show ?case by (auto simp: counts_ok_def)
qed (auto simp: counts_ok_def op_set_maximize_def op_set_objective_scaling_factor_def op_set_objective_offset_def
    op_set_problem_category_def op_set_objective_name_def op_set_problem_name_def op_set_variable_names_def op_set_row_names_def
    dest!: sized_setters)

lemma accepted_sizes:
  assumes c: "counts_ok P" and ok: "check_problem_representation P = Inr ()" and A: "op_A P \<noteq> []"
  shows "op_n_vars P = length (op_c P)"
    and "op_n_constraints P = length (op_A_offsets P) - 1 \<or> op_n_constraints P = 0 \<or>
      op_row_types P = [] \<and> op_n_constraints P = length (op_b P)"
proof -
  note C = ok [unfolded check_problem_representation_iff]
  have csr: "length (op_A_indices P) = length (op_A P)" "\<forall>v\<in>set (op_A_indices P). 0 \<le> v \<and> v < int (op_n_vars P)"
    using C unfolding check_csr_representation_iff by blast+
  then obtain v vs where "op_A_indices P = v # vs" using A by (cases "op_A_indices P") auto
  then have pos: "0 < op_n_vars P" using csr(2) by fastforce
  have "length xs = 0 \<or> length xs = length (op_c P)" if "xs = op_variable_lower_bounds P \<or> xs = op_variable_upper_bounds P" for xs
    using C that by auto
  then show "op_n_vars P = length (op_c P)" using c pos unfolding counts_ok_def by (metis insertE not_less0 singletonD)
  have "length (op_constraint_lower_bounds P) \<in> {0, length (op_A_offsets P) - 1}"
    "length (op_constraint_upper_bounds P) = length (op_constraint_lower_bounds P)" using C by auto
  moreover have "op_row_types P \<noteq> [] \<Longrightarrow> length (op_row_types P) = length (op_b P) \<and> length (op_b P) = length (op_A_offsets P) - 1"
    using C unfolding check_row_types_iff by auto
  ultimately show "op_n_constraints P = length (op_A_offsets P) - 1 \<or> op_n_constraints P = 0 \<or>
      op_row_types P = [] \<and> op_n_constraints P = length (op_b P)"
    using c unfolding counts_ok_def by (cases "op_row_types P = []") auto
qed

subsection \<open>Properties of the validation\<close>

text \<open>C23. Whatever setters built a problem, in any order, an accepted problem with a nonempty matrix has as many
  variables as costs, and as many constraints as matrix rows, unless the counter of constraints was last
  written by a call with an empty vector or by a right-hand side that comes without row types.\<close>

theorem accepted_counts:
  fixes P :: "('f :: linordered_idom) optimization_problem"
  assumes "op_built P" "check_problem_representation P = Inr ()" "op_A P \<noteq> []"
  shows "op_n_vars P = length (op_c P) \<and>
    (op_n_constraints P = length (op_A_offsets P) - 1 \<or> op_n_constraints P = 0 \<or>
      op_row_types P = [] \<and> op_n_constraints P = length (op_b P))"
  using accepted_sizes [OF op_built_counts [OF assms(1)] assms(2,3)] by blast

text \<open>A problem with one row whose counter says 3: the bounds of the row are set before the right-hand side.\<close>

definition ex_op :: "rat optimization_problem" where
  "ex_op = optimization_problem_new\<lparr>op_n_vars := 1, op_n_constraints := 3, op_A := [Fin 2], op_A_indices := [0], op_A_offsets := [0, 1],
     op_b := [Fin 4, Fin 5, Fin 6], op_c := [Fin 1], op_constraint_lower_bounds := [Fin 0], op_constraint_upper_bounds := [Fin 4]\<rparr>"

lemma ex_op_built: "op_built ex_op"
proof -
  let ?P1 = "optimization_problem_new\<lparr>op_A := [Fin 2], op_A_indices := [0], op_A_offsets := [0, 1]\<rparr> :: rat optimization_problem"
  let ?P2 = "?P1\<lparr>op_n_vars := 1, op_c := [Fin 1]\<rparr>"
  let ?P3 = "?P2\<lparr>op_n_constraints := 1, op_constraint_lower_bounds := [Fin 0]\<rparr>"
  let ?P4 = "?P3\<lparr>op_n_constraints := 1, op_constraint_upper_bounds := [Fin 4]\<rparr>"
  have "op_built ?P1"
    by (rule op_built.csr [OF op_built.new, of "Some [Fin 2]" 1 "Some [0]" 1 "Some [0, 1]" 2])
      (simp add: op_set_csr_constraint_matrix_def device_copy_def)
  then have "op_built ?P2"
    by (rule op_built.objective_set [of _ "Some [Fin 1]" 1]) (simp add: op_set_objective_coefficients_def device_copy_def)
  then have "op_built ?P3"
    by (rule op_built.constraint_lower [of _ "Some [Fin 0]" 1]) (simp add: op_set_constraint_lower_bounds_def device_copy_def)
  then have "op_built ?P4"
    by (rule op_built.constraint_upper [of _ "Some [Fin 4]" 1]) (simp add: op_set_constraint_upper_bounds_def device_copy_def)
  then show ?thesis
    by (rule op_built.rhs_set [of _ "Some [Fin 4, Fin 5, Fin 6]" 3])
      (simp add: op_set_constraint_bounds_def device_copy_def ex_op_def optimization_problem_new_def)
qed

lemma ex_op_accepted: "check_problem_representation ex_op = Inr ()" "op_A ex_op \<noteq> []"
  by code_simp+

theorem accepted_counts_witness: "op_n_vars ex_op = length (op_c ex_op) \<and> op_n_constraints ex_op = 3 \<and> length (op_A_offsets ex_op) - 1 = 1"
  using accepted_counts [OF ex_op_built ex_op_accepted] by (simp add: ex_op_def optimization_problem_new_def)

text \<open>The validation never compares the last row offset with the number of nonzeros: raising it in an accepted
  problem, by any amount, gives an accepted problem, whose last row then reads past the arrays of column
  indices and values.\<close>

theorem last_offset_unchecked:
  fixes P :: "('f :: linordered_idom) optimization_problem"
  assumes "check_problem_representation P = Inr ()" "2 \<le> length (op_A_offsets P)" "last (op_A_offsets P) \<le> k"
  shows "check_problem_representation (P\<lparr>op_A_offsets := butlast (op_A_offsets P) @ [k]\<rparr>) = Inr ()"
proof -
  let ?os = "butlast (op_A_offsets P)"
  have os: "op_A_offsets P = ?os @ [last (op_A_offsets P)]" "?os \<noteq> []" 
    using assms(2) by (cases "op_A_offsets P" rule: rev_cases; auto)+
  have C: "op_A_offsets P ! 0 = 0" "sorted (op_A_offsets P)"
    using assms(1) unfolding check_problem_representation_iff check_csr_representation_iff by blast+
  have "sorted (?os @ [k])" using C(2) assms(3) by (subst (asm) os(1)) (auto simp: sorted_append)
  moreover have "(?os @ [k]) ! 0 = 0" using C(1) os(2) by (subst (asm) os(1)) (simp only: nth_append length_greater_0_conv simp_thms if_True)
  moreover have "length (?os @ [k]) = length (op_A_offsets P)" using assms(2) by simp
  ultimately show ?thesis
    using assms(1) unfolding check_problem_representation_iff check_csr_representation_iff check_row_types_iff by simp
qed

theorem last_offset_unchecked_witness:
  "check_problem_representation (ex_op\<lparr>op_A_offsets := [0, 1000]\<rparr>) = Inr () \<and> length (op_A ex_op) = 1"
  using last_offset_unchecked [OF ex_op_accepted(1), of 1000] by (simp add: ex_op_def optimization_problem_new_def)

end
