(* ===== verification/Host_Problem.thy ===== *)
theory Host_Problem
  imports Problem_Check
begin

text \<open>
  The internal problem that the LP and MIP solvers work on (\<open>problem_t\<close> of \<open>mip/problem\<close>): its host state, the
  constructor from a validated problem with the defaults and the checks of the bounds (\<open>problem_helpers.cuh\<close>), the tables
  of integer and binary variables and the objective that is reported to the user. Device vectors are lists and the
  parallel primitives the list functions they compute; reading or writing past the end of a vector is \<open>Op_Undefined\<close>.
  The transpose of the matrix and the other fields for the GPU heuristics are not part of the model. Assertions are off in
  the constructor, as in a release build; those on the data of the model are the predicates \<open>empty_matrix_asserted\<close> and
  \<open>representation_asserted\<close>, about a build with assertions.
\<close>

subsection \<open>State\<close>

record 'f problem_t =
  pb_n_variables :: nat
  pb_n_constraints :: nat
  pb_n_binary_vars :: nat
  pb_n_integer_vars :: nat
  pb_nnz :: nat
  pb_is_binary_pb :: bool
  pb_empty :: bool
  pb_maximize :: bool
  pb_objective_offset :: "'f ext"
  pb_objective_scaling_factor :: "'f ext"
  pb_integrality_tolerance :: "'f ext"
  pb_coefficients :: "'f ext list"
  pb_variables :: "int list"
  pb_offsets :: "int list"
  pb_objective_coefficients :: "'f ext list"
  pb_variable_lower_bounds :: "'f ext list"
  pb_variable_upper_bounds :: "'f ext list"
  pb_constraint_lower_bounds :: "'f ext list"
  pb_constraint_upper_bounds :: "'f ext list"
  pb_combined_bounds :: "'f ext list"
  pb_variable_types :: "var_t list"
  pb_integer_indices :: "nat list"
  pb_binary_indices :: "nat list"
  pb_nonbinary_indices :: "nat list"
  pb_is_binary_variable :: "bool list"
  pb_var_names :: "string list"
  pb_row_names :: "string list"
  pb_objective_name :: string

text \<open>The members before the body of the constructor.\<close>

definition problem_of :: "('f :: linordered_field) optimization_problem \<Rightarrow> 'f problem_t" where
  "problem_of P =
     \<lparr>pb_n_variables = op_n_vars P, pb_n_constraints = op_n_constraints P, pb_n_binary_vars = 0, pb_n_integer_vars = 0,
      pb_nnz = op_get_nnz P, pb_is_binary_pb = False, pb_empty = False, pb_maximize = op_maximize P,
      pb_objective_offset = op_objective_offset P, pb_objective_scaling_factor = op_objective_scaling_factor P,
      pb_integrality_tolerance = Fin (1 / 100000),
      pb_coefficients = op_A P, pb_variables = op_A_indices P, pb_offsets = op_A_offsets P,
      pb_objective_coefficients = op_c P,
      pb_variable_lower_bounds = op_variable_lower_bounds P, pb_variable_upper_bounds = op_variable_upper_bounds P,
      pb_constraint_lower_bounds = op_constraint_lower_bounds P, pb_constraint_upper_bounds = op_constraint_upper_bounds P,
      pb_combined_bounds = replicate (op_n_constraints P) 0, pb_variable_types = [], pb_integer_indices = [],
      pb_binary_indices = [], pb_nonbinary_indices = [], pb_is_binary_variable = [],
      pb_var_names = op_var_names P, pb_row_names = op_row_names P, pb_objective_name = op_objective_name P\<rparr>"

subsection \<open>Bounds\<close>

definition transform_bounds :: "char \<Rightarrow> 'f ext \<Rightarrow> 'f ext \<times> 'f ext" where
  "transform_bounds row_type b_value =
     (if row_type = CHR ''E'' then (b_value, b_value)
      else if row_type = CHR ''G'' then (b_value, PInf)
      else if row_type = CHR ''L'' then (MInf, b_value)
      else (MInf, MInf))"

definition bounds_of_row_types :: "'f optimization_problem \<Rightarrow> 'f problem_t \<Rightarrow> op_error + 'f problem_t" where
  "bounds_of_row_types P Q =
     (if pb_constraint_lower_bounds Q = [] \<and> pb_constraint_upper_bounds Q = [] \<and> op_row_types P \<noteq> [] \<and> op_b P \<noteq> []
      then if length (op_row_types P) \<le> length (op_b P)
           then let lu = map2 transform_bounds (op_row_types P) (op_b P)
                in Inr (Q\<lparr>pb_constraint_lower_bounds := map fst lu, pb_constraint_upper_bounds := map snd lu\<rparr>)
           else Inl Op_Undefined
      else Inr Q)"

definition default_if_empty :: "'a \<Rightarrow> 'b list \<Rightarrow> 'a list \<Rightarrow> 'a list" where
  "default_if_empty d cs xs = (if xs = [] \<and> cs \<noteq> [] then replicate (length cs) d else xs)"

definition set_bounds_if_not_set :: "'f optimization_problem \<Rightarrow> ('f :: linordered_idom) problem_t \<Rightarrow> op_error + 'f problem_t" where
  "set_bounds_if_not_set P Q = bind_ok (bounds_of_row_types P Q) (\<lambda>Q.
     let cs = pb_objective_coefficients Q in
     Inr (Q\<lparr>pb_variable_lower_bounds := default_if_empty 0 cs (pb_variable_lower_bounds Q),
            pb_variable_upper_bounds := default_if_empty PInf cs (pb_variable_upper_bounds Q),
            pb_variable_types := default_if_empty Continuous_Var cs (pb_variable_types Q)\<rparr>))"

definition crossing_bounds :: "('f :: linorder) ext list \<Rightarrow> 'f ext list \<Rightarrow> bool" where
  "crossing_bounds ls us = list_ex (\<lambda>i. us ! i < ls ! i) [0..<length ls]"

definition check_no_crossing :: "('f :: linorder) ext list \<Rightarrow> 'f ext list \<Rightarrow> op_check \<Rightarrow> op_error + unit" where
  "check_no_crossing ls us e =
     (if length ls \<le> length us then require (\<not> crossing_bounds ls us) e else Inl Op_Undefined)"

definition check_var_bounds_sanity :: "('f :: linorder) problem_t \<Rightarrow> op_error + unit" where
  "check_var_bounds_sanity Q =
     check_no_crossing (pb_variable_lower_bounds Q) (pb_variable_upper_bounds Q) Crossing_Variable_Bounds"

definition check_constraint_bounds_sanity :: "('f :: linorder) problem_t \<Rightarrow> op_error + unit" where
  "check_constraint_bounds_sanity Q =
     check_no_crossing (pb_constraint_lower_bounds Q) (pb_constraint_upper_bounds Q) Crossing_Constraint_Bounds"

definition check_bounds_sanity :: "('f :: linorder) problem_t \<Rightarrow> op_error + unit" where
  "check_bounds_sanity Q = in_order [check_var_bounds_sanity Q, check_constraint_bounds_sanity Q]"

definition convert_to_maximization_problem :: "('f :: linordered_idom) problem_t \<Rightarrow> 'f problem_t" where
  "convert_to_maximization_problem Q =
     Q\<lparr>pb_objective_coefficients := map uminus (pb_objective_coefficients Q),
       pb_objective_scaling_factor := - pb_objective_scaling_factor Q\<rparr>"

definition combine_finite_abs_bounds :: "('f :: linordered_idom) ext \<Rightarrow> 'f ext \<Rightarrow> 'f ext" where
  "combine_finite_abs_bounds l u =
     (let val = 0;
          val = (if is_fin u then ext_max val \<bar>u\<bar> else val)
      in if is_fin l then ext_max val \<bar>l\<bar> else val)"

definition combine_constraint_bounds :: "('f :: linordered_idom) problem_t \<Rightarrow> op_error + 'f problem_t" where
  "combine_constraint_bounds Q =
     (let m = pb_n_constraints Q; ls = pb_constraint_lower_bounds Q; us = pb_constraint_upper_bounds Q in
      if m \<le> length ls \<and> m \<le> length us
      then Inr (Q\<lparr>pb_combined_bounds := map2 combine_finite_abs_bounds (take m ls) (take m us)\<rparr>)
      else Inl Op_Undefined)"

subsection \<open>Tables of integer and binary variables\<close>

definition compute_n_integer_vars :: "'f problem_t \<Rightarrow> op_error + 'f problem_t" where
  "compute_n_integer_vars Q =
     (let found = filter (\<lambda>i. pb_variable_types Q ! i = Integer_Var) [0..<length (pb_variable_types Q)] in
      if length found \<le> pb_n_variables Q
      then Inr (Q\<lparr>pb_integer_indices := found, pb_n_integer_vars := length found\<rparr>)
      else Inl Op_Undefined)"

definition integer_equal :: "('f :: linordered_idom) problem_t \<Rightarrow> 'f ext \<Rightarrow> 'f ext \<Rightarrow> bool" where
  "integer_equal Q a b \<longleftrightarrow> \<bar>a - b\<bar> \<le> pb_integrality_tolerance Q"

definition binary_variable :: "('f :: linordered_idom) problem_t \<Rightarrow> nat \<Rightarrow> bool" where
  "binary_variable Q i \<longleftrightarrow> pb_variable_types Q ! i \<noteq> Continuous_Var \<and>
     integer_equal Q (pb_variable_lower_bounds Q ! i) 0 \<and> integer_equal Q (pb_variable_upper_bounds Q ! i) 1"

definition compute_binary_var_table :: "('f :: linordered_idom) problem_t \<Rightarrow> op_error + 'f problem_t" where
  "compute_binary_var_table Q =
     (let n = pb_n_variables Q; flags = map (binary_variable Q) [0..<n] in
      if n \<le> length (pb_variable_types Q) \<and> n \<le> length (pb_variable_lower_bounds Q) \<and> n \<le> length (pb_variable_upper_bounds Q)
      then Inr (Q\<lparr>pb_is_binary_variable := flags, pb_n_binary_vars := count_list flags True,
             pb_binary_indices := filter (\<lambda>i. flags ! i) [0..<n],
             pb_nonbinary_indices := filter (\<lambda>i. \<not> flags ! i) [0..<n],
             pb_is_binary_pb := (n = count_list flags True)\<rparr>)
      else Inl Op_Undefined)"

subsection \<open>The constructor\<close>

definition problem_new :: "('f :: linordered_field) optimization_problem \<Rightarrow> op_error + 'f problem_t" where
  "problem_new P =
     (let Q = problem_of P; Q = (if op_A P = [] then Q\<lparr>pb_empty := True\<rparr> else Q) in
      bind_ok (set_bounds_if_not_set P Q) (\<lambda>Q.
      bind_ok (check_bounds_sanity Q) (\<lambda>_.
      let Q = (if pb_maximize Q then convert_to_maximization_problem Q else Q) in
      bind_ok (if op_problem_category P \<noteq> LP
               then bind_ok (compute_n_integer_vars (Q\<lparr>pb_variable_types := op_variable_types P\<rparr>)) compute_binary_var_table
               else Inr Q) combine_constraint_bounds)))"

text \<open>What a build with assertions checks of a problem without matrix entries, before anything else.\<close>

definition empty_matrix_asserted :: "'f optimization_problem \<Rightarrow> bool" where
  "empty_matrix_asserted P \<longleftrightarrow> (op_A P = [] \<longrightarrow> op_A_indices P = [] \<and> length (op_A_offsets P) = 1 \<and> op_c P = [] \<and>
     op_variable_lower_bounds P = [] \<and> op_variable_upper_bounds P = [] \<and>
     op_constraint_lower_bounds P = [] \<and> op_constraint_upper_bounds P = [])"

text \<open>The assertions of \<open>check_csr_representation\<close> and of \<open>check_problem_representation\<close> on the problem itself.\<close>

definition csr_asserted :: "'f problem_t \<Rightarrow> bool" where
  "csr_asserted Q \<longleftrightarrow> length (pb_variables Q) = length (pb_coefficients Q) \<and> hd (pb_offsets Q) = 0 \<and> sorted (pb_offsets Q) \<and>
     (\<forall>v\<in>set (pb_variables Q). 0 \<le> v \<and> v < int (pb_n_variables Q)) \<and> length (pb_offsets Q) = pb_n_constraints Q + 1"

definition representation_asserted :: "('f :: linorder) problem_t \<Rightarrow> bool" where
  "representation_asserted Q \<longleftrightarrow> pb_offsets Q \<noteq> [] \<and>
     (\<not> pb_empty Q \<longrightarrow> pb_coefficients Q \<noteq> [] \<and> pb_variables Q \<noteq> [] \<and> pb_objective_coefficients Q \<noteq> []) \<and> csr_asserted Q \<and>
     (\<not> pb_empty Q \<longrightarrow> pb_variable_lower_bounds Q \<noteq> [] \<and> pb_variable_upper_bounds Q \<noteq> []) \<and>
     length (pb_variable_lower_bounds Q) = length (pb_objective_coefficients Q) \<and>
     length (pb_variable_upper_bounds Q) = length (pb_objective_coefficients Q) \<and>
     length (pb_variable_upper_bounds Q) = pb_n_variables Q \<and> length (pb_variable_types Q) = pb_n_variables Q \<and>
     (\<not> pb_empty Q \<longrightarrow> pb_constraint_lower_bounds Q \<noteq> [] \<and> pb_constraint_upper_bounds Q \<noteq> []) \<and>
     length (pb_constraint_lower_bounds Q) = length (pb_constraint_upper_bounds Q) \<and>
     length (pb_constraint_lower_bounds Q) = pb_n_constraints Q \<and>
     length (pb_offsets Q) - 1 = length (pb_constraint_lower_bounds Q) \<and> length (pb_combined_bounds Q) = pb_n_constraints Q \<and>
     (\<forall>j<pb_n_variables Q. pb_variable_lower_bounds Q ! j \<le> pb_variable_upper_bounds Q ! j) \<and>
     (\<forall>i<pb_n_constraints Q. pb_constraint_lower_bounds Q ! i \<le> pb_constraint_upper_bounds Q ! i)"

definition get_user_obj_from_solver_obj :: "('f :: linordered_idom) problem_t \<Rightarrow> 'f ext \<Rightarrow> 'f ext" where
  "get_user_obj_from_solver_obj Q solver_obj = solver_obj * pb_objective_scaling_factor Q + pb_objective_offset Q"

end
