(* ===== verification/Host_Properties.thy ===== *)
theory Host_Properties
  imports Host_Problem Mps_Properties Lp_Crush
begin

text \<open>
  From an accepted file to the internal problem: validation and construction never fail on it, the internal problem is
  well-formed, and the objective reported to the user is compared with the documented one.
\<close>

subsection \<open>The problem of a parsed model\<close>

lemma row_interval_le: "row_interval t b r = Inr (l, u) \<Longrightarrow> l \<le> u" for b :: "('f :: linordered_field) ext"
  by (cases t; cases r; cases b; cases "the r")
    (auto simp: row_interval_def bind_ok_Inr minus_ext_def less_eq_ext_def zero_ext_def split: prod.splits if_splits)

definition op_of_model :: "('f :: linordered_idom) mps_data_model \<Rightarrow> 'f optimization_problem" where
  "op_of_model M =
     \<lparr>op_maximize = dm_maximize M, op_n_vars = dm_n_vars M, op_n_constraints = dm_n_constraints M, op_A = dm_A M,
      op_A_indices = map int (dm_A_indices M), op_A_offsets = map int (dm_A_offsets M), op_b = dm_b M, op_c = dm_c M,
      op_objective_scaling_factor = dm_objective_scaling_factor M, op_objective_offset = dm_objective_offset M,
      op_variable_lower_bounds = dm_variable_lower_bounds M, op_variable_upper_bounds = dm_variable_upper_bounds M,
      op_constraint_lower_bounds = dm_constraint_lower_bounds M, op_constraint_upper_bounds = dm_constraint_upper_bounds M,
      op_row_types = [], op_variable_types = map var_type_of (dm_var_types M), op_objective_name = dm_objective_name M,
      op_problem_name = dm_problem_name M, op_problem_category = category_of (map var_type_of (dm_var_types M)),
      op_var_names = dm_var_names M, op_row_names = dm_row_names M\<rparr>"

text \<open>A model as the reader leaves it: well-formed, without row types, and with nonempty row intervals.\<close>

definition parsed_model :: "('f :: linordered_idom) mps_data_model \<Rightarrow> bool" where
  "parsed_model M \<longleftrightarrow> model_wf M \<and> dm_row_types M = [] \<and>
     (\<forall>i<dm_n_constraints M. dm_constraint_lower_bounds M ! i \<le> dm_constraint_upper_bounds M ! i)"

lemma parse_mps_parsed_model:
  fixes M :: "('f :: linordered_field) mps_data_model"
  assumes "parse_mps uninit buf fixed_format = Inr M"
  shows "parsed_model M"
proof -
  from parse_mps_result [OF assms] obtain st where R: "M = model_of st (dm_constraint_lower_bounds M) (dm_constraint_upper_bounds M) (mps_data_model_new uninit)"
    "length (dm_constraint_lower_bounds M) = length (row_types st)"
    "\<forall>i<length (row_types st). row_of st i = Inr (dm_constraint_lower_bounds M ! i, dm_constraint_upper_bounds M ! i)"
    unfolding read_result_def by blast
  have "model_wf M" by (rule read_result_wf [OF parse_mps_result [OF assms]])
  moreover have "dm_row_types M = []" by (subst R(1)) (simp add: model_of_def mps_data_model_new_def)
  moreover have "dm_constraint_lower_bounds M ! i \<le> dm_constraint_upper_bounds M ! i" if "i < length (row_types st)" for i
    using R(3) that row_interval_le by (auto simp: row_of_def split: if_splits) blast+
  ultimately show ?thesis using R(2) by (simp add: parsed_model_def model_wf_def)
qed

lemma category_of_Nil [simp]: "category_of [] = LP"
  by (simp add: category_of_def)

lemma set_names_all:
  "(let P = (if length a \<noteq> 0 then op_set_objective_name a P else P);
        P = (if length b \<noteq> 0 then op_set_problem_name b P else P);
        P = (if length c \<noteq> 0 then op_set_variable_names c P else P);
        P = (if length d \<noteq> 0 then op_set_row_names d P else P)
    in Inr P) =
    Inr (P\<lparr>op_objective_name := if a = [] then op_objective_name P else a, op_problem_name := if b = [] then op_problem_name P else b,
      op_var_names := if c = [] then op_var_names P else c, op_row_names := if d = [] then op_row_names P else d\<rparr>)"
  unfolding Let_def sum.inject
  by (rule optimization_problem.equality)
    (simp_all add: op_set_objective_name_def op_set_problem_name_def op_set_variable_names_def op_set_row_names_def)

lemma op_of_parsed_model:
  assumes "parsed_model M"
  shows "mps_data_model_to_optimization_problem M = Inr (op_of_model M)"
proof -
  note wf = assms [unfolded parsed_model_def model_wf_def]
  have ne: "dm_A_offsets M \<noteq> []" using wf by (cases "dm_A_offsets M") auto
  have ie: "dm_A_indices M = [] \<longleftrightarrow> dm_A M = []" "length (dm_A_indices M) = length (dm_A M)" using wf by (metis length_0_conv)+
  have L: "length (dm_b M) = dm_n_constraints M" "length (dm_constraint_lower_bounds M) = dm_n_constraints M"
    "length (dm_constraint_upper_bounds M) = dm_n_constraints M" "length (dm_c M) = dm_n_vars M"
    "length (dm_variable_lower_bounds M) = dm_n_vars M" "length (dm_variable_upper_bounds M) = dm_n_vars M"
    "length (dm_var_types M) = dm_n_vars M" "dm_row_types M = []"
    using wf by blast+
  have e: "dm_b M = [] \<longleftrightarrow> dm_n_constraints M = 0" "dm_constraint_lower_bounds M = [] \<longleftrightarrow> dm_n_constraints M = 0"
    "dm_constraint_upper_bounds M = [] \<longleftrightarrow> dm_n_constraints M = 0" "dm_c M = [] \<longleftrightarrow> dm_n_vars M = 0"
    "dm_variable_lower_bounds M = [] \<longleftrightarrow> dm_n_vars M = 0" "dm_variable_upper_bounds M = [] \<longleftrightarrow> dm_n_vars M = 0"
    "dm_var_types M = [] \<longleftrightarrow> dm_n_vars M = 0"
    using L by (metis length_0_conv)+
  have csr: "op_set_csr_constraint_matrix (vector_data (dm_A M)) (length (dm_A M)) (vector_data (map int (dm_A_indices M)))
      (length (dm_A_indices M)) (vector_data (map int (dm_A_offsets M))) (length (dm_A_offsets M)) P
    = Inr (P\<lparr>op_A := dm_A M, op_A_indices := map int (dm_A_indices M), op_A_offsets := map int (dm_A_offsets M)\<rparr>)" for P
    using ie ne by (cases "dm_A M = []") (simp_all add: op_set_csr_constraint_matrix_def vector_data_def device_copy_def)
  have nil: "dm_n_constraints M = 0 \<Longrightarrow> dm_b M = [] \<and> dm_constraint_lower_bounds M = [] \<and> dm_constraint_upper_bounds M = []"
    "dm_n_vars M = 0 \<Longrightarrow> dm_c M = [] \<and> dm_variable_lower_bounds M = [] \<and> dm_variable_upper_bounds M = [] \<and> dm_var_types M = []"
    using e by blast+
  note steps = csr set_unless_empty_all set_variable_types_all
    op_set_maximize_def op_set_objective_offset_def op_set_objective_scaling_factor_def optimization_problem_new_def op_of_model_def
  show ?thesis
  proof (cases "dm_n_constraints M = 0")
    case True
    then show ?thesis
      unfolding mps_data_model_to_optimization_problem_def set_names_all
      by (cases "dm_n_vars M = 0"; cases "category_of (map var_type_of (dm_var_types M)) = LP") (simp_all add: Let_def steps e L nil)
  next
    case False
    then show ?thesis
      unfolding mps_data_model_to_optimization_problem_def set_names_all
      by (cases "dm_n_vars M = 0"; cases "category_of (map var_type_of (dm_var_types M)) = LP") (simp_all add: Let_def steps e L nil)
  qed
qed

lemma parsed_model_entries:
  assumes "parsed_model M" and A: "dm_A M \<noteq> []"
  shows "dm_n_constraints M \<noteq> 0 \<and> dm_n_vars M \<noteq> 0"
proof
  note wf = assms(1) [unfolded parsed_model_def model_wf_def]
  have "last (dm_A_offsets M) \<noteq> 0" using wf A by simp
  then show "dm_n_constraints M \<noteq> 0" using wf by (cases "dm_A_offsets M") (auto split: if_splits simp flip: length_greater_0_conv)
  have "dm_A_indices M \<noteq> []" using wf A by (metis length_0_conv)
  then show "dm_n_vars M \<noteq> 0" using wf by (cases "dm_A_indices M") auto
qed

lemma parsed_model_accepted:
  assumes "parsed_model M"
  shows "check_problem_representation (op_of_model M) = Inr ()"
proof -
  note wf = assms [unfolded parsed_model_def model_wf_def]
  have ne: "dm_A_offsets M \<noteq> []" using wf by (cases "dm_A_offsets M") auto
  note nz = parsed_model_entries [OF assms]
  then have "dm_A M \<noteq> [] \<longrightarrow> dm_c M \<noteq> [] \<and> dm_constraint_lower_bounds M \<noteq> []" using wf by (metis length_0_conv)
  moreover have "sorted (map int (dm_A_offsets M))" using wf by (simp add: sorted_map)
  ultimately show ?thesis
    unfolding check_problem_representation_iff check_csr_representation_iff
    using wf ne by (auto simp: op_of_model_def)
qed

subsection \<open>The internal problem\<close>

definition problem_wf :: "('f :: linordered_idom) problem_t \<Rightarrow> bool" where
  "problem_wf Q \<longleftrightarrow> (let n = pb_n_variables Q; m = pb_n_constraints Q in
     length (pb_offsets Q) = m + 1 \<and> pb_offsets Q ! 0 = 0 \<and> sorted (pb_offsets Q) \<and> last (pb_offsets Q) = int (pb_nnz Q) \<and>
     length (pb_coefficients Q) = pb_nnz Q \<and> length (pb_variables Q) = pb_nnz Q \<and>
     (\<forall>v\<in>set (pb_variables Q). 0 \<le> v \<and> v < int n) \<and>
     length (pb_objective_coefficients Q) = n \<and> length (pb_variable_lower_bounds Q) = n \<and> length (pb_variable_upper_bounds Q) = n \<and>
     length (pb_constraint_lower_bounds Q) = m \<and> length (pb_constraint_upper_bounds Q) = m \<and> length (pb_combined_bounds Q) = m \<and>
     (\<forall>j<n. pb_variable_lower_bounds Q ! j \<le> pb_variable_upper_bounds Q ! j) \<and>
     (\<forall>i<m. pb_constraint_lower_bounds Q ! i \<le> pb_constraint_upper_bounds Q ! i) \<and>
     length (pb_variable_types Q) = n \<and>
     pb_integer_indices Q = filter (\<lambda>j. pb_variable_types Q ! j = Integer_Var) [0..<n] \<and>
     pb_n_integer_vars Q = length (pb_integer_indices Q) \<and>
     pb_binary_indices Q = filter (binary_variable Q) [0..<n] \<and> pb_n_binary_vars Q = length (pb_binary_indices Q))"

text \<open>The internal problem stores the model; a maximisation has its costs and its scaling factor negated.\<close>

definition represents :: "('f :: linordered_idom) mps_data_model \<Rightarrow> 'f problem_t \<Rightarrow> bool" where
  "represents M Q \<longleftrightarrow> pb_n_variables Q = dm_n_vars M \<and> pb_n_constraints Q = dm_n_constraints M \<and> pb_nnz Q = length (dm_A M) \<and>
     pb_coefficients Q = dm_A M \<and> pb_variables Q = map int (dm_A_indices M) \<and> pb_offsets Q = map int (dm_A_offsets M) \<and>
     pb_variable_lower_bounds Q = dm_variable_lower_bounds M \<and> pb_variable_upper_bounds Q = dm_variable_upper_bounds M \<and>
     pb_constraint_lower_bounds Q = dm_constraint_lower_bounds M \<and> pb_constraint_upper_bounds Q = dm_constraint_upper_bounds M \<and>
     pb_objective_coefficients Q = (if dm_maximize M then map uminus (dm_c M) else dm_c M) \<and>
     pb_objective_scaling_factor Q = (if dm_maximize M then - dm_objective_scaling_factor M else dm_objective_scaling_factor M) \<and>
     pb_objective_offset Q = dm_objective_offset M \<and> pb_variable_types Q = map var_type_of (dm_var_types M)"

text \<open>The state of the constructor before the tables are computed.\<close>

definition bounded_problem :: "('f :: linordered_field) mps_data_model \<Rightarrow> 'f problem_t" where
  "bounded_problem M =
     (let Q = problem_of (op_of_model M); Q = (if dm_A M = [] then Q\<lparr>pb_empty := True\<rparr> else Q);
          Q = Q\<lparr>pb_variable_types := replicate (dm_n_vars M) Continuous_Var\<rparr>
      in if dm_maximize M then convert_to_maximization_problem Q else Q)"

lemma check_no_crossing_ok:
  assumes "length ls = length us" "\<forall>i<length ls. ls ! i \<le> us ! i"
  shows "check_no_crossing ls us e = Inr ()"
proof -
  have "\<not> us ! i < ls ! i" if "i < length ls" for i
    using assms(2) that by (cases "us ! i"; cases "ls ! i") (auto dest!: spec [of _ i] simp: less_eq_ext_def)
  then show ?thesis using assms(1) by (simp add: check_no_crossing_def crossing_bounds_def list_ex_iff)
qed

lemma problem_new_parsed:
  assumes "parsed_model M"
  shows "problem_new (op_of_model M) =
    bind_ok (if category_of (map var_type_of (dm_var_types M)) \<noteq> LP
             then bind_ok (compute_n_integer_vars ((bounded_problem M)\<lparr>pb_variable_types := map var_type_of (dm_var_types M)\<rparr>)) compute_binary_var_table
             else Inr (bounded_problem M)) combine_constraint_bounds"
proof -
  note wf = assms [unfolded parsed_model_def model_wf_def]
  define Q where "Q = (if dm_A M = [] then (problem_of (op_of_model M))\<lparr>pb_empty := True\<rparr> else problem_of (op_of_model M))"
  define Q' where "Q' = Q\<lparr>pb_variable_types := replicate (dm_n_vars M) Continuous_Var\<rparr>"
  have Q: "pb_variable_lower_bounds Q = dm_variable_lower_bounds M" "pb_variable_upper_bounds Q = dm_variable_upper_bounds M"
    "pb_constraint_lower_bounds Q = dm_constraint_lower_bounds M" "pb_constraint_upper_bounds Q = dm_constraint_upper_bounds M"
    "pb_objective_coefficients Q = dm_c M" "pb_variable_types Q = []" "pb_maximize Q = dm_maximize M"
    by (simp_all add: Q_def problem_of_def op_of_model_def)
  have d: "default_if_empty x (dm_c M) ys = ys" if "length ys = dm_n_vars M" for x and ys :: "'z list"
    using that wf by (auto simp: default_if_empty_def)
  have t: "default_if_empty Continuous_Var (dm_c M) [] = replicate (dm_n_vars M) Continuous_Var"
    using wf by (auto simp: default_if_empty_def)
  have "set_bounds_if_not_set (op_of_model M) Q = Inr Q'"
  proof -
    have "bounds_of_row_types (op_of_model M) Q = Inr Q" by (simp add: bounds_of_row_types_def op_of_model_def)
    moreover have "default_if_empty 0 (dm_c M) (dm_variable_lower_bounds M) = dm_variable_lower_bounds M"
      "default_if_empty PInf (dm_c M) (dm_variable_upper_bounds M) = dm_variable_upper_bounds M" using d wf by metis+
    ultimately show ?thesis
      unfolding set_bounds_if_not_set_def Let_def Q'_def by (simp add: Q t)
  qed
  moreover have "check_bounds_sanity Q' = Inr ()"
    using wf by (simp add: check_bounds_sanity_def check_var_bounds_sanity_def check_constraint_bounds_sanity_def Q'_def Q check_no_crossing_ok)
  moreover have "pb_maximize Q' = dm_maximize M" by (simp add: Q'_def Q)
  moreover have "op_problem_category (op_of_model M) = category_of (map var_type_of (dm_var_types M))"
    "op_variable_types (op_of_model M) = map var_type_of (dm_var_types M)" "op_A (op_of_model M) = dm_A M"
    by (simp_all add: op_of_model_def)
  ultimately show ?thesis
    unfolding problem_new_def Let_def bounded_problem_def Q_def [symmetric] by (simp add: Q_def [symmetric] Q'_def [symmetric])
qed

lemma bounded_problem_sel:
  "pb_n_variables (bounded_problem M) = dm_n_vars M" "pb_n_constraints (bounded_problem M) = dm_n_constraints M"
  "pb_nnz (bounded_problem M) = length (dm_A M)" "pb_coefficients (bounded_problem M) = dm_A M"
  "pb_variables (bounded_problem M) = map int (dm_A_indices M)" "pb_offsets (bounded_problem M) = map int (dm_A_offsets M)"
  "pb_variable_lower_bounds (bounded_problem M) = dm_variable_lower_bounds M"
  "pb_variable_upper_bounds (bounded_problem M) = dm_variable_upper_bounds M"
  "pb_constraint_lower_bounds (bounded_problem M) = dm_constraint_lower_bounds M"
  "pb_constraint_upper_bounds (bounded_problem M) = dm_constraint_upper_bounds M"
  "pb_objective_coefficients (bounded_problem M) = (if dm_maximize M then map uminus (dm_c M) else dm_c M)"
  "pb_objective_scaling_factor (bounded_problem M) =
     (if dm_maximize M then - dm_objective_scaling_factor M else dm_objective_scaling_factor M)"
  "pb_objective_offset (bounded_problem M) = dm_objective_offset M"
  "pb_variable_types (bounded_problem M) = replicate (dm_n_vars M) Continuous_Var"
  "pb_integer_indices (bounded_problem M) = []" "pb_n_integer_vars (bounded_problem M) = 0"
  "pb_binary_indices (bounded_problem M) = []" "pb_n_binary_vars (bounded_problem M) = 0" "pb_empty (bounded_problem M) = (dm_A M = [])"
  by (simp_all add: bounded_problem_def problem_of_def op_of_model_def convert_to_maximization_problem_def op_get_nnz_def Let_def)

lemma binary_variable_cong:
  assumes "pb_variable_types Q = pb_variable_types Q'" "pb_variable_lower_bounds Q = pb_variable_lower_bounds Q'"
    "pb_variable_upper_bounds Q = pb_variable_upper_bounds Q'" "pb_integrality_tolerance Q = pb_integrality_tolerance Q'"
  shows "binary_variable Q = binary_variable Q'"
  using assms by (simp add: fun_eq_iff binary_variable_def integer_equal_def)

lemma count_flags: "count_list (map f [0..<n]) True = length (filter f [0..<n])"
  by (induction n) simp_all

lemma filter_flags: "filter (\<lambda>i. map f [0..<n] ! i) [0..<n] = filter f [0..<n]"
  by (rule filter_cong) simp_all

text \<open>The tables of a problem with integer variables.\<close>

lemma tables:
  assumes L: "length (pb_variable_types Q) = pb_n_variables Q" "length (pb_variable_lower_bounds Q) = pb_n_variables Q"
    "length (pb_variable_upper_bounds Q) = pb_n_variables Q"
  shows "\<exists>flags pb nb. bind_ok (compute_n_integer_vars Q) compute_binary_var_table = Inr (Q\<lparr>
     pb_integer_indices := filter (\<lambda>j. pb_variable_types Q ! j = Integer_Var) [0..<pb_n_variables Q],
     pb_n_integer_vars := length (filter (\<lambda>j. pb_variable_types Q ! j = Integer_Var) [0..<pb_n_variables Q]),
     pb_is_binary_variable := flags, pb_n_binary_vars := length (filter (binary_variable Q) [0..<pb_n_variables Q]),
     pb_binary_indices := filter (binary_variable Q) [0..<pb_n_variables Q], pb_nonbinary_indices := nb, pb_is_binary_pb := pb\<rparr>)"
proof -
  let ?is = "filter (\<lambda>j. pb_variable_types Q ! j = Integer_Var) [0..<pb_n_variables Q]"
  let ?Q = "Q\<lparr>pb_integer_indices := ?is, pb_n_integer_vars := length ?is\<rparr>"
  have "length ?is \<le> pb_n_variables Q" using length_filter_le [of _ "[0..<pb_n_variables Q]"] by simp
  then have 1: "compute_n_integer_vars Q = Inr ?Q" using L by (simp add: compute_n_integer_vars_def Let_def)
  have "binary_variable ?Q = binary_variable Q" by (rule binary_variable_cong) simp_all
  then show ?thesis
    unfolding 1 bind_ok_simps compute_binary_var_table_def Let_def using L by (auto simp: count_flags filter_flags)
qed

lemma LP_types:
  assumes "category_of ts = LP"
  shows "ts = replicate (length ts) Continuous_Var"
proof -
  have "t = Continuous_Var" if "t \<in> set ts" for t
    using assms that unfolding category_of_LP by (cases t) auto
  then show ?thesis by (metis replicate_length_same)
qed

lemma parsed_model_problem:
  assumes M: "parsed_model M"
  shows "\<exists>Q. problem_new (op_of_model M) = Inr Q \<and> problem_wf Q \<and> represents M Q \<and> pb_empty Q = (dm_A M = [])"
proof -
  let ?B = "bounded_problem M" and ?ts = "map var_type_of (dm_var_types M)" and ?n = "dm_n_vars M" and ?m = "dm_n_constraints M"
  note wf = M [unfolded parsed_model_def model_wf_def]
  have L: "length ?ts = ?n" "length (dm_variable_lower_bounds M) = ?n" "length (dm_variable_upper_bounds M) = ?n"
    "length (dm_constraint_lower_bounds M) = ?m" "length (dm_constraint_upper_bounds M) = ?m" "length (dm_c M) = ?n"
    using wf by simp_all
  have comb: "combine_constraint_bounds R = Inr (R\<lparr>pb_combined_bounds := map2 combine_finite_abs_bounds (pb_constraint_lower_bounds R)
      (pb_constraint_upper_bounds R)\<rparr>)"
    if "pb_n_constraints R = ?m" "pb_constraint_lower_bounds R = dm_constraint_lower_bounds M"
      "pb_constraint_upper_bounds R = dm_constraint_upper_bounds M" for R :: "'a problem_t"
    using that L by (simp add: combine_constraint_bounds_def)
  have off: "length (dm_A_offsets M) = ?m + 1" "map int (dm_A_offsets M) ! 0 = 0" "sorted (map int (dm_A_offsets M))"
    "last (map int (dm_A_offsets M)) = int (length (dm_A M))" "length (dm_A_indices M) = length (dm_A M)"
    "\<forall>v\<in>set (map int (dm_A_indices M)). 0 \<le> v \<and> v < int ?n"
    using wf by (auto simp: sorted_map last_map simp flip: length_greater_0_conv)
  have bnd: "\<forall>j<?n. dm_variable_lower_bounds M ! j \<le> dm_variable_upper_bounds M ! j"
    "\<forall>i<?m. dm_constraint_lower_bounds M ! i \<le> dm_constraint_upper_bounds M ! i"
    using wf by blast+
  show ?thesis
  proof (cases "category_of ?ts = LP")
    case True
    let ?Q = "?B\<lparr>pb_combined_bounds := map2 combine_finite_abs_bounds (dm_constraint_lower_bounds M) (dm_constraint_upper_bounds M)\<rparr>"
    have ts: "?ts = replicate ?n Continuous_Var" using LP_types [OF True] L(1) by simp
    have "problem_new (op_of_model M) = Inr ?Q"
      unfolding problem_new_parsed [OF M] using True comb [of ?B] by (simp add: bounded_problem_sel)
    moreover have "filter (\<lambda>j. replicate ?n Continuous_Var ! j = Integer_Var) [0..<?n] = []" by (simp add: filter_empty_conv)
    moreover have "filter (binary_variable ?Q) [0..<?n] = []" by (simp add: filter_empty_conv binary_variable_def bounded_problem_sel)
    ultimately show ?thesis
      using off bnd L by (intro exI [of _ ?Q]) (simp add: problem_wf_def represents_def bounded_problem_sel ts Let_def)
  next
    case False
    let ?R = "?B\<lparr>pb_variable_types := ?ts\<rparr>"
    have LR: "length (pb_variable_types ?R) = pb_n_variables ?R" "length (pb_variable_lower_bounds ?R) = pb_n_variables ?R"
      "length (pb_variable_upper_bounds ?R) = pb_n_variables ?R"
      using L by (simp_all add: bounded_problem_sel)
    obtain flags pb nb where T: "bind_ok (compute_n_integer_vars ?R) compute_binary_var_table = Inr (?R\<lparr>
        pb_integer_indices := filter (\<lambda>j. pb_variable_types ?R ! j = Integer_Var) [0..<pb_n_variables ?R],
        pb_n_integer_vars := length (filter (\<lambda>j. pb_variable_types ?R ! j = Integer_Var) [0..<pb_n_variables ?R]),
        pb_is_binary_variable := flags, pb_n_binary_vars := length (filter (binary_variable ?R) [0..<pb_n_variables ?R]),
        pb_binary_indices := filter (binary_variable ?R) [0..<pb_n_variables ?R], pb_nonbinary_indices := nb, pb_is_binary_pb := pb\<rparr>)"
      (is "_ = Inr ?T") using tables [OF LR] by blast
    let ?Q = "?T\<lparr>pb_combined_bounds := map2 combine_finite_abs_bounds (dm_constraint_lower_bounds M) (dm_constraint_upper_bounds M)\<rparr>"
    have "problem_new (op_of_model M) = Inr ?Q"
      unfolding problem_new_parsed [OF M] T using False comb [of ?T] by (simp add: bounded_problem_sel)
    moreover have "binary_variable ?Q = binary_variable ?R" by (rule binary_variable_cong) simp_all
    ultimately show ?thesis
      using off bnd L by (intro exI [of _ ?Q]) (simp add: problem_wf_def represents_def bounded_problem_sel Let_def)
  qed
qed

subsection \<open>Properties\<close>

lemma built_asserted:
  assumes M: "parsed_model M" and Q: "problem_wf Q" "represents M Q" "pb_empty Q = (dm_A M = [])"
  shows "representation_asserted Q"
proof -
  note wf = M [unfolded parsed_model_def model_wf_def]
  have ne: "dm_A_indices M \<noteq> []" "dm_c M \<noteq> []" "dm_variable_lower_bounds M \<noteq> []" "dm_variable_upper_bounds M \<noteq> []"
    "dm_constraint_lower_bounds M \<noteq> []" "dm_constraint_upper_bounds M \<noteq> []" if "dm_A M \<noteq> []"
    using wf parsed_model_entries [OF M that] that by (metis length_0_conv)+
  have off: "pb_offsets Q \<noteq> []" using Q(1) by (cases "pb_offsets Q") (simp_all add: problem_wf_def Let_def)
  then have "hd (pb_offsets Q) = 0" using Q(1) by (simp add: problem_wf_def hd_conv_nth Let_def)
  then have "csr_asserted Q" using Q(1) by (simp add: problem_wf_def csr_asserted_def Let_def)
  moreover have "\<not> pb_empty Q \<Longrightarrow> pb_coefficients Q \<noteq> [] \<and> pb_variables Q \<noteq> [] \<and> pb_objective_coefficients Q \<noteq> [] \<and>
      pb_variable_lower_bounds Q \<noteq> [] \<and> pb_variable_upper_bounds Q \<noteq> [] \<and> pb_constraint_lower_bounds Q \<noteq> [] \<and> pb_constraint_upper_bounds Q \<noteq> []"
    using Q(2,3) ne by (simp add: represents_def)
  ultimately show ?thesis using Q(1) off unfolding representation_asserted_def problem_wf_def Let_def by auto
qed

lemma empty_matrix_assertion:
  assumes M: "parsed_model M"
  shows "empty_matrix_asserted (op_of_model M) \<longleftrightarrow> dm_A M \<noteq> [] \<or> dm_n_vars M = 0 \<and> dm_n_constraints M = 0"
proof -
  note wf = M [unfolded parsed_model_def model_wf_def]
  have "dm_A M = [] \<longleftrightarrow> dm_A_indices M = []" "dm_c M = [] \<longleftrightarrow> dm_n_vars M = 0" "dm_variable_lower_bounds M = [] \<longleftrightarrow> dm_n_vars M = 0"
    "dm_variable_upper_bounds M = [] \<longleftrightarrow> dm_n_vars M = 0" "dm_constraint_lower_bounds M = [] \<longleftrightarrow> dm_n_constraints M = 0"
    "dm_constraint_upper_bounds M = [] \<longleftrightarrow> dm_n_constraints M = 0" "length (dm_A_offsets M) = Suc (dm_n_constraints M)"
    using wf by (auto simp flip: length_0_conv)
  then show ?thesis by (auto simp: empty_matrix_asserted_def op_of_model_def)
qed

text \<open>C9. Every file that the reader accepts, in either format, becomes a problem that the validation accepts and an
  internal problem without an error: counters, row offsets and vectors agree, no interval is empty, the tables
  list exactly the integer and the binary variables, and the matrix, the bounds and the types are those of
  the file; a maximisation has costs and scaling factor negated. In a build with assertions those of
  \<open>check_problem_representation\<close> on the problem hold as well, but the ones on a problem without matrix
  entries hold only if the file has entries, or neither variables nor constraints: an accepted file
  whose only column has a cost and no entry violates them.\<close>

theorem parsed_problem_built:
  fixes M :: "('f :: linordered_field) mps_data_model"
  assumes "parse_mps uninit buf fixed_format = Inr M"
  shows "\<exists>P Q. mps_data_model_to_optimization_problem M = Inr P \<and> check_problem_representation P = Inr () \<and>
    problem_new P = Inr Q \<and> problem_wf Q \<and> represents M Q \<and> representation_asserted Q \<and>
    (empty_matrix_asserted P \<longleftrightarrow> dm_A M \<noteq> [] \<or> dm_n_vars M = 0 \<and> dm_n_constraints M = 0)"
  using op_of_parsed_model parsed_model_accepted parsed_model_problem built_asserted empty_matrix_assertion parse_mps_parsed_model [OF assms] by blast

text \<open>An accepted file without a matrix entry: one row, one variable with a cost.\<close>

definition ex_costs_file :: string where
  "ex_costs_file = concat (map (\<lambda>l. l @ [NL]) [''ROWS'', '' N COST'', '' E R1'', ''COLUMNS'', '' X COST 2'', ''RHS'', ''ENDATA''])"

lemma ex_costs_file_parse:
  "case parse_mps False ex_costs_file False :: mps_error + rat mps_data_model of
     Inr M \<Rightarrow> dm_A M = [] \<and> dm_c M = [Fin 2] \<and> dm_n_vars M = 1 \<and> dm_n_constraints M = 1 | Inl e \<Rightarrow> False"
  by code_simp

theorem parsed_problem_built_witness:
  "(\<exists>P Q. mps_data_model_to_optimization_problem ex_model = Inr P \<and> problem_new P = Inr Q \<and> represents ex_model Q \<and> empty_matrix_asserted P) \<and>
   (\<exists>M P. parse_mps False ex_costs_file False = Inr (M :: rat mps_data_model) \<and> mps_data_model_to_optimization_problem M = Inr P \<and>
      check_problem_representation P = Inr () \<and> \<not> empty_matrix_asserted P)"
proof
  have "dm_A ex_model \<noteq> []" by code_simp
  then show "\<exists>P Q. mps_data_model_to_optimization_problem ex_model = Inr P \<and> problem_new P = Inr Q \<and> represents ex_model Q \<and> empty_matrix_asserted P"
    using parsed_problem_built [OF ex_file_parse] by blast
  obtain M :: "rat mps_data_model" where M: "parse_mps False ex_costs_file False = Inr M" "dm_A M = []" "dm_n_vars M = 1"
    using ex_costs_file_parse by (auto split: sum.splits)
  from parsed_problem_built [OF M(1)] M(2,3) show "\<exists>M P. parse_mps False ex_costs_file False = Inr (M :: rat mps_data_model) \<and>
      mps_data_model_to_optimization_problem M = Inr P \<and> check_problem_representation P = Inr () \<and> \<not> empty_matrix_asserted P"
    using M(1) by fastforce
qed

lemma problem_new_objective:
  assumes "problem_new P = Inr Q"
  shows "pb_objective_coefficients Q = (if op_maximize P then map uminus (op_c P) else op_c P)"
    "pb_objective_scaling_factor Q = (if op_maximize P then - op_objective_scaling_factor P else op_objective_scaling_factor P)"
    "pb_objective_offset Q = op_objective_offset P"
proof -
  let ?ok = "\<lambda>c s R. pb_objective_coefficients R = c \<and> pb_objective_scaling_factor R = s \<and> pb_objective_offset R = op_objective_offset P"
  define Q0 where "Q0 = (if op_A P = [] then (problem_of P)\<lparr>pb_empty := True\<rparr> else problem_of P)"
  have Q0: "?ok (op_c P) (op_objective_scaling_factor P) Q0" "pb_maximize Q0 = op_maximize P"
    by (simp_all add: Q0_def problem_of_def)
  have bounds: "?ok c s R' \<and> pb_maximize R' = pb_maximize R" if "set_bounds_if_not_set P R = Inr R'" "?ok c s R" for R R' c s
    using that by (auto simp: set_bounds_if_not_set_def bounds_of_row_types_def bind_ok_Inr Let_def split: if_splits)
  have tabs: "?ok c s R'" if "bind_ok (compute_n_integer_vars R) compute_binary_var_table = Inr R'" "?ok c s R" for R R' c s
    using that by (auto simp: compute_n_integer_vars_def compute_binary_var_table_def bind_ok_Inr Let_def split: if_splits)
  have comb: "?ok c s R'" if "combine_constraint_bounds R = Inr R'" "?ok c s R" for R R' c s
    using that by (auto simp: combine_constraint_bounds_def Let_def split: if_splits)
  let ?c = "if op_maximize P then map uminus (op_c P) else op_c P"
  let ?s = "if op_maximize P then - op_objective_scaling_factor P else op_objective_scaling_factor P"
  from assms obtain R1 R3 where R: "set_bounds_if_not_set P Q0 = Inr R1" "combine_constraint_bounds R3 = Inr Q"
    "(if op_problem_category P \<noteq> LP then bind_ok (compute_n_integer_vars ((if pb_maximize R1 then convert_to_maximization_problem R1 else R1)
        \<lparr>pb_variable_types := op_variable_types P\<rparr>)) compute_binary_var_table
      else Inr (if pb_maximize R1 then convert_to_maximization_problem R1 else R1)) = Inr R3"
    unfolding problem_new_def Let_def Q0_def [symmetric] by (auto simp: bind_ok_Inr)
  let ?R2 = "if pb_maximize R1 then convert_to_maximization_problem R1 else R1"
  have "?ok (op_c P) (op_objective_scaling_factor P) R1" "pb_maximize R1 = op_maximize P" using bounds [OF R(1) Q0(1)] Q0(2) by simp_all
  then have R2: "?ok ?c ?s ?R2" "?ok ?c ?s (?R2\<lparr>pb_variable_types := op_variable_types P\<rparr>)" by (simp_all add: convert_to_maximization_problem_def)
  have "?ok ?c ?s R3"
  proof (cases "op_problem_category P = LP")
    case True
    then show ?thesis using R(3) R2(1) by simp
  next
    case False
    then show ?thesis using tabs [OF _ R2(2)] R(3) by simp
  qed
  from comb [OF R(2) this] show "pb_objective_coefficients Q = ?c" "pb_objective_scaling_factor Q = ?s"
    "pb_objective_offset Q = op_objective_offset P" by blast+
qed

text \<open>The objective as \<open>optimization_problem.hpp\<close> and the Python interface document it: the scaling factor applies to the
  offset as well.\<close>

definition documented_objective :: "('f :: linordered_idom) \<Rightarrow> 'f vec \<Rightarrow> 'f \<Rightarrow> 'f vec \<Rightarrow> 'f" where
  "documented_objective s c k x = s * (objective_value c x + k)"

text \<open>C22. The objective reported to the user is not the documented one, for a minimisation and for a maximisation: the
  solver minimises costs \<open>d\<close>, and \<open>get_user_obj_from_solver_obj\<close> turns the value of a point under \<open>d\<close> into
  the scaled value under the user's costs plus the offset, where the documentation scales the sum of
  value and offset. The two differ by \<open>(1 - s) * k\<close>, at every point, so they agree exactly when the
  scaling factor is 1 or the offset is 0.\<close>

theorem reported_objective_offset:
  fixes P :: "('f :: linordered_field) optimization_problem"
  assumes "problem_new P = Inr Q" "op_c P = map Fin c" "op_objective_scaling_factor P = Fin s" "op_objective_offset P = Fin k"
  shows "\<exists>d. pb_objective_coefficients Q = map Fin d \<and>
    (\<forall>x. get_user_obj_from_solver_obj Q (Fin (objective_value d x)) = Fin (documented_objective s c k x + (1 - s) * k)) \<and>
    (\<forall>x. get_user_obj_from_solver_obj Q (Fin (objective_value d x)) = Fin (documented_objective s c k x) \<longleftrightarrow> s = 1 \<or> k = 0)"
proof -
  let ?d = "if op_maximize P then map uminus c else c"
  have "objective_value (map uminus c) x = - objective_value c x" for x
    by (simp add: objective_value_def sum_negf)
  then have "get_user_obj_from_solver_obj Q (Fin (objective_value ?d x)) = Fin (s * objective_value c x + k)" for x
    using assms problem_new_objective [OF assms(1)] by (simp add: get_user_obj_from_solver_obj_def mult.commute)
  then have "get_user_obj_from_solver_obj Q (Fin (objective_value ?d x)) = Fin (documented_objective s c k x + (1 - s) * k)" for x
    by (simp add: documented_objective_def algebra_simps)
  moreover have "pb_objective_coefficients Q = map Fin ?d" using problem_new_objective(1) [OF assms(1)] assms(2) by (simp add: o_def)
  ultimately show ?thesis by (intro exI [of _ ?d]) auto
qed

text \<open>A maximisation of \<open>x\<close> with scaling factor 2 and offset 3.\<close>

definition ex_max :: "rat optimization_problem" where
  "ex_max = optimization_problem_new\<lparr>op_maximize := True, op_n_vars := 1, op_n_constraints := 1, op_A := [Fin 1], op_A_indices := [0],
     op_A_offsets := [0, 1], op_b := [Fin 4], op_row_types := ''L'', op_c := [Fin 1], op_objective_scaling_factor := Fin 2,
     op_objective_offset := Fin 3\<rparr>"

theorem reported_objective_offset_witness:
  "\<exists>Q d. problem_new ex_max = Inr Q \<and> pb_objective_coefficients Q = map Fin d \<and>
    get_user_obj_from_solver_obj Q (Fin (objective_value d [4])) = Fin 11 \<and> documented_objective 2 [1] 3 [4] = (14 :: rat)"
proof -
  have "\<not> (case problem_new ex_max of Inl e \<Rightarrow> True | Inr Q \<Rightarrow> False)" by code_simp
  then obtain Q where Q: "problem_new ex_max = Inr Q" by (cases "problem_new ex_max") auto
  have "op_c ex_max = map Fin [1]" "op_objective_scaling_factor ex_max = Fin 2" "op_objective_offset ex_max = Fin 3"
    by (simp_all add: ex_max_def)
  from reported_objective_offset [OF Q this] obtain d where "pb_objective_coefficients Q = map Fin d"
    "get_user_obj_from_solver_obj Q (Fin (objective_value d [4])) = Fin (documented_objective 2 [1] 3 [4] + (1 - 2) * 3)" by blast
  moreover have "documented_objective 2 [1] 3 [4] = (14 :: rat)" by code_simp
  ultimately show ?thesis using Q by auto
qed

end
