(* ===== verification/Decimal.thy ===== *)
theory Decimal
  imports Mps_Strings
begin

text \<open>
  Integers as text: \<open>std::to_string\<close> and \<open>std::stoi\<close> of the C++ standard library for \<open>int\<close>, and that reading
  back what was written gives the same number.
\<close>

fun decimal :: "nat \<Rightarrow> string" where
  "decimal k = (if k < 10 then [char_of (48 + k)] else decimal (k div 10) @ [char_of (48 + k mod 10)])"

declare decimal.simps [simp del]

lemma digit_inj:
  assumes "a < 10" "b < (10 :: nat)" "char_of (48 + a) = (char_of (48 + b) :: char)"
  shows "a = b"
proof -
  have "of_char (char_of (48 + a) :: char) = 48 + a" "of_char (char_of (48 + b) :: char) = 48 + b" using assms(1,2) by simp_all
  then show ?thesis using assms(3) by simp
qed

lemma decimal_small: "k < 10 \<Longrightarrow> decimal k = [char_of (48 + k)]"
  by (subst decimal.simps) simp

lemma decimal_large: "\<not> k < 10 \<Longrightarrow> decimal k = decimal (k div 10) @ [char_of (48 + k mod 10)]"
  by (subst decimal.simps) simp

lemma decimal_ne: "decimal k \<noteq> []"
  by (cases "k < 10") (use decimal_small [of k] decimal_large [of k] in simp_all)

lemma decimal_inj: "decimal a = decimal b \<Longrightarrow> a = b"
proof (induction a arbitrary: b rule: decimal.induct)
  case (1 a)
  show ?case
  proof (cases "a < 10")
    case True
    have "b < 10"
    proof (rule ccontr)
      assume b: "\<not> b < 10"
      show False using 1(2) decimal_ne [of "b div 10"] unfolding decimal_small [OF True] decimal_large [OF b] by simp
    qed
    then show ?thesis using 1(2) digit_inj [OF True] decimal_small [OF True] decimal_small [of b] by simp
  next
    case False
    have b: "\<not> b < 10"
    proof
      assume b: "b < 10"
      show False using 1(2) decimal_ne [of "a div 10"] unfolding decimal_small [OF b] decimal_large [OF False] by simp
    qed
    have "decimal (a div 10) = decimal (b div 10)" "char_of (48 + a mod 10) = (char_of (48 + b mod 10) :: char)"
      using 1(2) unfolding decimal_large [OF False] decimal_large [OF b] by simp_all
    then have "a div 10 = b div 10" "a mod 10 = b mod 10" using 1(1) [OF False] digit_inj [of "a mod 10" "b mod 10"] by simp_all
    then show ?thesis by (metis div_mult_mod_eq)
  qed
qed

subsection \<open>Conversions of \<open>int\<close>\<close>

definition int_max :: int where "int_max = 2147483647"
definition int_min :: int where "int_min = -2147483648"

datatype conversion_error = Invalid_Argument | Out_Of_Range

text \<open>\<open>std::stoi\<close> reads the longest prefix that is a number and ignores what follows.\<close>

definition stoi :: "string \<Rightarrow> conversion_error + int" where
  "stoi s =
     (let (neg, t) = read_sign (dropWhile is_space s); ds = fst (read_digits 10 t) in
      if ds = [] then Inl Invalid_Argument
      else let v = int (digits_value 10 ds); v = (if neg then - v else v) in
           if int_min \<le> v \<and> v \<le> int_max then Inr v else Inl Out_Of_Range)"

definition to_string :: "int \<Rightarrow> string" where
  "to_string v = (if v < 0 then CHR ''-'' # decimal (nat (- v)) else decimal (nat v))"

abbreviation is_digit :: "char \<Rightarrow> bool" where
  "is_digit c \<equiv> digit_value 10 c \<noteq> None"

lemma digit_value_char: "d < 10 \<Longrightarrow> digit_value 10 (char_of (48 + d)) = Some d"
proof -
  assume "d < 10"
  then have "(of_char (char_of (48 + d) :: char) :: nat) = 48 + d" by simp
  then show ?thesis using \<open>d < 10\<close> by (simp add: digit_value_def Let_def)
qed

lemma decimal_digits: "c \<in> set (decimal k) \<Longrightarrow> is_digit c"
proof (induction k rule: decimal.induct)
  case (1 k)
  show ?case
  proof (cases "k < 10")
    case True
    then show ?thesis using 1(2) digit_value_char [of k] by (simp add: decimal_small)
  next
    case False
    then show ?thesis using 1 digit_value_char [of "k mod 10"] by (auto simp: decimal_large)
  qed
qed

lemma read_digits_all: "\<forall>c\<in>set s. is_digit c \<Longrightarrow> read_digits 10 s = (map (\<lambda>c. the (digit_value 10 c)) s, [])"
  by (induction s) auto

lemma digits_value_snoc [simp]: "digits_value b (ds @ [d]) = b * digits_value b ds + d" "digits_value b [] = 0"
  by (simp_all add: digits_value_def)

lemma digits_value_decimal: "digits_value 10 (map (\<lambda>c. the (digit_value 10 c)) (decimal k)) = k"
proof (induction k rule: decimal.induct)
  case (1 k)
  show ?case
  proof (cases "k < 10")
    case True
    then show ?thesis using digit_value_char [of k] digits_value_snoc(1) [of 10 "[]" k] by (simp add: decimal_small del: digits_value_snoc(1))
  next
    case False
    then show ?thesis using 1 digit_value_char [of "k mod 10"] by (simp add: decimal_large)
  qed
qed

lemma digit_plain: "is_digit c \<Longrightarrow> \<not> is_space c \<and> c \<noteq> CHR ''-'' \<and> c \<noteq> CHR ''+''"
  by (auto simp: is_space_def digit_value_def BLANK_def TAB_def NL_def CR_def)

lemma decimal_head: "dropWhile is_space (decimal k) = decimal k" "read_sign (decimal k) = (False, decimal k)"
proof -
  obtain c t where c: "decimal k = c # t" using decimal_ne by (cases "decimal k") auto
  then have "is_digit c" using decimal_digits [of c k] by simp
  then show "dropWhile is_space (decimal k) = decimal k" "read_sign (decimal k) = (False, decimal k)"
    using digit_plain [of c] by (simp_all add: c read_sign_def)
qed

lemma stoi_to_string:
  assumes "int_min \<le> v" "v \<le> int_max"
  shows "stoi (to_string v) = Inr v"
proof -
  have d: "read_digits 10 (decimal k) = (map (\<lambda>c. the (digit_value 10 c)) (decimal k), [])" for k
    by (rule read_digits_all) (use decimal_digits in blast)
  show ?thesis
  proof (cases "v < 0")
    case True
    moreover have "\<not> is_space CHR ''-''" by code_simp
    ultimately show ?thesis
      using assms by (simp add: stoi_def to_string_def read_sign_def d decimal_ne digits_value_decimal)
  next
    case False
    then show ?thesis
      using assms by (simp add: stoi_def to_string_def decimal_head d decimal_ne digits_value_decimal)
  qed
qed

end
