(* ===== verification/Translate.thy ===== *)
theory Translate
  imports Host_Properties Lp_Solve Decimal
begin

text \<open>
  From the internal problem to the format of the dual simplex solver and to the start of crossover
  (\<open>translate.hpp\<close>, \<open>get_host_user_problem\<close> of \<open>problem.cu\<close>). The simplex formats hold finite numbers, so the
  translations are partial: \<open>None\<close> where a coefficient, a cost or a right-hand side that the code stores is infinite
  or NaN. \<open>problem_feasible\<close> is the meaning of the internal problem.
\<close>

subsection \<open>Definitions\<close>

text \<open>Sense, right-hand side and, for a range row, the width of one row with bounds \<open>l\<close> and \<open>u\<close>.\<close>

definition row_of_bounds :: "('f :: linordered_idom) ext \<Rightarrow> 'f ext \<Rightarrow> char \<times> 'f ext \<times> 'f ext option" where
  "row_of_bounds l u =
     (if l = u \<and> l \<noteq> NaN then (CHR ''E'', l, None)
      else if u = PInf then (CHR ''G'', l, None)
      else if l = MInf then (CHR ''L'', u, None)
      else (CHR ''E'', l, Some (u - l)))"

definition host_csr :: "('f :: zero) problem_t \<Rightarrow> 'f csr_matrix" where
  "host_csr Q = \<lparr>csr_nz_max = pb_nnz Q, csr_m = pb_n_constraints Q, csr_n = pb_n_variables Q,
     row_start = map nat (pb_offsets Q), csr_j = map nat (pb_variables Q), csr_x = map fin_part (pb_coefficients Q)\<rparr>"

definition simplex_var_type :: "var_t \<Rightarrow> variable_type" where
  "simplex_var_type t = (if t = Continuous_Var then CONTINUOUS else INTEGER)"

definition cuopt_problem_to_simplex_problem :: "('f :: linordered_idom) problem_t \<Rightarrow> 'f user_problem option" where
  "cuopt_problem_to_simplex_problem Q =
     (let m = pb_n_constraints Q; n = pb_n_variables Q;
          (senses, b, range_rows, range_value) = for_range 0 m (\<lambda>i (senses, b, range_rows, range_value).
            let (s, r, w) = row_of_bounds (pb_constraint_lower_bounds Q ! i) (pb_constraint_upper_bounds Q ! i);
                (range_rows, range_value) = (case w of None \<Rightarrow> (range_rows, range_value)
                  | Some d \<Rightarrow> (range_rows @ [i], range_value @ [d]))
            in (senses[i := s], b[i := r], range_rows, range_value)) (replicate m (CHR 0x00), replicate m 0, [], [])
      in if list_all is_fin (pb_objective_coefficients Q) \<and> list_all is_fin (pb_coefficients Q) \<and>
            list_all is_fin b \<and> list_all is_fin range_value \<and> is_fin (pb_objective_scaling_factor Q)
         then Some \<lparr>u_num_rows = m, u_num_cols = n, u_objective = map fin_part (pb_objective_coefficients Q),
           u_A = to_compressed_col (host_csr Q) (csc_new 1 1 1), u_rhs = map fin_part b, u_row_sense = senses,
           u_lower = pb_variable_lower_bounds Q, u_upper = pb_variable_upper_bounds Q,
           u_range_rows = range_rows, u_range_value = map fin_part range_value, u_num_range_rows = length range_rows,
           u_obj_constant = pb_objective_offset Q, u_obj_scale = fin_part (pb_objective_scaling_factor Q),
           u_var_types = map (\<lambda>j. simplex_var_type (pb_variable_types Q ! j)) [0..<n]\<rparr>
         else None)"

subsection \<open>Meaning of the internal problem\<close>

definition problem_activity :: "('f :: comm_ring_1) problem_t \<Rightarrow> 'f vec \<Rightarrow> nat \<Rightarrow> 'f" where
  "problem_activity Q x i =
     (\<Sum>p\<leftarrow>[nat (pb_offsets Q ! i)..<nat (pb_offsets Q ! Suc i)]. fin_part (pb_coefficients Q ! p) * x ! nat (pb_variables Q ! p))"

definition problem_feasible :: "('f :: linordered_idom) problem_t \<Rightarrow> 'f vec \<Rightarrow> bool" where
  "problem_feasible Q x \<longleftrightarrow> length x = pb_n_variables Q \<and>
     (\<forall>j<pb_n_variables Q. in_bounds (pb_variable_lower_bounds Q ! j) (x ! j) (pb_variable_upper_bounds Q ! j)) \<and>
     (\<forall>i<pb_n_constraints Q. in_bounds (pb_constraint_lower_bounds Q ! i) (problem_activity Q x i) (pb_constraint_upper_bounds Q ! i))"

definition problem_value :: "('f :: linordered_idom) problem_t \<Rightarrow> 'f vec \<Rightarrow> 'f ext" where
  "problem_value Q x = pb_objective_offset Q + Fin (objective_value (map fin_part (pb_objective_coefficients Q)) x)"

subsection \<open>The rows of the translated problem\<close>

abbreviation bounds_row :: "('f :: linordered_idom) problem_t \<Rightarrow> nat \<Rightarrow> char \<times> 'f ext \<times> 'f ext option" where
  "bounds_row Q i \<equiv> row_of_bounds (pb_constraint_lower_bounds Q ! i) (pb_constraint_upper_bounds Q ! i)"

abbreviation row_width :: "('f :: linordered_idom) problem_t \<Rightarrow> nat \<Rightarrow> 'f ext option" where
  "row_width Q i \<equiv> snd (snd (bounds_row Q i))"

lemma replicate_update: "k < m \<Longrightarrow> (xs @ replicate (m - k) d)[length xs := y] = (xs @ [y]) @ replicate (m - Suc k) d"
  by (cases "m - k") (simp_all add: list_update_append)

lemma rows_loop:
  fixes f :: "nat \<Rightarrow> 'a \<times> 'b \<times> 'c option"
  assumes "k \<le> m"
  shows "for_range 0 k (\<lambda>i (senses, b, range_rows, range_value).
      let (s, r, w) = f i;
          (range_rows, range_value) = (case w of None \<Rightarrow> (range_rows, range_value) | Some d \<Rightarrow> (range_rows @ [i], range_value @ [d]))
      in (senses[i := s], b[i := r], range_rows, range_value)) (replicate m d, replicate m e, [], []) =
    (map (\<lambda>i. fst (f i)) [0..<k] @ replicate (m - k) d, map (\<lambda>i. fst (snd (f i))) [0..<k] @ replicate (m - k) e,
     filter (\<lambda>i. snd (snd (f i)) \<noteq> None) [0..<k], map (\<lambda>i. the (snd (snd (f i)))) (filter (\<lambda>i. snd (snd (f i)) \<noteq> None) [0..<k]))"
  using assms
proof (induction k)
  case (Suc k)
  obtain s r w where f: "f k = (s, r, w)" by (rule prod_cases3)
  have km: "k \<le> m" and "k < m" using Suc.prems by simp_all
  then show ?case
    unfolding for_range_Suc [OF le0] Suc.IH [OF km] f
    using replicate_update [of k m "map (\<lambda>i. fst (f i)) [0..<k]" d s] replicate_update [of k m "map (\<lambda>i. fst (snd (f i))) [0..<k]" e r]
    by (simp add: f split: option.split)
qed simp

definition finite_problem :: "('f :: linordered_idom) problem_t \<Rightarrow> bool" where
  "finite_problem Q \<longleftrightarrow> list_all is_fin (pb_objective_coefficients Q) \<and> list_all is_fin (pb_coefficients Q) \<and>
     is_fin (pb_objective_scaling_factor Q) \<and> (\<forall>i<pb_n_constraints Q. is_fin (fst (snd (bounds_row Q i))) \<and>
       (row_width Q i \<noteq> None \<longrightarrow> is_fin (the (row_width Q i))))"

lemma cuopt_problem_to_simplex_problem_eq:
  "cuopt_problem_to_simplex_problem Q =
     (let m = pb_n_constraints Q; rr = filter (\<lambda>i. row_width Q i \<noteq> None) [0..<m] in
      if finite_problem Q
      then Some \<lparr>u_num_rows = m, u_num_cols = pb_n_variables Q, u_objective = map fin_part (pb_objective_coefficients Q),
        u_A = to_compressed_col (host_csr Q) (csc_new 1 1 1), u_rhs = map (\<lambda>i. fin_part (fst (snd (bounds_row Q i)))) [0..<m],
        u_row_sense = map (\<lambda>i. fst (bounds_row Q i)) [0..<m], u_lower = pb_variable_lower_bounds Q, u_upper = pb_variable_upper_bounds Q,
        u_range_rows = rr, u_range_value = map (\<lambda>i. fin_part (the (row_width Q i))) rr, u_num_range_rows = length rr,
        u_obj_constant = pb_objective_offset Q, u_obj_scale = fin_part (pb_objective_scaling_factor Q),
        u_var_types = map (\<lambda>j. simplex_var_type (pb_variable_types Q ! j)) [0..<pb_n_variables Q]\<rparr>
      else None)"
proof -
  let ?m = "pb_n_constraints Q"
  have fin: "list_all is_fin (pb_objective_coefficients Q) \<and> list_all is_fin (pb_coefficients Q) \<and>
      list_all is_fin (map (\<lambda>i. fst (snd (bounds_row Q i))) [0..<?m]) \<and>
      list_all is_fin (map (\<lambda>i. the (row_width Q i)) (filter (\<lambda>i. row_width Q i \<noteq> None) [0..<?m])) \<and>
      is_fin (pb_objective_scaling_factor Q) \<longleftrightarrow> finite_problem Q"
    by (auto simp: list_all_iff finite_problem_def)
  show ?thesis
    unfolding cuopt_problem_to_simplex_problem_def Let_def prod.case fin
      rows_loop [OF order_refl, where f = "bounds_row Q", unfolded Let_def diff_self_eq_0 replicate_0 append_Nil2]
    by (simp add: comp_def)
qed

subsection \<open>Meaning is kept\<close>

lemma lane_sum_activity:
  fixes x :: "('f :: comm_ring_1) vec"
  assumes "\<forall>e\<in>set l. fst e < n"
  shows "(\<Sum>c<n. lane_sum l c * x ! c) = (\<Sum>e\<leftarrow>l. snd e * x ! fst e)"
  using assms
proof (induction l)
  case (Cons e l)
  obtain c v where e: "e = (c, v)" by (rule prod.exhaust)
  have "lane_sum (e # l) k * x ! k = (if k = c then v * x ! k else 0) + lane_sum l k * x ! k" for k
    by (simp add: e distrib_right)
  then have "(\<Sum>k<n. lane_sum (e # l) k * x ! k) = (\<Sum>k<n. if k = c then v * x ! k else 0) + (\<Sum>k<n. lane_sum l k * x ! k)"
    by (simp only: sum.distrib)
  then show ?case using Cons by (simp add: e)
qed simp

lemma host_csr_wf:
  assumes "problem_wf Q"
  shows "csr_wf (host_csr Q)" "csr_m (host_csr Q) = pb_n_constraints Q" "csr_n (host_csr Q) = pb_n_variables Q"
proof -
  note wf = assms [unfolded problem_wf_def Let_def]
  have "length (pb_offsets Q) = Suc (pb_n_constraints Q)" "pb_offsets Q ! 0 = 0" "sorted (pb_offsets Q)" using wf by simp_all
  moreover from this have "pb_offsets Q \<noteq> []" by (cases "pb_offsets Q") simp_all
  moreover have "last (pb_offsets Q) = int (pb_nnz Q)" using wf by simp
  ultimately have "pb_offsets Q ! pb_n_constraints Q = int (pb_nnz Q)" "length (pb_offsets Q) = Suc (pb_n_constraints Q)"
    "pb_offsets Q ! 0 = 0" by (simp_all add: last_conv_nth)
  moreover have "sorted (map nat (pb_offsets Q))" using wf by (auto simp: sorted_iff_nth_mono intro: nat_mono)
  moreover have "nat (pb_variables Q ! p) < pb_n_variables Q" if "p < pb_nnz Q" for p
  proof -
    have "pb_variables Q ! p \<in> set (pb_variables Q)" using wf that by simp
    then show ?thesis using wf by auto
  qed
  ultimately show "csr_wf (host_csr Q)" using wf by (simp add: csr_wf_def lanes_wf_def host_csr_def)
qed (simp_all add: host_csr_def)

lemma host_csr_row:
  assumes Q: "problem_wf Q" and i: "i < pb_n_constraints Q"
  shows "(\<Sum>e\<leftarrow>csr_row (host_csr Q) i. snd e * x ! fst e) = problem_activity Q x i"
proof -
  note wf = Q [unfolded problem_wf_def Let_def]
  have w: "lanes_wf (pb_n_constraints Q) (pb_n_variables Q) (row_start (host_csr Q)) (csr_j (host_csr Q)) (csr_x (host_csr Q))"
    using host_csr_wf [OF Q] by (simp add: csr_wf_def)
  have s: "row_start (host_csr Q) ! i = nat (pb_offsets Q ! i)" "row_start (host_csr Q) ! Suc i = nat (pb_offsets Q ! Suc i)"
    using wf i by (simp_all add: host_csr_def)
  have "p < pb_nnz Q" if "p < nat (pb_offsets Q ! Suc i)" for p
  proof -
    have "p < row_start (host_csr Q) ! pb_n_constraints Q" using lanes_wf_less(1) [OF w i] that s by simp
    then have "p < length (csr_x (host_csr Q))" using w by (simp add: lanes_wf_def)
    then show ?thesis using wf by (simp add: host_csr_def)
  qed
  then have "csr_row (host_csr Q) i = map (\<lambda>p. (nat (pb_variables Q ! p), fin_part (pb_coefficients Q ! p)))
      [nat (pb_offsets Q ! i)..<nat (pb_offsets Q ! Suc i)]"
    using wf s by (auto simp: lane_def host_csr_def)
  then show ?thesis by (simp add: problem_activity_def comp_def)
qed

lemma translated_activity:
  assumes Q: "problem_wf Q" and i: "i < pb_n_constraints Q"
  shows "activity (to_compressed_col (host_csr Q) A) x i = problem_activity Q x i"
proof -
  note H = host_csr_wf [OF Q]
  have "csc_dense (to_compressed_col (host_csr Q) A) i c = lane_sum (csr_row (host_csr Q) i) c" if "c < pb_n_variables Q" for c
    using csr_csc.conv_sum [OF H(1), of c i A] that i H by (simp add: csc_dense_def)
  moreover have "\<forall>e\<in>set (csr_row (host_csr Q) i). fst e < pb_n_variables Q"
    using csr_csc.src_fst_less [OF H(1)] i H by simp
  ultimately show ?thesis
    using lane_sum_activity [of "csr_row (host_csr Q) i" "pb_n_variables Q" x] host_csr_row [OF Q i]
    by (simp add: activity_def H)
qed

text \<open>One row: with a finite right-hand side and width it holds exactly inside the bounds.\<close>

lemma row_of_bounds_holds:
  assumes "l \<le> u" "row_of_bounds l u = (s, b, w)" "is_fin b" "w \<noteq> None \<longrightarrow> is_fin (the w)"
  shows "in_bounds l a u \<longleftrightarrow>
    (case w of None \<Rightarrow> if s = CHR ''L'' then a \<le> fin_part b else if s = CHR ''G'' then fin_part b \<le> a else a = fin_part b
     | Some d \<Rightarrow> (case range_interval s (fin_part b) (fin_part d) of (h, v) \<Rightarrow> h \<le> a \<and> a \<le> v))"
    and "w \<noteq> None \<Longrightarrow> s = CHR ''E''"
  using assms by (cases l; cases u; auto simp: row_of_bounds_def in_bounds_def range_interval_def minus_ext_def split: if_splits)+

lemma translated:
  assumes Q: "problem_wf Q" and U: "cuopt_problem_to_simplex_problem Q = Some U"
  shows "user_wf U" "u_num_cols U = pb_n_variables Q" "u_obj_constant U = pb_objective_offset Q"
    "u_objective U = map fin_part (pb_objective_coefficients Q)" "u_lower U = pb_variable_lower_bounds Q"
    "u_upper U = pb_variable_upper_bounds Q"
    and "user_feasible U x \<longleftrightarrow> problem_feasible Q x"
proof -
  let ?m = "pb_n_constraints Q" and ?rr = "filter (\<lambda>i. row_width Q i \<noteq> None) [0..<pb_n_constraints Q]"
  note wf = Q [unfolded problem_wf_def Let_def]
  note H = host_csr_wf [OF Q]
  from U have fin: "finite_problem Q" by (simp add: cuopt_problem_to_simplex_problem_eq Let_def split: if_splits)
  have sel: "u_num_rows U = ?m" "u_num_cols U = pb_n_variables Q" "u_objective U = map fin_part (pb_objective_coefficients Q)"
    "u_A U = to_compressed_col (host_csr Q) (csc_new 1 1 1)" "u_rhs U = map (\<lambda>i. fin_part (fst (snd (bounds_row Q i)))) [0..<?m]"
    "u_row_sense U = map (\<lambda>i. fst (bounds_row Q i)) [0..<?m]" "u_lower U = pb_variable_lower_bounds Q"
    "u_upper U = pb_variable_upper_bounds Q" "u_range_rows U = ?rr" "u_range_value U = map (\<lambda>i. fin_part (the (row_width Q i))) ?rr"
    "u_num_range_rows U = length ?rr" "u_obj_constant U = pb_objective_offset Q"
    using U fin by (auto simp: cuopt_problem_to_simplex_problem_eq Let_def)
  have row: "in_bounds (pb_constraint_lower_bounds Q ! i) a (pb_constraint_upper_bounds Q ! i) \<longleftrightarrow> row_holds U i a"
    and E: "i \<in> set ?rr \<Longrightarrow> fst (bounds_row Q i) = CHR ''E''" if i: "i < ?m" for i a
  proof -
    obtain s b w where r: "bounds_row Q i = (s, b, w)" by (rule prod_cases3)
    have le: "pb_constraint_lower_bounds Q ! i \<le> pb_constraint_upper_bounds Q ! i" using wf i by blast
    have "is_fin b" "w \<noteq> None \<longrightarrow> is_fin (the w)" using fin i r by (auto simp: finite_problem_def)
    note R = row_of_bounds_holds [OF le r this]
    show "fst (bounds_row Q i) = CHR ''E''" if "i \<in> set ?rr" using that R(2) r by simp
    have ir: "in_range U i \<longleftrightarrow> w \<noteq> None" using i r by (auto simp: in_range_def sel)
    have "u_range_value U ! k = fin_part (the w)" if "k < length (u_range_rows U)" "u_range_rows U ! k = i" for k
      using that r by (simp add: sel)
    moreover have "\<exists>k<length (u_range_rows U). u_range_rows U ! k = i" if "w \<noteq> None"
      using that ir by (simp add: in_range_def in_set_conv_nth)
    moreover have "u_rhs U ! i = fin_part b" "u_row_sense U ! i = s" using i r by (simp_all add: sel)
    ultimately show "in_bounds (pb_constraint_lower_bounds Q ! i) a (pb_constraint_upper_bounds Q ! i) \<longleftrightarrow> row_holds U i a"
      unfolding R(1) row_holds_def Let_def ir by (cases w) auto
  qed
  show "user_wf U"
    using H wf E csr_csc.conv_wf [OF H(1), of "csc_new 1 1 1"] by (auto simp: user_wf_def sel in_set_conv_nth)
  show "u_num_cols U = pb_n_variables Q" "u_obj_constant U = pb_objective_offset Q" "u_lower U = pb_variable_lower_bounds Q"
    "u_upper U = pb_variable_upper_bounds Q" "u_objective U = map fin_part (pb_objective_coefficients Q)" by (fact sel)+
  show "user_feasible U x \<longleftrightarrow> problem_feasible Q x"
    unfolding user_feasible_def problem_feasible_def sel(1,2,4,7,8) using row translated_activity [OF Q] by simp
qed

text \<open>C6. The translation to the dual simplex keeps the meaning of a problem without crossing bounds: its result is
  well-formed, has the same feasible points (an interval becomes an equality, a one-sided inequality
  or a range row, and the rows become columns), and the same value at each of them. It is partial only
  where a number that the simplex stores is not finite.\<close>

theorem simplex_problem_equivalent:
  fixes Q :: "('f :: linordered_field) problem_t"
  assumes "problem_wf Q" "cuopt_problem_to_simplex_problem Q = Some U"
  shows "user_wf U \<and> (\<forall>x. user_feasible U x \<longleftrightarrow> problem_feasible Q x) \<and> (\<forall>x. user_value U x = problem_value Q x)"
  using translated [OF assms] by (simp add: user_value_def problem_value_def)

text \<open>Two variables and four rows: an equality, a lower bound, an upper bound and a range.\<close>

definition ex_problem :: "rat problem_t" where
  "ex_problem = \<lparr>pb_n_variables = 2, pb_n_constraints = 4, pb_n_binary_vars = 0, pb_n_integer_vars = 0, pb_nnz = 5,
     pb_is_binary_pb = False, pb_empty = False, pb_maximize = False, pb_objective_offset = Fin 1, pb_objective_scaling_factor = Fin 1,
     pb_integrality_tolerance = Fin (1 / 100000), pb_coefficients = [Fin 1, Fin 1, Fin 2, Fin 3, Fin 4], pb_variables = [0, 1, 0, 1, 0],
     pb_offsets = [0, 2, 3, 4, 5], pb_objective_coefficients = [Fin 1, Fin 0], pb_variable_lower_bounds = [Fin 0, MInf],
     pb_variable_upper_bounds = [PInf, PInf], pb_constraint_lower_bounds = [Fin 3, Fin 1, MInf, Fin 2],
     pb_constraint_upper_bounds = [Fin 3, PInf, Fin 9, Fin 8], pb_combined_bounds = [Fin 3, Fin 1, Fin 9, Fin 8],
     pb_variable_types = [Continuous_Var, Continuous_Var], pb_integer_indices = [], pb_binary_indices = [], pb_nonbinary_indices = [],
     pb_is_binary_variable = [], pb_var_names = [], pb_row_names = [], pb_objective_name = []\<rparr>"

lemma ex_problem_wf: "problem_wf ex_problem"
proof -
  have "filter (binary_variable ex_problem) [0..<2] = []" by code_simp
  moreover have "sorted (pb_offsets ex_problem)" "last (pb_offsets ex_problem) = 5" by code_simp+
  moreover have "\<forall>j<2. pb_variable_lower_bounds ex_problem ! j \<le> pb_variable_upper_bounds ex_problem ! j"
    "\<forall>j<4. pb_constraint_lower_bounds ex_problem ! j \<le> pb_constraint_upper_bounds ex_problem ! j" by code_simp+
  moreover have "filter (\<lambda>j. pb_variable_types ex_problem ! j = Integer_Var) [0..<2] = []" by code_simp
  ultimately show ?thesis by (simp add: problem_wf_def Let_def) (simp add: ex_problem_def)
qed

theorem simplex_problem_equivalent_witness:
  "\<exists>U. cuopt_problem_to_simplex_problem ex_problem = Some U \<and> u_row_sense U = ''EGLE'' \<and> u_range_rows U = [3] \<and>
    user_wf U \<and> (\<forall>x. user_feasible U x \<longleftrightarrow> problem_feasible ex_problem x)"
proof -
  have "map_option (\<lambda>U. (u_row_sense U, u_range_rows U)) (cuopt_problem_to_simplex_problem ex_problem) = Some (''EGLE'', [3])" by code_simp
  then obtain U where U: "cuopt_problem_to_simplex_problem ex_problem = Some U" "u_row_sense U = ''EGLE''" "u_range_rows U = [3]" by auto
  then show ?thesis using simplex_problem_equivalent [OF ex_problem_wf U(1)] by auto
qed

subsection \<open>The translation for the MIP solver\<close>

text \<open>\<open>get_host_user_problem\<close> is the same translation, but it names unnamed rows and columns.\<close>

definition names_or_default :: "char \<Rightarrow> nat \<Rightarrow> string list \<Rightarrow> string list" where
  "names_or_default c k names = (if length names = k then names else map (\<lambda>i. c # decimal i) [0..<k])"

definition get_host_user_problem :: "('f :: linordered_idom) problem_t \<Rightarrow> ('f user_problem \<times> string list \<times> string list) option" where
  "get_host_user_problem Q = map_option (\<lambda>U.
     (U, names_or_default (CHR ''c'') (pb_n_constraints Q) (pb_row_names Q), names_or_default (CHR ''x'') (pb_n_variables Q) (pb_var_names Q)))
     (cuopt_problem_to_simplex_problem Q)"

lemma default_names_distinct: "distinct names \<Longrightarrow> distinct (names_or_default c k names)"
  using decimal_inj by (auto simp: names_or_default_def distinct_map inj_on_def)

end
