(* ===== verification/Solve_Lp.thy ===== *)
theory Solve_Lp
  imports Translate
begin

text \<open>
  The entry point for linear programs (\<open>linear_programming/solve.cu\<close>): validation, the internal problem, the choice of the
  method, the dual simplex run with its result record. PDLP and crossover run on the GPU and in \<open>crossover.cpp\<close>; they are
  parameters. A thrown error becomes a solution that carries it, here the left summand. Solve times, names and logging
  are not modelled; the two step counters of the result, which the code sets to the same value, are one field, and its
  ray fields, which it sets to 0, are left out; \<open>sqrt_of\<close> stands for the square root.
\<close>

subsection \<open>Results\<close>

datatype termination_status = NoTermination | NumericalError | Optimal | PrimalInfeasible | DualInfeasible
  | IterationLimit | TimeLimit | PrimalFeasible | ConcurrentLimit

record 'f lp_result =
  lr_status :: termination_status
  lr_primal :: "'f ext vec"
  lr_dual :: "'f ext vec"
  lr_reduced_cost :: "'f ext vec"
  lr_primal_objective :: "'f ext"
  lr_dual_objective :: "'f ext"
  lr_gap :: "'f ext"
  lr_relative_gap :: "'f ext"
  lr_steps :: nat
  lr_l2_primal_residual :: "'f ext"
  lr_l2_dual_residual :: "'f ext"
  lr_l2_relative_primal_residual :: "'f ext"
  lr_l2_relative_dual_residual :: "'f ext"
  lr_solved_by_pdlp :: bool

definition to_termination_status :: "lp_status \<Rightarrow> termination_status" where
  "to_termination_status s = (case s of LP_OPTIMAL \<Rightarrow> Optimal | LP_INFEASIBLE \<Rightarrow> PrimalInfeasible | LP_UNBOUNDED \<Rightarrow> DualInfeasible
     | LP_TIME_LIMIT \<Rightarrow> TimeLimit | LP_ITERATION_LIMIT \<Rightarrow> IterationLimit | LP_CONCURRENT_LIMIT \<Rightarrow> ConcurrentLimit | _ \<Rightarrow> NumericalError)"

definition convert_dual_simplex_sol ::
  "('f :: linordered_field) ext lp_solution \<Rightarrow> lp_status \<Rightarrow> 'f \<Rightarrow> 'f \<Rightarrow> 'f lp_result" where
  "convert_dual_simplex_sol solution ret norm_user_objective norm_rhs =
     \<lparr>lr_status = to_termination_status ret, lr_primal = sol_x solution, lr_dual = sol_y solution, lr_reduced_cost = sol_z solution,
      lr_primal_objective = sol_user_objective solution, lr_dual_objective = sol_user_objective solution,
      lr_gap = 0, lr_relative_gap = 0, lr_steps = sol_iterations solution,
      lr_l2_primal_residual = sol_l2_primal_residual solution, lr_l2_dual_residual = sol_l2_dual_residual solution,
      lr_l2_relative_primal_residual = sol_l2_primal_residual solution div (1 + Fin norm_user_objective),
      lr_l2_relative_dual_residual = sol_l2_dual_residual solution div (1 + Fin norm_rhs), lr_solved_by_pdlp = False\<rparr>"

subsection \<open>The dual simplex run\<close>

definition run_dual_simplex_user ::
  "('f :: linordered_field) dual_simplex \<Rightarrow> ('f \<Rightarrow> 'f) \<Rightarrow> 'f \<times> 'f \<Rightarrow> 'f \<Rightarrow> 'f simplex_solver_settings \<Rightarrow> 'f user_problem
   \<Rightarrow> 'f ext lp_solution \<times> lp_status \<times> 'f \<times> 'f" where
  "run_dual_simplex_user dual_phase2 sqrt_of uninit scale st U =
     (let norm_user_objective = sqrt_of (vector_norm2_squared (u_objective U));
          norm_rhs = sqrt_of (vector_norm2_squared (u_rhs U));
          (ret, solution) = solve_linear_program dual_phase2 sqrt_of uninit scale st U (lp_solution_new (u_num_rows U) (u_num_cols U))
      in (solution, ret, norm_user_objective, norm_rhs))"

definition run_dual_simplex ::
  "('f :: linordered_field) dual_simplex \<Rightarrow> ('f \<Rightarrow> 'f) \<Rightarrow> 'f \<times> 'f \<Rightarrow> 'f \<Rightarrow> 'f simplex_solver_settings \<Rightarrow> 'f problem_t \<Rightarrow> 'f lp_result option" where
  "run_dual_simplex dual_phase2 sqrt_of uninit scale st Q = map_option (\<lambda>U.
     let (solution, ret, norm_user_objective, norm_rhs) = run_dual_simplex_user dual_phase2 sqrt_of uninit scale st U
     in convert_dual_simplex_sol solution ret norm_user_objective norm_rhs) (cuopt_problem_to_simplex_problem Q)"

subsection \<open>The choice between two results, and of the method\<close>

text \<open>\<open>copy_from\<close> copies as many elements as the target has room for.\<close>

definition copy_from :: "'f lp_result \<Rightarrow> 'f lp_result \<Rightarrow> op_error + 'f lp_result" where
  "copy_from this other =
     (let k = length (lr_primal this); l = length (lr_dual this); m = length (lr_reduced_cost this) in
      if k \<le> length (lr_primal other) \<and> l \<le> length (lr_dual other) \<and> m \<le> length (lr_reduced_cost other)
      then Inr (other\<lparr>lr_primal := take k (lr_primal other), lr_dual := take l (lr_dual other),
             lr_reduced_cost := take m (lr_reduced_cost other)\<rparr>)
      else Inl Op_Undefined)"

text \<open>The end of \<open>run_concurrent\<close>, after both solvers have finished.\<close>

definition concurrent_choice :: "'f lp_result \<Rightarrow> 'f lp_result \<Rightarrow> op_error + 'f lp_result" where
  "concurrent_choice sol_dual_simplex sol_pdlp =
     (if lr_status sol_dual_simplex = Optimal \<or> lr_status sol_dual_simplex = PrimalInfeasible \<or>
         lr_status sol_dual_simplex = DualInfeasible then copy_from sol_pdlp sol_dual_simplex
      else if lr_status sol_pdlp = Optimal then Inr sol_pdlp
      else if lr_status sol_pdlp = ConcurrentLimit then Inr sol_dual_simplex
      else Inr sol_pdlp)"

datatype solve_method = Concurrent | PDLP | DualSimplex

definition solve_lp_with_method :: "solve_method \<Rightarrow> ('p \<Rightarrow> 'r) \<Rightarrow> ('p \<Rightarrow> 'r) \<Rightarrow> ('p \<Rightarrow> 'r) \<Rightarrow> 'p \<Rightarrow> 'r" where
  "solve_lp_with_method meth dual_simplex concurrent pdlp Q =
     (if meth = DualSimplex then dual_simplex Q else if meth = Concurrent then concurrent Q else pdlp Q)"

definition solve_lp ::
  "(('f :: linordered_field) problem_t \<Rightarrow> 'r) \<Rightarrow> bool \<Rightarrow> 'f ext list option \<Rightarrow> 'f ext list option \<Rightarrow> 'f optimization_problem \<Rightarrow> op_error + 'r" where
  "solve_lp run problem_checking initial_primal initial_dual P =
     bind_ok (if problem_checking
              then in_order [check_problem_representation P, check_initial_solution_representation P initial_primal initial_dual]
              else Inr ())
       (\<lambda>_. bind_ok (problem_new P) (\<lambda>Q. Inr (run Q)))"

subsection \<open>The meaning of a parsed model\<close>

definition model_activity :: "('f :: comm_ring_1) mps_data_model \<Rightarrow> 'f vec \<Rightarrow> nat \<Rightarrow> 'f" where
  "model_activity M x i = (\<Sum>p\<leftarrow>[dm_A_offsets M ! i..<dm_A_offsets M ! Suc i]. fin_part (dm_A M ! p) * x ! (dm_A_indices M ! p))"

text \<open>The points of the relaxation, and those whose integer columns are integral as the file demands.\<close>

definition model_relaxed :: "('f :: linordered_idom) mps_data_model \<Rightarrow> 'f vec \<Rightarrow> bool" where
  "model_relaxed M x \<longleftrightarrow> length x = dm_n_vars M \<and>
     (\<forall>j<dm_n_vars M. in_bounds (dm_variable_lower_bounds M ! j) (x ! j) (dm_variable_upper_bounds M ! j)) \<and>
     (\<forall>i<dm_n_constraints M. in_bounds (dm_constraint_lower_bounds M ! i) (model_activity M x i) (dm_constraint_upper_bounds M ! i))"

definition model_feasible :: "('f :: linordered_idom) mps_data_model \<Rightarrow> 'f vec \<Rightarrow> bool" where
  "model_feasible M x \<longleftrightarrow> model_relaxed M x \<and> (\<forall>j<dm_n_vars M. dm_var_types M ! j = CHR ''I'' \<longrightarrow> x ! j \<in> \<int>)"

definition all_continuous :: "'f mps_data_model \<Rightarrow> bool" where
  "all_continuous M \<longleftrightarrow> (\<forall>j<dm_n_vars M. dm_var_types M ! j \<noteq> CHR ''I'')"

lemma continuous_feasible: "all_continuous M \<Longrightarrow> model_feasible M = model_relaxed M"
  by (auto simp: model_feasible_def all_continuous_def)

definition model_cost :: "('f :: linordered_idom) mps_data_model \<Rightarrow> 'f vec \<Rightarrow> 'f" where
  "model_cost M x = objective_value (map fin_part (dm_c M)) x"

text \<open>At least as good, in the sense of the file.\<close>

definition model_better :: "('f :: linordered_idom) mps_data_model \<Rightarrow> 'f \<Rightarrow> 'f \<Rightarrow> bool" where
  "model_better M a b \<longleftrightarrow> (if dm_maximize M then b \<le> a else a \<le> b)"

definition model_relaxed_optimal :: "('f :: linordered_idom) mps_data_model \<Rightarrow> 'f vec \<Rightarrow> bool" where
  "model_relaxed_optimal M x \<longleftrightarrow> model_relaxed M x \<and> (\<forall>y. model_relaxed M y \<longrightarrow> model_better M (model_cost M x) (model_cost M y))"

definition model_optimal :: "('f :: linordered_idom) mps_data_model \<Rightarrow> 'f vec \<Rightarrow> bool" where
  "model_optimal M x \<longleftrightarrow> model_feasible M x \<and> (\<forall>y. model_feasible M y \<longrightarrow> model_better M (model_cost M x) (model_cost M y))"

definition model_unbounded :: "('f :: linordered_idom) mps_data_model \<Rightarrow> bool" where
  "model_unbounded M \<longleftrightarrow> (\<forall>v. \<exists>x. model_feasible M x \<and> model_better M (model_cost M x) v)"

lemma represents_feasible:
  assumes M: "model_wf M" and R: "represents M Q"
  shows "problem_feasible Q x \<longleftrightarrow> model_relaxed M x"
proof -
  note wf = M [unfolded model_wf_def]
  note r = R [unfolded represents_def]
  have ne: "dm_A_offsets M \<noteq> []" using wf by (cases "dm_A_offsets M") auto
  have act: "problem_activity Q x i = model_activity M x i" if i: "i < dm_n_constraints M" for i
  proof -
    have "dm_A_offsets M ! Suc i \<le> dm_A_offsets M ! dm_n_constraints M" using wf i by (intro sorted_nth_mono) auto
    moreover have "dm_A_offsets M ! dm_n_constraints M = length (dm_A M)" using wf ne by (metis last_conv_nth diff_add_inverse2)
    ultimately have "p < length (dm_A_indices M)" if "p < dm_A_offsets M ! Suc i" for p using wf that by simp
    then show ?thesis
      unfolding problem_activity_def model_activity_def using r wf i
      by (intro arg_cong [where f = sum_list] map_cong) auto
  qed
  show ?thesis unfolding problem_feasible_def model_relaxed_def using r act by auto
qed

lemma represents_cost:
  assumes R: "represents M Q"
  shows "objective_value (map fin_part (pb_objective_coefficients Q)) x = (if dm_maximize M then - model_cost M x else model_cost M x)"
proof -
  have m: "fin_part (- v) = - fin_part v" for v :: "'a ext" by (cases v) simp_all
  then have "map fin_part (map uminus (dm_c M)) = map uminus (map fin_part (dm_c M))" by simp
  moreover have "objective_value (map uminus c) x = - objective_value c x" for c
    by (simp add: objective_value_def sum_negf)
  ultimately show ?thesis using R by (simp only: represents_def model_cost_def split: if_split) simp
qed

text \<open>The entry of the matrix of a model, and what an empty column needs.\<close>

definition model_row :: "('f :: zero) mps_data_model \<Rightarrow> nat \<Rightarrow> (nat \<times> 'f) list" where
  "model_row M i = map (\<lambda>p. (dm_A_indices M ! p, fin_part (dm_A M ! p))) [dm_A_offsets M ! i..<dm_A_offsets M ! Suc i]"

definition settled_columns :: "('f :: linordered_idom) mps_data_model \<Rightarrow> bool" where
  "settled_columns M \<longleftrightarrow> (\<forall>j<dm_n_vars M. (\<forall>i<dm_n_constraints M. lane_sum (model_row M i) j = 0) \<longrightarrow>
     is_fin (if (if dm_maximize M then - fin_part (dm_c M ! j) else fin_part (dm_c M ! j)) \<ge> 0
             then dm_variable_lower_bounds M ! j else dm_variable_upper_bounds M ! j))"

lemma represents_row:
  assumes M: "model_wf M" and R: "represents M Q" and Q: "problem_wf Q" and i: "i < dm_n_constraints M"
  shows "csr_row (host_csr Q) i = model_row M i"
proof -
  note wf = M [unfolded model_wf_def]
  note r = R [unfolded represents_def]
  have ne: "dm_A_offsets M \<noteq> []" using wf by (cases "dm_A_offsets M") auto
  have "dm_A_offsets M ! Suc i \<le> dm_A_offsets M ! dm_n_constraints M" using wf i by (intro sorted_nth_mono) auto
  moreover have "dm_A_offsets M ! dm_n_constraints M = length (dm_A M)" using wf ne by (metis last_conv_nth diff_add_inverse2)
  ultimately have "p < length (dm_A_indices M)" "p < length (dm_A M)" if "p < dm_A_offsets M ! Suc i" for p using wf that by simp_all
  then show ?thesis using r wf i by (auto simp: lane_def host_csr_def model_row_def)
qed

lemma translated_settles:
  assumes M: "parsed_model M" and R: "represents M Q" and Q: "problem_wf Q" and U: "cuopt_problem_to_simplex_problem Q = Some U"
    and e: "settled_columns M"
  shows "\<forall>j<u_num_cols U. (\<forall>i<u_num_rows U. csc_dense (u_A U) i j = 0) \<longrightarrow> settles_alone U j"
proof (intro allI impI)
  fix j assume j: "j < u_num_cols U" and z: "\<forall>i<u_num_rows U. csc_dense (u_A U) i j = 0"
  note wf = M [unfolded parsed_model_def model_wf_def]
  note r = R [unfolded represents_def]
  note H = host_csr_wf [OF Q]
  note T = translated [OF Q U]
  have A: "u_A U = to_compressed_col (host_csr Q) (csc_new 1 1 1)" "u_num_rows U = pb_n_constraints Q"
    using U by (auto simp: cuopt_problem_to_simplex_problem_eq Let_def split: if_splits)
  have "lane_sum (model_row M i) j = 0" if i: "i < dm_n_constraints M" for i
  proof -
    have "csc_dense (u_A U) i j = lane_sum (csr_row (host_csr Q) i) j"
      using csr_csc.conv_sum [OF H(1), of j i "csc_new 1 1 1"] i j r T(2) H by (simp add: csc_dense_def A)
    moreover have "csr_row (host_csr Q) i = model_row M i" using represents_row [OF _ R Q i] M by (simp add: parsed_model_def)
    ultimately show ?thesis using z i r A(2) by simp
  qed
  then have "is_fin (if (if dm_maximize M then - fin_part (dm_c M ! j) else fin_part (dm_c M ! j)) \<ge> 0
      then dm_variable_lower_bounds M ! j else dm_variable_upper_bounds M ! j)"
    using e j r T(2) unfolding settled_columns_def by simp
  moreover have "fin_part (- v) = - fin_part v" for v :: "'a ext" by (cases v) simp_all
  then have "u_objective U ! j = (if dm_maximize M then - fin_part (dm_c M ! j) else fin_part (dm_c M ! j))"
    using T(2,4) j r wf by simp
  moreover have "u_lower U ! j \<le> u_upper U ! j" using T(2,5,6) j r wf by simp
  ultimately show "settles_alone U j" unfolding settles_alone_def using T(2,5,6) j r by (auto split: if_splits)
qed

lemma value_order:
  assumes R: "represents M Q" and k: "is_fin (dm_objective_offset M)"
  shows "problem_value Q x \<le> problem_value Q y \<longleftrightarrow> model_better M (model_cost M x) (model_cost M y)"
    and "problem_value Q x \<le> Fin (fin_part (dm_objective_offset M) + (if dm_maximize M then - v else v)) \<longleftrightarrow> model_better M (model_cost M x) v"
proof -
  obtain c where c: "dm_objective_offset M = Fin c" using k by (auto simp: is_fin_iff)
  have v: "problem_value Q z = Fin (c + (if dm_maximize M then - model_cost M z else model_cost M z))" for z
    using R unfolding problem_value_def represents_cost [OF R] by (simp add: represents_def c)
  show "problem_value Q x \<le> problem_value Q y \<longleftrightarrow> model_better M (model_cost M x) (model_cost M y)"
    "problem_value Q x \<le> Fin (fin_part (dm_objective_offset M) + (if dm_maximize M then - v else v)) \<longleftrightarrow> model_better M (model_cost M x) v"
    by (simp_all add: v c model_better_def)
qed

text \<open>C1. From the text of a file to an answer: whatever accepted file is read, validated, built into an internal
  problem and solved with the dual simplex as a linear program, the answer Optimal comes with a point
  that is optimal for the relaxation of the file's problem in the file's own sense, and, when the file
  declares no integer column, for the file's problem itself; PrimalInfeasible means that the file's
  problem has no feasible point, with or without integer columns; DualInfeasible means for a file
  without integer columns that its problem is unbounded or has no point. It rests on a correct simplex,
  finite numbers where the simplex stores them, and on columns without entries having a finite bound
  on the side their cost selects.\<close>

theorem parsed_file_solved:
  fixes M :: "('f :: linordered_field) mps_data_model"
  assumes "parse_mps uninit buf fixed_format = Inr M" "mps_data_model_to_optimization_problem M = Inr P"
    "solve_lp (run_dual_simplex dual_phase2 sqrt_of uninit' scale st) True None None P = Inr (Some r)"
    "phase2_sound dual_phase2" "\<forall>v>0. 0 < sqrt_of v" "0 < primal_tol st" "is_fin (dm_objective_offset M)" "settled_columns M"
  shows "(lr_status r = Optimal \<longrightarrow>
       (\<exists>x. lr_primal r = map Fin x \<and> model_relaxed_optimal M x \<and> (all_continuous M \<longrightarrow> model_optimal M x))) \<and>
    (lr_status r = PrimalInfeasible \<longrightarrow> (\<forall>x. \<not> model_feasible M x)) \<and>
    (lr_status r = DualInfeasible \<longrightarrow> all_continuous M \<longrightarrow> (\<exists>x. model_feasible M x) \<longrightarrow> model_unbounded M)"
proof -
  have M: "parsed_model M" by (rule parse_mps_parsed_model [OF assms(1)])
  then have P: "P = op_of_model M" using op_of_parsed_model assms(2) by fastforce
  from parsed_model_problem [OF M] obtain Q where Q: "problem_new P = Inr Q" "problem_wf Q" "represents M Q" unfolding P by blast
  have "run_dual_simplex dual_phase2 sqrt_of uninit' scale st Q = Some r"
    using assms(3) Q(1) by (auto simp: solve_lp_def bind_ok_Inr)
  then obtain U where U: "cuopt_problem_to_simplex_problem Q = Some U" by (auto simp: run_dual_simplex_def)
  obtain s sol where S: "solve_linear_program dual_phase2 sqrt_of uninit' scale st U (lp_solution_new (u_num_rows U) (u_num_cols U)) = (s, sol)"
    by (rule prod.exhaust)
  have r: "lr_status r = to_termination_status s" "lr_primal r = sol_x sol"
    using \<open>run_dual_simplex _ _ _ _ _ Q = Some r\<close> S
    by (auto simp: run_dual_simplex_def U run_dual_simplex_user_def convert_dual_simplex_sol_def Let_def)
  note T = translated [OF Q(2) U]
  have "is_fin (u_obj_constant U)" using T(3) Q(3) assms(7) by (simp add: represents_def)
  then have A: "user_answer U s sol"
    using solve_linear_program_answer [OF assms(4-6) T(1) _ translated_settles [OF M Q(3,2) U assms(8)] S] by blast
  have F: "user_feasible U x \<longleftrightarrow> model_relaxed M x" for x
    using T(7) represents_feasible [OF _ Q(3)] M by (simp add: parsed_model_def)
  have V: "user_value U x = problem_value Q x" for x using T(3,4) by (simp add: user_value_def problem_value_def)
  have O: "optimal_by (user_feasible U) (user_value U) x \<longleftrightarrow> model_relaxed_optimal M x" for x
    by (simp add: optimal_by_def model_relaxed_optimal_def F V value_order(1) [OF Q(3) assms(7)])
  have C: "all_continuous M \<Longrightarrow> model_relaxed_optimal M x \<Longrightarrow> model_optimal M x" for x
    by (simp add: model_relaxed_optimal_def model_optimal_def continuous_feasible)
  have B: "model_unbounded M" if "unbounded_by (user_feasible U) (user_value U)" "all_continuous M"
    using that(1) value_order(2) [OF Q(3) assms(7)]
    unfolding unbounded_by_def model_unbounded_def F V continuous_feasible [OF that(2)] by blast
  have I: "\<not> model_relaxed M x \<Longrightarrow> \<not> model_feasible M x" for x by (simp add: model_feasible_def)
  show ?thesis
    using A r O F B C I by (cases s) (auto simp: user_answer_def to_termination_status_def continuous_feasible)
qed

text \<open>A file with one variable \<open>X >= 2\<close> of cost 6 and one row \<open>2 X = 4\<close>.\<close>

definition ex_lp_file :: string where
  "ex_lp_file = concat (map (\<lambda>l. l @ [NL]) [''ROWS'', '' N COST'', '' E R1'', ''COLUMNS'', '' X COST 6 R1 2'',
    ''RHS'', '' RHS R1 4'', ''BOUNDS'', '' LO BND X 2'', ''ENDATA''])"

definition ex_lp_model :: "rat mps_data_model" where
  "ex_lp_model = (mps_data_model_new False)\<lparr>dm_A := [Fin 2], dm_A_indices := [0], dm_A_offsets := [0, 1], dm_b := [Fin 4],
     dm_c := [Fin 6], dm_variable_lower_bounds := [Fin 2], dm_variable_upper_bounds := [PInf], dm_var_types := ''C'',
     dm_constraint_lower_bounds := [Fin 4], dm_constraint_upper_bounds := [Fin 4], dm_objective_name := ''COST'',
     dm_var_names := [''X''], dm_row_names := [''R1''], dm_n_vars := 1, dm_n_constraints := 1\<rparr>"

lemma ex_lp_file_parse: "parse_mps False ex_lp_file False = Inr ex_lp_model"
  by code_simp

lemma ex_lp_model_solved:
  "(case solve_lp (run_dual_simplex ex_simplex ex_sqrt (0, 0) 1 \<lparr>integer_tol = 1 / 100000, primal_tol = 1 / 1000000,
      dual_tol = 1 / 1000000, absolute_mip_gap_tol = 0, relative_mip_gap_tol = 1 / 1000, scale_columns = True\<rparr>) True None None
      (op_of_model ex_lp_model) of
    Inr (Some r) \<Rightarrow> lr_status r = Optimal \<and> lr_primal r = [Fin 2] | _ \<Rightarrow> False)"
  by code_simp

theorem parsed_file_solved_witness: "model_optimal ex_lp_model [2] \<and> model_feasible ex_lp_model [2]"
proof -
  let ?st = "\<lparr>integer_tol = 1 / 100000, primal_tol = 1 / 1000000, dual_tol = 1 / 1000000, absolute_mip_gap_tol = 0,
    relative_mip_gap_tol = 1 / 1000, scale_columns = True\<rparr> :: rat simplex_solver_settings"
  from ex_lp_model_solved obtain r where
    r: "solve_lp (run_dual_simplex ex_simplex ex_sqrt (0, 0) 1 ?st) True None None (op_of_model ex_lp_model) = Inr (Some r)"
      "lr_status r = Optimal" "lr_primal r = [Fin 2]"
    by (auto split: sum.splits option.splits)
  have "\<forall>v>0. 0 < ex_sqrt v" "0 < primal_tol ?st" by (simp_all add: ex_sqrt_def)
  moreover have "is_fin (dm_objective_offset ex_lp_model)" "settled_columns ex_lp_model" "all_continuous ex_lp_model" by code_simp+
  ultimately have "model_optimal ex_lp_model [2]"
    using parsed_file_solved [OF ex_lp_file_parse op_of_parsed_model [OF parse_mps_parsed_model [OF ex_lp_file_parse]] r(1) ex_simplex_sound] r(2,3)
    by auto
  then show ?thesis by (simp add: model_optimal_def)
qed

end
