(* ===== verification/Concurrent.thy ===== *)
theory Concurrent
  imports Solve_Lp
begin

text \<open>
  \<open>run_concurrent\<close>: the dual simplex and PDLP (with crossover) run in two threads that share an atomic flag. The state is
  the flag and the position of each thread; a step is one atomic action of one thread, in any order.
  What a solver finds is arbitrary, except for what its polling of the flag means: it reports that it was
  halted only after it has read the flag as set. Only one concurrent run is under way (the flag is a global variable).
\<close>

subsection \<open>State\<close>

datatype crossover_status = Co_Optimal | Co_Primal_Feasible | Co_Dual_Feasible | Co_Time_Limit | Co_Numerical_Issues | Co_Concurrent_Limit

definition crossover_termination :: "crossover_status \<Rightarrow> termination_status" where
  "crossover_termination s = (case s of Co_Optimal \<Rightarrow> Optimal | Co_Primal_Feasible \<Rightarrow> PrimalFeasible | Co_Concurrent_Limit \<Rightarrow> ConcurrentLimit
     | Co_Time_Limit \<Rightarrow> TimeLimit | _ \<Rightarrow> NumericalError)"

text \<open>A solved thread has its result but has not yet set the flag; for PDLP the Boolean is \<open>crossover_info = 0\<close>.\<close>

datatype 'f dual_thread = Dual_Running | Dual_Solved lp_status "'f ext lp_solution" | Dual_Finished lp_status "'f ext lp_solution"

datatype 'f pdlp_thread = Pdlp_Running | Crossover_Running "'f lp_result" | Pdlp_Solved "'f lp_result" bool | Pdlp_Finished "'f lp_result"

record 'f race =
  halt :: bool
  dual_thread :: "'f dual_thread"
  pdlp_thread :: "'f pdlp_thread"

definition race_start :: "'f race" where
  "race_start = \<lparr>halt = False, dual_thread = Dual_Running, pdlp_thread = Pdlp_Running\<rparr>"

subsection \<open>Steps\<close>

definition decided :: "lp_status \<Rightarrow> bool" where
  "decided s \<longleftrightarrow> s = LP_OPTIMAL \<or> s = LP_UNBOUNDED \<or> s = LP_INFEASIBLE"

definition dual_stops :: "lp_status \<Rightarrow> 'f ext lp_solution \<Rightarrow> 'f race \<Rightarrow> 'f race" where
  "dual_stops s sol S = S\<lparr>halt := halt S \<or> decided s, dual_thread := Dual_Finished s sol\<rparr>"

text \<open>After PDLP: crossover, if it is asked for and PDLP found an optimum.\<close>

definition pdlp_solves :: "bool \<Rightarrow> 'f lp_result \<Rightarrow> 'f race \<Rightarrow> 'f race" where
  "pdlp_solves do_crossover r S =
     S\<lparr>pdlp_thread := if do_crossover \<and> lr_status r = Optimal then Crossover_Running r else Pdlp_Solved r True\<rparr>"

definition pdlp_stops :: "'f lp_result \<Rightarrow> bool \<Rightarrow> 'f race \<Rightarrow> 'f race" where
  "pdlp_stops r ok S = S\<lparr>halt := halt S \<or> (ok \<and> lr_status r = Optimal), pdlp_thread := Pdlp_Finished r\<rparr>"

inductive race_step :: "bool \<Rightarrow> 'f race \<Rightarrow> 'f race \<Rightarrow> bool" for do_crossover :: bool where
  dual_solve: "dual_thread S = Dual_Running \<Longrightarrow> (s = LP_CONCURRENT_LIMIT \<longrightarrow> halt S) \<Longrightarrow>
     race_step do_crossover S (S\<lparr>dual_thread := Dual_Solved s sol\<rparr>)"
| dual_stop: "dual_thread S = Dual_Solved s sol \<Longrightarrow> race_step do_crossover S (dual_stops s sol S)"
| pdlp_solve: "pdlp_thread S = Pdlp_Running \<Longrightarrow> (lr_status r = ConcurrentLimit \<longrightarrow> halt S) \<Longrightarrow>
     race_step do_crossover S (pdlp_solves do_crossover r S)"
| crossover_end: "pdlp_thread S = Crossover_Running r0 \<Longrightarrow> (cs = Co_Concurrent_Limit \<longrightarrow> halt S) \<Longrightarrow>
     copy_from r0 vertex = Inr r \<Longrightarrow> lr_status vertex = crossover_termination cs \<Longrightarrow>
     race_step do_crossover S (S\<lparr>pdlp_thread := Pdlp_Solved r (cs = Co_Optimal)\<rparr>)"
| pdlp_stop: "pdlp_thread S = Pdlp_Solved r ok \<Longrightarrow> race_step do_crossover S (pdlp_stops r ok S)"

definition race_over :: "'f race \<Rightarrow> lp_status \<Rightarrow> 'f ext lp_solution \<Rightarrow> 'f lp_result \<Rightarrow> bool" where
  "race_over S s sol r \<longleftrightarrow> dual_thread S = Dual_Finished s sol \<and> pdlp_thread S = Pdlp_Finished r"

subsection \<open>Invariant\<close>

text \<open>The flag is set only by a thread that has finished with an answer, and a halted thread was halted by the other one.\<close>

definition dual_decided :: "'f race \<Rightarrow> bool" where
  "dual_decided S \<longleftrightarrow> (\<exists>s sol. dual_thread S = Dual_Finished s sol \<and> decided s)"

definition pdlp_optimal :: "'f race \<Rightarrow> bool" where
  "pdlp_optimal S \<longleftrightarrow> (\<exists>r. pdlp_thread S = Pdlp_Finished r \<and> lr_status r = Optimal)"

definition race_ok :: "'f race \<Rightarrow> bool" where
  "race_ok S \<longleftrightarrow> (halt S \<longrightarrow> dual_decided S \<or> pdlp_optimal S) \<and>
     (\<forall>sol. dual_thread S = Dual_Solved LP_CONCURRENT_LIMIT sol \<or> dual_thread S = Dual_Finished LP_CONCURRENT_LIMIT sol \<longrightarrow> pdlp_optimal S) \<and>
     (\<forall>r ok. (pdlp_thread S = Pdlp_Solved r ok \<or> pdlp_thread S = Pdlp_Finished r) \<and> lr_status r = ConcurrentLimit \<longrightarrow> dual_decided S)"

text \<open>A thread that has finished with an answer has set it.\<close>

definition flag_ok :: "'f race \<Rightarrow> bool" where
  "flag_ok S \<longleftrightarrow> (dual_decided S \<or> pdlp_optimal S \<longrightarrow> halt S) \<and>
     (\<forall>r ok. pdlp_thread S = Pdlp_Solved r ok \<and> lr_status r = Optimal \<longrightarrow> ok)"

inductive_cases race_stepE: "race_step c S T"

lemmas race_defs = race_ok_def flag_ok_def dual_decided_def pdlp_optimal_def dual_stops_def pdlp_solves_def pdlp_stops_def

lemma copy_from_status: "copy_from r0 v = Inr r \<Longrightarrow> lr_status r = lr_status v"
  by (auto simp: copy_from_def Let_def split: if_splits)




lemma crossover_termination_optimal: "crossover_termination s = Optimal \<longleftrightarrow> s = Co_Optimal"
  by (cases s) (simp_all add: crossover_termination_def)

lemma race_step_flag: "race_step c S T \<Longrightarrow> flag_ok S \<Longrightarrow> flag_ok T"
proof (induction rule: race_step.induct)
  case (crossover_end S r0 cs vertex r)
  then show ?case by (auto simp: race_defs copy_from_status crossover_termination_optimal)
qed (auto simp: race_defs)

lemma race_reachable_flag: "(race_step c)\<^sup>*\<^sup>* race_start S \<Longrightarrow> flag_ok S"
  by (induction rule: rtranclp_induct) (auto simp: race_step_flag, simp add: race_defs race_start_def)



lemma race_over_halted:
  assumes "race_ok S" "race_over S LP_CONCURRENT_LIMIT sol r"
  shows "lr_status r = Optimal"
  using assms by (auto simp: race_ok_def race_over_def pdlp_optimal_def)

lemma decided_status:
  "decided s \<longleftrightarrow> to_termination_status s = Optimal \<or> to_termination_status s = PrimalInfeasible \<or> to_termination_status s = DualInfeasible"
  by (cases s) (simp_all add: decided_def to_termination_status_def)

subsection \<open>Properties\<close>


text \<open>A run in which PDLP fails first and the dual simplex then finds the optimum.\<close>

definition ex_optimum :: "rat ext lp_solution" where
  "ex_optimum = (lp_solution_new 1 1)\<lparr>sol_x := [Fin 2], sol_y := [Fin 3], sol_z := [Fin 0]\<rparr>"

definition ex_failed :: "rat lp_result" where
  "ex_failed = \<lparr>lr_status = NumericalError, lr_primal = [], lr_dual = [], lr_reduced_cost = [], lr_primal_objective = 0,
     lr_dual_objective = 0, lr_gap = 0, lr_relative_gap = 0, lr_steps = 0, lr_l2_primal_residual = 0, lr_l2_dual_residual = 0,
     lr_l2_relative_primal_residual = 0, lr_l2_relative_dual_residual = 0, lr_solved_by_pdlp = True\<rparr>"

definition ex_race :: "rat race" where
  "ex_race = \<lparr>halt = True, dual_thread = Dual_Finished LP_OPTIMAL ex_optimum, pdlp_thread = Pdlp_Finished ex_failed\<rparr>"

lemma ex_race_reached: "(race_step False)\<^sup>*\<^sup>* race_start ex_race"
proof -
  let ?S1 = "pdlp_solves False ex_failed race_start"
  let ?S2 = "pdlp_stops ex_failed True ?S1"
  let ?S3 = "?S2\<lparr>dual_thread := Dual_Solved LP_OPTIMAL ex_optimum\<rparr>"
  have "race_step False race_start ?S1" by (rule race_step.pdlp_solve) (simp_all add: race_start_def ex_failed_def)
  moreover have "race_step False ?S1 ?S2" by (rule race_step.pdlp_stop) (simp add: pdlp_solves_def)
  moreover have "race_step False ?S2 ?S3" by (rule race_step.dual_solve) (simp_all add: race_start_def pdlp_solves_def pdlp_stops_def)
  moreover have "race_step False ?S3 (dual_stops LP_OPTIMAL ex_optimum ?S3)" by (rule race_step.dual_stop) simp
  ultimately have "(race_step False)\<^sup>*\<^sup>* race_start (dual_stops LP_OPTIMAL ex_optimum ?S3)"
    by (meson converse_rtranclp_into_rtranclp rtranclp.rtrancl_refl)
  moreover have "dual_stops LP_OPTIMAL ex_optimum ?S3 = ex_race"
    by (simp add: dual_stops_def pdlp_solves_def pdlp_stops_def race_start_def ex_race_def decided_def)
  ultimately show ?thesis by simp
qed

lemma ex_race_over: "race_over ex_race LP_OPTIMAL ex_optimum ex_failed"
  by (simp add: race_over_def ex_race_def)


text \<open>The result of PDLP decides how much of the dual simplex solution is returned: when PDLP ended with a
  numerical error, whose result has empty vectors, and the dual simplex found an optimum, the run
  reports the status Optimal together with an empty primal solution.\<close>

theorem optimum_lost:
  assumes "(race_step do_crossover)\<^sup>*\<^sup>* race_start S" "race_over S LP_OPTIMAL sol r"
    "lr_primal r = []" "lr_dual r = []" "lr_reduced_cost r = []"
  shows "\<exists>q. concurrent_choice (convert_dual_simplex_sol sol LP_OPTIMAL norm_user_objective norm_rhs) r = Inr q \<and>
    lr_status q = Optimal \<and> lr_primal q = [] \<and> lr_primal_objective q = sol_user_objective sol"
  using assms by (simp add: concurrent_choice_def convert_dual_simplex_sol_def to_termination_status_def copy_from_def)

theorem optimum_lost_witness:
  "\<exists>q. concurrent_choice (convert_dual_simplex_sol ex_optimum LP_OPTIMAL 1 1) ex_failed = Inr q \<and> lr_status q = Optimal \<and> lr_primal q = []"
  using optimum_lost [OF ex_race_reached ex_race_over, of 1 1] by (auto simp: ex_failed_def)

text \<open>PDLP has finished first, with an optimum, and has set the flag while the dual simplex still runs. If the dual
  simplex then decides the problem before it polls the flag again, its result is returned, not that of the first.\<close>

lemma first_finisher_overruled:
  assumes "(race_step do_crossover)\<^sup>*\<^sup>* race_start S1" "dual_thread S1 = Dual_Running"
    "pdlp_thread S1 = Pdlp_Finished r" "lr_status r = Optimal" "decided s"
  shows "halt S1 \<and> (\<exists>S. (race_step do_crossover)\<^sup>*\<^sup>* S1 S \<and> race_over S s sol r \<and>
    concurrent_choice (convert_dual_simplex_sol sol s nu nr) r = copy_from r (convert_dual_simplex_sol sol s nu nr))"
proof -
  have flag: "halt S1" using race_reachable_flag [OF assms(1)] assms(3,4) by (auto simp: race_defs)
  let ?S2 = "S1\<lparr>dual_thread := Dual_Solved s sol\<rparr>"
  have "race_step do_crossover S1 ?S2" by (rule race_step.dual_solve [OF assms(2)]) (simp add: flag)
  moreover have "race_step do_crossover ?S2 (dual_stops s sol ?S2)" by (rule race_step.dual_stop) simp
  ultimately have run: "(race_step do_crossover)\<^sup>*\<^sup>* S1 (dual_stops s sol ?S2)" by (meson converse_rtranclp_into_rtranclp rtranclp.rtrancl_refl)
  have over: "race_over (dual_stops s sol ?S2) s sol r" using assms(3) by (simp add: race_over_def dual_stops_def)
  have "concurrent_choice (convert_dual_simplex_sol sol s nu nr) r = copy_from r (convert_dual_simplex_sol sol s nu nr)"
    using assms(5) by (simp add: concurrent_choice_def convert_dual_simplex_sol_def decided_status)
  then show ?thesis using flag run over by blast
qed

end
