(* ===== verification/Crossover_Problem.thy ===== *)
theory Crossover_Problem
  imports Translate
begin

text \<open>
  The start of crossover (\<open>translate_to_crossover_problem\<close> of \<open>translate.hpp\<close>): from the internal problem and a solution
  that PDLP found, an equality problem with one bounded column \<open>-e_i\<close> per row, and an initial point whose
  new entries are the activities of the rows, projected into their bounds. The solution and the numbers
  that the equality problem stores are finite; \<open>None\<close> marks an infinite cost or coefficient.
\<close>

subsection \<open>Definition\<close>

record 'f pdlp_solution =
  pdlp_primal :: "'f vec"
  pdlp_dual :: "'f vec"
  pdlp_reduced_cost :: "'f vec"

text \<open>\<open>std::copy\<close> of the first \<open>k\<close> elements.\<close>

definition copy_front :: "nat \<Rightarrow> 'a list \<Rightarrow> 'a list \<Rightarrow> 'a list" where
  "copy_front k src dst = take k src @ drop k dst"

definition crossover_matrix :: "('f :: linordered_idom) problem_t \<Rightarrow> 'f csc_matrix \<Rightarrow> 'f csc_matrix" where
  "crossover_matrix Q A =
     (let n = pb_n_variables Q; m = pb_n_constraints Q;
          (cs, is, xs, nz) = for_range n (n + m) (\<lambda>j (cs, is, xs, nz).
            (cs[j := nz], is[nz := j - n], xs[nz := -1], nz + 1))
            (resize (n + m + 1) 0 (col_start A), resize (pb_nnz Q + m) 0 (csc_i A), resize (pb_nnz Q + m) 0 (csc_x A), pb_nnz Q)
      in A\<lparr>col_start := cs[n + m := nz], csc_i := is, csc_x := xs, csc_n := n + m\<rparr>)"

definition project_slack :: "'f ext \<Rightarrow> 'f ext \<Rightarrow> ('f :: linorder) ext \<Rightarrow> 'f ext" where
  "project_slack l u v = (let v = (if v < l then l else v) in if u < v then u else v)"

definition translate_to_crossover_problem ::
  "('f :: linordered_idom) problem_t \<Rightarrow> 'f pdlp_solution \<Rightarrow> 'f lp_problem \<Rightarrow> 'f ext lp_solution \<Rightarrow> ('f lp_problem \<times> 'f ext lp_solution) option" where
  "translate_to_crossover_problem Q sol lp0 initial =
     (let n = pb_n_variables Q; m = pb_n_constraints Q; N = n + m;
          A = to_compressed_col (host_csr Q) (lp_A lp0);
          tmp_x = pdlp_primal sol;
          slack = matrix_vector_multiply A 1 tmp_x 0 (replicate m 0);
          l = for_range 0 m (\<lambda>i l. l[n + i := pb_constraint_lower_bounds Q ! i])
                (copy_front n (pb_variable_lower_bounds Q) (resize N 0 (lower lp0)));
          u = for_range 0 m (\<lambda>i u. u[n + i := pb_constraint_upper_bounds Q ! i])
                (copy_front n (pb_variable_upper_bounds Q) (resize N 0 (upper lp0)));
          lp = lp0\<lparr>num_cols := N, num_rows := m, lp_A := crossover_matrix Q A, rhs := resize m 0 (rhs lp0),
                   lower := l, upper := u, obj_constant := pb_objective_offset Q,
                   obj_scale := fin_part (pb_objective_scaling_factor Q),
                   objective := copy_front n (map fin_part (pb_objective_coefficients Q)) (resize N 0 (objective lp0))\<rparr>;
          initial = resize_solution m N initial;
          x = for_range n N (\<lambda>j x. x[j := project_slack (l ! j) (u ! j) (Fin (slack ! (j - n)))])
                (copy_front n (map Fin tmp_x) (sol_x initial));
          y = map Fin (pdlp_dual sol);
          z = for_range n N (\<lambda>j z. z[j := y ! (j - n)]) (copy_front n (map Fin (pdlp_reduced_cost sol)) (sol_z initial))
      in if list_all is_fin (pb_objective_coefficients Q) \<and> list_all is_fin (pb_coefficients Q) \<and> is_fin (pb_objective_scaling_factor Q)
         then Some (lp, initial\<lparr>sol_x := x, sol_y := y, sol_z := z\<rparr>) else None)"

subsection \<open>Closed form\<close>

lemma to_compressed_col_end:
  assumes "csr_wf A"
  shows "col_start (to_compressed_col A C) ! csr_n A = row_start A ! csr_m A"
    "length (csc_i (to_compressed_col A C)) = row_start A ! csr_m A" "length (csc_x (to_compressed_col A C)) = row_start A ! csr_m A"
proof -
  obtain ws cs where cs: "cumulative_sum (count_keys (csr_j A) (row_start A ! csr_m A) (replicate (csr_n A) 0))
      (resize (csr_n A + 1) 0 (col_start C)) = (ws, cs)" by fastforce
  obtain ws' js xs where loop: "for_range 0 (csr_m A) (\<lambda>i.
      for_range (row_start A ! i) (row_start A ! Suc i) (\<lambda>p. place (csr_j A ! p) i (csr_x A ! p)))
      (ws, resize (row_start A ! csr_m A) 0 (csc_i C), resize (row_start A ! csr_m A) 0 (csc_x C)) = (ws', js, xs)"
    by (rule prod_cases3)
  note r = regroup_lanes [OF assms [unfolded csr_wf_def] cs loop]
  show "col_start (to_compressed_col A C) ! csr_n A = row_start A ! csr_m A"
    "length (csc_i (to_compressed_col A C)) = row_start A ! csr_m A" "length (csc_x (to_compressed_col A C)) = row_start A ! csr_m A"
    using r cs loop by (simp_all add: to_compressed_col_def Let_def)
qed

lemma fill_range:
  assumes "n + k \<le> length xs"
  shows "for_range n (n + k) (\<lambda>j xs. xs[j := f j]) xs = take n xs @ map f [n..<n + k] @ drop (n + k) xs"
  using assms
proof (induction k)
  case (Suc k)
  then have IH: "for_range n (n + k) (\<lambda>j xs. xs[j := f j]) xs = take n xs @ map f [n..<n + k] @ drop (n + k) xs" by simp
  have d: "drop (n + k) xs = xs ! (n + k) # drop (Suc (n + k)) xs" using Suc.prems by (simp add: Cons_nth_drop_Suc)
  have l: "length (take n xs) = n" using Suc.prems by simp
  show ?case
    using Suc.prems by (simp add: IH) (simp add: d list_update_append l)
qed simp

lemma fill_from:
  assumes "n + k \<le> length xs"
  shows "for_range 0 k (\<lambda>i xs. xs[n + i := f i]) xs = take n xs @ map f [0..<k] @ drop (n + k) xs"
  using assms
proof (induction k)
  case (Suc k)
  then have IH: "for_range 0 k (\<lambda>i xs. xs[n + i := f i]) xs = take n xs @ map f [0..<k] @ drop (n + k) xs" by simp
  have d: "drop (n + k) xs = xs ! (n + k) # drop (Suc (n + k)) xs" using Suc.prems by (simp add: Cons_nth_drop_Suc)
  have l: "length (take n xs) = n" using Suc.prems by simp
  show ?case
    using Suc.prems by (simp add: IH) (simp add: d list_update_append l)
qed simp

lemma matrix_loop:
  assumes "length cs = n + m + 1" "length is = c + m" "length xs = c + m" "k \<le> m"
  shows "for_range n (n + k) (\<lambda>j (cs, is, xs, nz). (cs[j := nz], is[nz := j - n], xs[nz := -1], nz + 1)) (cs, is, xs, c) =
    (take n cs @ [c..<c + k] @ drop (n + k) cs, take c is @ [0..<k] @ drop (c + k) is,
     take c xs @ replicate k (-1 :: 'f :: linordered_idom) @ drop (c + k) xs, c + k)"
  using assms(4)
proof (induction k)
  case (Suc k)
  have d: "drop (a + k) ys = ys ! (a + k) # drop (Suc (a + k)) ys" if "length ys > a + k" for a and ys :: "'z list"
    using that by (simp add: Cons_nth_drop_Suc)
  have l: "length (take n cs) = n" "length (take c is) = c" "length (take c xs) = c" using assms by simp_all
  show ?case
    using Suc assms
    by (simp add: d [of n cs] d [of c "is"] d [of c xs] list_update_append l replicate_append_same)
qed simp

subsection \<open>The shape of the equality problem\<close>

definition crossover_slacks :: "('f :: linordered_idom) problem_t \<Rightarrow> 'f slack list" where
  "crossover_slacks Q = map (\<lambda>i. (i, -1, pb_constraint_lower_bounds Q ! i, pb_constraint_upper_bounds Q ! i)) [0..<pb_n_constraints Q]"

definition crossover_base :: "('f :: linordered_idom) problem_t \<Rightarrow> 'f lp_problem \<Rightarrow> 'f lp_problem" where
  "crossover_base Q lp0 = lp0\<lparr>num_rows := pb_n_constraints Q, num_cols := pb_n_variables Q,
     lp_A := to_compressed_col (host_csr Q) (lp_A lp0), rhs := replicate (pb_n_constraints Q) 0,
     lower := pb_variable_lower_bounds Q, upper := pb_variable_upper_bounds Q, objective := map fin_part (pb_objective_coefficients Q),
     obj_constant := pb_objective_offset Q, obj_scale := fin_part (pb_objective_scaling_factor Q)\<rparr>"

lemma resize_replicate: "resize k d (replicate j d) = replicate k d"
  by (rule nth_equalityI) (simp_all add: nth_resize)

lemma copy_front_append: "length src = n \<Longrightarrow> length dst = n + m \<Longrightarrow> copy_front n src dst = src @ drop n dst"
  by (simp add: copy_front_def)

lemma crossover_base_wf:
  assumes Q: "problem_wf Q"
  shows "lp_wf (crossover_base Q lp0)"
proof -
  note wf = Q [unfolded problem_wf_def Let_def]
  note H = host_csr_wf [OF Q]
  show ?thesis using csr_csc.conv_wf [OF H(1), of "lp_A lp0"] H wf by (simp add: lp_wf_def crossover_base_def)
qed

lemma crossover_matrix_eq:
  assumes A: "length (csc_i A) = pb_nnz Q" "length (csc_x A) = pb_nnz Q" "length (col_start A) = Suc (pb_n_variables Q)"
  defines "n \<equiv> pb_n_variables Q" and "m \<equiv> pb_n_constraints Q"
  shows "crossover_matrix Q A = A\<lparr>col_start := take n (col_start A) @ [pb_nnz Q..<Suc (pb_nnz Q + m)],
      csc_i := csc_i A @ [0..<m], csc_x := csc_x A @ replicate m (-1), csc_n := n + m\<rparr>"
proof -
  have take_resize: "take k (resize (k + j) d ys) = ys" "drop (k + j) (resize (k + j) d ys) = []" if "length ys = k" for k j d and ys :: "'z list"
    using that by (simp_all add: resize_def)
  let ?cs = "resize (Suc (n + m)) 0 (col_start A)"
  have cs: "take n ?cs = take n (col_start A)" using A(3) by (simp add: resize_def n_def)
  have "n + m < length ?cs" "drop (Suc (n + m)) ?cs = []" by simp_all
  then have d: "drop (n + m) ?cs = [?cs ! (n + m)]" by (metis Cons_nth_drop_Suc)
  have l: "length (take n (col_start A)) = n" using A(3) by (simp add: n_def)
  show ?thesis
    unfolding crossover_matrix_def Let_def n_def [symmetric] m_def [symmetric]
    using matrix_loop [of ?cs n m "resize (pb_nnz Q + m) 0 (csc_i A)" "pb_nnz Q" "resize (pb_nnz Q + m) 0 (csc_x A)" m] A(1,2) A(3) [folded n_def]
    by (simp add: take_resize cs d l list_update_append)
qed

lemma lp_problem_new_zeros:
  "resize k 0 (rhs (lp_problem_new m n nz s)) = replicate k 0" "resize k 0 (objective (lp_problem_new m n nz s)) = replicate k 0"
  by (simp_all add: lp_problem_new_def resize_replicate)

lemma crossover_shape:
  fixes Q :: "('f :: linordered_idom) problem_t"
  assumes Q: "problem_wf Q"
    and T: "translate_to_crossover_problem Q sol lp initial = Some (P, S)"
    and lp: "\<And>k. resize k 0 (rhs lp) = replicate k 0" "\<And>k. resize k 0 (objective lp) = replicate k 0"
  shows "P = append_singletons (crossover_slacks Q) (crossover_base Q lp)"
    and "sol_x S = for_range (pb_n_variables Q) (pb_n_variables Q + pb_n_constraints Q)
      (\<lambda>j x. x[j := project_slack (lower P ! j) (upper P ! j) (Fin (matrix_vector_multiply (to_compressed_col (host_csr Q) (lp_A lp)) 1
        (pdlp_primal sol) 0 (replicate (pb_n_constraints Q) 0) ! (j - pb_n_variables Q)))])
      (copy_front (pb_n_variables Q) (map Fin (pdlp_primal sol)) (resize (pb_n_variables Q + pb_n_constraints Q) 0 (sol_x initial)))"
    and "sol_y S = map Fin (pdlp_dual sol)"
    and "sol_z S = for_range (pb_n_variables Q) (pb_n_variables Q + pb_n_constraints Q) (\<lambda>j z. z[j := map Fin (pdlp_dual sol) ! (j - pb_n_variables Q)])
      (copy_front (pb_n_variables Q) (map Fin (pdlp_reduced_cost sol)) (resize (pb_n_variables Q + pb_n_constraints Q) 0 (sol_z initial)))"
proof -
  let ?n = "pb_n_variables Q" and ?m = "pb_n_constraints Q"
  let ?A = "to_compressed_col (host_csr Q) (lp_A lp)" and ?es = "crossover_slacks Q"
  note wf = Q [unfolded problem_wf_def Let_def]
  note H = host_csr_wf [OF Q]
  have ends: "row_start (host_csr Q) ! ?m = pb_nnz Q"
  proof -
    have "length (pb_offsets Q) = Suc ?m" "last (pb_offsets Q) = int (pb_nnz Q)" using wf by simp_all
    moreover from this(1) have "pb_offsets Q \<noteq> []" by auto
    ultimately have "pb_offsets Q ! ?m = int (pb_nnz Q)" by (simp add: last_conv_nth)
    then show ?thesis using \<open>length (pb_offsets Q) = Suc ?m\<close> by (simp add: host_csr_def)
  qed
  have A: "col_start ?A ! ?n = pb_nnz Q" "length (csc_i ?A) = pb_nnz Q" "length (csc_x ?A) = pb_nnz Q" "length (col_start ?A) = Suc ?n"
    using to_compressed_col_end [OF H(1), of "lp_A lp"] csr_csc.conv_wf [OF H(1), of "lp_A lp"] H ends
    by (simp_all add: csc_wf_def lanes_wf_def)
  have "crossover_matrix Q ?A = ?A\<lparr>col_start := take ?n (col_start ?A) @ [pb_nnz Q..<Suc (pb_nnz Q + ?m)],
      csc_i := csc_i ?A @ [0..<?m], csc_x := csc_x ?A @ replicate ?m (-1), csc_n := ?n + ?m\<rparr>"
    by (rule crossover_matrix_eq [OF A(2-4)])
  moreover have "for_range 0 ?m (\<lambda>i l. l[?n + i := f i]) (copy_front ?n b (resize (?n + ?m) 0 l0)) = b @ map f [0..<?m]"
    if "length b = ?n" for f b and l0 :: "'f ext list"
    using fill_from [of ?n ?m "copy_front ?n b (resize (?n + ?m) 0 l0)" f] that by (simp add: copy_front_def)
  moreover have "copy_front ?n (map fin_part (pb_objective_coefficients Q)) (resize (?n + ?m) 0 (objective lp))
      = map fin_part (pb_objective_coefficients Q) @ replicate ?m 0"
    using wf by (simp add: copy_front_def lp)
  moreover have "resize ?m 0 (rhs lp) = replicate ?m 0" by (rule lp)
  moreover have "map fst ?es = [0..<?m]" "map (\<lambda>(i, v, l, u). v) ?es = replicate ?m (-1)" "length ?es = ?m" "map (\<lambda>_. 0 :: 'f) ?es = replicate ?m 0"
    "map (\<lambda>(i, v, l, u). l) ?es = map ((!) (pb_constraint_lower_bounds Q)) [0..<?m]"
    "map (\<lambda>(i, v, l, u). u) ?es = map ((!) (pb_constraint_upper_bounds Q)) [0..<?m]"
    by (simp_all add: crossover_slacks_def comp_def map_replicate_const map_replicate_trivial)
  ultimately show "P = append_singletons ?es (crossover_base Q lp)"
    using T A wf by (simp add: translate_to_crossover_problem_def Let_def append_singletons_def crossover_base_def split: if_splits) auto
qed (use T in \<open>auto simp: translate_to_crossover_problem_def Let_def resize_solution_def split: if_splits\<close>)

subsection \<open>The equality problem means the same\<close>

lemma crossover_slack_sel:
  "length (crossover_slacks Q) = pb_n_constraints Q"
  "t < pb_n_constraints Q \<Longrightarrow> crossover_slacks Q ! t = (t, -1, pb_constraint_lower_bounds Q ! t, pb_constraint_upper_bounds Q ! t)"
  by (simp_all add: crossover_slacks_def)

lemma crossover_fields:
  assumes Q: "problem_wf Q" and P: "P = append_singletons (crossover_slacks Q) (crossover_base Q lp)"
  shows "lp_wf P" "num_cols P = pb_n_variables Q + pb_n_constraints Q" "num_rows P = pb_n_constraints Q"
    "rhs P = replicate (pb_n_constraints Q) 0" "obj_constant P = pb_objective_offset Q"
    "objective P = map fin_part (pb_objective_coefficients Q) @ replicate (pb_n_constraints Q) 0"
    "j < pb_n_variables Q \<Longrightarrow> lower P ! j = pb_variable_lower_bounds Q ! j \<and> upper P ! j = pb_variable_upper_bounds Q ! j"
    "i < pb_n_constraints Q \<Longrightarrow> lower P ! (pb_n_variables Q + i) = pb_constraint_lower_bounds Q ! i \<and>
      upper P ! (pb_n_variables Q + i) = pb_constraint_upper_bounds Q ! i"
proof -
  note wf = Q [unfolded problem_wf_def Let_def]
  note B = crossover_base_wf [OF Q, of lp]
  show "lp_wf P" unfolding P by (rule append_singletons_wf [OF B]) (auto simp: crossover_slacks_def crossover_base_def)
  show "num_cols P = pb_n_variables Q + pb_n_constraints Q" "num_rows P = pb_n_constraints Q" "rhs P = replicate (pb_n_constraints Q) 0"
    "obj_constant P = pb_objective_offset Q" by (simp_all add: P crossover_base_def crossover_slack_sel)
  show "objective P = map fin_part (pb_objective_coefficients Q) @ replicate (pb_n_constraints Q) 0"
    by (simp add: P crossover_base_def crossover_slack_sel map_replicate_const)
  show "lower P ! j = pb_variable_lower_bounds Q ! j \<and> upper P ! j = pb_variable_upper_bounds Q ! j" if "j < pb_n_variables Q"
    using that wf by (simp add: P crossover_base_def nth_append)
  show "lower P ! (pb_n_variables Q + i) = pb_constraint_lower_bounds Q ! i \<and>
      upper P ! (pb_n_variables Q + i) = pb_constraint_upper_bounds Q ! i" if "i < pb_n_constraints Q"
    using that wf by (simp add: P crossover_base_def nth_append crossover_slack_sel)
qed

lemma crossover_dense:
  assumes Q: "problem_wf Q" and P: "P = append_singletons (crossover_slacks Q) (crossover_base Q lp)"
  shows "j < pb_n_variables Q \<Longrightarrow> csc_dense (lp_A P) i j = csc_dense (to_compressed_col (host_csr Q) (lp_A lp)) i j"
    and "t < pb_n_constraints Q \<Longrightarrow> csc_dense (lp_A P) i (pb_n_variables Q + t) = (if t = i then -1 else 0)"
  using append_singletons_dense [OF crossover_base_wf [OF Q, of lp], of _ "crossover_slacks Q" i]
  by (simp_all add: P crossover_base_def crossover_slack_sel)

lemma crossover_activity:
  assumes Q: "problem_wf Q" and P: "P = append_singletons (crossover_slacks Q) (crossover_base Q lp)" and i: "i < pb_n_constraints Q"
    and x: "length x = pb_n_variables Q + pb_n_constraints Q"
  shows "activity (lp_A P) x i = problem_activity Q (take (pb_n_variables Q) x) i - x ! (pb_n_variables Q + i)"
proof -
  let ?n = "pb_n_variables Q" and ?m = "pb_n_constraints Q"
  note F = crossover_fields [OF Q P] and D = crossover_dense [OF Q P]
  have n: "csc_n (lp_A P) = ?n + ?m" using F(1,2) by (simp add: lp_wf_def)
  have "(\<Sum>t<?m. csc_dense (lp_A P) i (?n + t) * x ! (?n + t)) = (\<Sum>t<?m. if t = i then - x ! (?n + t) else 0)"
    by (rule sum.cong) (simp_all add: D)
  then have s: "(\<Sum>t<?m. csc_dense (lp_A P) i (?n + t) * x ! (?n + t)) = - x ! (?n + i)" using i by simp
  have "(\<Sum>c<?n. csc_dense (lp_A P) i c * x ! c) = activity (to_compressed_col (host_csr Q) (lp_A lp)) (take ?n x) i"
    by (simp add: activity_def host_csr_wf [OF Q] D)
  then show ?thesis using s translated_activity [OF Q i] by (simp add: activity_def n sum_split_cols)
qed

lemma all_less_sum: "(\<forall>c<n + (m :: nat). R c) \<longleftrightarrow> (\<forall>c<n. R c) \<and> (\<forall>i<m. R (n + i))"
proof (intro iffI conjI allI impI)
  fix c assume R: "(\<forall>c<n. R c) \<and> (\<forall>i<m. R (n + i))" and c: "c < n + m"
  show "R c"
  proof (cases "c < n")
    case False
    then have "R (n + (c - n))" using R c by (intro conjunct2 [OF R, rule_format]) simp
    then show ?thesis using False by simp
  qed (use R in blast)
qed auto

lemma crossover_feasible:
  assumes Q: "problem_wf Q" and P: "P = append_singletons (crossover_slacks Q) (crossover_base Q lp)"
  shows "lp_feasible P x \<longleftrightarrow> problem_feasible Q (take (pb_n_variables Q) x) \<and> length x = pb_n_variables Q + pb_n_constraints Q \<and>
    (\<forall>i<pb_n_constraints Q. x ! (pb_n_variables Q + i) = problem_activity Q (take (pb_n_variables Q) x) i)"
proof -
  let ?n = "pb_n_variables Q" and ?m = "pb_n_constraints Q"
  note F = crossover_fields [OF Q P]
  have "(\<forall>c<?n + ?m. in_bounds (lower P ! c) (x ! c) (upper P ! c)) \<longleftrightarrow>
      (\<forall>c<?n. in_bounds (lower P ! c) (x ! c) (upper P ! c)) \<and>
      (\<forall>i<?m. in_bounds (lower P ! (?n + i)) (x ! (?n + i)) (upper P ! (?n + i)))"
    by (rule all_less_sum)
  moreover have "(activity (lp_A P) x i = 0) = (x ! (?n + i) = problem_activity Q (take ?n x) i)" if "i < ?m" "length x = ?n + ?m" for i
    using crossover_activity [OF Q P that] by (auto simp: algebra_simps)
  ultimately show ?thesis
    unfolding lp_feasible_def problem_feasible_def F(2-4) using F(7,8) by auto
qed

definition crossover_translated :: "('f :: linordered_idom) problem_t \<Rightarrow> 'f lp_problem \<Rightarrow> nat \<Rightarrow> bool" where
  "crossover_translated Q P n \<longleftrightarrow> problem_wf Q \<and> is_fin (pb_objective_offset Q) \<and> n = pb_n_variables Q \<and>
     (\<exists>lp. P = append_singletons (crossover_slacks Q) (crossover_base Q lp))"

lemma objective_value_padded:
  "length c \<le> length x \<Longrightarrow> objective_value (c @ replicate m 0) x = objective_value c (take (length c) x)"
  by (simp add: objective_value_def sum_split_cols nth_append)

interpretation crossover: lp_reduction crossover_translated problem_feasible problem_value lp_feasible lp_value take
proof
  fix Q :: "'a problem_t" and P n x y
  assume "crossover_translated Q P n"
  then obtain lp where Q: "problem_wf Q" "is_fin (pb_objective_offset Q)" "n = pb_n_variables Q"
    and P: "P = append_singletons (crossover_slacks Q) (crossover_base Q lp)" by (auto simp: crossover_translated_def)
  note F = crossover_fields [OF Q(1) P]
  have c: "length (pb_objective_coefficients Q) = n" using Q(1,3) by (simp add: problem_wf_def Let_def)
  show "problem_feasible Q (take n y)" if "lp_feasible P y" using that crossover_feasible [OF Q(1) P] Q(3) by simp
  have val: "problem_value Q (take n y) = lp_value P y" if "lp_feasible P y" for y
    using objective_value_padded [of "map fin_part (pb_objective_coefficients Q)" y] that c
    by (simp add: problem_value_def lp_value_def F lp_feasible_def Q(3))
  show "problem_value Q (take n y) = lp_value P y" if "lp_feasible P y" using val [OF that] .
  show "\<exists>y. lp_feasible P y \<and> lp_value P y \<le> problem_value Q x" if x: "problem_feasible Q x"
  proof (intro exI conjI)
    let ?y = "x @ map (problem_activity Q x) [0..<pb_n_constraints Q]"
    have l: "length x = n" using x Q(3) by (simp add: problem_feasible_def)
    show f: "lp_feasible P ?y" unfolding crossover_feasible [OF Q(1) P] using x l Q(3) by (simp add: nth_append)
    have "problem_value Q x = lp_value P ?y" using val [OF f] l by simp
    moreover have "is_fin (problem_value Q x)" using Q(2) by (auto simp: problem_value_def is_fin_iff)
    ultimately show "lp_value P ?y \<le> problem_value Q x" by (auto simp: is_fin_iff)
  qed
qed

subsection \<open>Properties\<close>

text \<open>C20. The problem that crossover gets is equivalent to the internal one: its feasible points are the feasible points of the
  internal problem, each extended by the activities of its rows, and an optimal point of it starts with an optimal
  point of the internal problem.\<close>

theorem crossover_problem_equivalent:
  fixes Q :: "('f :: linordered_idom) problem_t"
  assumes "problem_wf Q" "is_fin (pb_objective_offset Q)"
    "translate_to_crossover_problem Q sol (lp_problem_new 1 1 1 s) initial = Some (P, S)"
  shows "lp_wf P \<and>
    (\<forall>x. lp_feasible P x \<longleftrightarrow> problem_feasible Q (take (pb_n_variables Q) x) \<and> length x = pb_n_variables Q + pb_n_constraints Q \<and>
      (\<forall>i<pb_n_constraints Q. x ! (pb_n_variables Q + i) = problem_activity Q (take (pb_n_variables Q) x) i)) \<and>
    (\<forall>x. lp_optimal P x \<longrightarrow> optimal_by (problem_feasible Q) (problem_value Q) (take (pb_n_variables Q) x))"
proof -
  note P = crossover_shape(1) [OF assms(1,3) lp_problem_new_zeros]
  have "crossover_translated Q P (pb_n_variables Q)" unfolding crossover_translated_def using assms(1,2) P by blast
  from crossover.restore_optimal [OF this] show ?thesis
    using crossover_fields(1) [OF assms(1) P] crossover_feasible [OF assms(1) P] by (simp add: lp_optimal_by)
qed

lemma project_slack_bounds:
  assumes "l \<le> u"
  shows "l \<le> project_slack l u (Fin v)" "project_slack l u (Fin v) \<le> u" "in_bounds l v u \<Longrightarrow> project_slack l u (Fin v) = Fin v"
  using assms by (cases l; cases u; auto simp: project_slack_def Let_def in_bounds_def less_eq_ext_def)+

lemma fill_range_nth:
  assumes "length xs = n + k"
  shows "j < n \<Longrightarrow> for_range n (n + k) (\<lambda>j xs. xs[j := f j]) xs ! j = xs ! j"
    and "i < k \<Longrightarrow> for_range n (n + k) (\<lambda>j xs. xs[j := f j]) xs ! (n + i) = f (n + i)"
  using assms fill_range [of n k xs f] by (simp_all add: nth_append)

text \<open>C21. The point that crossover starts from: the variables keep the values that PDLP found; each new entry lies in the bounds of its
  row and is the activity of the row if the point satisfies the row; and if the dual pair of PDLP satisfies the
  dual equations of the internal problem, the started pair satisfies those of the equality problem, new columns included.\<close>

theorem crossover_start_point:
  fixes Q :: "('f :: linordered_idom) problem_t"
  assumes "problem_wf Q" "translate_to_crossover_problem Q sol (lp_problem_new 1 1 1 s) initial = Some (P, S)"
    "length (pdlp_primal sol) = pb_n_variables Q" "length (pdlp_dual sol) = pb_n_constraints Q"
    "length (pdlp_reduced_cost sol) = pb_n_variables Q"
  defines "n \<equiv> pb_n_variables Q" and "m \<equiv> pb_n_constraints Q"
  shows "(\<forall>j<n. sol_x S ! j = Fin (pdlp_primal sol ! j)) \<and>
    (\<forall>i<m. pb_constraint_lower_bounds Q ! i \<le> sol_x S ! (n + i) \<and> sol_x S ! (n + i) \<le> pb_constraint_upper_bounds Q ! i \<and>
      (in_bounds (pb_constraint_lower_bounds Q ! i) (problem_activity Q (pdlp_primal sol) i) (pb_constraint_upper_bounds Q ! i) \<longrightarrow>
        sol_x S ! (n + i) = Fin (problem_activity Q (pdlp_primal sol) i))) \<and>
    ((\<forall>j<n. pdlp_reduced_cost sol ! j = fin_part (pb_objective_coefficients Q ! j) -
        (\<Sum>i<m. lane_sum (csr_row (host_csr Q) i) j * pdlp_dual sol ! i)) \<longrightarrow>
      (\<forall>j<n + m. sol_z S ! j = Fin (objective P ! j - (\<Sum>i<m. csc_dense (lp_A P) i j * pdlp_dual sol ! i))))"
proof -
  define lp where "lp = (lp_problem_new 1 1 1 s :: 'f lp_problem)"
  let ?A = "to_compressed_col (host_csr Q) (lp_A lp)"
  note wf = assms(1) [unfolded problem_wf_def Let_def]
  note H = host_csr_wf [OF assms(1)]
  note shape = crossover_shape [OF assms(1,2) lp_problem_new_zeros, folded n_def m_def lp_def]
  note F = crossover_fields [OF assms(1) shape(1), folded n_def m_def] and D = crossover_dense [OF assms(1) shape(1), folded n_def m_def]
  have Awf: "csc_wf ?A" by (rule csr_csc.conv_wf [OF H(1)])
  have act: "matrix_vector_multiply ?A 1 (pdlp_primal sol) 0 (replicate m 0) ! i = problem_activity Q (pdlp_primal sol) i" if "i < m" for i
    using translated_activity [OF assms(1), of i "lp_A lp" "pdlp_primal sol"] that assms(3)
    by (simp add: matrix_vector_multiply_nth [OF Awf] H activity_def m_def)
  have x: "sol_x S ! j = Fin (pdlp_primal sol ! j)" if "j < n" for j
    unfolding shape(2) using that assms(3) by (subst fill_range_nth(1)) (simp_all add: copy_front_def n_def nth_append)
  have xs: "sol_x S ! (n + i) = project_slack (pb_constraint_lower_bounds Q ! i) (pb_constraint_upper_bounds Q ! i)
      (Fin (problem_activity Q (pdlp_primal sol) i))" if "i < m" for i
    unfolding shape(2) using that assms(3) F(8) [OF that] act [OF that]
    by (subst fill_range_nth(2)) (simp_all add: copy_front_def n_def)
  have z: "sol_z S ! j = Fin (pdlp_reduced_cost sol ! j)" if "j < n" for j
    unfolding shape(4) using that assms(5) by (subst fill_range_nth(1)) (simp_all add: copy_front_def n_def nth_append)
  have zs: "sol_z S ! (n + i) = Fin (pdlp_dual sol ! i)" if "i < m" for i
    unfolding shape(4) using that assms(4,5) by (subst fill_range_nth(2)) (simp_all add: copy_front_def n_def m_def)
  have slack: "objective P ! (n + i) - (\<Sum>k<m. csc_dense (lp_A P) k (n + i) * pdlp_dual sol ! k) = pdlp_dual sol ! i" if "i < m" for i
  proof -
    have "(\<Sum>k<m. csc_dense (lp_A P) k (n + i) * pdlp_dual sol ! k) = (\<Sum>k<m. if k = i then - pdlp_dual sol ! k else 0)"
      using D(2) [OF that] by (intro sum.cong) auto
    moreover have "objective P ! (n + i) = 0" using that wf by (simp add: F(6) nth_append n_def m_def)
    ultimately show ?thesis using that by simp
  qed
  have "csc_dense (lp_A P) i j = lane_sum (csr_row (host_csr Q) i) j" if "i < m" "j < n" for i j
    using D(1) [OF that(2)] csr_csc.conv_sum [OF H(1), of j i "lp_A lp"] that H by (simp add: csc_dense_def n_def m_def)
  moreover have "objective P ! j = fin_part (pb_objective_coefficients Q ! j)" if "j < n" for j
    using that wf by (simp add: F(6) nth_append n_def)
  ultimately have "sol_z S ! j = Fin (objective P ! j - (\<Sum>i<m. csc_dense (lp_A P) i j * pdlp_dual sol ! i))"
    if "\<forall>j<n. pdlp_reduced_cost sol ! j = fin_part (pb_objective_coefficients Q ! j) -
        (\<Sum>i<m. lane_sum (csr_row (host_csr Q) i) j * pdlp_dual sol ! i)" "j < n" for j
    using z that by simp
  then have dual: "(\<forall>j<n. pdlp_reduced_cost sol ! j = fin_part (pb_objective_coefficients Q ! j) -
        (\<Sum>i<m. lane_sum (csr_row (host_csr Q) i) j * pdlp_dual sol ! i)) \<longrightarrow>
      (\<forall>j<n + m. sol_z S ! j = Fin (objective P ! j - (\<Sum>i<m. csc_dense (lp_A P) i j * pdlp_dual sol ! i)))"
    unfolding all_less_sum using slack zs by simp
  have "pb_constraint_lower_bounds Q ! i \<le> pb_constraint_upper_bounds Q ! i" if "i < m" for i using wf that m_def by blast
  then show ?thesis using x xs dual by (simp add: project_slack_bounds)
qed

text \<open>The point \<open>(1, 2)\<close> with dual \<open>(1, 0, 0, 0)\<close> for the example problem.\<close>

definition ex_pdlp :: "rat pdlp_solution" where
  "ex_pdlp = \<lparr>pdlp_primal = [1, 2], pdlp_dual = [1, 0, 0, 0], pdlp_reduced_cost = [0, -1]\<rparr>"

lemma ex_crossover:
  "\<exists>P S. translate_to_crossover_problem ex_problem ex_pdlp (lp_problem_new 1 1 1 1) (lp_solution_new 1 1) = Some (P, S) \<and>
    lp_feasible P [1, 2, 3, 2, 6, 4] \<and> sol_x S = map Fin [1, 2, 3, 2, 6, 4]"
proof -
  have "case translate_to_crossover_problem ex_problem ex_pdlp (lp_problem_new 1 1 1 1) (lp_solution_new 1 1) of
      None \<Rightarrow> False | Some (P, S) \<Rightarrow> lp_feasible P [1, 2, 3, 2, 6, 4] \<and> sol_x S = map Fin [1, 2, 3, 2, 6, 4]" by code_simp
  then show ?thesis by (auto split: option.splits)
qed

theorem crossover_problem_equivalent_witness:
  "\<exists>P S. translate_to_crossover_problem ex_problem ex_pdlp (lp_problem_new 1 1 1 1) (lp_solution_new 1 1) = Some (P, S) \<and>
    lp_wf P \<and> problem_feasible ex_problem [1, 2]"
proof -
  from ex_crossover obtain P S where P: "translate_to_crossover_problem ex_problem ex_pdlp (lp_problem_new 1 1 1 1) (lp_solution_new 1 1) = Some (P, S)"
    "lp_feasible P [1, 2, 3, 2, 6, 4]" by blast
  have "is_fin (pb_objective_offset ex_problem)" "pb_n_variables ex_problem = 2" by (simp_all add: ex_problem_def)
  then show ?thesis using crossover_problem_equivalent [OF ex_problem_wf _ P(1)] P by auto
qed

theorem crossover_start_point_witness:
  "\<exists>P S. translate_to_crossover_problem ex_problem ex_pdlp (lp_problem_new 1 1 1 1) (lp_solution_new 1 1) = Some (P, S) \<and>
    sol_x S ! 3 = Fin (problem_activity ex_problem [1, 2] 1)"
proof -
  from ex_crossover obtain P S where P: "translate_to_crossover_problem ex_problem ex_pdlp (lp_problem_new 1 1 1 1) (lp_solution_new 1 1) = Some (P, S)" by blast
  have l: "length (pdlp_primal ex_pdlp) = pb_n_variables ex_problem" "length (pdlp_dual ex_pdlp) = pb_n_constraints ex_problem"
    "length (pdlp_reduced_cost ex_pdlp) = pb_n_variables ex_problem" by (simp_all add: ex_pdlp_def ex_problem_def)
  have "in_bounds (pb_constraint_lower_bounds ex_problem ! 1) (problem_activity ex_problem [1, 2] 1) (pb_constraint_upper_bounds ex_problem ! 1)"
    "pdlp_primal ex_pdlp = [1, 2]" "pb_n_variables ex_problem = 2" "1 < pb_n_constraints ex_problem" by code_simp+
  then show ?thesis
    using crossover_start_point [OF ex_problem_wf P l, THEN conjunct2, THEN conjunct1, THEN spec, of 1] P by (simp del: One_nat_def)
qed

end
