(* ===== verification/Spec2Isabelle.thy ===== *)
theory Spec2Isabelle
  imports Sparse_Convert Sparse_Assemble Sparse_Product Vector_Math Sparse_Triangle Presolve Mps_Entries Bb_Properties Bb_Root Concurrent Crossover_Problem
begin

text \<open>
  A verification library for the CPU side of NVIDIA cuOpt: the MPS reader, the construction and
  validation of optimization problems, the dual simplex driver, branch and bound, and the sparse
  linear algebra below them. Paths are relative to \<open>src/cpp\<close>.

  \<^bold>\<open>How the program works.\<close> A linear or mixed-integer program is read from an MPS file
  (\<open>libmps_parser\<close>) into a data model. The entry points (\<open>src/linear_programming/solve.cu\<close>) turn it into an
  \<open>optimization_problem_t\<close>, validate it, and build the internal problem \<open>problem_t\<close>, in which every
  bound is present and a maximisation has become a minimisation. A linear program goes to PDLP, to the
  dual simplex solver, or to both in two threads that share a flag. For the dual simplex the problem is
  translated to rows with senses and ranges, converted to equalities with slacks and bounds from 0,
  presolved, scaled, and solved in two phases; each stage carries the solution back. The dual simplex
  also solves the relaxations of branch and bound, which keeps a tree of nodes, pseudo costs and an
  incumbent, and takes solutions that the heuristics inject from other threads.

  \<^bold>\<open>Theories and sources.\<close>

    \<^item> \<open>Prelude\<close>: the loops \<open>for\<close> as folds with their invariant rules, list and sum lemmas.
      \<open>Ext_Float\<close>: numbers with infinities and NaN, as instances of the arithmetic classes.
    \<^item> \<open>Counting_Sort\<close>, \<open>Sparse_Matrix\<close>, \<open>Sparse_Convert\<close>, \<open>Sparse_Assemble\<close>, \<open>Sparse_Product\<close>:
      \<open>src/dual_simplex/sparse_matrix.cpp\<close>. Conversions are counting sorts that keep the entries of a
      matrix; removals, appends, permutations, products and sums are stated on its entries.
    \<^item> \<open>Vector_Math\<close>: \<open>vector_math.cpp\<close> and the matrix-vector products, a matrix and its transpose
      being adjoint. \<open>Triangle_Solve\<close>, \<open>Sparse_Triangle\<close>: \<open>triangle_solve.cpp\<close>, the sparse solve with its
      depth-first search over column starts that are marked in place.
    \<^item> \<open>Lp_Problem\<close>, \<open>Lp_Convert\<close>, \<open>Lp_Crush\<close>: the problem formats, the conversion of a user problem and
      the maps of solutions in both directions (\<open>presolve.cpp\<close>). \<open>Presolve\<close>: empty rows and columns.
      \<open>Lp_Scaling\<close>: \<open>scaling.cpp\<close>. \<open>Lp_Phase1\<close>: \<open>phase1.cpp\<close>. \<open>Lp_Solve\<close>: the driver
      (\<open>solve.cpp\<close>). \<open>Lp_Reduction\<close>: the contract of these stages.
    \<^item> \<open>Mps_Strings\<close>, \<open>Mps_Model\<close>, \<open>Mps_Parser\<close>: the parts of \<open>std::string\<close> that the reader uses, the data
      model, and every section of the format (\<open>mps_parser.cpp\<close>). \<open>Decimal\<close>: integers as text. \<open>Mps_Invariant\<close>, \<open>Mps_File\<close>, \<open>Mps_Result\<close>,
      \<open>Mps_Lift\<close>, \<open>Mps_Entries\<close>, \<open>Mps_Properties\<close>: the reader's invariant, what a whole file yields, the
      round trip of the COLUMNS section, and the properties.
    \<^item> \<open>Mip_Node\<close>, \<open>Bb_Tree\<close>, \<open>Bb_Path\<close>: \<open>mip_node.hpp\<close>, nodes in a store of pointers, status
      propagation, freeing, and the bounds of a path. \<open>Pseudo_Costs\<close>, \<open>Pc_Facts\<close>: \<open>pseudo_costs.cpp\<close>.
      \<open>Branch_Bound\<close>: the operations of \<open>branch_and_bound.cpp\<close>; \<open>Bb_Search\<close> composes them into the step
      relation \<open>bb_step\<close>; \<open>Bb_Invariant\<close>, \<open>Bb_Phases\<close>, \<open>Bb_Example\<close>: its invariant, its
      preservation, and a run; \<open>Bb_Access\<close>: the vector entries its steps read and the sizes of the points it
      stores; \<open>Bb_Properties\<close>: the properties; \<open>Bb_Root\<close>: a root relaxation that the driver leaves undecided.
    \<^item> \<open>Opt_Problem\<close>: \<open>optimization_problem.cu\<close>. \<open>Problem_Check\<close>: \<open>problem_checking.cu\<close>.
      \<open>Host_Problem\<close>, \<open>Host_Properties\<close>: the host state of \<open>mip/problem/problem.cu\<close>. \<open>Translate\<close>,
      \<open>Crossover_Problem\<close>: the two functions of \<open>translate.hpp\<close>. \<open>Solve_Lp\<close>, \<open>Concurrent\<close>: \<open>solve_lp\<close>,
      the dual simplex run and the concurrent run of \<open>solve.cu\<close>.

  \<^bold>\<open>What the lemmas show.\<close> The layers meet in \<open>parsed_file_solved\<close>: whatever file the reader
  accepts, if the dual simplex path returns, then an optimal answer comes with a point that is best in
  the file's sense for its relaxation, and for the file itself when it declares no integer column; an infeasible
  one means that the file has no feasible point, and a dual infeasible one, without integer columns, that it is
  unbounded or has none. Below it stand, for
  each stage, an invariant or well-formedness lemma, the functional behaviour on every branch, and the
  equivalence of the problem before and after. For branch and bound the invariant of the search gives
  the meaning of an optimal and of an infeasible answer when the root relaxation was decided, safety of every
  access to a node or a vector, progress, and the behaviours in which an answer is wrong (an injected
  solution that is lost, a time limit that is reported as infeasible, an undecided root that is reported as
  optimal). For the concurrent run the answer is determined by the two threads' results whatever
  their interleaving and whichever is first, with the case in which the optimum of the dual simplex is
  returned without its point.

  \<^bold>\<open>Interfaces.\<close> \<open>lane_conversion\<close> and \<open>lane_roundtrip\<close> (format conversions), \<open>matrix_action\<close> and
  \<open>adjoint_actions\<close> (matrix-vector products), \<open>adjoint_solvers\<close> (triangular solves), \<open>name_table\<close> (insertion
  of names), \<open>line_invariant\<close> (invariants lifted from entries to files), \<open>search_invariant\<close> (invariants
  lifted from steps to runs), and \<open>lp_reduction\<close> (a stage that turns a problem into another one and carries
  solutions back; \<open>lp_reduction_chain\<close> composes two). Each is interpreted on the code's definitions:
  \<open>lp_reduction\<close> by the conversion, presolve, scaling and the start of crossover.

  \<^bold>\<open>Modelling decisions.\<close> Floating-point values are elements of a linearly ordered field, extended
  with infinities and NaN where the code tests them; rounding is not modelled and tolerances are
  parameters or the constants of the code. Indices are natural numbers where the code indexes and integers where it
  computes with \<open>-1\<close>; sizes are assumed to fit their types. The model is that of a build without assertions;
  the assertions on the internal problem are predicates (\<open>representation_asserted\<close>,
  \<open>empty_matrix_asserted\<close>) whose truth is proved. Exceptions are values of an error type;
  undefined behaviour of the reader (an index out of range) is an error value of its own, and that of branch
  and bound is \<open>None\<close> or a predicate of \<open>Bb_Access\<close>, so that its absence is a theorem. Nothing is cut off by fuel: loops are folds or structurally recursive, and the walks over
  pointers and the depth-first search are \<open>partial_function (option)\<close>, proved to return. Threads are step
  relations in which the steps of a thread interleave with those of the others.

  \<^bold>\<open>Parameters.\<close> The simplex iterations (\<open>phase2_sound\<close>: the status they return is right for the problem
  they are given) and the relaxation solver of branch and bound (\<open>solver_sound\<close>) are arguments of the
  model. \<open>solver_sound\<close> promises nothing of a solution whose status is a limit or a numerical
  failure; where the search needs more of the root, \<open>root_decided\<close> is a hypothesis of its own. PDLP and crossover are arguments of the concurrent run, without any hypothesis on their answers.

  \<^bold>\<open>Not modelled.\<close> The data model view (borrowed spans with the same setters as the data model); the basis
  factorisation, its updates and \<open>find_dependent_rows\<close>; the iterations of the primal and dual simplex and
  of crossover, which are numerical loops whose results depend on rounding, on the clock and on random
  perturbation; PDLP, the MIP heuristics and the routing solver, whose code is GPU kernels over CUDA,
  thrust, raft and cuSPARSE primitives that are not part of the repository; the C interface, solver
  settings and solution files; logging, callbacks and file input.
\<close>

section \<open>Properties that span components\<close>

text \<open>The sense character that the dual simplex uses for a row type of the MPS reader.\<close>

fun row_sense_of :: "row_type \<Rightarrow> char" where
  "row_sense_of LesserThanOrEqual = CHR ''L''"
| "row_sense_of GreaterThanOrEqual = CHR ''G''"
| "row_sense_of Equality = CHR ''E''"
| "row_sense_of Objective = CHR ''N''"
| "row_sense_of (Other_Row c) = c"

text \<open>The interval that the MPS reader gives to a constraint with a finite right-hand side and a range
  value is the interval that the dual simplex solver gives to a range row of the same sense: the
  two components agree on the meaning of RANGES, the sign of the value included.\<close>

theorem reader_ranges_agree:
  fixes b r :: "'f :: linordered_field"
  assumes "t \<in> {LesserThanOrEqual, GreaterThanOrEqual, Equality}"
  shows "row_interval t (Fin b) (Some (Fin r)) =
    (case range_interval (row_sense_of t) b r of (l, u) \<Rightarrow> Inr (Fin l, Fin u))"
  using assms by (auto simp: row_interval_def range_interval_def minus_ext_def expects_def zero_ext_def)

theorem reader_ranges_agree_witness: "row_interval Equality (Fin 4) (Some (Fin (-1))) = Inr (Fin 3, Fin (4 :: rat))"
  using reader_ranges_agree [of Equality "4 :: rat" "-1"] by (simp add: range_interval_def)

end
